(* ===== verification/Prelude.thy ===== *)
theory Prelude
  imports Main "HOL-Library.Word" "HOL-Library.AList"
begin

unbundle bit_operations_syntax

text \<open>
  Shared vocabulary of the development: the fixed-width integers and byte strings of the Go
  sources, the standard-library operations they use (\<open>time\<close>, \<open>encoding/binary\<close>, \<open>io\<close>), Go maps
  as association lists, and the generic lemmas the component theories rest on.
\<close>

section \<open>Machine integers and byte strings\<close>

type_synonym byte = "8 word"
type_synonym bytes = "byte list"
type_synonym u8 = "8 word"
type_synonym u16 = "16 word"
type_synonym u32 = "32 word"
type_synonym u64 = "64 word"

text \<open>Collections used with \<open>simp add:\<close> and \<open>auto simp:\<close> by the component proofs.\<close>

named_theorems codec_simps \<open>slicing and length facts of wire layouts\<close>
named_theorems go_simps \<open>unfolding rules of the Go standard-library operations\<close>
named_theorems amap_simps \<open>facts about Go maps as association lists\<close>

text \<open>\<open>encoding/binary.BigEndian\<close>: \<open>PutUintN\<close> writes the \<open>n\<close> bytes most significant first,
  \<open>UintN\<close> reads them back.\<close>

definition be_bytes :: "nat \<Rightarrow> 'a::len word \<Rightarrow> bytes" where
  "be_bytes n w = map (\<lambda>i. ucast (drop_bit (8 * i) w)) (rev [0..<n])"

definition be_word :: "bytes \<Rightarrow> 'a::len word" where
  "be_word bs = foldl (\<lambda>acc b. push_bit 8 acc OR ucast b) 0 bs"

definition put_u16 :: "u16 \<Rightarrow> bytes" where "put_u16 = be_bytes 2"
definition put_u32 :: "u32 \<Rightarrow> bytes" where "put_u32 = be_bytes 4"
definition put_u64 :: "u64 \<Rightarrow> bytes" where "put_u64 = be_bytes 8"
definition get_u16 :: "bytes \<Rightarrow> u16" where "get_u16 = be_word"
definition get_u32 :: "bytes \<Rightarrow> u32" where "get_u32 = be_word"
definition get_u64 :: "bytes \<Rightarrow> u64" where "get_u64 = be_word"

text \<open>\<open>b[i:j]\<close> of a Go slice within its length, and the bytes of a string literal.\<close>

definition slice_of :: "nat \<Rightarrow> nat \<Rightarrow> 'a list \<Rightarrow> 'a list" where
  "slice_of i j xs = take (j - i) (drop i xs)"

definition str_bytes :: "string \<Rightarrow> bytes" where
  "str_bytes s = map (\<lambda>c. of_nat (of_char c)) s"

section \<open>Instants and durations\<close>

text \<open>
  A \<open>time.Time\<close> is the number of nanoseconds since Go's zero time (1 January of year 1), so the
  zero value is \<open>0\<close> and \<open>IsZero\<close>, \<open>Before\<close>, \<open>After\<close>, \<open>Equal\<close> are the order of \<open>int\<close>. A
  \<open>time.Duration\<close> is an \<open>int64\<close> of nanoseconds; \<open>Sub\<close> saturates at its bounds.
\<close>

type_synonym gotime = int
type_synonym duration = int

definition maxDuration :: duration where "maxDuration = 2 ^ 63 - 1"
definition minDuration :: duration where "minDuration = - (2 ^ 63)"

definition Sub :: "gotime \<Rightarrow> gotime \<Rightarrow> duration" where
  "Sub t u = max minDuration (min maxDuration (t - u))"

abbreviation IsZero :: "gotime \<Rightarrow> bool" where "IsZero t \<equiv> t = 0"

definition Millisecond :: duration where "Millisecond = 1000000"
definition Second :: duration where "Second = 1000000000"
definition Minute :: duration where "Minute = 60 * Second"

text \<open>\<open>UnixNano\<close> counts from the Unix epoch in an \<open>int64\<close>, which wraps.\<close>

definition unixToInternal :: int where "unixToInternal = 62135596800"

definition UnixNano :: "gotime \<Rightarrow> u64" where
  "UnixNano t = of_int (t - unixToInternal * Second)"

section \<open>Readers\<close>

text \<open>
  An \<open>io.Reader\<close> is the bytes it still delivers and the error it reports once they are used up.
  \<open>io.ReadFull\<close> reads exactly \<open>n\<close> bytes: it returns the reader's error when nothing could be
  read, and \<open>io.ErrUnexpectedEOF\<close> when the input ends (\<open>io.EOF\<close>) in the middle.
\<close>

datatype io_error = EOF | ErrUnexpectedEOF | ErrShortBuffer | ErrShortWrite | CarrierError nat

record reader =
  avail :: bytes
  atEnd :: io_error

definition ReadFull :: "nat \<Rightarrow> reader \<Rightarrow> io_error + bytes \<times> reader" where
  "ReadFull n r =
     (if n \<le> length (avail r) then Inr (take n (avail r), r\<lparr>avail := drop n (avail r)\<rparr>)
      else if avail r \<noteq> [] \<and> atEnd r = EOF then Inl ErrUnexpectedEOF
      else Inl (atEnd r))"

section \<open>Writers\<close>

text \<open>
  An \<open>io.Writer\<close> is what it has accepted so far and a script of how its next \<open>Write\<close> calls end:
  how many bytes each accepts at most, and its error. A \<open>Write\<close> accepts a prefix of the buffer and
  never more than the buffer; when the script is used up every \<open>Write\<close> succeeds in full.
\<close>

record writer =
  written :: bytes
  script :: "(nat \<times> io_error option) list"

definition Write :: "bytes \<Rightarrow> writer \<Rightarrow> nat \<times> io_error option \<times> writer" where
  "Write p w =
     (case script w of
        [] \<Rightarrow> (length p, None, w\<lparr>written := written w @ p\<rparr>)
      | (n, err) # rest \<Rightarrow>
          (min n (length p), err, w\<lparr>written := written w @ take n p, script := rest\<rparr>))"

text \<open>The full-write loop shared by \<open>writeAll\<close> (\<open>core/stream_engine.go\<close>) and \<open>writeProtocolFull\<close>
  (\<open>core/stream_path_protocol.go\<close>): repeat \<open>Write\<close> until the buffer is used up; the two functions
  differ in the error for a write that accepts nothing.\<close>

function writeLoop :: "io_error \<Rightarrow> writer \<Rightarrow> bytes \<Rightarrow> io_error option \<times> writer" where
  "writeLoop short w buffer =
     (if length buffer > 0 then
        (case Write buffer w of (n, err, w') \<Rightarrow>
           (case err of
              Some e \<Rightarrow> (Some e, w')
            | None \<Rightarrow> if n \<le> 0 then (Some short, w') else writeLoop short w' (drop n buffer)))
      else (None, w))"
  by pat_completeness auto
termination
  by (relation "measure (\<lambda>(short, w, buffer). length buffer)") auto

declare writeLoop.simps [simp del]

definition writeAll :: "writer \<Rightarrow> bytes \<Rightarrow> io_error option \<times> writer" where
  "writeAll w buffer = writeLoop ErrUnexpectedEOF w buffer"

definition writeProtocolFull :: "writer \<Rightarrow> bytes \<Rightarrow> io_error option \<times> writer" where
  "writeProtocolFull w buffer = writeLoop ErrShortWrite w buffer"

section \<open>Go maps\<close>

text \<open>
  A Go map is an association list with distinct keys; the order of the list is the order in which
  a \<open>range\<close> loop visits it, which Go leaves unspecified.
\<close>

type_synonym ('k, 'v) gomap = "('k \<times> 'v) list"

abbreviation mget :: "('k, 'v) gomap \<Rightarrow> 'k \<Rightarrow> 'v option" where "mget m k \<equiv> map_of m k"
abbreviation mput :: "'k \<Rightarrow> 'v \<Rightarrow> ('k, 'v) gomap \<Rightarrow> ('k, 'v) gomap" where "mput \<equiv> AList.update"
abbreviation mdel :: "'k \<Rightarrow> ('k, 'v) gomap \<Rightarrow> ('k, 'v) gomap" where "mdel \<equiv> AList.delete"

definition mwf :: "('k, 'v) gomap \<Rightarrow> bool" where "mwf m \<longleftrightarrow> distinct (map fst m)"

definition msum :: "('k \<Rightarrow> 'v \<Rightarrow> 'a::comm_monoid_add) \<Rightarrow> ('k, 'v) gomap \<Rightarrow> 'a" where
  "msum f m = sum_list (map (\<lambda>(k, v). f k v) m)"

section \<open>Lemmas on big-endian encodings\<close>

lemma length_be_bytes [simp, codec_simps]: "length (be_bytes n w) = n"
  by (simp add: be_bytes_def)

lemma be_bytes_nth: "i < n \<Longrightarrow> be_bytes n w ! i = ucast (drop_bit (8 * (n - Suc i)) w)"
  by (simp add: be_bytes_def rev_nth)

lemma be_word_snoc: "be_word (bs @ [b]) = push_bit 8 (be_word bs) OR ucast b"
  by (simp add: be_word_def)

lemma be_word_Nil [simp]: "be_word [] = 0"
  by (simp add: be_word_def)

lemma bit_be_word:
  "bit (be_word bs :: 'a::len word) i \<longleftrightarrow>
     i < LENGTH('a) \<and> i div 8 < length bs \<and> bit (rev bs ! (i div 8)) (i mod 8)"
proof (induction bs arbitrary: i rule: rev_induct)
  case Nil
  then show ?case by simp
next
  case (snoc b bs)
  show ?case
  proof (cases "i < 8")
    case True
    then show ?thesis
      by (auto simp: be_word_snoc bit_or_iff bit_push_bit_iff bit_ucast_iff)
  next
    case False
    then have div: "i div 8 = Suc ((i - 8) div 8)" and mod: "i mod 8 = (i - 8) mod 8"
      by (auto simp: div_if mod_if)
    have "\<not> bit (ucast b :: 'a word) i"
      using False by (auto simp: bit_ucast_iff dest: bit_imp_le_length)
    then show ?thesis
      using False snoc.IH [of "i - 8"]
      by (auto simp: be_word_snoc bit_or_iff bit_push_bit_iff div mod)
  qed
qed

lemma be_word_be_bytes:
  assumes "LENGTH('a::len) \<le> 8 * n"
  shows "be_word (be_bytes n (w :: 'a word)) = w"
proof (rule bit_word_eqI)
  fix i assume i: "i < LENGTH('a)"
  with assms have "i div 8 < n" by linarith
  moreover have "rev (be_bytes n w) ! (i div 8) = ucast (drop_bit (8 * (i div 8)) w)"
    using \<open>i div 8 < n\<close> by (simp add: be_bytes_def rev_map)
  ultimately show "bit (be_word (be_bytes n w) :: 'a word) i = bit w i"
    using i by (simp add: bit_be_word bit_ucast_iff bit_drop_bit_eq)
qed

lemma be_bytes_be_word:
  assumes "8 * length bs \<le> LENGTH('a::len)"
  shows "be_bytes (length bs) (be_word bs :: 'a word) = bs"
proof (rule nth_equalityI)
  show "length (be_bytes (length bs) (be_word bs :: 'a word)) = length bs" by simp
next
  fix i assume "i < length (be_bytes (length bs) (be_word bs :: 'a word))"
  then have i: "i < length bs" by simp
  show "be_bytes (length bs) (be_word bs :: 'a word) ! i = bs ! i"
  proof (rule bit_word_eqI)
    fix j assume j: "j < LENGTH(8)"
    let ?k = "8 * (length bs - Suc i) + j"
    have "?k < LENGTH('a)" using assms i j by simp
    moreover have "?k div 8 = length bs - Suc i" "?k mod 8 = j" using j by auto
    moreover have "rev bs ! (length bs - Suc i) = bs ! i" using i by (simp add: rev_nth)
    ultimately show "bit (be_bytes (length bs) (be_word bs :: 'a word) ! i) j = bit (bs ! i) j"
      using i j by (auto simp: be_bytes_nth bit_ucast_iff bit_drop_bit_eq bit_be_word)
  qed
qed

lemma put_get_simps [simp, codec_simps]:
  "length (put_u16 x) = 2" "length (put_u32 y) = 4" "length (put_u64 z) = 8"
  "get_u16 (put_u16 x) = x" "get_u32 (put_u32 y) = y" "get_u64 (put_u64 z) = z"
  by (simp_all add: put_u16_def put_u32_def put_u64_def get_u16_def get_u32_def get_u64_def
      be_word_be_bytes)

lemma get_put_u16 [codec_simps]: "length bs = 2 \<Longrightarrow> put_u16 (get_u16 bs) = bs"
  using be_bytes_be_word [of bs, where 'a = 16] by (simp add: put_u16_def get_u16_def)

lemma get_put_u32 [codec_simps]: "length bs = 4 \<Longrightarrow> put_u32 (get_u32 bs) = bs"
  using be_bytes_be_word [of bs, where 'a = 32] by (simp add: put_u32_def get_u32_def)

lemma get_put_u64 [codec_simps]: "length bs = 8 \<Longrightarrow> put_u64 (get_u64 bs) = bs"
  using be_bytes_be_word [of bs, where 'a = 64] by (simp add: put_u64_def get_u64_def)

lemma length_slice_of [simp, codec_simps]: "length (slice_of i j xs) = min (j - i) (length xs - i)"
  by (simp add: slice_of_def)

lemma length_str_bytes [simp, codec_simps]: "length (str_bytes s) = length s"
  by (simp add: str_bytes_def)

text \<open>Reading a field of a concatenation: skip whole leading fields, then take the field.\<close>

lemma slice_of_skip [codec_simps]:
  "length xs \<le> i \<Longrightarrow> slice_of i j (xs @ ys) = slice_of (i - length xs) (j - length xs) ys"
  by (auto simp: slice_of_def)

lemma slice_of_first [codec_simps]: "length xs = j \<Longrightarrow> slice_of 0 j (xs @ ys) = xs"
  by (simp add: slice_of_def)

lemma slice_of_whole [codec_simps]: "length xs = j \<Longrightarrow> slice_of 0 j xs = xs"
  by (simp add: slice_of_def)

lemma slice_of_Cons [codec_simps]:
  "0 < i \<Longrightarrow> slice_of i j (x # xs) = slice_of (i - 1) (j - 1) xs"
  by (cases i) (auto simp: slice_of_def)

lemma nth_append_skip [codec_simps]: "length xs \<le> i \<Longrightarrow> (xs @ ys) ! i = ys ! (i - length xs)"
  by (simp add: nth_append)

lemma slice_of_append_slices:
  "i \<le> j \<Longrightarrow> j \<le> k \<Longrightarrow> slice_of i j xs @ slice_of j k xs = slice_of i k xs"
  using take_add [of "j - i" "k - j" "drop i xs"] by (simp add: slice_of_def add.commute)

lemma slice_of_append_slices_left:
  "i \<le> j \<Longrightarrow> j \<le> k \<Longrightarrow> slice_of i j xs @ slice_of j k xs @ ys = slice_of i k xs @ ys"
  using slice_of_append_slices [of i j k xs] by (metis append_assoc)

lemma slice_of_nth: "i < length xs \<Longrightarrow> [xs ! i] = slice_of i (i + 1) xs"
  by (simp add: slice_of_def take_Suc_conv_app_nth hd_drop_conv_nth take_Suc)

lemma slice_of_0_length: "slice_of 0 (length xs) xs = xs"
  by (simp add: slice_of_def)

lemma nth_eq_slice_of: "i < length xs \<Longrightarrow> xs ! i # ys = slice_of i (i + 1) xs @ ys"
  using slice_of_nth [of i xs] by (metis append_Cons append_Nil)

text \<open>Reassembling a wire image from the fields it was cut into.\<close>

lemmas reassemble = slice_of_append_slices slice_of_append_slices_left nth_eq_slice_of slice_of_whole

section \<open>Lemmas on \<open>uint64\<close> counters\<close>

lemma unat_add_1: "unat (a :: u64) + 1 < 2 ^ 64 \<Longrightarrow> unat (a + 1) = Suc (unat a)"
  by (simp add: unat_word_ariths)

lemma unat_add_1_less: "(a :: u64) < b \<Longrightarrow> unat (a + 1) = Suc (unat a)"
proof -
  assume "a < b"
  then have "unat a < unat b" by (simp add: word_less_nat_alt)
  moreover have "unat b < 2 ^ 64" using unsigned_less [of b, where ?'a = nat] by simp
  ultimately show ?thesis by (intro unat_add_1) linarith
qed

lemma word_Suc_le_iff: "(a :: u64) < b \<Longrightarrow> a + 1 \<le> k \<longleftrightarrow> a < k"
  using unat_add_1_less [of a b] by (auto simp: word_less_nat_alt word_le_nat_alt)

lemma word_Suc_le: "(a :: u64) < b \<Longrightarrow> a + 1 \<le> b"
  using word_Suc_le_iff by blast

section \<open>Lemmas on readers\<close>

lemma ReadFull_enough [simp]:
  "n \<le> length (avail r) \<Longrightarrow> ReadFull n r = Inr (take n (avail r), r\<lparr>avail := drop n (avail r)\<rparr>)"
  by (simp add: ReadFull_def)

lemma ReadFull_Inr_iff:
  "ReadFull n r = Inr (bs, r') \<longleftrightarrow>
     n \<le> length (avail r) \<and> bs = take n (avail r) \<and> r' = r\<lparr>avail := drop n (avail r)\<rparr>"
  by (auto simp: ReadFull_def)

lemma ReadFull_InrD:
  "ReadFull n r = Inr (bs, r') \<Longrightarrow> avail r = bs @ avail r' \<and> length bs = n \<and> atEnd r' = atEnd r"
  by (auto simp: ReadFull_Inr_iff)

lemma ReadFull_append:
  "length xs = n \<Longrightarrow> ReadFull n \<lparr>avail = xs @ ys, atEnd = e\<rparr> = Inr (xs, \<lparr>avail = ys, atEnd = e\<rparr>)"
  by (simp add: ReadFull_def)

section \<open>Lemmas on writers\<close>

lemma Write_accepts:
  "Write p w = (n, err, w') \<Longrightarrow> n \<le> length p \<and> written w' = written w @ take n p"
  by (auto simp: Write_def min_def split: list.splits)

lemma Write_silent [simp]: "script w = [] \<Longrightarrow> Write p w = (length p, None, w\<lparr>written := written w @ p\<rparr>)"
  by (simp add: Write_def)

text \<open>A successful full write hands over the whole buffer; a failed one a prefix of it.\<close>

lemma writeLoop_written:
  "writeLoop short w buffer = (err, w') \<Longrightarrow>
     \<exists>k \<le> length buffer. written w' = written w @ take k buffer \<and> (err = None \<longrightarrow> k = length buffer)"
proof (induction short w buffer arbitrary: w' rule: writeLoop.induct)
  case (1 short w buffer)
  obtain n e w1 where W: "Write buffer w = (n, e, w1)" by (metis prod_cases3)
  from Write_accepts [OF W] have n: "n \<le> length buffer"
    and out: "written w1 = written w @ take n buffer" by auto
  show ?case
  proof (cases "buffer \<noteq> [] \<and> e = None \<and> 0 < n")
    case True
    then have "writeLoop short w buffer = writeLoop short w1 (drop n buffer)"
      using W by (simp add: writeLoop.simps [of short w buffer])
    moreover from True have "0 < length buffer" "e = None" "\<not> n \<le> 0" by auto
    ultimately obtain k where k: "k \<le> length (drop n buffer)"
        "written w' = written w1 @ take k (drop n buffer)" "err = None \<longrightarrow> k = length (drop n buffer)"
      using 1(1) [OF _ W [symmetric] refl] 1(2) by (metis (no_types, lifting))
    have "take n buffer @ take k (drop n buffer) = take (n + k) buffer" by (simp add: take_add)
    with k out n show ?thesis by (intro exI [of _ "n + k"]) auto
  next
    case False
    then have "buffer = [] \<and> err = None \<and> w' = w \<or> err \<noteq> None \<and> w' = w1"
      using 1(2) W by (auto simp: writeLoop.simps [of short w buffer] split: if_splits option.splits)
    with n out show ?thesis by auto
  qed
qed

lemmas writeAll_written = writeLoop_written [where short = ErrUnexpectedEOF, folded writeAll_def]
lemmas writeProtocolFull_written = writeLoop_written [where short = ErrShortWrite, folded writeProtocolFull_def]

lemma writeLoop_silent: "script w = [] \<Longrightarrow> writeLoop short w buffer = (None, w\<lparr>written := written w @ buffer\<rparr>)"
  by (cases "buffer = []") (simp_all add: writeLoop.simps)

lemma writeAll_silent: "script w = [] \<Longrightarrow> writeAll w buffer = (None, w\<lparr>written := written w @ buffer\<rparr>)"
  by (simp add: writeAll_def writeLoop_silent)

section \<open>Lemmas on Go maps\<close>

lemmas amap_lookup [simp, amap_simps] = AList.update_conv' AList.delete_conv'

lemma mwf_update [simp, amap_simps]: "mwf m \<Longrightarrow> mwf (mput k v m)"
  by (simp add: mwf_def AList.distinct_update)

lemma mwf_delete [simp, amap_simps]: "mwf m \<Longrightarrow> mwf (mdel k m)"
  by (simp add: mwf_def AList.distinct_delete)

lemma mwf_Nil [simp, amap_simps]: "mwf []"
  by (simp add: mwf_def)

lemma mwf_filter [simp, amap_simps]: "mwf m \<Longrightarrow> mwf (filter P m)"
  by (induction m) (auto simp: mwf_def)

lemma mget_in: "mget m k = Some v \<Longrightarrow> (k, v) \<in> set m"
  by (rule map_of_SomeD)

lemma in_mget: "mwf m \<Longrightarrow> (k, v) \<in> set m \<Longrightarrow> mget m k = Some v"
  by (simp add: mwf_def)

lemma msum_Nil [simp, amap_simps]: "msum f [] = 0"
  by (simp add: msum_def)

lemma msum_Cons [simp, amap_simps]: "msum f ((k, v) # m) = f k v + msum f m"
  by (simp add: msum_def)

lemma msum_update_new:
  "mget m k = None \<Longrightarrow> msum f (mput k v m) = f k v + msum f m"
  by (induction m) (auto simp: algebra_simps split: if_splits)

lemma mdel_absent: "mget m k = None \<Longrightarrow> mdel k m = m"
  by (simp add: map_of_eq_None_iff)

lemma msum_delete:
  "mwf m \<Longrightarrow> mget m k = Some v \<Longrightarrow> f k v + msum f (mdel k m) = msum f m"
proof (induction m)
  case Nil
  then show ?case by simp
next
  case (Cons p m)
  obtain k' v' where p: "p = (k', v')" by (cases p)
  show ?case
  proof (cases "k' = k")
    case True
    with Cons.prems p have "v' = v" "mget m k = None"
      by (auto simp: mwf_def map_of_eq_None_iff)
    with True p show ?thesis by (simp add: mdel_absent)
  next
    case False
    with Cons p show ?thesis
      by (auto simp: mwf_def add.left_commute [of "f k v"])
  qed
qed

lemma length_update_new: "mget m k = None \<Longrightarrow> length (mput k v m) = Suc (length m)"
  by (induction m) (auto split: if_splits)

lemma length_delete_present:
  "mwf m \<Longrightarrow> mget m k = Some v \<Longrightarrow> Suc (length (mdel k m)) = length m"
  using msum_delete [of m k v "\<lambda>_ _. 1 :: nat"] by (simp add: msum_def sum_list_triv case_prod_unfold)

lemma length_update_present: "mget m k = Some v \<Longrightarrow> length (mput k v' m) = length m"
  by (induction m) (auto split: if_splits)

lemma msum_cong:
  "(\<And>k v. (k, v) \<in> set m \<Longrightarrow> f k v = g k v) \<Longrightarrow> msum f m = msum g m"
  by (induction m) (auto simp: msum_def)

lemma msum_change:
  fixes f :: "'k \<Rightarrow> 'v \<Rightarrow> 'a::ab_group_add"
  assumes "mwf m" and "mget m k = Some v"
    and "\<And>k' v'. mget m k' = Some v' \<Longrightarrow> k' \<noteq> k \<Longrightarrow> f k' v' = g k' v'"
  shows "msum g m = msum f m - f k v + g k v"
proof -
  have "msum f (mdel k m) = msum g (mdel k m)"
  proof (rule msum_cong)
    fix k' v' assume "(k', v') \<in> set (mdel k m)"
    then have "mget (mdel k m) k' = Some v'" using assms(1) in_mget mwf_delete by metis
    then show "f k' v' = g k' v'" using assms(3) by (simp split: if_splits)
  qed
  moreover have "msum f m - f k v = msum f (mdel k m)"
    using msum_delete [OF assms(1,2), of f] by (metis add_diff_cancel_left')
  moreover have "msum g m = g k v + msum g (mdel k m)"
    using msum_delete [OF assms(1,2), of g] by simp
  ultimately show ?thesis by (simp add: add.commute)
qed

lemma msum_filter:
  "msum (\<lambda>_ a. if P (h a) then v (h a) else 0) m = sum_list (map v (filter P (map (\<lambda>(_, a). h a) m)))"
  by (induction m) (auto simp: msum_def)

lemma sum_list_of_nat: "sum_list (map (\<lambda>x. of_nat (f x) :: 'a::semiring_1) xs) = of_nat (sum_list (map f xs))"
  by (induction xs) auto

lemma map_nth_upt: "j \<le> length xs \<Longrightarrow> map ((!) xs) [i..<j] = take (j - i) (drop i xs)"
  by (rule nth_equalityI) auto

section \<open>Runs that keep an invariant\<close>

text \<open>The contract of every step relation of the development with an invariant: a run keeps it, and
  keeps whatever else each step keeps under it.\<close>

locale invariant_run =
  fixes inv :: "'s \<Rightarrow> bool" and step :: "'s \<Rightarrow> 's \<Rightarrow> bool"
  assumes step_inv: "inv s \<Longrightarrow> step s t \<Longrightarrow> inv t"
begin

lemma run_inv: "step\<^sup>*\<^sup>* s t \<Longrightarrow> inv s \<Longrightarrow> inv t"
  by (induction rule: rtranclp_induct) (auto intro: step_inv)

lemma run_stable:
  assumes "step\<^sup>*\<^sup>* s t" and "inv s" and "Q s"
    and "\<And>s t. inv s \<Longrightarrow> Q s \<Longrightarrow> step s t \<Longrightarrow> Q t"
  shows "Q t"
  using assms(1,3) by (induction rule: rtranclp_induct) (use assms(2,4) run_inv in blast)+

end

text \<open>The registry of carriers that both engines keep: an id names at most one registered carrier, a
  carrier that left the registry retires, and a carrier with running workers is one of the two.\<close>

locale carrier_registry = invariant_run inv step
  for inv :: "'s \<Rightarrow> bool" and step :: "'s \<Rightarrow> 's \<Rightarrow> bool" +
  fixes registered retiring :: "'s \<Rightarrow> 'i \<Rightarrow> nat option" and legId :: "'s \<Rightarrow> nat \<Rightarrow> 'i" and busy :: "'s \<Rightarrow> nat \<Rightarrow> bool"
  assumes registered_id: "inv s \<Longrightarrow> registered s i = Some a \<Longrightarrow> legId s a = i \<and> retiring s i = None"
    and busy_known: "inv s \<Longrightarrow> busy s a \<Longrightarrow> registered s (legId s a) = Some a \<or> retiring s (legId s a) = Some a"
begin

lemma one_carrier_per_id:
  assumes "step\<^sup>*\<^sup>* s0 s" and "inv s0" and "busy s a" and "busy s b" and "legId s a = legId s b"
  shows "a = b"
proof -
  have inv: "inv s" by (rule run_inv [OF assms(1,2)])
  have "registered s (legId s a) = Some a \<or> retiring s (legId s a) = Some a" by (rule busy_known [OF inv assms(3)])
  moreover have "registered s (legId s a) = Some b \<or> retiring s (legId s a) = Some b"
    using busy_known [OF inv assms(4)] assms(5) by simp
  moreover have "registered s (legId s a) = Some c \<Longrightarrow> retiring s (legId s a) = None" for c
    using registered_id [OF inv] by blast
  ultimately show ?thesis by auto
qed

end

end
