(* ===== verification/Sha256.thy ===== *)
theory Sha256
  imports Prelude
begin

unbundle bit_operations_syntax

text \<open>
  \<open>crypto/sha256\<close> and \<open>crypto/hmac\<close> of the Go standard library, as FIPS 180-4 and FIPS 198-1
  specify them. The protocol theories use \<^term>\<open>hmac_sha256\<close> through the contract \<open>mac_provider\<close>:
  a message authentication code of 32 bytes.
\<close>

text \<open>
  The standard fixes the round constants as the first 32 bits of the fractional parts of the cube
  roots of the first 64 primes, and the initial hash value as those of the square roots of the
  first eight; \<open>iroot k n b x\<close> extends \<open>x\<close> by its \<open>b\<close> low bits to the integer \<open>k\<close>-th root of \<open>n\<close>.
\<close>

fun iroot :: "nat \<Rightarrow> int \<Rightarrow> nat \<Rightarrow> int \<Rightarrow> int" where
  "iroot k n 0 x = x"
| "iroot k n (Suc b) x = iroot k n b (if (x + 2 ^ b) ^ k \<le> n then x + 2 ^ b else x)"

definition small_primes :: "int list" where
  "small_primes = filter (\<lambda>p. list_all (\<lambda>d. p mod d \<noteq> 0) [2..p - 1]) [2..311]"

definition K256 :: "u32 list" where
  "K256 = map (\<lambda>p. of_int (iroot 3 (p * 2 ^ 96) 36 0)) small_primes"

type_synonym sha_state = "u32 \<times> u32 \<times> u32 \<times> u32 \<times> u32 \<times> u32 \<times> u32 \<times> u32"

definition sqrt_frac :: "int \<Rightarrow> u32" where
  "sqrt_frac p = of_int (iroot 2 (p * 2 ^ 64) 36 0)"

definition H256 :: sha_state where
  "H256 = (sqrt_frac 2, sqrt_frac 3, sqrt_frac 5, sqrt_frac 7,
           sqrt_frac 11, sqrt_frac 13, sqrt_frac 17, sqrt_frac 19)"

definition rotr :: "nat \<Rightarrow> u32 \<Rightarrow> u32" where
  "rotr n x = drop_bit n x OR push_bit (32 - n) x"

definition ssig0 :: "u32 \<Rightarrow> u32" where "ssig0 x = rotr 7 x XOR rotr 18 x XOR drop_bit 3 x"
definition ssig1 :: "u32 \<Rightarrow> u32" where "ssig1 x = rotr 17 x XOR rotr 19 x XOR drop_bit 10 x"
definition bsig0 :: "u32 \<Rightarrow> u32" where "bsig0 x = rotr 2 x XOR rotr 13 x XOR rotr 22 x"
definition bsig1 :: "u32 \<Rightarrow> u32" where "bsig1 x = rotr 6 x XOR rotr 11 x XOR rotr 25 x"

text \<open>Message schedule: the last sixteen words, oldest first, produce the next one.\<close>

fun schedule :: "nat \<Rightarrow> u32 list \<Rightarrow> u32 list" where
  "schedule 0 w = w"
| "schedule (Suc n) w = (case w of [] \<Rightarrow> [] | w0 # ws \<Rightarrow>
     w0 # schedule n (ws @ [w0 + ssig0 (w ! 1) + w ! 9 + ssig1 (w ! 14)]))"

fun sha_round :: "sha_state \<Rightarrow> u32 \<times> u32 \<Rightarrow> sha_state" where
  "sha_round (a, b, c, d, e, f, g, h) (k, w) =
     (let t1 = h + bsig1 e + ((e AND f) XOR (NOT e AND g)) + k + w;
          t2 = bsig0 a + ((a AND b) XOR (a AND c) XOR (b AND c))
      in (t1 + t2, a, b, c, d + t1, e, f, g))"

fun sha_add :: "sha_state \<Rightarrow> sha_state \<Rightarrow> sha_state" where
  "sha_add (a, b, c, d, e, f, g, h) (a', b', c', d', e', f', g', h') =
     (a + a', b + b', c + c', d + d', e + e', f + f', g + g', h + h')"

fun be_words :: "bytes \<Rightarrow> u32 list" where
  "be_words (a # b # c # d # bs) = get_u32 [a, b, c, d] # be_words bs"
| "be_words _ = []"

definition sha_block :: "sha_state \<Rightarrow> bytes \<Rightarrow> sha_state" where
  "sha_block s blk = sha_add s (foldl sha_round s (zip K256 (schedule 48 (be_words blk))))"

function sha_blocks :: "sha_state \<Rightarrow> bytes \<Rightarrow> sha_state" where
  "sha_blocks s bs = (if bs = [] then s else sha_blocks (sha_block s (take 64 bs)) (drop 64 bs))"
  by pat_completeness auto
termination
  by (relation "measure (\<lambda>(s, bs). length bs)") auto

definition sha_pad :: "bytes \<Rightarrow> bytes" where
  "sha_pad m = m @ [0x80] @ replicate ((119 - length m mod 64) mod 64) 0 @ put_u64 (of_nat (8 * length m))"

fun sha_digest :: "sha_state \<Rightarrow> bytes" where
  "sha_digest (a, b, c, d, e, f, g, h) =
     put_u32 a @ put_u32 b @ put_u32 c @ put_u32 d @ put_u32 e @ put_u32 f @ put_u32 g @ put_u32 h"

definition sha256 :: "bytes \<Rightarrow> bytes" where
  "sha256 m = sha_digest (sha_blocks H256 (sha_pad m))"

definition sha256_Size :: nat where "sha256_Size = 32"

text \<open>\<open>hmac.New(sha256.New, key)\<close>, the writes of the message, and \<open>Sum(nil)\<close>.\<close>

definition hmac_key :: "bytes \<Rightarrow> bytes" where
  "hmac_key k = (let k' = (if length k > 64 then sha256 k else k) in k' @ replicate (64 - length k') 0)"

definition hmac_sha256 :: "bytes \<Rightarrow> bytes \<Rightarrow> bytes" where
  "hmac_sha256 key m =
     (let k = hmac_key key
      in sha256 (map (\<lambda>b. b XOR 0x5c) k @ sha256 (map (\<lambda>b. b XOR 0x36) k @ m)))"

declare sha_blocks.simps [simp del]

section \<open>The contract of a message authentication code\<close>

locale mac_provider =
  fixes mac :: "bytes \<Rightarrow> bytes \<Rightarrow> bytes"
  assumes mac_length: "length (mac k m) = sha256_Size"
begin

text \<open>A tag appended to a message is recovered by cutting the message off.\<close>

lemma tag_after_message: "drop (length m) (m @ mac k m') = mac k m'"
  by simp

lemma take_tag: "take sha256_Size (mac k m @ rest) = mac k m"
  by (simp add: mac_length)

lemma drop_tag: "drop sha256_Size (mac k m @ rest) = rest"
  by (simp add: mac_length)

end

lemma iroot_bounds:
  assumes "0 \<le> x" and "x ^ k \<le> n" and "n < (x + 2 ^ b) ^ k"
  shows "iroot k n b x ^ k \<le> n \<and> n < (iroot k n b x + 1) ^ k"
  using assms
proof (induction k n b x rule: iroot.induct)
  case (1 k n x)
  then show ?case by simp
next
  case (2 k n b x)
  show ?case
  proof (cases "(x + 2 ^ b) ^ k \<le> n")
    case True
    have "x + 2 ^ b + 2 ^ b = x + 2 ^ Suc b" by simp
    with True 2 show ?thesis by simp
  next
    case False
    with 2 show ?thesis by simp
  qed
qed

lemma length_sha_digest [simp]: "length (sha_digest s) = 32"
  by (cases s rule: sha_digest.cases) simp

lemma length_sha256 [simp]: "length (sha256 m) = 32"
  by (simp add: sha256_def)

lemma length_hmac_sha256 [simp, codec_simps]: "length (hmac_sha256 k m) = 32"
  by (simp add: hmac_sha256_def Let_def)

interpretation hm: mac_provider hmac_sha256
  by unfold_locales (simp add: sha256_Size_def)

end
