(* ===== verification/Types.thy ===== *)
theory Types
  imports Sha256
begin

unbundle bit_operations_syntax

text \<open>
  The protocol-owned value types of \<open>core/types.go\<close>, the wire constants shared by the codecs,
  and the package's error values. Fixed-size byte arrays (\<open>[16]byte\<close>, \<open>[32]byte\<close>) are byte lists
  whose length the well-formedness predicates state.
\<close>

type_synonym SessionID = bytes
type_synonym LegID = u8
type_synonym Version = u8
type_synonym HelloMode = u8

definition Version4 :: Version where [simp]: "Version4 = 4"
definition Version5 :: Version where [simp]: "Version5 = 5"
definition Version6 :: Version where [simp]: "Version6 = 6"
definition Version7 :: Version where [simp]: "Version7 = 7"

definition ModeStream :: HelloMode where [simp]: "ModeStream = 0"
definition ModeDatagram :: HelloMode where [simp]: "ModeDatagram = 1"

definition StreamCapabilityPathRTT :: u32 where [simp]: "StreamCapabilityPathRTT = 1"
definition StreamCapabilityCoordinatedDrain :: u32 where [simp]: "StreamCapabilityCoordinatedDrain = 2"
definition knownStreamCapabilities :: u32 where
  [simp]: "knownStreamCapabilities = StreamCapabilityPathRTT OR StreamCapabilityCoordinatedDrain"

text \<open>\<open>Timestamp\<close> is an \<open>int64\<close>: the word is read with \<^term>\<open>sint\<close>.\<close>

record Hello =
  h_Version :: Version
  h_SessionID :: SessionID
  h_LegID :: LegID
  h_Mode :: HelloMode
  h_Timestamp :: u64
  h_Nonce :: bytes
  h_Capabilities :: u32
  h_Destination :: bytes

definition wf_Hello :: "Hello \<Rightarrow> bool" where
  "wf_Hello h \<longleftrightarrow> length (h_SessionID h) = 16 \<and> length (h_Nonce h) = 16"

definition MaxStreamLegIDCount :: nat where "MaxStreamLegIDCount = 256"
definition StreamRTTMessageSize :: nat where
  "StreamRTTMessageSize = 8 + 1 + 1 + 1 + 1 + 16 + 8 + sha256_Size"
definition StreamDrainControlMessageSize :: nat where
  "StreamDrainControlMessageSize = 8 + 1 + 1 + 1 + 1 + 16 + 1 + 8 + 16 + 16 + 8 + 8 + 4 + 8 + sha256_Size"
definition streamReadyV2Size :: nat where
  "streamReadyV2Size = 8 + 16 + 1 + 1 + 4 + 16 + sha256_Size"

text \<open>The error values of package \<open>smp3core\<close> that the modelled operations return.\<close>

datatype smp3_error =
    IOErr io_error
  | errUnknownStreamFrameType | errInvalidControlFrameSize | errInvalidStreamFrameLength
  | errEmptyPassword | errInvalidHello | errInvalidVersion | errInvalidMode | errInvalidV5Mode
  | errStaleHello | errEmptyDestination | errInvalidDestination | errInvalidAuthentication
  | errInvalidCapabilities
  | ErrStreamPathNegotiation | ErrStreamPathMessage | ErrStreamPathRole
  | ErrStreamDrainNegotiation | ErrStreamDrainMessage
  | ErrStreamRXReorderLimit
  | ErrStreamRTTCacheClosed | ErrStreamRTTStaleGeneration | ErrStreamRTTGenerationReuse
  | ErrStreamRTTPendingFull | ErrStreamRTTTokenExhausted | ErrStreamRTTProbeExpired
  | ErrStreamRTTNoPending | ErrStreamRTTReplay
  | ErrDatagramClosed | ErrDatagramTooLarge | ErrDatagramTimeout | DatagramErr string
  | errInvalidLeg | ErrStreamClosed | ErrStreamLegNotFound | ErrStreamLastLeg | StreamErr string
  | ErrStreamDrainUnsupported | ErrStreamDrainConflict | ErrStreamDrainCarrierChanged
  | ErrStreamDrainCommitUncertain | ErrDeadlineExceeded | ErrCanceled
  | DrainSendErr u8 "smp3_error list" | DrainUncertainErr smp3_error

section \<open>Capability masks\<close>

lemma and_not_1_iff: "c AND NOT 1 = 0 \<and> c AND 1 \<noteq> 0 \<longleftrightarrow> c = (1::u32)"
proof
  assume A: "c AND NOT 1 = 0 \<and> c AND 1 \<noteq> 0"
  then have "c AND 1 = 1" by (simp add: and_one_eq odd_iff_mod_2_eq_one split: if_splits)
  moreover have "c = (c AND NOT 1) OR (c AND 1)"
    by (rule bit_word_eqI) (auto simp: bit_simps)
  ultimately show "c = 1" using A by simp
qed simp

end
