(* ===== verification/Hello_Codec.thy ===== *)
theory Hello_Codec
  imports Types
begin

unbundle bit_operations_syntax

text \<open>
  The HELLO codec of \<open>core/hello.go\<close>: \<open>EncodeHelloParts\<close> lays out and authenticates a HELLO of
  version 4 to 7, \<open>ReadHelloAt\<close> reads one from a carrier, checks it against the local clock and
  the password, and returns it with the unread rest of the carrier.
\<close>

definition helloSkew :: duration where "helloSkew = 90 * Second"
definition helloMagic :: bytes where "helloMagic = str_bytes ''SMP3''"

text \<open>\<open>time.Unix(sec, 0)\<close>: the seconds are moved to Go's epoch in \<open>int64\<close> arithmetic, which wraps.\<close>

definition time_Unix :: "u64 \<Rightarrow> gotime" where
  "time_Unix sec = sint (sec + of_int unixToInternal) * Second"

definition validCaps6 :: "u32 \<Rightarrow> bool" where
  "validCaps6 caps \<longleftrightarrow>
     \<not> (caps AND NOT StreamCapabilityPathRTT \<noteq> 0 \<or> caps AND StreamCapabilityPathRTT = 0)"

definition validCaps7 :: "u32 \<Rightarrow> bool" where
  "validCaps7 caps \<longleftrightarrow>
     \<not> (caps AND NOT knownStreamCapabilities \<noteq> 0 \<or> caps AND StreamCapabilityCoordinatedDrain = 0)"

definition helloHeader :: "Hello \<Rightarrow> bytes" where
  "helloHeader hello =
     (if h_Version hello = Version5 then
        helloMagic @ [Version5] @ [h_LegID hello] @ [h_Mode hello] @ h_SessionID hello
          @ put_u64 (h_Timestamp hello) @ h_Nonce hello
          @ put_u16 (of_nat (length (h_Destination hello)))
      else if h_Version hello = Version6 \<or> h_Version hello = Version7 then
        helloMagic @ [h_Version hello] @ [h_LegID hello] @ [h_Mode hello] @ h_SessionID hello
          @ put_u64 (h_Timestamp hello) @ h_Nonce hello @ put_u32 (h_Capabilities hello)
          @ put_u16 (of_nat (length (h_Destination hello)))
      else
        helloMagic @ [Version4] @ [h_LegID hello] @ h_SessionID hello
          @ put_u64 (h_Timestamp hello) @ h_Nonce hello
          @ put_u16 (of_nat (length (h_Destination hello))))"

definition EncodeHelloParts :: "Hello \<Rightarrow> bytes \<Rightarrow> smp3_error + bytes \<times> bytes \<times> bytes" where
  "EncodeHelloParts hello password =
     (if length password = 0 then Inl errEmptyPassword
      else if length (h_Destination hello) = 0 \<or> length (h_Destination hello) > 65535
        then Inl errInvalidDestination
      else if h_Version hello \<noteq> Version4 \<and> h_Version hello \<noteq> Version5
           \<and> h_Version hello \<noteq> Version6 \<and> h_Version hello \<noteq> Version7 then Inl errInvalidVersion
      else if h_Version hello = Version4 \<and> h_Mode hello \<noteq> ModeStream then Inl errInvalidMode
      else if h_Version hello = Version5 \<and> h_Mode hello \<noteq> ModeDatagram then Inl errInvalidMode
      else if h_Version hello = Version6 \<and> h_Mode hello \<noteq> ModeStream then Inl errInvalidMode
      else if h_Version hello = Version7 \<and> h_Mode hello \<noteq> ModeStream then Inl errInvalidMode
      else if h_Version hello \<noteq> Version6 \<and> h_Version hello \<noteq> Version7 \<and> h_Capabilities hello \<noteq> 0
        then Inl errInvalidCapabilities
      else if h_Version hello = Version6 \<and> \<not> validCaps6 (h_Capabilities hello)
        then Inl errInvalidCapabilities
      else if h_Version hello = Version7 \<and> \<not> validCaps7 (h_Capabilities hello)
        then Inl errInvalidCapabilities
      else
        let destination = h_Destination hello; header = helloHeader hello
        in Inr (header, destination, hmac_sha256 password (header @ destination)))"

text \<open>The version switch of \<open>ReadHelloAt\<close>: the whole header, and the HELLO fields it carries
  (the destination is read later), for the six bytes of prefix already read.\<close>

definition readHelloHeader :: "reader \<Rightarrow> bytes \<Rightarrow> smp3_error + bytes \<times> Hello \<times> nat \<times> reader" where
  "readHelloHeader r prefix =
     (let version = prefix ! 4; leg = prefix ! 5
      in if version = Version4 then
           (case ReadFull 42 r of
              Inl err \<Rightarrow> Inl (IOErr err)
            | Inr (tail, r') \<Rightarrow>
                let header = prefix @ tail
                in Inr (header,
                    \<lparr>h_Version = version, h_SessionID = slice_of 6 22 header, h_LegID = leg,
                     h_Mode = ModeStream, h_Timestamp = get_u64 (slice_of 22 30 header),
                     h_Nonce = slice_of 30 46 header, h_Capabilities = 0, h_Destination = []\<rparr>,
                    unat (get_u16 (slice_of 46 48 header)), r'))
         else if version = Version5 then
           (case ReadFull 43 r of
              Inl err \<Rightarrow> Inl (IOErr err)
            | Inr (tail, r') \<Rightarrow>
                let header = prefix @ tail
                in if header ! 6 \<noteq> ModeDatagram then Inl errInvalidV5Mode
                   else Inr (header,
                    \<lparr>h_Version = version, h_SessionID = slice_of 7 23 header, h_LegID = leg,
                     h_Mode = header ! 6, h_Timestamp = get_u64 (slice_of 23 31 header),
                     h_Nonce = slice_of 31 47 header, h_Capabilities = 0, h_Destination = []\<rparr>,
                    unat (get_u16 (slice_of 47 49 header)), r'))
         else if version = Version6 \<or> version = Version7 then
           (case ReadFull 47 r of
              Inl err \<Rightarrow> Inl (IOErr err)
            | Inr (tail, r') \<Rightarrow>
                let header = prefix @ tail; caps = get_u32 (slice_of 47 51 header)
                in if header ! 6 \<noteq> ModeStream then Inl errInvalidMode
                   else if version = Version6 \<and> \<not> validCaps6 caps then Inl errInvalidCapabilities
                   else if version = Version7 \<and> \<not> validCaps7 caps then Inl errInvalidCapabilities
                   else Inr (header,
                    \<lparr>h_Version = version, h_SessionID = slice_of 7 23 header, h_LegID = leg,
                     h_Mode = header ! 6, h_Timestamp = get_u64 (slice_of 23 31 header),
                     h_Nonce = slice_of 31 47 header, h_Capabilities = caps, h_Destination = []\<rparr>,
                    unat (get_u16 (slice_of 51 53 header)), r'))
         else Inl errInvalidVersion)"

definition helloFresh :: "u64 \<Rightarrow> gotime \<Rightarrow> bool" where
  "helloFresh timestamp now \<longleftrightarrow>
     (let sent = time_Unix timestamp
      in \<not> (sent < now - helloSkew \<or> sent > now + helloSkew))"

definition readHelloTail ::
  "reader \<Rightarrow> bytes \<Rightarrow> Hello \<Rightarrow> nat \<Rightarrow> bytes \<Rightarrow> smp3_error + Hello \<times> reader" where
  "readHelloTail r header hello destinationLength password =
     (case ReadFull destinationLength r of
        Inl err \<Rightarrow> Inl (IOErr err)
      | Inr (destination, r') \<Rightarrow>
          (case ReadFull sha256_Size r' of
             Inl err \<Rightarrow> Inl (IOErr err)
           | Inr (gotMAC, r'') \<Rightarrow>
               if gotMAC \<noteq> hmac_sha256 password (header @ destination) then Inl errInvalidAuthentication
               else Inr (hello\<lparr>h_Destination := destination\<rparr>, r'')))"

definition ReadHelloAt :: "reader \<Rightarrow> bytes \<Rightarrow> gotime \<Rightarrow> smp3_error + Hello \<times> reader" where
  "ReadHelloAt r password now =
     (if length password = 0 then Inl errEmptyPassword
      else case ReadFull 6 r of
        Inl err \<Rightarrow> Inl (IOErr err)
      | Inr (prefix, r1) \<Rightarrow>
          if take 4 prefix \<noteq> helloMagic then Inl errInvalidHello
          else case readHelloHeader r1 prefix of
            Inl err \<Rightarrow> Inl err
          | Inr (header, hello, destinationLength, r2) \<Rightarrow>
              if \<not> helloFresh (h_Timestamp hello) now then Inl errStaleHello
              else if destinationLength \<le> 0 then Inl errEmptyDestination
              else readHelloTail r2 header hello destinationLength password)"

section \<open>Lemmas\<close>

lemma length_helloMagic [simp, codec_simps]: "length helloMagic = 4"
  by (simp add: helloMagic_def)

lemma length_helloHeader:
  assumes "wf_Hello h"
  shows "length (helloHeader h) =
    (if h_Version h = 5 then 49 else if h_Version h = 6 \<or> h_Version h = 7 then 53 else 48)"
  using assms by (simp add: helloHeader_def wf_Hello_def)

definition encodable :: "Hello \<Rightarrow> bool" where
  "encodable h \<longleftrightarrow> 0 < length (h_Destination h) \<and> length (h_Destination h) \<le> 65535 \<and>
     (h_Version h = 4 \<and> h_Mode h = 0 \<and> h_Capabilities h = 0 \<or>
      h_Version h = 5 \<and> h_Mode h = 1 \<and> h_Capabilities h = 0 \<or>
      h_Version h = 6 \<and> h_Mode h = 0 \<and> validCaps6 (h_Capabilities h) \<or>
      h_Version h = 7 \<and> h_Mode h = 0 \<and> validCaps7 (h_Capabilities h))"

lemma EncodeHelloParts_Inr_iff:
  "EncodeHelloParts h pw = Inr (hdr, dst, tag) \<longleftrightarrow>
     pw \<noteq> [] \<and> encodable h \<and> hdr = helloHeader h \<and> dst = h_Destination h \<and>
     tag = hmac_sha256 pw (hdr @ dst)"
  by (auto simp: EncodeHelloParts_def encodable_def Let_def split: if_splits)

lemma destination_length_word:
  "length d \<le> 65535 \<Longrightarrow> unat (of_nat (length d) :: u16) = length d"
  by (simp add: unat_of_nat)

text \<open>Reading the header that was laid out for an encodable HELLO.\<close>

lemma readHelloHeader_encoded:
  assumes "wf_Hello h" "encodable h"
  shows "readHelloHeader \<lparr>avail = drop 6 (helloHeader h) @ rest, atEnd = e\<rparr> (take 6 (helloHeader h))
     = Inr (helloHeader h, h\<lparr>h_Destination := []\<rparr>, length (h_Destination h), \<lparr>avail = rest, atEnd = e\<rparr>)"
  using assms
  by (cases h)
     (auto simp: readHelloHeader_def helloHeader_def encodable_def wf_Hello_def Let_def
       destination_length_word ReadFull_append codec_simps nth_append simp del: One_nat_def)

text \<open>Conversely, an accepted header is the layout of the fields cut out of it.\<close>

lemma magic_slice: "take 4 header = helloMagic \<Longrightarrow> helloMagic = slice_of 0 4 header"
  by (simp add: slice_of_def)

lemma helloHeader_assemble4:
  assumes "length header = 48" "take 4 header = helloMagic" "header ! 4 = 4"
  shows "helloMagic @ [4] @ [header ! 5] @ slice_of 6 22 header
           @ put_u64 (get_u64 (slice_of 22 30 header)) @ slice_of 30 46 header
           @ put_u16 (get_u16 (slice_of 46 48 header)) = header"
  using assms unfolding magic_slice [OF assms(2)] assms(3) [symmetric]
  by (simp add: codec_simps reassemble del: One_nat_def)

lemma helloHeader_assemble5:
  assumes "length header = 49" "take 4 header = helloMagic"
  shows "helloMagic @ [header ! 4] @ [header ! 5] @ [header ! 6] @ slice_of 7 23 header
           @ put_u64 (get_u64 (slice_of 23 31 header)) @ slice_of 31 47 header
           @ put_u16 (get_u16 (slice_of 47 49 header)) = header"
  using assms unfolding magic_slice [OF assms(2)]
  by (simp add: codec_simps reassemble del: One_nat_def)

lemma helloHeader_assemble67:
  assumes "length header = 53" "take 4 header = helloMagic"
  shows "helloMagic @ [header ! 4] @ [header ! 5] @ [header ! 6] @ slice_of 7 23 header
           @ put_u64 (get_u64 (slice_of 23 31 header)) @ slice_of 31 47 header
           @ put_u32 (get_u32 (slice_of 47 51 header))
           @ put_u16 (get_u16 (slice_of 51 53 header)) = header"
  using assms unfolding magic_slice [OF assms(2)]
  by (simp add: codec_simps reassemble del: One_nat_def)

lemma announced_length:
  assumes "unat (w :: u16) = length d"
  shows "length d \<le> 65535 \<and> (of_nat (length d) :: u16) = w"
proof -
  have "unat w < 65536" using unsigned_less [of w] by simp
  moreover have "of_nat (unat w) = w" by simp
  ultimately show ?thesis using assms by simp
qed

lemma readHelloHeader_canonical:
  assumes "readHelloHeader r prefix = Inr (header, h0, length d, r')"
    and "length prefix = 6" and "take 4 prefix = helloMagic" and "d \<noteq> []"
  shows "avail r = drop 6 header @ avail r' \<and> atEnd r' = atEnd r \<and> take 6 header = prefix
     \<and> header = helloHeader (h0\<lparr>h_Destination := d\<rparr>)
     \<and> wf_Hello (h0\<lparr>h_Destination := d\<rparr>) \<and> encodable (h0\<lparr>h_Destination := d\<rparr>)"
proof -
  define k where "k = (if prefix ! 4 = 4 then 42 else if prefix ! 4 = 5 then 43 else 47 :: nat)"
  have k: "k \<le> length (avail r)" "header = prefix @ take k (avail r)" "r' = r\<lparr>avail := drop k (avail r)\<rparr>"
    and v: "prefix ! 4 \<in> {4, 5, 6, 7}"
    and mode: "prefix ! 4 = 5 \<longrightarrow> header ! 6 = 1" "prefix ! 4 \<in> {6, 7} \<longrightarrow> header ! 6 = 0"
    using assms(1) unfolding k_def
    by (auto simp: readHelloHeader_def Let_def ReadFull_Inr_iff split: sum.splits if_splits prod.splits)
  then have hdr: "take 4 header = helloMagic" "take 6 header = prefix" "header ! 4 = prefix ! 4"
     "header ! 5 = prefix ! 5" "length header = 6 + k" "avail r = drop 6 header @ avail r'"
     "atEnd r' = atEnd r"
    using assms(2,3) by (auto simp: nth_append)
  consider (v4) "prefix ! 4 = 4" "length header = 48" | (v5) "prefix ! 4 = 5" "length header = 49" "header ! 6 = 1"
    | (v6) "prefix ! 4 = 6" "length header = 53" "header ! 6 = 0" | (v7) "prefix ! 4 = 7" "length header = 53" "header ! 6 = 0"
    using v mode hdr(5) by (auto simp: k_def)
  then have "header = helloHeader (h0\<lparr>h_Destination := d\<rparr>)
     \<and> wf_Hello (h0\<lparr>h_Destination := d\<rparr>) \<and> encodable (h0\<lparr>h_Destination := d\<rparr>)"
  proof cases
    case v4
    then show ?thesis
      using assms(1,4) helloHeader_assemble4 [OF v4(2) hdr(1)] hdr(3,4)
      by (auto simp: readHelloHeader_def Let_def ReadFull_Inr_iff helloHeader_def wf_Hello_def encodable_def
          split: sum.splits if_splits prod.splits dest!: announced_length)
  next
    case v5
    then show ?thesis
      using assms(1,4) helloHeader_assemble5 [OF v5(2) hdr(1)] hdr(3,4)
      by (auto simp: readHelloHeader_def Let_def ReadFull_Inr_iff helloHeader_def wf_Hello_def encodable_def
          split: sum.splits if_splits prod.splits dest!: announced_length)
  next
    case v6
    then show ?thesis
      using assms(1,4) helloHeader_assemble67 [OF v6(2) hdr(1)] hdr(3,4)
      by (auto simp: readHelloHeader_def Let_def ReadFull_Inr_iff helloHeader_def wf_Hello_def encodable_def
          split: sum.splits if_splits prod.splits dest!: announced_length)
  next
    case v7
    then show ?thesis
      using assms(1,4) helloHeader_assemble67 [OF v7(2) hdr(1)] hdr(3,4)
      by (auto simp: readHelloHeader_def Let_def ReadFull_Inr_iff helloHeader_def wf_Hello_def encodable_def
          split: sum.splits if_splits prod.splits dest!: announced_length)
  qed
  with hdr show ?thesis by simp
qed

lemma ReadHelloAt_encoded:
  assumes "EncodeHelloParts h pw = Inr (hdr, dst, tag)" "wf_Hello h" "helloFresh (h_Timestamp h) now"
  shows "ReadHelloAt \<lparr>avail = hdr @ dst @ tag @ rest, atEnd = e\<rparr> pw now
           = Inr (h, \<lparr>avail = rest, atEnd = e\<rparr>)"
proof -
  let ?H = "helloHeader h" and ?D = "h_Destination h"
  from assms(1) have enc: "pw \<noteq> []" "encodable h" "hdr = ?H" "dst = ?D" "tag = hmac_sha256 pw (?H @ ?D)"
    by (auto simp: EncodeHelloParts_Inr_iff)
  have len: "6 \<le> length ?H" and magic: "take 4 (take 6 ?H) = helloMagic"
    using assms(2) by (simp add: length_helloHeader) (simp add: helloHeader_def)
  have d0: "?D \<noteq> []" using enc(2) by (auto simp: encodable_def)
  have split: "?H @ ?D @ tag @ rest = take 6 ?H @ drop 6 ?H @ ?D @ tag @ rest"
    by (metis append_assoc append_take_drop_id)
  have "ReadFull 6 \<lparr>avail = hdr @ dst @ tag @ rest, atEnd = e\<rparr>
      = Inr (take 6 ?H, \<lparr>avail = drop 6 ?H @ ?D @ tag @ rest, atEnd = e\<rparr>)"
    unfolding enc(3,4) split by (rule ReadFull_append) (use len in simp)
  moreover have "readHelloTail \<lparr>avail = ?D @ tag @ rest, atEnd = e\<rparr> ?H (h\<lparr>h_Destination := []\<rparr>) (length ?D) pw
      = Inr (h, \<lparr>avail = rest, atEnd = e\<rparr>)"
    by (simp add: readHelloTail_def ReadFull_append enc(5) sha256_Size_def)
  ultimately show ?thesis
    using enc(1) d0 magic assms(3) readHelloHeader_encoded [OF assms(2) enc(2), of "?D @ tag @ rest" e]
    by (simp add: ReadHelloAt_def)
qed

lemma readHelloTail_InrD:
  assumes "readHelloTail r header h0 n pw = Inr (h, r')"
  shows "\<exists>d. length d = n \<and> h = h0\<lparr>h_Destination := d\<rparr> \<and>
           avail r = d @ hmac_sha256 pw (header @ d) @ avail r'"
  using assms
  by (auto simp: readHelloTail_def split: sum.splits prod.splits if_splits dest!: ReadFull_InrD)

lemma ReadHelloAt_canonical:
  assumes "ReadHelloAt r pw now = Inr (h, r')"
  shows "wf_Hello h \<and> helloFresh (h_Timestamp h) now \<and>
    (\<exists>hdr tag. EncodeHelloParts h pw = Inr (hdr, h_Destination h, tag) \<and>
      avail r = hdr @ h_Destination h @ tag @ avail r')"
proof -
  from assms obtain header h0 n r2 where pw: "pw \<noteq> []" and len: "6 \<le> length (avail r)"
    and magic: "take 4 (take 6 (avail r)) = helloMagic"
    and rd: "readHelloHeader (r\<lparr>avail := drop 6 (avail r)\<rparr>) (take 6 (avail r)) = Inr (header, h0, n, r2)"
    and fresh: "helloFresh (h_Timestamp h0) now" and n: "0 < n"
    and tl: "readHelloTail r2 header h0 n pw = Inr (h, r')"
    by (auto simp: ReadHelloAt_def ReadFull_Inr_iff simp del: take_take
        split: if_splits sum.splits prod.splits)
  from readHelloTail_InrD [OF tl] obtain d where ld: "length d = n"
    and h: "h = h0\<lparr>h_Destination := d\<rparr>"
    and av: "avail r2 = d @ hmac_sha256 pw (header @ d) @ avail r'"
    by blast
  have "d \<noteq> []" using ld n by auto
  from readHelloHeader_canonical [of "r\<lparr>avail := drop 6 (avail r)\<rparr>" "take 6 (avail r)" header h0 d r2]
  have can: "drop 6 (avail r) = drop 6 header @ avail r2" "take 6 header = take 6 (avail r)"
     "header = helloHeader h" "wf_Hello h" "encodable h"
    using rd ld magic len \<open>d \<noteq> []\<close> h by auto
  have "avail r = header @ avail r2"
    using can(1,2) by (metis append_assoc append_take_drop_id)
  moreover have "EncodeHelloParts h pw = Inr (header, h_Destination h, hmac_sha256 pw (header @ h_Destination h))"
    using can pw by (simp add: EncodeHelloParts_Inr_iff)
  ultimately show ?thesis
    using can(4) fresh h av by auto
qed

text \<open>\<open>time.Unix\<close> either keeps the second or wraps far below any clock after year 1.\<close>

lemma time_Unix_cases:
  "time_Unix ts = (sint ts + unixToInternal) * Second \<or> time_Unix ts < - (2 ^ 62)"
proof -
  have U: "sint (of_int unixToInternal :: u64) = unixToInternal"
    by (simp add: unixToInternal_def)
  have eq: "sint (ts + of_int unixToInternal) = (sint ts + unixToInternal + 2 ^ 63) mod 2 ^ 64 - 2 ^ 63"
    unfolding sint_word_ariths U by (simp add: signed_take_bit_eq_take_bit_shift take_bit_eq_mod)
  have rng: "- (2 ^ 63) \<le> sint ts" "sint ts < 2 ^ 63"
    using sint_ge [of ts] sint_lt [of ts] by simp_all
  show ?thesis
  proof (cases "sint ts + unixToInternal < 2 ^ 63")
    case True
    with rng have "(sint ts + unixToInternal + 2 ^ 63) mod 2 ^ 64 = sint ts + unixToInternal + 2 ^ 63"
      by (intro mod_pos_pos_trivial) (simp_all add: unixToInternal_def)
    with eq show ?thesis by (simp add: time_Unix_def)
  next
    case False
    have "(sint ts + unixToInternal + 2 ^ 63) mod 2 ^ 64
        = (sint ts + unixToInternal + 2 ^ 63 - 2 ^ 64) mod 2 ^ 64"
      by (simp only: minus_mod_self2)
    also have "\<dots> = sint ts + unixToInternal + 2 ^ 63 - 2 ^ 64"
      using False rng by (intro mod_pos_pos_trivial) (simp_all add: unixToInternal_def)
    finally show ?thesis
      using eq rng by (simp add: time_Unix_def unixToInternal_def Second_def)
  qed
qed

lemma helloFresh_bound:
  assumes "helloFresh ts now" "0 \<le> now"
  shows "\<bar>(sint ts + unixToInternal) * Second - now\<bar> \<le> helloSkew"
  using assms time_Unix_cases [of ts]
  by (auto simp: helloFresh_def Let_def helloSkew_def Second_def abs_if not_less)

section \<open>Properties\<close>

definition example_hello :: Hello where
  "example_hello = \<lparr>h_Version = 7, h_SessionID = replicate 16 17, h_LegID = 1, h_Mode = 0,
     h_Timestamp = 1700000000, h_Nonce = replicate 16 34, h_Capabilities = 3,
     h_Destination = str_bytes ''example.com:443''\<rparr>"

definition example_now :: gotime where "example_now = (1700000000 + unixToInternal) * Second"

lemma example_hello_parts:
  "EncodeHelloParts example_hello [1] = Inr (helloHeader example_hello, h_Destination example_hello,
      hmac_sha256 [1] (helloHeader example_hello @ h_Destination example_hello))"
  "wf_Hello example_hello" "helloFresh (h_Timestamp example_hello) example_now"
  by (simp_all add: EncodeHelloParts_Inr_iff encodable_def example_hello_def validCaps7_def wf_Hello_def
      helloFresh_def time_Unix_def example_now_def helloSkew_def Second_def unixToInternal_def)

lemmas example_hello_read = ReadHelloAt_encoded [OF example_hello_parts, of "[7]" EOF]

text \<open>C7: a HELLO that \<open>EncodeHelloParts\<close> accepts (any of versions 4 to 7) is read back unchanged by
  \<open>ReadHelloAt\<close> from a carrier that delivers its three parts, when the reader's clock is within the
  skew; nothing behind the HELLO is consumed.\<close>

theorem hello_roundtrip:
  assumes "EncodeHelloParts h pw = Inr (hdr, dst, tag)" and "wf_Hello h"
    and "helloFresh (h_Timestamp h) now"
  shows "ReadHelloAt \<lparr>avail = hdr @ dst @ tag @ rest, atEnd = e\<rparr> pw now
           = Inr (h, \<lparr>avail = rest, atEnd = e\<rparr>)"
  using assms by (rule ReadHelloAt_encoded)

theorem hello_roundtrip_witness:
  "ReadHelloAt \<lparr>avail = helloHeader example_hello @ h_Destination example_hello
        @ hmac_sha256 [1] (helloHeader example_hello @ h_Destination example_hello) @ [7], atEnd = EOF\<rparr> [1] example_now
     = Inr (example_hello, \<lparr>avail = [7], atEnd = EOF\<rparr>)"
  by (rule hello_roundtrip [OF example_hello_parts])

text \<open>C8: \<open>ReadHelloAt\<close> accepts only the canonical encoding: the bytes it consumed are exactly the
  header, destination and authentication tag that \<open>EncodeHelloParts\<close> produces for the returned HELLO
  under the same password, so an accepted HELLO is authenticated and passes the encoder's version,
  mode, capability and destination checks.\<close>

theorem hello_canonical:
  assumes "ReadHelloAt r pw now = Inr (h, r')"
  shows "wf_Hello h \<and> (\<exists>hdr tag. EncodeHelloParts h pw = Inr (hdr, h_Destination h, tag) \<and>
           avail r = hdr @ h_Destination h @ tag @ avail r')"
  using ReadHelloAt_canonical [OF assms] by blast

theorem hello_canonical_witness:
  "\<exists>hdr tag. EncodeHelloParts example_hello [1] = Inr (hdr, h_Destination example_hello, tag) \<and>
     helloHeader example_hello @ h_Destination example_hello
        @ hmac_sha256 [1] (helloHeader example_hello @ h_Destination example_hello) @ [7]
     = hdr @ h_Destination example_hello @ tag @ [7]"
  using hello_canonical [OF example_hello_read] by simp

text \<open>C9: an accepted HELLO is at most ninety seconds away from the reader's clock, as plain integers,
  although \<open>time.Unix\<close> computes in wrapping \<open>int64\<close> arithmetic: a timestamp large enough to wrap is
  always rejected.\<close>

theorem hello_fresh:
  assumes "ReadHelloAt r pw now = Inr (h, r')" and "0 \<le> now"
  shows "\<bar>(sint (h_Timestamp h) + unixToInternal) * Second - now\<bar> \<le> 90 * Second"
  using ReadHelloAt_canonical [OF assms(1)] helloFresh_bound [OF _ assms(2)]
  by (auto simp: helloSkew_def)

theorem hello_fresh_witness:
  "\<bar>(sint (h_Timestamp example_hello) + unixToInternal) * Second - example_now\<bar> \<le> 90 * Second"
  by (rule hello_fresh [OF example_hello_read])
     (simp add: example_now_def unixToInternal_def Second_def)

end
