(* ===== verification/Stream_Frame.thy ===== *)
theory Stream_Frame
  imports Types
begin

text \<open>
  The stream-frame codec of \<open>core/stream_frame.go\<close>: the thirteen-byte header
  \<open>type(1) value(8) length(4)\<close>, its validation, encoding and reading.
\<close>

definition StreamFrameHeaderSize :: nat where "StreamFrameHeaderSize = 13"
definition MaxStreamFramePayload :: u32 where "MaxStreamFramePayload = 0x100000"

type_synonym StreamFrameType = u8

definition StreamFrameData :: StreamFrameType where [simp]: "StreamFrameData = 1"
definition StreamFrameActivate :: StreamFrameType where [simp]: "StreamFrameActivate = 2"
definition StreamFrameACK :: StreamFrameType where [simp]: "StreamFrameACK = 3"
definition StreamFrameClose :: StreamFrameType where [simp]: "StreamFrameClose = 4"
definition StreamFramePathRTT :: StreamFrameType where [simp]: "StreamFramePathRTT = 5"
definition StreamFrameDrain :: StreamFrameType where [simp]: "StreamFrameDrain = 6"

record StreamFrameHeader =
  fh_Type :: StreamFrameType
  fh_Value :: u64
  fh_Length :: u32

definition validateStreamFrameHeader :: "StreamFrameHeader \<Rightarrow> smp3_error option" where
  "validateStreamFrameHeader header =
     (if fh_Type header = StreamFrameData then
        (if fh_Length header = 0 \<or> fh_Length header > MaxStreamFramePayload
         then Some errInvalidStreamFrameLength else None)
      else if fh_Type header \<in> {StreamFrameActivate, StreamFrameACK, StreamFrameClose} then
        (if fh_Length header \<noteq> 0 then Some errInvalidControlFrameSize else None)
      else if fh_Type header = StreamFramePathRTT then
        (if fh_Value header \<noteq> 0 \<or> fh_Length header \<noteq> of_nat StreamRTTMessageSize
         then Some errInvalidControlFrameSize else None)
      else if fh_Type header = StreamFrameDrain then
        (if fh_Value header \<noteq> 0 \<or> fh_Length header \<noteq> of_nat StreamDrainControlMessageSize
         then Some errInvalidControlFrameSize else None)
      else Some errUnknownStreamFrameType)"

text \<open>The destination buffer keeps its bytes after the header.\<close>

definition EncodeStreamFrameHeader :: "bytes \<Rightarrow> StreamFrameHeader \<Rightarrow> smp3_error + bytes" where
  "EncodeStreamFrameHeader dst header =
     (if length dst < StreamFrameHeaderSize then Inl (IOErr ErrShortBuffer)
      else case validateStreamFrameHeader header of
        Some err \<Rightarrow> Inl err
      | None \<Rightarrow> Inr ([fh_Type header] @ put_u64 (fh_Value header) @ put_u32 (fh_Length header)
                      @ drop StreamFrameHeaderSize dst))"

definition ReadStreamFrameHeader :: "reader \<Rightarrow> smp3_error + StreamFrameHeader \<times> reader" where
  "ReadStreamFrameHeader r =
     (case ReadFull StreamFrameHeaderSize r of
        Inl err \<Rightarrow> Inl (IOErr err)
      | Inr (wire, r') \<Rightarrow>
          let header = \<lparr>fh_Type = wire ! 0,
                        fh_Value = get_u64 (slice_of 1 9 wire),
                        fh_Length = get_u32 (slice_of 9 StreamFrameHeaderSize wire)\<rparr>
          in case validateStreamFrameHeader header of
               Some err \<Rightarrow> Inl err
             | None \<Rightarrow> Inr (header, r'))"

section \<open>Lemmas\<close>

definition header_bytes :: "StreamFrameHeader \<Rightarrow> bytes" where
  "header_bytes h = [fh_Type h] @ put_u64 (fh_Value h) @ put_u32 (fh_Length h)"

lemma length_header_bytes [simp, codec_simps]: "length (header_bytes h) = 13"
  by (simp add: header_bytes_def)

lemma header_bytes_fields [codec_simps]:
  "header_bytes h ! 0 = fh_Type h"
  "get_u64 (slice_of 1 9 (header_bytes h)) = fh_Value h"
  "get_u32 (slice_of 9 13 (header_bytes h)) = fh_Length h"
  by (simp_all add: header_bytes_def codec_simps)

lemma header_bytes_of_wire:
  assumes "length wire = 13"
  shows "header_bytes \<lparr>fh_Type = wire ! 0, fh_Value = get_u64 (slice_of 1 9 wire),
                       fh_Length = get_u32 (slice_of 9 13 wire)\<rparr> = wire"
  using assms by (simp add: header_bytes_def codec_simps reassemble del: One_nat_def)

lemma StreamFrameHeader_eta [simp]:
  "\<lparr>fh_Type = fh_Type h, fh_Value = fh_Value h, fh_Length = fh_Length h\<rparr> = h"
  by (cases h) simp

lemma EncodeStreamFrameHeader_ok:
  assumes "validateStreamFrameHeader h = None" and "13 \<le> length dst"
  shows "EncodeStreamFrameHeader dst h = Inr (header_bytes h @ drop 13 dst)"
  using assms by (simp add: EncodeStreamFrameHeader_def header_bytes_def StreamFrameHeaderSize_def)

lemma ReadStreamFrameHeader_ok:
  assumes "validateStreamFrameHeader h = None"
  shows "ReadStreamFrameHeader \<lparr>avail = header_bytes h @ rest, atEnd = e\<rparr> = Inr (h, \<lparr>avail = rest, atEnd = e\<rparr>)"
  using assms
  by (simp add: ReadStreamFrameHeader_def ReadFull_append StreamFrameHeaderSize_def Let_def codec_simps
      del: One_nat_def)

lemma ReadStreamFrameHeader_InrD:
  assumes "ReadStreamFrameHeader r = Inr (h, r')"
  shows "validateStreamFrameHeader h = None \<and> avail r = header_bytes h @ avail r'"
proof -
  have len: "13 \<le> length (avail r)" and r': "r' = r\<lparr>avail := drop 13 (avail r)\<rparr>"
    and h: "h = \<lparr>fh_Type = take 13 (avail r) ! 0, fh_Value = get_u64 (slice_of 1 9 (take 13 (avail r))),
                 fh_Length = get_u32 (slice_of 9 13 (take 13 (avail r)))\<rparr>"
    and v: "validateStreamFrameHeader h = None"
    using assms
    by (auto simp: ReadStreamFrameHeader_def StreamFrameHeaderSize_def Let_def ReadFull_Inr_iff
        simp del: nth_take split: sum.splits prod.splits option.splits)
  have "header_bytes h = take 13 (avail r)"
    unfolding h by (rule header_bytes_of_wire) (use len in simp)
  with r' v show ?thesis by simp
qed

section \<open>Properties\<close>

definition example_frame :: StreamFrameHeader where
  "example_frame = \<lparr>fh_Type = StreamFrameData, fh_Value = 7, fh_Length = 3\<rparr>"

lemma example_frame_encoded:
  "EncodeStreamFrameHeader (replicate 13 0 @ [1, 2, 3]) example_frame
     = Inr (header_bytes example_frame @ [1, 2, 3])"
  by (subst EncodeStreamFrameHeader_ok)
    (simp_all add: example_frame_def validateStreamFrameHeader_def MaxStreamFramePayload_def)

text \<open>Frame headers survive the wire: reading what \<open>EncodeStreamFrameHeader\<close> wrote into a
  buffer gives the header back and leaves the rest of the buffer unread.\<close>

theorem stream_frame_roundtrip:
  assumes "EncodeStreamFrameHeader dst h = Inr wire"
  shows "ReadStreamFrameHeader \<lparr>avail = wire, atEnd = e\<rparr>
           = Inr (h, \<lparr>avail = drop StreamFrameHeaderSize dst, atEnd = e\<rparr>)"
  using assms EncodeStreamFrameHeader_ok ReadStreamFrameHeader_ok
  by (auto simp: EncodeStreamFrameHeader_def StreamFrameHeaderSize_def header_bytes_def
      split: if_splits option.splits)

theorem stream_frame_roundtrip_witness:
  "EncodeStreamFrameHeader (replicate 13 0 @ [1, 2, 3]) example_frame
     = Inr (header_bytes example_frame @ [1, 2, 3]) \<and>
   ReadStreamFrameHeader \<lparr>avail = header_bytes example_frame @ [1, 2, 3], atEnd = EOF\<rparr>
     = Inr (example_frame, \<lparr>avail = [1, 2, 3], atEnd = EOF\<rparr>)"
  using stream_frame_roundtrip [OF example_frame_encoded, of EOF] example_frame_encoded
  by (simp add: StreamFrameHeaderSize_def)

text \<open>The header encoding is canonical: whatever header \<open>ReadStreamFrameHeader\<close> accepts is
  valid, and encoding it again gives exactly the bytes that were consumed.\<close>

theorem stream_frame_canonical:
  assumes "ReadStreamFrameHeader r = Inr (h, r')"
  shows "EncodeStreamFrameHeader (avail r) h = Inr (avail r)
         \<and> avail r' = drop StreamFrameHeaderSize (avail r)"
  using ReadStreamFrameHeader_InrD [OF assms] EncodeStreamFrameHeader_ok [of h "avail r"]
  by (auto simp: StreamFrameHeaderSize_def)

theorem stream_frame_canonical_witness:
  "EncodeStreamFrameHeader (header_bytes example_frame @ [1]) example_frame
     = Inr (header_bytes example_frame @ [1])"
proof -
  have v: "validateStreamFrameHeader example_frame = None"
    by (simp add: example_frame_def validateStreamFrameHeader_def MaxStreamFramePayload_def)
  show ?thesis
    using stream_frame_canonical [OF ReadStreamFrameHeader_ok [OF v, of "[1]" EOF]] by simp
qed

end
