(* ===== verification/Stream_Wire.thy ===== *)
theory Stream_Wire
  imports Stream_Frame
begin

text \<open>
  The frame input and output of the stream engine (\<open>core/stream_engine.go\<close>): control frames, DATA
  frames written through \<open>net.Buffers\<close> behind a write gate, authenticated control payloads, and
  \<open>readWireFrame\<close>, which reads one whole frame from a carrier.
\<close>

text \<open>What of a \<open>dataFrame\<close> is on the wire; its leg, generation and read time are annotations of the
  reading side (\<open>StreamRXFrame\<close> carries the leg on).\<close>

record dataFrame =
  df_seq :: u64
  df_data :: bytes

record wireFrame =
  wf_typ :: u8
  wf_seq :: u64
  wf_data :: bytes

definition frameHeaderSize :: nat where "frameHeaderSize = StreamFrameHeaderSize"

text \<open>The encode error is discarded: an invalid header leaves the zeroed array.\<close>

definition encodeControlFrame :: "u8 \<Rightarrow> u64 \<Rightarrow> bytes" where
  "encodeControlFrame typ v =
     (let header = replicate frameHeaderSize 0
      in case EncodeStreamFrameHeader header \<lparr>fh_Type = typ, fh_Value = v, fh_Length = 0\<rparr> of
           Inl _ \<Rightarrow> header
         | Inr header' \<Rightarrow> header')"

text \<open>\<open>streamDataWriteStartLeg\<close>: the gate runs once, before the first carrier write; its failure
  keeps the carrier untouched. A gate is \<open>None\<close> (nil) or the result of its one call.\<close>

record startLeg =
  sl_leg :: writer
  sl_gate :: "smp3_error option option"
  sl_started :: bool

definition startLeg_Write :: "bytes \<Rightarrow> startLeg \<Rightarrow> nat \<times> smp3_error option \<times> startLeg" where
  "startLeg_Write p c =
     (if \<not> sl_started c \<and> (\<exists>e. sl_gate c = Some (Some e)) then (0, the (sl_gate c), c)
      else case Write p (sl_leg c) of (n, err, w) \<Rightarrow>
        (n, map_option IOErr err, c\<lparr>sl_leg := w, sl_started := True\<rparr>))"

text \<open>\<open>net.Buffers.WriteTo\<close> on a plain writer: one \<open>Write\<close> per buffer, stopping at an error.\<close>

fun buffers_WriteTo :: "bytes list \<Rightarrow> startLeg \<Rightarrow> nat \<times> smp3_error option \<times> startLeg" where
  "buffers_WriteTo [] c = (0, None, c)"
| "buffers_WriteTo (b # bs) c =
     (case startLeg_Write b c of (nb, err, c') \<Rightarrow>
        (case err of
           Some e \<Rightarrow> (nb, Some e, c')
         | None \<Rightarrow> (case buffers_WriteTo bs c' of (n, err', c'') \<Rightarrow> (nb + n, err', c''))))"

definition writeDataFrameWithGate ::
  "writer \<Rightarrow> dataFrame \<Rightarrow> smp3_error option option \<Rightarrow> nat \<times> bool \<times> smp3_error option \<times> writer" where
  "writeDataFrameWithGate conn frame beforeWrite =
     (case EncodeStreamFrameHeader (replicate frameHeaderSize 0)
             \<lparr>fh_Type = StreamFrameData, fh_Value = df_seq frame,
              fh_Length = of_nat (length (df_data frame))\<rparr> of
        Inl err \<Rightarrow> (0, False, Some err, conn)
      | Inr header \<Rightarrow>
          (case buffers_WriteTo [header, df_data frame]
                  \<lparr>sl_leg = conn, sl_gate = beforeWrite, sl_started = False\<rparr> of
             (n, err, c) \<Rightarrow>
               (n, sl_started c,
                if err = None \<and> n \<noteq> frameHeaderSize + length (df_data frame)
                then Some (IOErr ErrShortWrite) else err,
                sl_leg c)))"

definition writeDataFrameWithStart ::
  "writer \<Rightarrow> dataFrame \<Rightarrow> bool \<Rightarrow> nat \<times> bool \<times> smp3_error option \<times> writer" where
  "writeDataFrameWithStart conn frame beforeWrite =
     writeDataFrameWithGate conn frame (if beforeWrite then Some None else None)"

definition writeDataFrame :: "writer \<Rightarrow> dataFrame \<Rightarrow> smp3_error option \<times> writer" where
  "writeDataFrame conn frame =
     (case writeDataFrameWithStart conn frame False of (_, _, err, conn') \<Rightarrow> (err, conn'))"

definition streamDataPayloadAccepted :: "int \<Rightarrow> int \<Rightarrow> u64" where
  "streamDataPayloadAccepted wireBytes payloadBytes =
     (let payload = wireBytes - int frameHeaderSize
      in if payload \<le> 0 \<or> payloadBytes \<le> 0 then 0
         else of_int (if payload > payloadBytes then payloadBytes else payload))"

text \<open>The pooled buffer of \<open>readWireFrame\<close> is cut to the frame's length, so pooling does not change
  what is read.\<close>

definition readWireFrame :: "reader \<Rightarrow> smp3_error + wireFrame \<times> reader" where
  "readWireFrame conn =
     (case ReadStreamFrameHeader conn of
        Inl err \<Rightarrow> Inl err
      | Inr (header, r) \<Rightarrow>
          let frame = \<lparr>wf_typ = fh_Type header, wf_seq = fh_Value header, wf_data = []\<rparr>
          in if fh_Type header = StreamFramePathRTT \<or> fh_Type header = StreamFrameDrain then
               (case ReadFull (unat (fh_Length header)) r of
                  Inl err \<Rightarrow> Inl (IOErr err)
                | Inr (payload, r') \<Rightarrow> Inr (frame\<lparr>wf_data := payload\<rparr>, r'))
             else if fh_Type header \<noteq> StreamFrameData then Inr (frame, r)
             else (case ReadFull (unat (fh_Length header)) r of
                     Inl err \<Rightarrow> Inl (IOErr err)
                   | Inr (payload, r') \<Rightarrow> Inr (frame\<lparr>wf_data := payload\<rparr>, r')))"

definition writeStreamControlPayload ::
  "writer \<Rightarrow> StreamFrameType \<Rightarrow> bytes \<Rightarrow> smp3_error option \<times> writer" where
  "writeStreamControlPayload conn typ payload =
     (if length payload = 0 \<or> length payload > unat MaxStreamFramePayload
      then (Some ErrStreamDrainMessage, conn)
      else case EncodeStreamFrameHeader (replicate frameHeaderSize 0)
                  \<lparr>fh_Type = typ, fh_Value = 0, fh_Length = of_nat (length payload)\<rparr> of
             Inl err \<Rightarrow> (Some err, conn)
           | Inr header \<Rightarrow>
               (case writeAll conn (header @ payload) of (err, w) \<Rightarrow> (map_option IOErr err, w)))"

definition writePathRTTFrame :: "writer \<Rightarrow> bytes \<Rightarrow> smp3_error option \<times> writer" where
  "writePathRTTFrame conn message =
     (if length message \<noteq> StreamRTTMessageSize then (Some ErrStreamPathMessage, conn)
      else case EncodeStreamFrameHeader (replicate frameHeaderSize 0)
                  \<lparr>fh_Type = StreamFramePathRTT, fh_Value = 0, fh_Length = of_nat (length message)\<rparr> of
             Inl err \<Rightarrow> (Some err, conn)
           | Inr header \<Rightarrow>
               (case writeAll conn (header @ message) of (err, w) \<Rightarrow> (map_option IOErr err, w)))"

section \<open>Lemmas\<close>

text \<open>The wire image of a DATA frame.\<close>

definition data_header :: "dataFrame \<Rightarrow> StreamFrameHeader" where
  "data_header f = \<lparr>fh_Type = StreamFrameData, fh_Value = df_seq f, fh_Length = of_nat (length (df_data f))\<rparr>"

definition data_wire :: "dataFrame \<Rightarrow> bytes" where
  "data_wire f = header_bytes (data_header f) @ df_data f"

definition sendable :: "dataFrame \<Rightarrow> bool" where
  "sendable f \<longleftrightarrow> 0 < length (df_data f) \<and> length (df_data f) \<le> unat MaxStreamFramePayload"

lemma unat_payload_length:
  "n \<le> unat MaxStreamFramePayload \<Longrightarrow> unat (of_nat n :: u32) = n"
  by (simp add: MaxStreamFramePayload_def unat_of_nat)

lemma sendable_validates:
  assumes "sendable f"
  shows "validateStreamFrameHeader (data_header f) = None"
proof -
  let ?n = "length (df_data f)"
  have u: "unat (of_nat ?n :: u32) = ?n" using assms unat_payload_length by (simp add: sendable_def)
  then have "(of_nat ?n :: u32) \<noteq> 0"
    using assms by (metis less_numeral_extra(3) sendable_def unat_0)
  moreover have "(of_nat ?n :: u32) \<le> MaxStreamFramePayload"
    using assms u by (simp add: word_le_nat_alt sendable_def)
  ultimately show ?thesis
    by (simp add: validateStreamFrameHeader_def data_header_def)
qed

lemma data_frame_encoded:
  "sendable f \<Longrightarrow> EncodeStreamFrameHeader (replicate frameHeaderSize 0)
     \<lparr>fh_Type = StreamFrameData, fh_Value = df_seq f, fh_Length = of_nat (length (df_data f))\<rparr>
   = Inr (header_bytes (data_header f))"
  using EncodeStreamFrameHeader_ok [OF sendable_validates, of f "replicate frameHeaderSize 0"]
  by (simp add: data_header_def frameHeaderSize_def StreamFrameHeaderSize_def)

lemma startLeg_Write_accepts:
  assumes "startLeg_Write p c = (n, err, c')"
  shows "n \<le> length p \<and> written (sl_leg c') = written (sl_leg c) @ take n p"
  using assms by (auto simp: startLeg_Write_def dest!: Write_accepts split: if_splits prod.splits)

lemma data_header_length: "length (header_bytes (data_header f)) = frameHeaderSize"
  by (simp add: frameHeaderSize_def StreamFrameHeaderSize_def)

text \<open>Every frame that arrives whole is read back; the rest of the carrier stays unread.\<close>

lemma readWireFrame_payload:
  assumes "validateStreamFrameHeader h = None"
    and "fh_Type h \<in> {StreamFrameData, StreamFramePathRTT, StreamFrameDrain}"
    and "length payload = unat (fh_Length h)"
  shows "readWireFrame \<lparr>avail = header_bytes h @ payload @ rest, atEnd = e\<rparr>
    = Inr (\<lparr>wf_typ = fh_Type h, wf_seq = fh_Value h, wf_data = payload\<rparr>, \<lparr>avail = rest, atEnd = e\<rparr>)"
  using assms by (auto simp: readWireFrame_def ReadStreamFrameHeader_ok ReadFull_append Let_def)

lemma readWireFrame_control:
  assumes "typ \<in> {StreamFrameActivate, StreamFrameACK, StreamFrameClose}"
  shows "readWireFrame \<lparr>avail = encodeControlFrame typ v @ rest, atEnd = e\<rparr>
    = Inr (\<lparr>wf_typ = typ, wf_seq = v, wf_data = []\<rparr>, \<lparr>avail = rest, atEnd = e\<rparr>)"
proof -
  let ?h = "\<lparr>fh_Type = typ, fh_Value = v, fh_Length = 0\<rparr>"
  have v: "validateStreamFrameHeader ?h = None"
    using assms by (auto simp: validateStreamFrameHeader_def)
  then have "encodeControlFrame typ v = header_bytes ?h"
    using EncodeStreamFrameHeader_ok [OF v, of "replicate frameHeaderSize 0"]
    by (simp add: encodeControlFrame_def frameHeaderSize_def StreamFrameHeaderSize_def)
  then show ?thesis
    using assms ReadStreamFrameHeader_ok [OF v] by (auto simp: readWireFrame_def Let_def)
qed

lemma readWireFrame_data:
  assumes "sendable f"
  shows "readWireFrame \<lparr>avail = data_wire f @ rest, atEnd = e\<rparr>
    = Inr (\<lparr>wf_typ = StreamFrameData, wf_seq = df_seq f, wf_data = df_data f\<rparr>, \<lparr>avail = rest, atEnd = e\<rparr>)"
proof -
  have l: "length (df_data f) = unat (fh_Length (data_header f))"
    using assms unat_payload_length [of "length (df_data f)"] by (simp only: sendable_def data_header_def StreamFrameHeader.simps)
  have t: "fh_Type (data_header f) = StreamFrameData" "fh_Value (data_header f) = df_seq f"
    by (simp_all add: data_header_def)
  show ?thesis
    using readWireFrame_payload [OF sendable_validates [OF assms] _ l, of rest e]
    unfolding data_wire_def t append_assoc by blast
qed

text \<open>A carrier that follows the \<open>io.Writer\<close> contract never accepts less than the buffer without an
  error.\<close>

definition honest_carrier :: "nat \<Rightarrow> writer \<Rightarrow> bool" where
  "honest_carrier sz w \<longleftrightarrow> (\<forall>(n, err) \<in> set (script w). err = None \<longrightarrow> sz \<le> n)"

lemma honest_Write:
  assumes "honest_carrier sz w" and "Write p w = (n, None, w')" and "length p \<le> sz"
  shows "n = length p \<and> honest_carrier sz w'"
  using assms by (auto simp: Write_def honest_carrier_def split: list.splits)

lemma honest_startLeg_Write:
  assumes "honest_carrier sz (sl_leg c)" and "startLeg_Write p c = (n, None, c')" and "length p \<le> sz"
  shows "n = length p \<and> honest_carrier sz (sl_leg c')"
  using assms by (auto simp: startLeg_Write_def dest: honest_Write split: if_splits prod.splits)

text \<open>What a DATA write leaves on the carrier: the header first, the payload only after the whole
  header, and never anything else.\<close>

lemma writeDataFrame_cases:
  assumes "writeDataFrameWithGate conn f gate = (n, started, err, conn')" and "sendable f"
  obtains (gated) e where "gate = Some (Some e)" "n = 0" "\<not> started" "err = Some e" "conn' = conn"
  | (header_failed) k where "started" "n = k" "k \<le> frameHeaderSize" "err \<noteq> None"
      "written conn' = written conn @ take k (header_bytes (data_header f))"
  | (payload) k m where "started" "n = k + m" "k \<le> frameHeaderSize" "m \<le> length (df_data f)"
      "written conn' = written conn @ take k (header_bytes (data_header f)) @ take m (df_data f)"
      "err = None \<longrightarrow> k = frameHeaderSize \<and> m = length (df_data f)"
      "honest_carrier (frameHeaderSize + length (df_data f)) conn \<longrightarrow> k = frameHeaderSize"
proof -
  let ?c0 = "\<lparr>sl_leg = conn, sl_gate = gate, sl_started = False\<rparr>"
  let ?H = "header_bytes (data_header f)"
  obtain k e1 c1 where W1: "startLeg_Write ?H ?c0 = (k, e1, c1)" by (metis prod_cases3)
  obtain m e2 c2 where W2: "startLeg_Write (df_data f) c1 = (m, e2, c2)" by (metis prod_cases3)
  note A1 = startLeg_Write_accepts [OF W1] and A2 = startLeg_Write_accepts [OF W2]
  note D = assms(1) [unfolded writeDataFrameWithGate_def data_frame_encoded [OF assms(2)]]
  show thesis
  proof (cases "\<exists>e. gate = Some (Some e)")
    case True
    then show thesis using D by (auto simp: startLeg_Write_def intro: gated)
  next
    case False
    then have s1: "sl_started c1" using W1 by (auto simp: startLeg_Write_def split: prod.splits)
    then have s2: "sl_started c2" using W2 by (auto simp: startLeg_Write_def split: prod.splits)
    show thesis
    proof (cases e1)
      case (Some e)
      then show thesis using D W1 s1 A1 data_header_length [of f]
        by (intro header_failed [of k]) auto
    next
      case None
      have "honest_carrier (frameHeaderSize + length (df_data f)) conn \<longrightarrow> k = frameHeaderSize"
        using honest_startLeg_Write [of _ ?c0 ?H k c1] W1 None data_header_length [of f] by auto
      with None show thesis using D W1 W2 s2 A1 A2 data_header_length [of f]
        by (intro payload [of k m]; cases e2) (auto split: if_splits)
    qed
  qed
qed

lemma success_sendable:
  assumes "writeDataFrameWithGate conn f gate = (n, started, None, conn')"
    and "length (df_data f) < 2 ^ 32"
  shows "sendable f"
proof -
  have "validateStreamFrameHeader (data_header f) = None"
    using assms(1)
    by (auto simp: writeDataFrameWithGate_def EncodeStreamFrameHeader_def data_header_def
        frameHeaderSize_def split: if_splits option.splits)
  then have "(of_nat (length (df_data f)) :: u32) \<noteq> 0" "(of_nat (length (df_data f)) :: u32) \<le> MaxStreamFramePayload"
    by (auto simp: validateStreamFrameHeader_def data_header_def split: if_splits)
  then show ?thesis
    using assms(2) by (auto simp: sendable_def word_le_nat_alt unat_of_nat)
qed

section \<open>Properties\<close>

definition example_data :: dataFrame where
  "example_data = \<lparr>df_seq = 5, df_data = [10, 20, 30]\<rparr>"

definition example_carrier :: writer where
  "example_carrier = \<lparr>written = [], script = []\<rparr>"

lemma example_data_sendable [simp]: "sendable example_data"
  by (simp add: sendable_def example_data_def MaxStreamFramePayload_def)

lemma example_data_written:
  "writeDataFrameWithGate example_carrier example_data None
     = (16, True, None, \<lparr>written = data_wire example_data, script = []\<rparr>)"
  using data_frame_encoded [OF example_data_sendable]
  by (simp add: writeDataFrameWithGate_def startLeg_Write_def example_carrier_def data_wire_def
      frameHeaderSize_def StreamFrameHeaderSize_def) (simp add: example_data_def)

text \<open>C20: a DATA frame whose write succeeded is on the carrier in full, and the peer's
  \<open>readWireFrame\<close> reads exactly that sequence number and payload, leaving the bytes behind it.\<close>

theorem data_frame_delivered:
  assumes "writeDataFrameWithGate conn f gate = (n, started, None, conn')"
    and "length (df_data f) < 2 ^ 32"
  shows "\<exists>wire. written conn' = written conn @ wire \<and> n = length wire \<and>
           readWireFrame \<lparr>avail = wire @ rest, atEnd = e\<rparr>
             = Inr (\<lparr>wf_typ = StreamFrameData, wf_seq = df_seq f, wf_data = df_data f\<rparr>,
                    \<lparr>avail = rest, atEnd = e\<rparr>)"
proof -
  have s: "sendable f" by (rule success_sendable [OF assms])
  from assms(1) s have "written conn' = written conn @ data_wire f \<and> n = length (data_wire f)"
    by (cases rule: writeDataFrame_cases) (auto simp: data_wire_def frameHeaderSize_def StreamFrameHeaderSize_def)
  with readWireFrame_data [OF s] show ?thesis by blast
qed

theorem data_frame_delivered_witness:
  "\<exists>wire. data_wire example_data = [] @ wire \<and> 16 = length wire \<and>
     readWireFrame \<lparr>avail = wire @ [9], atEnd = EOF\<rparr>
       = Inr (\<lparr>wf_typ = StreamFrameData, wf_seq = 5, wf_data = [10, 20, 30]\<rparr>, \<lparr>avail = [9], atEnd = EOF\<rparr>)"
  using data_frame_delivered [OF example_data_written, of "[9]" EOF]
  by (simp add: example_data_def example_carrier_def)

lemma example_data_cut:
  "writeDataFrameWithGate \<lparr>written = [7], script = [(16, None), (2, Some EOF)]\<rparr> example_data (Some None)
     = (15, True, Some (IOErr EOF), \<lparr>written = 7 # take 15 (data_wire example_data), script = []\<rparr>)"
  using data_frame_encoded [OF example_data_sendable]
  by (simp add: writeDataFrameWithGate_def startLeg_Write_def data_wire_def
      frameHeaderSize_def StreamFrameHeaderSize_def Write_def) (simp add: example_data_def)

lemma example_data_gated:
  "writeDataFrameWithGate \<lparr>written = [7], script = []\<rparr> example_data (Some (Some (IOErr EOF)))
     = (0, False, Some (IOErr EOF), \<lparr>written = [7], script = []\<rparr>)"
  using data_frame_encoded [OF example_data_sendable]
  by (simp add: writeDataFrameWithGate_def startLeg_Write_def)

text \<open>C21: however a DATA write ends, a carrier that follows the \<open>io.Writer\<close> contract holds exactly the
  first \<open>n\<close> bytes of the frame, where \<open>n\<close> is the returned count, \<open>streamDataPayloadAccepted\<close> is the
  number of payload bytes among them, and a write without error took the whole frame. A gate that
  refuses leaves the carrier as it was: nothing is written, the write does not count as started, and the
  error of the gate is returned.\<close>

theorem data_write_accounting:
  assumes "writeDataFrameWithGate conn f gate = (n, started, err, conn')"
    and "sendable f" and "honest_carrier (frameHeaderSize + length (df_data f)) conn"
  shows "written conn' = written conn @ take n (data_wire f)
    \<and> streamDataPayloadAccepted (int n) (int (length (df_data f)))
        = of_nat (length (drop frameHeaderSize (take n (data_wire f))))
    \<and> (err = None \<longrightarrow> n = length (data_wire f))
    \<and> (if \<exists>e. gate = Some (Some e) then conn' = conn \<and> n = 0 \<and> \<not> started \<and> err = the gate else started)"
proof -
  have "\<exists>k m. n = k + m \<and> m \<le> length (df_data f) \<and> k \<le> frameHeaderSize \<and> (0 < m \<longrightarrow> k = frameHeaderSize)
    \<and> written conn' = written conn @ take k (header_bytes (data_header f)) @ take m (df_data f)"
    using assms(1,2)
  proof (cases rule: writeDataFrame_cases)
    case (header_failed k)
    then show ?thesis by (intro exI [of _ k] exI [of _ 0]) simp
  next
    case (payload k m)
    with assms(3) show ?thesis by blast
  qed auto
  moreover have "err = None \<longrightarrow> n = length (data_wire f)"
    using assms(1,2) data_header_length [of f] by (cases rule: writeDataFrame_cases) (auto simp: data_wire_def)
  moreover have "if \<exists>e. gate = Some (Some e) then conn' = conn \<and> n = 0 \<and> \<not> started \<and> err = the gate else started"
  proof (cases "\<exists>e. gate = Some (Some e)")
    case True
    then show ?thesis
      using assms(1) unfolding writeDataFrameWithGate_def data_frame_encoded [OF assms(2)] by (auto simp: startLeg_Write_def)
  next
    case False
    with assms(1,2) show ?thesis by (cases rule: writeDataFrame_cases) auto
  qed
  ultimately show ?thesis
    using data_header_length [of f] by (auto simp: data_wire_def streamDataPayloadAccepted_def Let_def)
qed

theorem data_write_accounting_witness:
  "written \<lparr>written = 7 # take 15 (data_wire example_data), script = []\<rparr> = [7] @ take 15 (data_wire example_data)
   \<and> streamDataPayloadAccepted 15 3 = 2
   \<and> fst (writeDataFrameWithGate \<lparr>written = [7], script = []\<rparr> example_data (Some (Some (IOErr EOF)))) = 0"
proof -
  have "honest_carrier (frameHeaderSize + length (df_data example_data)) \<lparr>written = [7], script = [(16, None), (2, Some EOF)]\<rparr>"
    "honest_carrier (frameHeaderSize + length (df_data example_data)) \<lparr>written = [7], script = []\<rparr>"
    by (simp_all add: honest_carrier_def example_data_def frameHeaderSize_def StreamFrameHeaderSize_def)
  from data_write_accounting [OF example_data_cut example_data_sendable this(1)]
    data_write_accounting [OF example_data_gated example_data_sendable this(2)]
  show ?thesis
    unfolding example_data_gated by (simp add: example_data_def data_wire_def frameHeaderSize_def StreamFrameHeaderSize_def)
qed

end
