(* ===== verification/Stream_RX.thy ===== *)
theory Stream_RX
  imports Stream_Wire "HOL-Library.Sublist"
begin

text \<open>
  The receiving side of a stream: the reorder window of \<open>core/stream_rx.go\<close> (\<open>StreamRXWindow\<close>) and
  the engine's \<open>rxLoop\<close> (\<open>core/stream_engine.go\<close>), which classifies each incoming DATA frame,
  delivers contiguous payloads to the application pipe and requests cumulative ACKs.
\<close>

datatype StreamRXDisposition =
  StreamRXReady | StreamRXBuffered | StreamRXDuplicate | StreamRXBufferedDuplicate

record StreamRXFrame =
  rx_Sequence :: u64
  rx_Leg :: LegID
  rx_Payload :: bytes

record StreamRXWindow =
  expected :: u64
  pending :: "(u64, StreamRXFrame) gomap"
  pendingBytes :: u64
  gapExpected :: u64
  gapSince :: gotime
  maxReorderFrames :: int
  readyPending :: bool

definition NewStreamRXWindow :: "int \<Rightarrow> StreamRXWindow" where
  "NewStreamRXWindow n =
     \<lparr>expected = 0, pending = [], pendingBytes = 0, gapExpected = 0, gapSince = 0,
      maxReorderFrames = n, readyPending = False\<rparr>"

definition refreshGap :: "gotime \<Rightarrow> StreamRXWindow \<Rightarrow> StreamRXWindow" where
  "refreshGap now w =
     (if length (pending w) = 0 then w\<lparr>gapExpected := expected w, gapSince := 0\<rparr>
      else if gapExpected w \<noteq> expected w \<or> IsZero (gapSince w)
      then w\<lparr>gapExpected := expected w, gapSince := now\<rparr>
      else w)"

definition Insert ::
  "StreamRXFrame \<Rightarrow> gotime \<Rightarrow> StreamRXWindow \<Rightarrow> (StreamRXDisposition \<times> smp3_error option) \<times> StreamRXWindow" where
  "Insert frame now w =
     (if rx_Sequence frame < expected w then ((StreamRXDuplicate, None), w)
      else if rx_Sequence frame = expected w then ((StreamRXReady, None), w\<lparr>readyPending := True\<rparr>)
      else if mget (pending w) (rx_Sequence frame) \<noteq> None then ((StreamRXBufferedDuplicate, None), w)
      else if int (length (pending w)) \<ge> maxReorderFrames w
      then ((StreamRXReady, Some ErrStreamRXReorderLimit), w)
      else ((StreamRXBuffered, None),
            refreshGap now
              (w\<lparr>pending := mput (rx_Sequence frame) frame (pending w),
                 pendingBytes := pendingBytes w + of_nat (length (rx_Payload frame))\<rparr>)))"

definition CommitReady :: "gotime \<Rightarrow> StreamRXWindow \<Rightarrow> StreamRXWindow" where
  "CommitReady now w =
     (if \<not> readyPending w then w
      else let w1 = w\<lparr>readyPending := False, expected := expected w + 1\<rparr>
           in if mget (pending w1) (expected w1) = None then refreshGap now w1 else w1)"

definition PopContiguous :: "StreamRXWindow \<Rightarrow> StreamRXFrame option \<times> StreamRXWindow" where
  "PopContiguous w =
     (if readyPending w then (None, w)
      else case mget (pending w) (expected w) of
        None \<Rightarrow> (None, w)
      | Some frame \<Rightarrow>
          (Some frame,
           w\<lparr>pending := mdel (expected w) (pending w),
             pendingBytes := pendingBytes w - of_nat (length (rx_Payload frame)),
             readyPending := True\<rparr>))"

definition DrainPending :: "StreamRXWindow \<Rightarrow> StreamRXFrame list \<times> StreamRXWindow" where
  "DrainPending w =
     (map snd (pending w),
      w\<lparr>pending := [], pendingBytes := 0, gapExpected := expected w, gapSince := 0,
        readyPending := False\<rparr>)"

section \<open>The engine's receive loop\<close>

text \<open>
  The part of \<open>StreamEngine\<close> that \<open>rxLoop\<close> reads and writes. \<open>time.Now()\<close> is the clock \<open>clk\<close>, read
  \<open>ticks\<close> times so far. \<open>running\<close> is false once \<open>rxLoop\<close> has returned; \<open>failure\<close> is the argument of
  \<open>fail\<close>.
\<close>

record rx_engine =
  window :: StreamRXWindow
  pipe :: writer
  ticks :: nat
  ackNext :: u64
  ackForce :: bool
  closing :: bool
  running :: bool
  failure :: "smp3_error option"
  rxDeliveredBytes :: u64
  rxUniqueBytes :: "u64 list"
  debugRXHighest :: u64
  debugRXExpected :: u64
  rxPendingFrames :: nat
  rxMaxPendingFrames :: nat
  rxPendingBytes :: u64
  rxGapSinceUnixNs :: u64
  rxMaxGapAgeNs :: int

text \<open>The compare-and-swap loops of \<open>advanceAtomicUint64Max\<close> and \<open>requestAck\<close> store the maximum.\<close>

definition advanceAtomicUint64Max :: "u64 \<Rightarrow> u64 \<Rightarrow> u64" where
  "advanceAtomicUint64Max old next = (if next \<le> old then old else next)"

definition requestAck :: "u64 \<Rightarrow> rx_engine \<Rightarrow> rx_engine" where
  "requestAck next c = c\<lparr>ackNext := (if next \<le> ackNext c then ackNext c else next)\<rparr>"

definition forceAck :: "rx_engine \<Rightarrow> rx_engine" where
  "forceAck c = c\<lparr>ackForce := True\<rparr>"

definition syncRXStatsFromWindow :: "(nat \<Rightarrow> gotime) \<Rightarrow> rx_engine \<Rightarrow> rx_engine" where
  "syncRXStatsFromWindow clk c =
     (let w = window c; n = length (pending w);
          c1 = c\<lparr>rxPendingFrames := n, rxMaxPendingFrames := max n (rxMaxPendingFrames c),
                 rxPendingBytes := pendingBytes w\<rparr>
      in if IsZero (gapSince w) then c1\<lparr>rxGapSinceUnixNs := 0\<rparr>
         else let age = Sub (clk (ticks c)) (gapSince w)
              in c1\<lparr>rxGapSinceUnixNs := UnixNano (gapSince w), ticks := Suc (ticks c),
                    rxMaxGapAgeNs := (if age > 0 then max age (rxMaxGapAgeNs c) else rxMaxGapAgeNs c)\<rparr>)"

definition addUnique :: "LegID \<Rightarrow> nat \<Rightarrow> rx_engine \<Rightarrow> rx_engine" where
  "addUnique leg n c =
     (if unat leg < length (rxUniqueBytes c)
      then c\<lparr>rxUniqueBytes := (rxUniqueBytes c)[unat leg := rxUniqueBytes c ! unat leg + of_nat n]\<rparr>
      else c)"

text \<open>The deferred function of \<open>rxLoop\<close>: drop what the window retains, then stop.\<close>

definition rxExit :: "(nat \<Rightarrow> gotime) \<Rightarrow> rx_engine \<Rightarrow> rx_engine" where
  "rxExit clk c =
     (syncRXStatsFromWindow clk (c\<lparr>window := snd (DrainPending (window c))\<rparr>))\<lparr>running := False\<rparr>"

lemma PopContiguous_shrinks:
  "PopContiguous w = (Some f, w') \<Longrightarrow> length (pending w') < length (pending w)"
proof -
  have "mget m k = Some v \<Longrightarrow> length (mdel k m) < length m" for m :: "('a, 'b) gomap" and k v
  proof (induction m)
    case (Cons p m)
    have "length (mdel k m) \<le> length m" by (simp add: AList.delete_eq)
    with Cons show ?case by (cases p) (auto split: if_splits)
  qed simp
  then show "PopContiguous w = (Some f, w') \<Longrightarrow> length (pending w') < length (pending w)"
    by (auto simp: PopContiguous_def split: if_splits option.splits)
qed

lemma refreshGap_frame [simp]:
  "pending (refreshGap now w) = pending w" "expected (refreshGap now w) = expected w"
  "pendingBytes (refreshGap now w) = pendingBytes w" "readyPending (refreshGap now w) = readyPending w"
  "maxReorderFrames (refreshGap now w) = maxReorderFrames w"
  by (simp_all add: refreshGap_def)

lemma CommitReady_pending [simp]: "pending (CommitReady now w) = pending w"
  by (simp add: CommitReady_def Let_def)

lemma sync_frame [simp]:
  "window (syncRXStatsFromWindow clk c) = window c" "pipe (syncRXStatsFromWindow clk c) = pipe c"
  "ackNext (syncRXStatsFromWindow clk c) = ackNext c" "running (syncRXStatsFromWindow clk c) = running c"
  "failure (syncRXStatsFromWindow clk c) = failure c" "closing (syncRXStatsFromWindow clk c) = closing c"
  "rxDeliveredBytes (syncRXStatsFromWindow clk c) = rxDeliveredBytes c"
  "ackForce (syncRXStatsFromWindow clk c) = ackForce c"
  by (simp_all add: syncRXStatsFromWindow_def Let_def)

text \<open>The delivery loop: write the frame to the application pipe, commit it, take the next
  contiguous frame. It stops at a pipe error or when no contiguous frame is left.\<close>

function rxDeliver :: "(nat \<Rightarrow> gotime) \<Rightarrow> StreamRXFrame \<Rightarrow> rx_engine \<Rightarrow> rx_engine" where
  "rxDeliver clk f c =
     (case writeAll (pipe c) (rx_Payload f) of
        (Some err, p) \<Rightarrow>
          let c1 = c\<lparr>pipe := p, ticks := ticks c + 2\<rparr>
          in rxExit clk (if closing c then c1 else c1\<lparr>failure := Some (IOErr err)\<rparr>)
      | (None, p) \<Rightarrow>
          let now = clk (ticks c + 2);
              c1 = c\<lparr>pipe := p, ticks := ticks c + 3,
                     rxDeliveredBytes := rxDeliveredBytes c + of_nat (length (rx_Payload f)),
                     window := CommitReady now (window c)\<rparr>
          in case PopContiguous (window c1) of
               (next, w) \<Rightarrow>
                 let c2 = syncRXStatsFromWindow clk (c1\<lparr>window := w\<rparr>)
                 in case next of
                      None \<Rightarrow> requestAck (expected (window c2)) c2
                    | Some f' \<Rightarrow> rxDeliver clk f' c2)"
  by pat_completeness auto
termination
  by (relation "measure (\<lambda>(clk, f, c). length (pending (window c)))")
    (auto dest!: PopContiguous_shrinks [OF sym])

declare rxDeliver.simps [simp del]

text \<open>One iteration of \<open>rxLoop\<close> on a frame taken from the \<open>incoming\<close> channel.\<close>

definition rxStep :: "(nat \<Rightarrow> gotime) \<Rightarrow> StreamRXFrame \<Rightarrow> rx_engine \<Rightarrow> rx_engine" where
  "rxStep clk frame c =
     (if \<not> running c then c
      else let c0 = c\<lparr>debugRXHighest := advanceAtomicUint64Max (debugRXHighest c) (rx_Sequence frame),
                      ticks := Suc (ticks c)\<rparr>
           in case Insert frame (clk (ticks c)) (window c) of
                ((disposition, err), w) \<Rightarrow>
                  let c1 = c0\<lparr>window := w, debugRXExpected := expected w\<rparr>
                  in case err of
                       Some e \<Rightarrow> rxExit clk (c1\<lparr>failure := Some e\<rparr>)
                     | None \<Rightarrow>
                         (case disposition of
                            StreamRXDuplicate \<Rightarrow> forceAck c1
                          | StreamRXBufferedDuplicate \<Rightarrow> c1
                          | StreamRXBuffered \<Rightarrow>
                              syncRXStatsFromWindow clk
                                (addUnique (rx_Leg frame) (length (rx_Payload frame)) c1)
                          | StreamRXReady \<Rightarrow>
                              rxDeliver clk frame
                                (addUnique (rx_Leg frame) (length (rx_Payload frame)) c1)))"

definition newRX :: "int \<Rightarrow> nat \<Rightarrow> writer \<Rightarrow> rx_engine" where
  "newRX maxReorder legs p =
     \<lparr>window = NewStreamRXWindow maxReorder, pipe = p, ticks = 0, ackNext = 0, ackForce = False,
      closing = False, running = True, failure = None, rxDeliveredBytes = 0,
      rxUniqueBytes = replicate legs 0, debugRXHighest = 0, debugRXExpected = 0,
      rxPendingFrames = 0, rxMaxPendingFrames = 0, rxPendingBytes = 0, rxGapSinceUnixNs = 0,
      rxMaxGapAgeNs = 0\<rparr>"

section \<open>Invariants of the window\<close>

definition payload_bytes :: "(u64, StreamRXFrame) gomap \<Rightarrow> nat" where
  "payload_bytes m = msum (\<lambda>_ f. length (rx_Payload f)) m"

text \<open>Retained frames sit under their own sequence number, never below the frontier; the byte
  counter is exact; the configured limit holds; a frame in delivery is not retained.\<close>

definition rx_wf :: "StreamRXWindow \<Rightarrow> bool" where
  "rx_wf w \<longleftrightarrow>
     mwf (pending w)
     \<and> (\<forall>k f. mget (pending w) k = Some f \<longrightarrow> rx_Sequence f = k \<and> expected w \<le> k)
     \<and> pendingBytes w = of_nat (payload_bytes (pending w))
     \<and> int (length (pending w)) \<le> max 0 (maxReorderFrames w)
     \<and> (readyPending w \<longrightarrow> mget (pending w) (expected w) = None)"

text \<open>Between two frames nothing contiguous is retained, and the gap record names the frontier.\<close>

definition settled :: "StreamRXWindow \<Rightarrow> bool" where
  "settled w \<longleftrightarrow>
     rx_wf w \<and> \<not> readyPending w \<and> mget (pending w) (expected w) = None
     \<and> (pending w = [] \<longrightarrow> gapSince w = 0) \<and> (pending w \<noteq> [] \<longrightarrow> gapExpected w = expected w)"

lemma payload_bytes_Nil [simp]: "payload_bytes [] = 0"
  by (simp add: payload_bytes_def)

lemma payload_bytes_new:
  "mget m k = None \<Longrightarrow> payload_bytes (mput k f m) = length (rx_Payload f) + payload_bytes m"
  by (simp add: payload_bytes_def msum_update_new)

lemma payload_bytes_delete:
  "mwf m \<Longrightarrow> mget m k = Some f \<Longrightarrow> length (rx_Payload f) + payload_bytes (mdel k m) = payload_bytes m"
  using msum_delete [of m k f "\<lambda>_ f. length (rx_Payload f)"] by (simp add: payload_bytes_def)

lemma settled_new [simp]: "settled (NewStreamRXWindow n)"
  by (simp add: settled_def rx_wf_def NewStreamRXWindow_def)

lemma rx_wf_CommitReady:
  assumes "rx_wf w" and "readyPending w"
  shows "rx_wf (CommitReady now w)"
proof -
  have "expected w + 1 \<le> k" if "mget (pending w) k = Some f" for k f
  proof -
    from that assms have "expected w \<le> k" "k \<noteq> expected w" by (auto simp: rx_wf_def)
    then show ?thesis by (intro word_Suc_le) simp
  qed
  with assms show ?thesis by (auto simp: rx_wf_def CommitReady_def Let_def)
qed

lemma CommitReady_frame:
  "readyPending w \<Longrightarrow> expected (CommitReady now w) = expected w + 1"
  "readyPending w \<Longrightarrow> \<not> readyPending (CommitReady now w)"
  "maxReorderFrames (CommitReady now w) = maxReorderFrames w"
  by (simp_all add: CommitReady_def Let_def)

lemma rx_wf_PopContiguous:
  assumes "rx_wf w" and "PopContiguous w = (Some f, w')"
  shows "rx_wf w' \<and> readyPending w' \<and> rx_Sequence f = expected w \<and> expected w' = expected w
         \<and> mget (pending w) (expected w) = Some f \<and> pending w' = mdel (expected w) (pending w)"
proof -
  from assms(2) have f: "mget (pending w) (expected w) = Some f"
    and w': "w' = w\<lparr>pending := mdel (expected w) (pending w),
               pendingBytes := pendingBytes w - of_nat (length (rx_Payload f)), readyPending := True\<rparr>"
    by (auto simp: PopContiguous_def split: if_splits option.splits)
  from assms(1) have wf: "mwf (pending w)" by (simp add: rx_wf_def)
  have "pendingBytes w - of_nat (length (rx_Payload f)) = of_nat (payload_bytes (mdel (expected w) (pending w)))"
    using assms(1) payload_bytes_delete [OF wf f] by (metis add_diff_cancel_left' of_nat_add rx_wf_def)
  moreover have "length (mdel (expected w) (pending w)) \<le> length (pending w)"
    using length_delete_present [OF wf f] by simp
  ultimately show ?thesis using assms(1) f w' by (auto simp: rx_wf_def)
qed

lemma settled_after_delivery:
  assumes "rx_wf w" and "readyPending w" and "PopContiguous (CommitReady now w) = (None, w')"
  shows "settled w' \<and> w' = CommitReady now w"
proof -
  let ?w = "CommitReady now w"
  have n: "mget (pending w) (expected w + 1) = None" and w': "w' = ?w"
    using assms by (auto simp: PopContiguous_def CommitReady_frame split: option.splits)
  moreover have "gapSince ?w = 0" if "pending w = []"
    using that assms(2) by (simp add: CommitReady_def Let_def refreshGap_def)
  moreover have "gapExpected ?w = expected ?w" if "pending w \<noteq> []"
    using that n assms(2) by (simp add: CommitReady_def Let_def refreshGap_def)
  ultimately show ?thesis
    using rx_wf_CommitReady [OF assms(1,2), of now] assms(2) by (simp add: settled_def CommitReady_frame)
qed

lemma rx_wf_refreshGap [simp]: "rx_wf (refreshGap now w) = rx_wf w"
  by (simp add: rx_wf_def)

lemma gapExpected_refreshGap [simp]: "gapExpected (refreshGap now w) = expected w"
  by (simp add: refreshGap_def)

lemma settled_Buffered:
  assumes "settled w" and "Insert f now w = ((StreamRXBuffered, None), w')"
  shows "settled w' \<and> expected w' = expected w \<and> maxReorderFrames w' = maxReorderFrames w
         \<and> pending w' = mput (rx_Sequence f) f (pending w)
         \<and> mget (pending w) (rx_Sequence f) = None \<and> expected w < rx_Sequence f"
proof -
  let ?w = "w\<lparr>pending := mput (rx_Sequence f) f (pending w),
              pendingBytes := pendingBytes w + of_nat (length (rx_Payload f))\<rparr>"
  from assms(2) have lt: "expected w < rx_Sequence f" and n: "mget (pending w) (rx_Sequence f) = None"
    and lim: "int (length (pending w)) < maxReorderFrames w" and w': "w' = refreshGap now ?w"
    by (auto simp: Insert_def split: if_splits)
  have ne: "pending ?w \<noteq> []" using length_update_new [OF n, of f] by auto
  have "rx_wf ?w"
    using assms(1) lt lim length_update_new [OF n, of f] payload_bytes_new [OF n, of f]
    by (auto simp: settled_def rx_wf_def add.commute split: if_splits)
  moreover have "rx_Sequence f \<noteq> expected w" using lt by auto
  ultimately have "settled w'"
    using assms(1) ne by (simp add: w' settled_def)
  then show ?thesis using lt n w' by simp
qed

lemma settled_Ready:
  assumes "settled w" and "Insert f now w = ((StreamRXReady, None), w')"
  shows "rx_wf w' \<and> readyPending w' \<and> expected w' = expected w \<and> pending w' = pending w
         \<and> rx_Sequence f = expected w \<and> maxReorderFrames w' = maxReorderFrames w"
  using assms by (auto simp: Insert_def settled_def rx_wf_def split: if_splits)

lemma Insert_unchanged:
  assumes "Insert f now w = ((d, err), w')"
    and "d = StreamRXDuplicate \<or> d = StreamRXBufferedDuplicate \<or> err \<noteq> None"
  shows "w' = w"
  using assms by (auto simp: Insert_def split: if_splits)

section \<open>What the receive loop delivers\<close>

text \<open>
  \<open>rx_ok sent c\<close>: with \<open>sent\<close> the payloads of the peer in sequence order, the application has
  received a prefix of the byte stream that ends at the frontier (plus, once the loop has stopped on
  a pipe error, a part of the next payload), retained frames carry the payloads of their sequence
  numbers, and the requested ACK does not pass the frontier, which it names while the loop runs.
\<close>

definition retains :: "bytes list \<Rightarrow> (u64, StreamRXFrame) gomap \<Rightarrow> bool" where
  "retains sent m \<longleftrightarrow>
     (\<forall>k f. mget m k = Some f \<longrightarrow> unat k < length sent \<and> rx_Payload f = sent ! unat k)"

definition delivered :: "bytes list \<Rightarrow> rx_engine \<Rightarrow> bool" where
  "delivered sent c \<longleftrightarrow>
     (let n = unat (expected (window c))
      in unat (ackNext c) \<le> n \<and> n \<le> length sent
         \<and> prefix (concat (take n sent)) (written (pipe c)) \<and> prefix (written (pipe c)) (concat sent))"

definition rx_ok :: "bytes list \<Rightarrow> rx_engine \<Rightarrow> bool" where
  "rx_ok sent c \<longleftrightarrow>
     delivered sent c
     \<and> (running c \<longrightarrow> settled (window c) \<and> retains sent (pending (window c)) \<and> failure c = None
          \<and> written (pipe c) = concat (take (unat (expected (window c))) sent)
          \<and> ackNext c = expected (window c))"

text \<open>The loop is about to deliver \<open>f\<close>.\<close>

definition in_delivery :: "bytes list \<Rightarrow> StreamRXFrame \<Rightarrow> rx_engine \<Rightarrow> bool" where
  "in_delivery sent f c \<longleftrightarrow>
     running c \<and> failure c = None \<and> rx_wf (window c) \<and> readyPending (window c)
     \<and> retains sent (pending (window c))
     \<and> unat (expected (window c)) < length sent \<and> rx_Payload f = sent ! unat (expected (window c))
     \<and> written (pipe c) = concat (take (unat (expected (window c))) sent)
     \<and> unat (ackNext c) \<le> unat (expected (window c))"

lemma concat_take_Suc:
  "n < length xs \<Longrightarrow> concat (take (Suc n) xs) = concat (take n xs) @ xs ! n"
  by (simp add: take_Suc_conv_app_nth)

lemma prefix_concat_take: "prefix (concat (take n xs)) (concat xs)"
  by (metis append_take_drop_id concat_append prefixI)

lemma prefix_partial:
  assumes "n < length xs"
  shows "prefix (concat (take n xs) @ take k (xs ! n)) (concat xs)"
proof -
  have "prefix (concat (take n xs) @ take k (xs ! n)) (concat (take (Suc n) xs))"
    using assms by (simp add: concat_take_Suc take_is_prefix)
  with prefix_concat_take show ?thesis by (rule prefix_order.trans [rotated])
qed

lemma retains_delete: "retains sent m \<Longrightarrow> retains sent (mdel k m)"
  by (auto simp: retains_def)

lemma rxExit_frame [simp]:
  "expected (window (rxExit clk c)) = expected (window c)" "pipe (rxExit clk c) = pipe c"
  "ackNext (rxExit clk c) = ackNext c" "\<not> running (rxExit clk c)" "failure (rxExit clk c) = failure c"
  by (simp_all add: rxExit_def DrainPending_def)

lemma rx_ok_exit: "delivered sent c \<Longrightarrow> rx_ok sent (rxExit clk c)"
  by (simp add: rx_ok_def delivered_def)

lemma requestAck_frame [simp]:
  "window (requestAck n c) = window c" "pipe (requestAck n c) = pipe c"
  "running (requestAck n c) = running c" "failure (requestAck n c) = failure c"
  by (simp_all add: requestAck_def)

lemma deliver_failed:
  assumes "in_delivery sent f c" and "writeAll (pipe c) (rx_Payload f) = (Some err, p)"
  shows "rx_ok sent (rxDeliver clk f c) \<and> \<not> running (rxDeliver clk f c)
         \<and> expected (window (rxDeliver clk f c)) = expected (window c)"
proof -
  let ?n = "unat (expected (window c))"
  from writeAll_written [OF assms(2)] assms(1) obtain k
    where k: "written p = concat (take ?n sent) @ take k (sent ! ?n)"
    by (auto simp: in_delivery_def)
  have D: "delivered sent c'" if "window c' = window c" "ackNext c' = ackNext c" "pipe c' = p" for c'
    using that assms(1) k prefix_partial [of ?n sent k] by (auto simp: delivered_def in_delivery_def Let_def)
  show ?thesis
    using assms(2) by (auto simp: rxDeliver.simps [of clk f c] Let_def intro!: rx_ok_exit D)
qed

text \<open>The state after a frame was written, committed and the next one looked for.\<close>

definition committed :: "(nat \<Rightarrow> gotime) \<Rightarrow> StreamRXFrame \<Rightarrow> writer \<Rightarrow> rx_engine \<Rightarrow> rx_engine" where
  "committed clk f p c =
     (let c1 = c\<lparr>pipe := p, ticks := ticks c + 3,
                 rxDeliveredBytes := rxDeliveredBytes c + of_nat (length (rx_Payload f)),
                 window := CommitReady (clk (ticks c + 2)) (window c)\<rparr>
      in syncRXStatsFromWindow clk (c1\<lparr>window := snd (PopContiguous (window c1))\<rparr>))"

lemma rxDeliver_committed:
  assumes "writeAll (pipe c) (rx_Payload f) = (None, p)"
  shows "rxDeliver clk f c =
    (case fst (PopContiguous (CommitReady (clk (ticks c + 2)) (window c))) of
       None \<Rightarrow> requestAck (expected (window (committed clk f p c))) (committed clk f p c)
     | Some f' \<Rightarrow> rxDeliver clk f' (committed clk f p c))"
  using assms
  by (simp add: rxDeliver.simps [of clk f c] committed_def Let_def case_prod_unfold split: option.splits)

lemma committed_frame [simp]:
  "pipe (committed clk f p c) = p" "ackNext (committed clk f p c) = ackNext c"
  "running (committed clk f p c) = running c" "failure (committed clk f p c) = failure c"
  "window (committed clk f p c)
     = snd (PopContiguous (CommitReady (clk (ticks c + 2)) (window c)))"
  by (simp_all add: committed_def Let_def)

lemma expected_committed:
  assumes "readyPending (window c)"
  shows "expected (window (committed clk f p c)) = expected (window c) + 1"
  using assms by (auto simp: PopContiguous_def CommitReady_frame split: option.splits)

lemma in_delivery_written:
  assumes "in_delivery sent f c" and "writeAll (pipe c) (rx_Payload f) = (None, p)"
  shows "written p = concat (take (Suc (unat (expected (window c)))) sent)"
  using assms writeAll_written [OF assms(2)] by (auto simp: in_delivery_def concat_take_Suc)

lemma committed_settles:
  assumes "in_delivery sent f c" and "writeAll (pipe c) (rx_Payload f) = (None, p)"
    and "length sent < 2 ^ 64"
    and "fst (PopContiguous (CommitReady (clk (ticks c + 2)) (window c))) = None"
  shows "rx_ok sent (requestAck (expected (window (committed clk f p c))) (committed clk f p c))"
proof -
  let ?w = "CommitReady (clk (ticks c + 2)) (window c)"
  from assms(1) have wf: "rx_wf (window c)" "readyPending (window c)" by (auto simp: in_delivery_def)
  from assms(4) have "PopContiguous ?w = (None, snd (PopContiguous ?w))"
    by (metis prod.collapse)
  from settled_after_delivery [OF wf this] have S: "settled ?w" and P: "snd (PopContiguous ?w) = ?w" by auto
  have e: "unat (expected (window c) + 1) = Suc (unat (expected (window c)))"
    using assms(1,3) by (intro unat_add_1) (auto simp: in_delivery_def)
  show ?thesis
    using assms(1) S P e in_delivery_written [OF assms(1,2)] prefix_concat_take [of _ sent] wf
    by (auto simp: rx_ok_def delivered_def in_delivery_def requestAck_def CommitReady_frame Let_def
        word_le_nat_alt)
qed

lemma committed_continues:
  assumes "in_delivery sent f c" and "writeAll (pipe c) (rx_Payload f) = (None, p)"
    and "length sent < 2 ^ 64"
    and "fst (PopContiguous (CommitReady (clk (ticks c + 2)) (window c))) = Some f'"
  shows "in_delivery sent f' (committed clk f p c)"
proof -
  let ?w = "CommitReady (clk (ticks c + 2)) (window c)"
  from assms(1) have wf: "rx_wf (window c)" "readyPending (window c)" by (auto simp: in_delivery_def)
  from assms(4) have "PopContiguous ?w = (Some f', snd (PopContiguous ?w))"
    by (metis prod.collapse)
  from rx_wf_PopContiguous [OF rx_wf_CommitReady [OF wf] this] wf
  have P: "rx_wf (snd (PopContiguous ?w))" "readyPending (snd (PopContiguous ?w))"
    "expected (snd (PopContiguous ?w)) = expected (window c) + 1"
    "mget (pending (window c)) (expected (window c) + 1) = Some f'"
    "pending (snd (PopContiguous ?w)) = mdel (expected (window c) + 1) (pending (window c))"
    by (auto simp: CommitReady_frame)
  have e: "unat (expected (window c) + 1) = Suc (unat (expected (window c)))"
    using assms(1,3) by (intro unat_add_1) (auto simp: in_delivery_def)
  have r: "retains sent (pending (window c))" using assms(1) by (simp add: in_delivery_def)
  show ?thesis
    using assms(1) P e r in_delivery_written [OF assms(1,2)] retains_delete [OF r]
    unfolding in_delivery_def committed_frame retains_def by (metis le_Suc_eq)
qed

lemma rxDeliver_ok:
  assumes "in_delivery sent f c" and "length sent < 2 ^ 64"
  shows "rx_ok sent (rxDeliver clk f c)
         \<and> (if running (rxDeliver clk f c)
            then unat (expected (window c)) < unat (expected (window (rxDeliver clk f c)))
            else unat (expected (window c)) \<le> unat (expected (window (rxDeliver clk f c))))"
  using assms
proof (induction "length (pending (window c))" arbitrary: f c rule: less_induct)
  case less
  let ?w = "CommitReady (clk (ticks c + 2)) (window c)"
  have ready: "readyPending (window c)" using less.prems by (simp add: in_delivery_def)
  have e: "unat (expected (window c) + 1) = Suc (unat (expected (window c)))"
    using less.prems by (intro unat_add_1) (auto simp: in_delivery_def)
  obtain err p where W: "writeAll (pipe c) (rx_Payload f) = (err, p)" by (meson surj_pair)
  show ?case
  proof (cases err)
    case (Some x)
    with W deliver_failed [OF less.prems(1)] show ?thesis by (metis order_refl)
  next
    case None
    note W = W [unfolded None]
    show ?thesis
    proof (cases "fst (PopContiguous ?w)")
      case None
      then show ?thesis
        using committed_settles [where clk = clk, OF less.prems(1) W less.prems(2) None] e
          expected_committed [OF ready, of clk f p]
        by (simp add: rxDeliver_committed [OF W])
    next
      case (Some f')
      have "length (pending (window (committed clk f p c))) < length (pending (window c))"
        using Some PopContiguous_shrinks [of ?w f'] by (metis CommitReady_pending committed_frame(5) prod.collapse)
      from less.hyps [OF this committed_continues [where clk = clk, OF less.prems(1) W less.prems(2) Some] less.prems(2)]
      show ?thesis
        using Some e expected_committed [OF ready, of clk f p]
        by (auto simp: rxDeliver_committed [OF W] split: if_splits)
    qed
  qed
qed

lemma addUnique_frame [simp]:
  "window (addUnique l n c) = window c" "pipe (addUnique l n c) = pipe c" "ackNext (addUnique l n c) = ackNext c"
  "running (addUnique l n c) = running c" "failure (addUnique l n c) = failure c"
  by (simp_all add: addUnique_def)

text \<open>\<open>rxStep\<close> by the disposition of its frame; \<open>c1\<close> differs from \<open>c\<close> only in counters.\<close>

lemma rxStep_cases:
  assumes "running c" and "settled (window c)"
  obtains (same) c1 where "rxStep clk f c = c1" "window c1 = window c" "pipe c1 = pipe c"
      "ackNext c1 = ackNext c" "running c1" "failure c1 = failure c"
      "rx_Sequence f < expected (window c) \<or> mget (pending (window c)) (rx_Sequence f) \<noteq> None"
  | (limit) c1 where "rxStep clk f c = rxExit clk c1" "window c1 = window c" "pipe c1 = pipe c"
      "ackNext c1 = ackNext c" "maxReorderFrames (window c) \<le> int (length (pending (window c)))"
      "expected (window c) < rx_Sequence f" "mget (pending (window c)) (rx_Sequence f) = None"
  | (buffered) c1 where "rxStep clk f c = c1" "settled (window c1)" "pipe c1 = pipe c"
      "ackNext c1 = ackNext c" "running c1" "failure c1 = failure c"
      "expected (window c1) = expected (window c)"
      "pending (window c1) = mput (rx_Sequence f) f (pending (window c))"
      "maxReorderFrames (window c1) = maxReorderFrames (window c)"
  | (ready) c1 where "rxStep clk f c = rxDeliver clk f c1" "rx_wf (window c1)" "readyPending (window c1)"
      "pipe c1 = pipe c" "ackNext c1 = ackNext c" "running c1" "failure c1 = failure c"
      "expected (window c1) = expected (window c)" "pending (window c1) = pending (window c)"
      "rx_Sequence f = expected (window c)" "maxReorderFrames (window c1) = maxReorderFrames (window c)"
proof -
  obtain d e w where I: "Insert f (clk (ticks c)) (window c) = ((d, e), w)" by (metis prod.collapse)
  define c0 where "c0 = c\<lparr>debugRXHighest := advanceAtomicUint64Max (debugRXHighest c) (rx_Sequence f),
                          ticks := Suc (ticks c), window := w, debugRXExpected := expected w\<rparr>"
  note D = rxStep_def [of clk f c, unfolded I Let_def, simplified] c0_def
  show thesis
  proof (cases "e = None")
    case False
    then have "w = window c" using Insert_unchanged [OF I] by simp
    with I False show thesis
      by (intro limit [of "c0\<lparr>failure := e\<rparr>"])
        (auto simp: D assms Insert_def split: if_splits)
  next
    case True
    show thesis
    proof (cases d)
      case StreamRXReady
      with settled_Ready [OF assms(2)] I True show thesis
        by (intro ready [of "addUnique (rx_Leg f) (length (rx_Payload f)) c0"]) (auto simp: D assms)
    next
      case StreamRXBuffered
      with settled_Buffered [OF assms(2)] I True show thesis
        by (intro buffered [OF refl]) (auto simp: D assms)
    next
      case StreamRXDuplicate
      with Insert_unchanged [OF I] I True show thesis
        by (intro same [OF refl]) (auto simp: D assms forceAck_def Insert_def split: if_splits)
    next
      case StreamRXBufferedDuplicate
      with Insert_unchanged [OF I] I True show thesis
        by (intro same [OF refl]) (auto simp: D assms Insert_def split: if_splits)
    qed
  qed
qed

lemma delivered_cong:
  "expected (window c1) = expected (window c) \<Longrightarrow> pipe c1 = pipe c \<Longrightarrow> ackNext c1 = ackNext c \<Longrightarrow>
     delivered sent c1 = delivered sent c"
  by (simp add: delivered_def)

definition carries :: "bytes list \<Rightarrow> StreamRXFrame \<Rightarrow> bool" where
  "carries sent f \<longleftrightarrow> unat (rx_Sequence f) < length sent \<and> rx_Payload f = sent ! unat (rx_Sequence f)"

lemma rx_ok_step:
  assumes "rx_ok sent c" and "carries sent f" and "length sent < 2 ^ 64"
  shows "rx_ok sent (rxStep clk f c)
         \<and> unat (expected (window c)) \<le> unat (expected (window (rxStep clk f c)))"
proof (cases "running c")
  case False
  then show ?thesis using assms(1) by (simp add: rxStep_def)
next
  case True
  with assms(1) have S: "settled (window c)" and R: "retains sent (pending (window c))"
    by (auto simp: rx_ok_def)
  from True S show ?thesis
  proof (cases rule: rxStep_cases [where f = f and clk = clk])
    case (same c1)
    with True assms(1) show ?thesis by (auto simp: rx_ok_def delivered_cong [of c1 c])
  next
    case (limit c1)
    with assms(1) have "delivered sent c1" by (auto simp: rx_ok_def delivered_cong [of c1 c])
    with limit show ?thesis by (simp add: rx_ok_exit)
  next
    case (buffered c1)
    moreover have "retains sent (pending (window c1))"
      using R assms(2) buffered by (auto simp: retains_def carries_def)
    ultimately show ?thesis using True assms(1) by (auto simp: rx_ok_def delivered_cong [of c1 c])
  next
    case (ready c1)
    with True assms R have "in_delivery sent f c1"
      by (auto simp: in_delivery_def rx_ok_def carries_def delivered_def Let_def)
    with rxDeliver_ok [OF this assms(3), of clk] ready show ?thesis by (auto split: if_splits)
  qed
qed

section \<open>Nothing that arrived is lost\<close>

text \<open>Sequence number \<open>k\<close> has arrived: it was delivered or is retained.\<close>

definition arrived :: "rx_engine \<Rightarrow> u64 \<Rightarrow> bool" where
  "arrived c k \<longleftrightarrow> k < expected (window c) \<or> mget (pending (window c)) k \<noteq> None"

text \<open>The loop runs, the pipe accepts everything, and no retained frame is further ahead of the
  frontier than the window is long.\<close>

definition roomy :: "rx_engine \<Rightarrow> bool" where
  "roomy c \<longleftrightarrow> running c \<and> script (pipe c) = []
     \<and> (\<forall>k. mget (pending (window c)) k \<noteq> None
           \<longrightarrow> int (unat k) \<le> int (unat (expected (window c))) + maxReorderFrames (window c))"

lemma writeAll_roomy: "script w = [] \<Longrightarrow> writeAll w buffer = (None, w\<lparr>written := written w @ buffer\<rparr>)"
  by (rule writeAll_silent)

lemma maxReorder_committed [simp]:
  "maxReorderFrames (snd (PopContiguous (CommitReady now w))) = maxReorderFrames w"
  by (simp add: PopContiguous_def CommitReady_frame split: option.splits)

lemma arrived_committed:
  assumes "in_delivery sent f c" and "length sent < 2 ^ 64" and "arrived c k \<or> k = expected (window c)"
    and "fst (PopContiguous (CommitReady (clk (ticks c + 2)) (window c))) = x"
  shows "arrived (committed clk f p c) k \<or> x \<noteq> None \<and> k = expected (window (committed clk f p c))"
proof -
  let ?e = "expected (window c)"
  from assms(1) have ready: "readyPending (window c)" by (simp add: in_delivery_def)
  have "unat (?e + 1) = Suc (unat ?e)"
    using assms(1,2) by (intro unat_add_1) (auto simp: in_delivery_def)
  then have "k < ?e + 1" if "k < ?e \<or> k = ?e"
    using that by (auto simp: word_less_nat_alt)
  with assms(3,4) ready show ?thesis
    by (auto simp: arrived_def PopContiguous_def CommitReady_frame split: option.splits if_splits)
qed

lemma rxDeliver_arrived:
  assumes "in_delivery sent f c" and "length sent < 2 ^ 64" and "script (pipe c) = []"
  shows "running (rxDeliver clk f c) \<and> script (pipe (rxDeliver clk f c)) = []
         \<and> maxReorderFrames (window (rxDeliver clk f c)) = maxReorderFrames (window c)
         \<and> (\<forall>k. arrived c k \<or> k = expected (window c) \<longrightarrow> arrived (rxDeliver clk f c) k)"
  using assms
proof (induction "length (pending (window c))" arbitrary: f c rule: less_induct)
  case less
  let ?w = "CommitReady (clk (ticks c + 2)) (window c)"
  define p where "p = (pipe c)\<lparr>written := written (pipe c) @ rx_Payload f\<rparr>"
  have W: "writeAll (pipe c) (rx_Payload f) = (None, p)"
    using less.prems(3) by (simp add: p_def writeAll_roomy)
  have run: "running c" using less.prems(1) by (simp add: in_delivery_def)
  have p: "script p = []" using less.prems(3) by (simp add: p_def)
  note A = arrived_committed [where clk = clk and p = p, OF less.prems(1,2)]
  show ?case
  proof (cases "fst (PopContiguous ?w)")
    case None
    have "arrived (committed clk f p c) k" if "arrived c k \<or> k = expected (window c)" for k
      using A [OF that None] by simp
    then show ?thesis using None run p by (simp add: rxDeliver_committed [OF W] arrived_def)
  next
    case (Some f')
    have "length (pending (window (committed clk f p c))) < length (pending (window c))"
      using Some PopContiguous_shrinks [of ?w f'] by (metis CommitReady_pending committed_frame(5) prod.collapse)
    from less.hyps [OF this committed_continues [where clk = clk, OF less.prems(1) W less.prems(2) Some] less.prems(2)] p
    show ?thesis using A Some
      by (simp add: rxDeliver_committed [OF W]) metis
  qed
qed

lemma rxDeliver_pending:
  assumes "script (pipe c) = []" and "mget (pending (window (rxDeliver clk f c))) k \<noteq> None"
  shows "mget (pending (window c)) k \<noteq> None"
  using assms
proof (induction "length (pending (window c))" arbitrary: f c rule: less_induct)
  case less
  let ?w = "CommitReady (clk (ticks c + 2)) (window c)"
  define p where "p = (pipe c)\<lparr>written := written (pipe c) @ rx_Payload f\<rparr>"
  have W: "writeAll (pipe c) (rx_Payload f) = (None, p)" and p: "script p = []"
    using less.prems(1) by (simp_all add: p_def writeAll_roomy)
  have sub: "mget (pending (window (committed clk f p c))) k \<noteq> None \<Longrightarrow> mget (pending (window c)) k \<noteq> None"
    by (auto simp: PopContiguous_def split: if_splits option.splits)
  show ?case
  proof (cases "fst (PopContiguous ?w)")
    case None
    with less.prems(2) sub show ?thesis by (simp add: rxDeliver_committed [OF W])
  next
    case (Some f')
    have "length (pending (window (committed clk f p c))) < length (pending (window c))"
      using Some PopContiguous_shrinks [of ?w f'] by (metis CommitReady_pending committed_frame(5) prod.collapse)
    from less.hyps [OF this, of f'] less.prems(2) Some sub p show ?thesis
      by (simp add: rxDeliver_committed [OF W])
  qed
qed

lemma retained_within:
  assumes "settled w" and "mget (pending w) s = None" and "expected w < s"
    and "\<And>k. k = s \<or> mget (pending w) k \<noteq> None \<Longrightarrow> int (unat k) \<le> int (unat (expected w)) + m"
  shows "int (length (pending w)) < m"
proof -
  let ?ks = "s # map fst (pending w)" and ?e = "unat (expected w)"
  have key: "k = s \<or> mget (pending w) k \<noteq> None" if "k \<in> set ?ks" for k
    using that by (auto simp: map_of_eq_None_iff)
  have above: "?e < unat k" if "k \<in> set ?ks" for k
  proof (cases "k = s")
    case False
    with key [OF that] obtain f where "mget (pending w) k = Some f" by auto
    with assms(1) have "expected w \<le> k" "k \<noteq> expected w" unfolding settled_def rx_wf_def by auto
    then show ?thesis by (simp add: word_le_nat_alt le_neq_implies_less word_unat_eq_iff)
  qed (use assms(3) in \<open>simp add: word_less_nat_alt\<close>)
  have "unat k \<in> {?e<..?e + nat m}" if "k \<in> set ?ks" for k
    using above [OF that] assms(4) [OF key [OF that]] unfolding greaterThanAtMost_iff by linarith
  then have "unat ` set ?ks \<subseteq> {?e<..?e + nat m}" by blast
  then have "card (unat ` set ?ks) \<le> card {?e<..?e + nat m}" by (intro card_mono) simp_all
  moreover have "card (unat ` set ?ks) = card (set ?ks)" by (intro card_image inj_onI) (simp add: word_unat_eq_iff)
  moreover have "card (set ?ks) = length ?ks"
    using assms(1,2) unfolding settled_def rx_wf_def mwf_def by (intro distinct_card) (simp add: map_of_eq_None_iff)
  ultimately show ?thesis by simp
qed

section \<open>The contract of an ordered receiver\<close>

text \<open>
  What the rest of the transport relies on: taking a frame that carries a payload of the stream keeps
  the invariant and never moves the frontier back; the output is the stream up to the frontier (and
  a prefix of the stream at any time); the acknowledged position does not pass the frontier; more
  payloads on the sender's side do not disturb the receiver.
\<close>

locale ordered_receiver =
  fixes inv :: "bytes list \<Rightarrow> 'r \<Rightarrow> bool"
    and frontier :: "'r \<Rightarrow> nat"
    and acked :: "'r \<Rightarrow> nat"
    and out :: "'r \<Rightarrow> bytes"
    and carried :: "bytes list \<Rightarrow> 'f \<Rightarrow> bool"
    and receive :: "'f \<Rightarrow> 'r \<Rightarrow> 'r"
    and capacity :: nat
  assumes receive_inv: "inv sent r \<Longrightarrow> carried sent f \<Longrightarrow> length sent < capacity \<Longrightarrow> inv sent (receive f r)"
    and receive_frontier:
      "inv sent r \<Longrightarrow> carried sent f \<Longrightarrow> length sent < capacity \<Longrightarrow> frontier r \<le> frontier (receive f r)"
    and more_sent: "inv sent r \<Longrightarrow> inv (sent @ later) r"
    and more_carried: "carried sent f \<Longrightarrow> carried (sent @ later) f"
    and inv_frontier: "inv sent r \<Longrightarrow> frontier r \<le> length sent"
    and inv_acked: "inv sent r \<Longrightarrow> acked r \<le> frontier r"
    and inv_out: "inv sent r \<Longrightarrow> prefix (concat (take (frontier r) sent)) (out r) \<and> prefix (out r) (concat sent)"
begin

lemma receive_all:
  assumes "inv sent r" and "\<forall>f \<in> set fs. carried sent f" and "length sent < capacity"
  shows "inv sent (fold receive fs r) \<and> frontier r \<le> frontier (fold receive fs r)"
  using assms(1,2)
proof (induction fs arbitrary: r)
  case (Cons f fs)
  then have "inv sent (receive f r)" "frontier r \<le> frontier (receive f r)"
    using receive_inv receive_frontier assms(3) by auto
  with Cons.IH [of "receive f r"] Cons.prems(2) show ?case by auto
qed simp

lemma acked_delivered:
  assumes "inv sent r"
  shows "prefix (concat (take (acked r) sent)) (out r)"
proof -
  have "take (acked r) sent = take (acked r) (take (frontier r) sent)"
    using inv_acked [OF assms] by (simp add: min_def)
  then have "prefix (concat (take (acked r) sent)) (concat (take (frontier r) sent))"
    by (metis append_take_drop_id concat_append prefixI)
  with inv_out [OF assms] show ?thesis by (meson prefix_order.trans)
qed

end

lemma rx_ok_new: "written p = [] \<Longrightarrow> rx_ok sent (newRX n legs p)"
  by (simp add: rx_ok_def delivered_def newRX_def retains_def NewStreamRXWindow_def
      settled_new [unfolded NewStreamRXWindow_def])

lemma rx_ok_more:
  assumes "rx_ok sent c"
  shows "rx_ok (sent @ later) c"
proof -
  let ?n = "unat (expected (window c))"
  have "?n \<le> length sent" "prefix (written (pipe c)) (concat sent)"
    using assms by (auto simp: rx_ok_def delivered_def Let_def)
  moreover have "retains (sent @ later) m" if "retains sent m" for m
    using that by (fastforce simp: retains_def nth_append)
  ultimately show ?thesis
    using assms by (auto simp: rx_ok_def delivered_def Let_def)
qed

lemma carries_more: "carries sent f \<Longrightarrow> carries (sent @ later) f"
  by (auto simp: carries_def nth_append)

interpretation rxl: ordered_receiver
  rx_ok "\<lambda>c. unat (expected (window c))" "\<lambda>c. unat (ackNext c)" "\<lambda>c. written (pipe c)"
  carries "rxStep clk" "2 ^ 64" for clk
  by unfold_locales
    (auto simp: rx_ok_step rx_ok_more carries_more, auto simp: rx_ok_def delivered_def Let_def)

lemma rxStep_arrived:
  assumes "rx_ok sent c" and "carries sent f" and "length sent < 2 ^ 64" and "roomy c"
    and "expected (window c) < rx_Sequence f
      \<Longrightarrow> int (unat (rx_Sequence f)) \<le> int (unat (expected (window c))) + maxReorderFrames (window c)"
  shows "roomy (rxStep clk f c) \<and> arrived (rxStep clk f c) (rx_Sequence f)
         \<and> maxReorderFrames (window (rxStep clk f c)) = maxReorderFrames (window c)
         \<and> (\<forall>k. arrived c k \<longrightarrow> arrived (rxStep clk f c) k)"
proof -
  from assms(1,4) have run: "running c" and S: "settled (window c)" and R: "retains sent (pending (window c))"
    by (auto simp: rx_ok_def roomy_def)
  from run S show ?thesis
  proof (cases rule: rxStep_cases [where f = f and clk = clk])
    case (same c1)
    then show ?thesis using assms(4) by (auto simp: roomy_def arrived_def)
  next
    case (limit c1)
    have "int (length (pending (window c))) < maxReorderFrames (window c)"
      by (rule retained_within [OF S limit(7,6)]) (use assms(4,5) limit(6) in \<open>auto simp: roomy_def\<close>)
    with limit(5) show ?thesis by simp
  next
    case (buffered c1)
    have "rx_Sequence f = expected (window c) \<Longrightarrow> mget (pending (window c1)) (expected (window c1)) \<noteq> None"
      using buffered by simp
    then have ne: "rx_Sequence f \<noteq> expected (window c)" using buffered(2) by (auto simp: settled_def)
    have "mget (pending (window c1)) (rx_Sequence f) = Some f" using buffered by simp
    then have "expected (window c) \<le> rx_Sequence f" using buffered(2,7) unfolding settled_def rx_wf_def by metis
    with ne have "int (unat (rx_Sequence f)) \<le> int (unat (expected (window c))) + maxReorderFrames (window c)"
      using assms(5) by simp
    with buffered show ?thesis using assms(4) by (auto simp: roomy_def arrived_def)
  next
    case (ready c1)
    then have D: "in_delivery sent f c1" using run assms R
      by (auto simp: in_delivery_def rx_ok_def carries_def delivered_def Let_def)
    have up: "unat (expected (window c)) \<le> unat (expected (window (rxStep clk f c)))"
      by (rule rxl.receive_frontier [OF assms(1,2,3)])
    have script: "script (pipe c1) = []" using assms(4) ready(4) by (simp add: roomy_def)
    from rxDeliver_arrived [OF D assms(3) script, of clk]
    have A: "running (rxStep clk f c)" "script (pipe (rxStep clk f c)) = []"
      "maxReorderFrames (window (rxStep clk f c)) = maxReorderFrames (window c)"
      "arrived (rxStep clk f c) (rx_Sequence f)" "\<And>k. arrived c k \<Longrightarrow> arrived (rxStep clk f c) k"
      unfolding ready(1) arrived_def [of c] arrived_def [of c1] ready(8-11) by blast+
    have "int (unat k) \<le> int (unat (expected (window (rxStep clk f c)))) + maxReorderFrames (window c)"
      if "mget (pending (window (rxStep clk f c))) k \<noteq> None" for k
    proof -
      have "mget (pending (window c)) k \<noteq> None"
        using rxDeliver_pending [OF script, of clk f k] that unfolding ready(1,9) by blast
      with assms(4) have "int (unat k) \<le> int (unat (expected (window c))) + maxReorderFrames (window c)"
        unfolding roomy_def by blast
      with up show ?thesis by linarith
    qed
    with A show ?thesis unfolding roomy_def by simp
  qed
qed

lemma arrived_all:
  assumes "written p = []" and "script p = []" and "length sent < 2 ^ 64" and "\<forall>f \<in> set fs. carries sent f"
    and "\<And>xs f ys i. fs = xs @ f # ys \<Longrightarrow> i < unat (rx_Sequence f) \<Longrightarrow> of_nat i \<notin> rx_Sequence ` set xs
      \<Longrightarrow> int (unat (rx_Sequence f)) \<le> int i + maxReorder"
  shows "let c = fold (rxStep clk) fs (newRX maxReorder legs p)
    in rx_ok sent c \<and> roomy c \<and> maxReorderFrames (window c) = maxReorder \<and> (\<forall>k \<in> rx_Sequence ` set fs. arrived c k)"
  using assms(4,5)
proof (induction fs rule: rev_induct)
  case Nil
  show ?case using assms(1,2) rx_ok_new [of p sent maxReorder legs]
    by (simp add: roomy_def newRX_def NewStreamRXWindow_def)
next
  case (snoc f fs)
  define c where "c = fold (rxStep clk) fs (newRX maxReorder legs p)"
  have f: "carries sent f" using snoc.prems(1) by simp
  from snoc.IH snoc.prems have I: "rx_ok sent c" "roomy c" "maxReorderFrames (window c) = maxReorder"
    "\<And>k. k \<in> rx_Sequence ` set fs \<Longrightarrow> arrived c k"
    unfolding c_def [symmetric] Let_def by auto
  moreover have "\<not> arrived c (expected (window c))"
    using I(1,2) by (simp add: rx_ok_def roomy_def settled_def arrived_def)
  ultimately have "expected (window c) \<notin> rx_Sequence ` set fs" by blast
  then have "int (unat (rx_Sequence f)) \<le> int (unat (expected (window c))) + maxReorderFrames (window c)"
    if "expected (window c) < rx_Sequence f"
    using snoc.prems(2) [of fs f "[]" "unat (expected (window c))"] that I(3) by (simp add: word_less_nat_alt)
  from rxStep_arrived [OF I(1) f assms(3) I(2) this, of clk] rx_ok_step [OF I(1) f assms(3), of clk] I(3,4)
  show ?case by (auto simp: c_def [symmetric])
qed

lemma all_arrived_frontier:
  assumes "rx_ok sent c" and "running c" and "length sent < 2 ^ 64"
    and "\<And>i. i < length sent \<Longrightarrow> arrived c (of_nat i)"
  shows "unat (expected (window c)) = length sent"
proof (rule ccontr)
  let ?e = "expected (window c)"
  assume "unat ?e \<noteq> length sent"
  with assms(1) have "unat ?e < length sent" by (auto simp: rx_ok_def delivered_def Let_def)
  with assms(4) [of "unat ?e"] have "arrived c ?e" by simp
  with assms(1,2) show False by (auto simp: arrived_def rx_ok_def settled_def)
qed

section \<open>Properties\<close>

text \<open>Whatever frames of the stream arrive, in any order, with any losses and duplicates and
  with any failures of the application pipe, the application reads a prefix of the byte stream, and
  every payload below the requested cumulative ACK has been written to it in full.\<close>

theorem rx_delivers_prefix:
  assumes "written p = []" and "\<forall>f \<in> set fs. carries sent f" and "length sent < 2 ^ 64"
  shows "let c = fold (rxStep clk) fs (newRX maxReorder legs p)
         in prefix (written (pipe c)) (concat sent)
            \<and> prefix (concat (take (unat (ackNext c)) sent)) (written (pipe c))
            \<and> unat (ackNext c) \<le> unat (expected (window c)) \<and> unat (expected (window c)) \<le> length sent"
proof -
  let ?c = "fold (rxStep clk) fs (newRX maxReorder legs p)"
  have "rx_ok sent ?c" using rxl.receive_all [OF rx_ok_new [OF assms(1)] assms(2,3)] by blast
  then show ?thesis
    using rxl.inv_out rxl.inv_acked rxl.inv_frontier rxl.acked_delivered by (simp add: Let_def)
qed

definition example_sent :: "bytes list" where "example_sent = [[1, 2], [3], [4, 5, 6]]"

definition example_frames :: "StreamRXFrame list" where
  "example_frames =
     [\<lparr>rx_Sequence = 2, rx_Leg = 1, rx_Payload = [4, 5, 6]\<rparr>, \<lparr>rx_Sequence = 0, rx_Leg = 0, rx_Payload = [1, 2]\<rparr>,
      \<lparr>rx_Sequence = 2, rx_Leg = 0, rx_Payload = [4, 5, 6]\<rparr>, \<lparr>rx_Sequence = 1, rx_Leg = 1, rx_Payload = [3]\<rparr>]"

lemma example_frames_carry: "\<forall>f \<in> set example_frames. carries example_sent f"
  by (simp add: example_frames_def example_sent_def carries_def)

theorem rx_delivers_prefix_witness:
  "let c = fold (rxStep (\<lambda>n. int n + 1)) example_frames (newRX 4 2 \<lparr>written = [], script = [(1, None), (0, Some EOF)]\<rparr>)
   in prefix (written (pipe c)) (concat example_sent)
      \<and> prefix (concat (take (unat (ackNext c)) example_sent)) (written (pipe c))
      \<and> unat (ackNext c) \<le> unat (expected (window c)) \<and> unat (expected (window c)) \<le> length example_sent"
  by (rule rx_delivers_prefix [OF _ example_frames_carry]) (simp_all add: example_sent_def)



end
