(* ===== verification/TX_Ledger.thy ===== *)
theory TX_Ledger
  imports Types
begin

text \<open>
  The transmit ledger of \<open>core/stream_tx.go\<close>: sequencing, outstanding records, attempt state and
  retirement by the peer's cumulative ACK. Records live in a heap and are named by their address, so
  that the ledger's pointer comparisons (\<open>l.outstanding[record.sequence] == record\<close>) are comparisons
  of addresses; a nil-able record parameter is an optional address. The diagnostic trace hook (nil
  outside diagnostic runs) is left out. Each operation is one critical section of the ledger's lock.
\<close>

type_synonym addr = nat

definition streamProbeBudget :: duration where "streamProbeBudget = 200 * Millisecond"
definition streamProofBudget :: duration where "streamProofBudget = streamProbeBudget + 500 * Millisecond"

record StreamTXRecord =
  r_recoveryProbeWriteStartedAt :: "gotime option"
  r_sequence :: u64
  r_payload :: bytes
  r_createdAt :: gotime
  r_lastSentAt :: gotime
  r_lastSentLeg :: int
  r_lastSentAttemptAt :: gotime
  r_inTransit :: bool
  r_transitLeg :: LegID
  r_transitSince :: gotime
  r_rescueInTransit :: bool
  r_rescueLeg :: LegID
  r_rescueSince :: gotime
  r_lastRescueAt :: gotime
  r_sendCount :: u32
  r_ordinaryOwner :: int
  r_ordinaryAdmitted :: bool
  r_assignedAt :: gotime
  r_firstWriteAt :: gotime
  r_frontierAt :: gotime
  r_originGeneration :: u64
  r_originEpoch :: u64
  r_invalidated :: bool
  r_duplicated :: bool
  r_localEnqueue :: bool

record StreamTXEvidence =
  ev_Event :: string
  ev_Sequence :: u64
  ev_Bytes :: nat
  ev_Owner :: int
  ev_At :: gotime
  ev_Assigned :: gotime
  ev_FirstWrite :: gotime
  ev_Frontier :: gotime
  ev_Attempts :: u32
  ev_Duplicated :: bool
  ev_Invalidated :: bool
  ev_Generation :: u64
  ev_Epoch :: u64

record StreamTXLedger =
  heap :: "StreamTXRecord list"
  nextSequence :: u64
  ackedNext :: u64
  outstanding :: "(u64, addr) gomap"
  futureACKCount :: u64
  lastACKProgress :: gotime
  maxLegs :: nat
  ordinaryFrames :: "int list"
  ordinaryBytes :: "u64 list"
  pendingBytes :: "u64 list"
  evidence :: "StreamTXEvidence list"
  evidenceNext :: nat

text \<open>Reading and updating a record through its pointer.\<close>

abbreviation rec_at :: "StreamTXLedger \<Rightarrow> addr \<Rightarrow> StreamTXRecord" where
  "rec_at l a \<equiv> heap l ! a"

definition upd :: "addr \<Rightarrow> (StreamTXRecord \<Rightarrow> StreamTXRecord) \<Rightarrow> StreamTXLedger \<Rightarrow> StreamTXLedger" where
  "upd a g l = l\<lparr>heap := (heap l)[a := g (heap l ! a)]\<rparr>"

text \<open>\<open>record != nil && l.outstanding[record.sequence] == record\<close>.\<close>

fun current :: "StreamTXLedger \<Rightarrow> addr option \<Rightarrow> bool" where
  "current l None = False"
| "current l (Some a) = (mget (outstanding l) (r_sequence (rec_at l a)) = Some a)"

text \<open>\<open>record := l.outstanding[sequence]\<close> followed by a read of the record.\<close>

abbreviation outstanding_recs :: "StreamTXLedger \<Rightarrow> StreamTXRecord list" where
  "outstanding_recs l \<equiv> map (\<lambda>(_, a). rec_at l a) (outstanding l)"

section \<open>Construction and sizing\<close>

definition newStreamTXLedger :: "int \<Rightarrow> StreamTXLedger" where
  "newStreamTXLedger n =
     (let m1 = (if n < 1 then 2 else nat n);
          m = (if m1 > MaxStreamLegIDCount then MaxStreamLegIDCount else m1)
      in \<lparr>heap = [], nextSequence = 0, ackedNext = 0, outstanding = [], futureACKCount = 0,
          lastACKProgress = 0, maxLegs = m, ordinaryFrames = replicate m 0,
          ordinaryBytes = replicate m 0, pendingBytes = replicate m 0, evidence = [], evidenceNext = 0\<rparr>)"

definition NewStreamTXLedger :: StreamTXLedger where
  "NewStreamTXLedger = newStreamTXLedger 2"

definition ensureLocked :: "StreamTXLedger \<Rightarrow> StreamTXLedger" where
  "ensureLocked l =
     (let l1 = (if maxLegs l < 2 then l\<lparr>maxLegs := 2\<rparr> else l)
      in if length (ordinaryFrames l1) < maxLegs l1
         then l1\<lparr>ordinaryFrames := ordinaryFrames l1 @ replicate (maxLegs l1 - length (ordinaryFrames l1)) 0,
                 ordinaryBytes := ordinaryBytes l1 @ replicate (maxLegs l1 - length (ordinaryBytes l1)) 0,
                 pendingBytes := pendingBytes l1 @ replicate (maxLegs l1 - length (pendingBytes l1)) 0\<rparr>
         else l1)"

definition ensureLegLocked :: "u8 \<Rightarrow> StreamTXLedger \<Rightarrow> bool \<times> StreamTXLedger" where
  "ensureLegLocked leg l =
     (let l1 = ensureLocked l; want = unat leg + 1
      in if unat leg \<ge> MaxStreamLegIDCount then (False, l1)
         else if want \<le> maxLegs l1 then (True, l1)
         else let l2 = (if want > length (ordinaryFrames l1)
                        then let grow = want - length (ordinaryFrames l1)
                             in l1\<lparr>ordinaryFrames := ordinaryFrames l1 @ replicate grow 0,
                                   ordinaryBytes := ordinaryBytes l1 @ replicate grow 0,
                                   pendingBytes := pendingBytes l1 @ replicate grow 0\<rparr>
                        else l1)
              in (True, l2\<lparr>maxLegs := want\<rparr>))"

text \<open>The opt-in evidence ring: disabled (empty) in ordinary operation.\<close>

definition noEvidence :: StreamTXEvidence where
  "noEvidence = \<lparr>ev_Event = [], ev_Sequence = 0, ev_Bytes = 0, ev_Owner = 0, ev_At = 0, ev_Assigned = 0,
                 ev_FirstWrite = 0, ev_Frontier = 0, ev_Attempts = 0, ev_Duplicated = False,
                 ev_Invalidated = False, ev_Generation = 0, ev_Epoch = 0\<rparr>"

definition EnableEvidenceTraceForTest :: "StreamTXLedger \<Rightarrow> StreamTXLedger" where
  "EnableEvidenceTraceForTest l = l\<lparr>evidence := replicate 128 noEvidence, evidenceNext := 0\<rparr>"

definition evidenceLocked :: "string \<Rightarrow> addr \<Rightarrow> gotime \<Rightarrow> StreamTXLedger \<Rightarrow> StreamTXLedger" where
  "evidenceLocked event a now l =
     (if length (evidence l) = 0 then l
      else let r = rec_at l a
           in l\<lparr>evidence := (evidence l)[evidenceNext l mod length (evidence l) :=
                  \<lparr>ev_Event = event, ev_Sequence = r_sequence r, ev_Bytes = length (r_payload r),
                   ev_Owner = r_ordinaryOwner r, ev_At = now, ev_Assigned = r_assignedAt r,
                   ev_FirstWrite = r_firstWriteAt r, ev_Frontier = r_frontierAt r,
                   ev_Attempts = r_sendCount r, ev_Duplicated = r_duplicated r,
                   ev_Invalidated = r_invalidated r, ev_Generation = r_originGeneration r,
                   ev_Epoch = r_originEpoch r\<rparr>],
                evidenceNext := evidenceNext l + 1\<rparr>)"

definition newRecord :: "u64 \<Rightarrow> bytes \<Rightarrow> gotime \<Rightarrow> bool \<Rightarrow> StreamTXRecord" where
  "newRecord seq data now local =
     \<lparr>r_recoveryProbeWriteStartedAt = None, r_sequence = seq, r_payload = data, r_createdAt = now,
      r_lastSentAt = 0, r_lastSentLeg = -1, r_lastSentAttemptAt = 0, r_inTransit = False,
      r_transitLeg = 0, r_transitSince = 0, r_rescueInTransit = False, r_rescueLeg = 0,
      r_rescueSince = 0, r_lastRescueAt = 0, r_sendCount = 0, r_ordinaryOwner = -1,
      r_ordinaryAdmitted = False, r_assignedAt = 0, r_firstWriteAt = 0, r_frontierAt = 0,
      r_originGeneration = 0, r_originEpoch = 0, r_invalidated = False, r_duplicated = False,
      r_localEnqueue = local\<rparr>"

definition add :: "bytes \<Rightarrow> gotime \<Rightarrow> bool \<Rightarrow> StreamTXLedger \<Rightarrow> addr \<times> StreamTXLedger" where
  "add data now local l0 =
     (let l = ensureLocked l0; seq = nextSequence l; a = length (heap l);
          r = newRecord seq data now local;
          r' = (if seq = ackedNext l then r\<lparr>r_frontierAt := now\<rparr> else r);
          l1 = l\<lparr>heap := heap l @ [r'], nextSequence := nextSequence l + 1,
                 outstanding := mput seq a (outstanding l)\<rparr>
      in (a, evidenceLocked ''created'' a now l1))"

definition Add :: "bytes \<Rightarrow> gotime \<Rightarrow> StreamTXLedger \<Rightarrow> addr \<times> StreamTXLedger" where
  "Add data now l = add data now False l"

definition addLocal :: "bytes \<Rightarrow> gotime \<Rightarrow> StreamTXLedger \<Rightarrow> addr \<times> StreamTXLedger" where
  "addLocal data now l = add data now True l"

definition finishLocalEnqueue :: "addr \<Rightarrow> StreamTXLedger \<Rightarrow> StreamTXLedger" where
  "finishLocalEnqueue a l = upd a (\<lambda>r. r\<lparr>r_localEnqueue := False\<rparr>) l"

section \<open>Queries\<close>

definition HasOutstanding :: "StreamTXLedger \<Rightarrow> bool" where
  "HasOutstanding l \<longleftrightarrow> length (outstanding l) \<noteq> 0"

text \<open>The condition shared by \<open>outstandingForLeg\<close> and \<open>outstandingBytesForLeg\<close>.\<close>

definition dependsOn :: "u8 \<Rightarrow> StreamTXRecord \<Rightarrow> bool" where
  "dependsOn leg r \<longleftrightarrow>
     r_ordinaryOwner r = int (unat leg) \<or> r_lastSentLeg r = int (unat leg)
     \<or> (r_inTransit r \<and> r_transitLeg r = leg) \<or> (r_rescueInTransit r \<and> r_rescueLeg r = leg)"

definition outstandingForLeg :: "u8 \<Rightarrow> StreamTXLedger \<Rightarrow> nat" where
  "outstandingForLeg leg l =
     fold (\<lambda>r count. if dependsOn leg r then count + 1 else count) (outstanding_recs l) 0"

definition outstandingBytesForLeg :: "u8 \<Rightarrow> StreamTXLedger \<Rightarrow> u64" where
  "outstandingBytesForLeg leg l =
     fold (\<lambda>r total. if dependsOn leg r then total + of_nat (length (r_payload r)) else total)
       (outstanding_recs l) 0"

definition ProgressSnapshot :: "StreamTXLedger \<Rightarrow> nat \<times> u64" where
  "ProgressSnapshot l = (length (outstanding l), ackedNext l)"

definition IsOutstanding :: "addr option \<Rightarrow> StreamTXLedger \<Rightarrow> bool" where
  "IsOutstanding record l = current l record"

definition RescueInTransit :: "addr option \<Rightarrow> StreamTXLedger \<Rightarrow> bool" where
  "RescueInTransit record l \<longleftrightarrow> current l record \<and> r_rescueInTransit (rec_at l (the record))"

definition LastRescueAt :: "addr option \<Rightarrow> StreamTXLedger \<Rightarrow> gotime" where
  "LastRescueAt record l = (if current l record then r_lastRescueAt (rec_at l (the record)) else 0)"

definition OrdinaryOwner :: "addr option \<Rightarrow> StreamTXLedger \<Rightarrow> int" where
  "OrdinaryOwner record l = (if current l record then r_ordinaryOwner (rec_at l (the record)) else -1)"

section \<open>Attempts\<close>

definition MarkTransit :: "addr option \<Rightarrow> LegID \<Rightarrow> gotime \<Rightarrow> StreamTXLedger \<Rightarrow> bool \<times> StreamTXLedger" where
  "MarkTransit record leg now l =
     (if \<not> current l record \<or> r_inTransit (rec_at l (the record)) then (False, l)
      else (True, upd (the record)
             (\<lambda>r. r\<lparr>r_inTransit := True, r_duplicated := (r_duplicated r \<or> r_sendCount r > 0),
                    r_transitLeg := leg, r_transitSince := now\<rparr>) l))"

definition markRescueTransitLocked ::
  "addr option \<Rightarrow> LegID \<Rightarrow> gotime \<Rightarrow> StreamTXLedger \<Rightarrow> (gotime \<times> bool) \<times> StreamTXLedger" where
  "markRescueTransitLocked record leg now l =
     (let r = rec_at l (the record)
      in if \<not> current l record \<or> r_rescueInTransit r then ((0, False), l)
         else if r_inTransit r \<and> r_transitLeg r = leg then ((0, False), l)
         else ((now, True),
               upd (the record)
                 (\<lambda>r. r\<lparr>r_rescueInTransit := True, r_duplicated := True, r_rescueLeg := leg,
                        r_rescueSince := now\<rparr>) l))"

definition MarkRescueTransit ::
  "addr option \<Rightarrow> LegID \<Rightarrow> gotime \<Rightarrow> StreamTXLedger \<Rightarrow> (gotime \<times> bool) \<times> StreamTXLedger" where
  "MarkRescueTransit record leg now l = markRescueTransitLocked record leg now l"

definition MarkRestrictedRescueTransit ::
  "addr option \<Rightarrow> LegID \<Rightarrow> int \<Rightarrow> gotime \<Rightarrow> StreamTXLedger \<Rightarrow> (gotime \<times> bool) \<times> StreamTXLedger" where
  "MarkRestrictedRescueTransit record leg owner now l =
     (if record = None \<or> r_ordinaryOwner (rec_at l (the record)) \<noteq> owner then ((0, False), l)
      else markRescueTransitLocked record leg now l)"

definition MarkRescueQueued ::
  "addr option \<Rightarrow> LegID \<Rightarrow> gotime \<Rightarrow> StreamTXLedger \<Rightarrow> bool \<times> StreamTXLedger" where
  "MarkRescueQueued record leg started l =
     (if \<not> current l record then (False, l)
      else let r = rec_at l (the record);
               pend = (r_rescueInTransit r \<and> r_rescueLeg r = leg \<and> r_rescueSince r = started);
               sent = (r_lastSentAttemptAt r = started)
           in if \<not> pend \<and> \<not> sent then (False, l)
              else (True, upd (the record) (\<lambda>r. r\<lparr>r_lastRescueAt := started\<rparr>) l))"

definition clearAttemptAt ::
  "addr option \<Rightarrow> LegID \<Rightarrow> bool \<Rightarrow> gotime \<Rightarrow> StreamTXLedger \<Rightarrow> StreamTXLedger" where
  "clearAttemptAt record leg rescue started l =
     (if \<not> current l record then l
      else let r = rec_at l (the record)
           in if rescue then
                (if r_rescueInTransit r \<and> r_rescueLeg r = leg \<and> (IsZero started \<or> r_rescueSince r = started)
                 then upd (the record)
                        (\<lambda>r. r\<lparr>r_lastRescueAt := (if r_lastRescueAt r = r_rescueSince r then 0 else r_lastRescueAt r),
                               r_rescueInTransit := False, r_rescueSince := 0\<rparr>) l
                 else l)
              else if r_inTransit r \<and> r_transitLeg r = leg \<and> (IsZero started \<or> r_transitSince r = started)
              then upd (the record) (\<lambda>r. r\<lparr>r_inTransit := False, r_transitSince := 0\<rparr>) l
              else l)"

definition ClearAttempt :: "addr option \<Rightarrow> LegID \<Rightarrow> bool \<Rightarrow> StreamTXLedger \<Rightarrow> StreamTXLedger" where
  "ClearAttempt record leg rescue l = clearAttemptAt record leg rescue 0 l"

definition AttemptCurrent :: "addr option \<Rightarrow> LegID \<Rightarrow> bool \<Rightarrow> StreamTXLedger \<Rightarrow> bool" where
  "AttemptCurrent record leg rescue l \<longleftrightarrow>
     current l record \<and>
     (let r = rec_at l (the record)
      in if rescue then r_rescueInTransit r \<and> r_rescueLeg r = leg
         else r_inTransit r \<and> r_transitLeg r = leg)"

record StreamTXAttemptResult =
  at_Applied :: bool
  at_Bytes :: nat
  at_Retransmit :: bool

text \<open>The record after its attempt committed; \<open>started\<close> is the attempt's timestamp.\<close>

definition commitAttempt :: "LegID \<Rightarrow> gotime \<Rightarrow> gotime \<Rightarrow> StreamTXRecord \<Rightarrow> StreamTXRecord" where
  "commitAttempt leg started now r =
     (let r1 = (if IsZero (r_lastSentAttemptAt r) \<or> \<not> started < r_lastSentAttemptAt r
                then r\<lparr>r_lastSentAttemptAt := started, r_lastSentAt := now, r_lastSentLeg := int (unat leg)\<rparr>
                else r);
          r2 = (if IsZero (r_firstWriteAt r1) then r1\<lparr>r_firstWriteAt := started\<rparr> else r1)
      in r2\<lparr>r_sendCount := r_sendCount r2 + 1\<rparr>)"

definition MarkAttemptSent ::
  "addr option \<Rightarrow> LegID \<Rightarrow> bool \<Rightarrow> gotime \<Rightarrow> StreamTXLedger \<Rightarrow> StreamTXAttemptResult \<times> StreamTXLedger" where
  "MarkAttemptSent record leg rescue now l =
     (let none = \<lparr>at_Applied = False, at_Bytes = 0, at_Retransmit = False\<rparr>; r = rec_at l (the record)
      in if \<not> current l record then (none, l)
         else if rescue \<and> (\<not> r_rescueInTransit r \<or> r_rescueLeg r \<noteq> leg) then (none, l)
         else if \<not> rescue \<and> (\<not> r_inTransit r \<or> r_transitLeg r \<noteq> leg) then (none, l)
         else let attempt = (if rescue then r_rescueSince r else r_transitSince r);
                  r1 = (if rescue then r\<lparr>r_rescueInTransit := False, r_rescueSince := 0\<rparr>
                        else r\<lparr>r_inTransit := False, r_transitSince := 0\<rparr>);
                  started = (if IsZero attempt then now else attempt);
                  r2 = commitAttempt leg started now r1;
                  l1 = upd (the record) (\<lambda>_. r2) l
              in (\<lparr>at_Applied = True, at_Bytes = length (r_payload r2),
                   at_Retransmit = (rescue \<or> r_sendCount r2 > 1)\<rparr>,
                  evidenceLocked ''write_complete'' (the record) now l1))"

definition markWriteStarted ::
  "addr \<Rightarrow> u8 \<Rightarrow> bool \<Rightarrow> gotime \<Rightarrow> StreamTXLedger \<Rightarrow> StreamTXLedger" where
  "markWriteStarted a leg rescue now l =
     (if \<not> current l (Some a) then l
      else let r = rec_at l a
           in if \<not> rescue \<and> r_inTransit r \<and> r_transitLeg r = leg \<and> IsZero (r_firstWriteAt r)
              then evidenceLocked ''first_write'' a now (upd a (\<lambda>r. r\<lparr>r_firstWriteAt := now\<rparr>) l)
              else l)"

definition setOrigin :: "addr \<Rightarrow> u64 \<Rightarrow> gotime \<Rightarrow> StreamTXLedger \<Rightarrow> StreamTXLedger" where
  "setOrigin a generation epoch l =
     (if \<not> current l (Some a) then l
      else evidenceLocked ''admission_origin'' a epoch
             (upd a (\<lambda>r. r\<lparr>r_originGeneration := generation, r_originEpoch := UnixNano epoch\<rparr>) l))"

definition originGenerationSnapshot :: "addr option \<Rightarrow> StreamTXLedger \<Rightarrow> u64" where
  "originGenerationSnapshot record l =
     (if current l record then r_originGeneration (rec_at l (the record)) else 0)"

text \<open>What the failure of a leg does to one outstanding record.\<close>

definition invalidateRecord :: "LegID \<Rightarrow> StreamTXRecord \<Rightarrow> StreamTXRecord" where
  "invalidateRecord leg r =
     (let r1 = (if r_ordinaryOwner r = int (unat leg) then r\<lparr>r_duplicated := True, r_invalidated := True\<rparr> else r);
          r2 = (if r_inTransit r1 \<and> r_transitLeg r1 = leg
                then r1\<lparr>r_inTransit := False, r_transitSince := 0\<rparr> else r1);
          r3 = (if r_rescueInTransit r2 \<and> r_rescueLeg r2 = leg
                then r2\<lparr>r_lastRescueAt := (if r_lastRescueAt r2 = r_rescueSince r2 then 0 else r_lastRescueAt r2),
                        r_rescueInTransit := False, r_rescueSince := 0\<rparr>
                else r2)
      in if r_lastSentLeg r3 = int (unat leg) then r3\<lparr>r_lastSentLeg := -1\<rparr> else r3)"

definition InvalidateLeg :: "LegID \<Rightarrow> StreamTXLedger \<Rightarrow> StreamTXLedger" where
  "InvalidateLeg leg l = fold (\<lambda>(_, a). upd a (invalidateRecord leg)) (outstanding l) l"

section \<open>Ordinary ownership\<close>

definition bump :: "int \<Rightarrow> ('a \<Rightarrow> 'a) \<Rightarrow> 'a list \<Rightarrow> 'a list" where
  "bump i g xs = xs[nat i := g (xs ! nat i)]"

text \<open>Take a record out of, and put it into, the counters of an owner.\<close>

definition uncharge :: "int \<Rightarrow> StreamTXRecord \<Rightarrow> StreamTXLedger \<Rightarrow> StreamTXLedger" where
  "uncharge i r l =
     l\<lparr>ordinaryFrames := bump i (\<lambda>n. n - 1) (ordinaryFrames l),
       ordinaryBytes := bump i (\<lambda>n. n - of_nat (length (r_payload r))) (ordinaryBytes l),
       pendingBytes := (if \<not> r_ordinaryAdmitted r
                        then bump i (\<lambda>n. n - of_nat (length (r_payload r))) (pendingBytes l)
                        else pendingBytes l)\<rparr>"

definition charge :: "int \<Rightarrow> StreamTXRecord \<Rightarrow> StreamTXLedger \<Rightarrow> StreamTXLedger" where
  "charge i r l =
     l\<lparr>ordinaryFrames := bump i (\<lambda>n. n + 1) (ordinaryFrames l),
       ordinaryBytes := bump i (\<lambda>n. n + of_nat (length (r_payload r))) (ordinaryBytes l),
       pendingBytes := (if \<not> r_ordinaryAdmitted r
                        then bump i (\<lambda>n. n + of_nat (length (r_payload r))) (pendingBytes l)
                        else pendingBytes l)\<rparr>"

definition assignOrdinary :: "addr option \<Rightarrow> u8 \<Rightarrow> gotime \<Rightarrow> StreamTXLedger \<Rightarrow> bool \<times> StreamTXLedger" where
  "assignOrdinary record leg now l0 =
     (case ensureLegLocked leg l0 of
        (False, l) \<Rightarrow> (False, l)
      | (True, l) \<Rightarrow>
          let r = rec_at l (the record)
          in if \<not> current l record then (False, l)
             else if r_ordinaryOwner r = int (unat leg) then (True, l)
             else let l1 = (if r_ordinaryOwner r \<ge> 0 then uncharge (r_ordinaryOwner r) r l else l);
                      l2 = upd (the record)
                             (\<lambda>r. r\<lparr>r_ordinaryOwner := int (unat leg), r_assignedAt := now\<rparr>) l1
                  in (True, charge (int (unat leg)) r (evidenceLocked ''assigned'' (the record) now l2)))"

definition markOrdinaryAdmitted :: "addr option \<Rightarrow> u8 \<Rightarrow> StreamTXLedger \<Rightarrow> StreamTXLedger" where
  "markOrdinaryAdmitted record leg l0 =
     (case ensureLegLocked leg l0 of
        (False, l) \<Rightarrow> l
      | (True, l) \<Rightarrow>
          let r = rec_at l (the record)
          in if \<not> current l record \<or> r_ordinaryOwner r \<noteq> int (unat leg) \<or> r_ordinaryAdmitted r then l
             else let l1 = upd (the record) (\<lambda>r. r\<lparr>r_ordinaryAdmitted := True\<rparr>) l
                  in l1\<lparr>pendingBytes := bump (int (unat leg)) (\<lambda>n. n - of_nat (length (r_payload r))) (pendingBytes l1)\<rparr>)"

section \<open>Cumulative acknowledgement\<close>

datatype StreamTXACKDisposition = StreamTXACKNoProgress | StreamTXACKAdvanced | StreamTXACKFuture

record StreamTXACKLegResult =
  p_AckedBytes :: u64
  p_UniqueTimely :: nat
  p_UniqueGeneration :: u64
  p_UniqueOrdered :: nat
  p_UniqueBytes :: u64
  p_FeedbackMin :: duration
  p_FeedbackMax :: duration
  p_BeforeOrdinaryFrames :: int
  p_BeforeOrdinaryBytes :: u64
  p_ProofRejected :: "nat list"
  p_SampleBytes :: u64
  p_SampleAssignedMin :: gotime

definition noLegResult :: StreamTXACKLegResult where
  "noLegResult =
     \<lparr>p_AckedBytes = 0, p_UniqueTimely = 0, p_UniqueGeneration = 0, p_UniqueOrdered = 0,
      p_UniqueBytes = 0, p_FeedbackMin = 0, p_FeedbackMax = 0, p_BeforeOrdinaryFrames = 0,
      p_BeforeOrdinaryBytes = 0, p_ProofRejected = [0, 0, 0], p_SampleBytes = 0, p_SampleAssignedMin = 0\<rparr>"

text \<open>The twelve two-entry compatibility arrays of \<open>StreamTXACKResult\<close> are one list of two leg
  results, \<open>res_Legacy\<close>.\<close>

record StreamTXACKResult =
  res_Disposition :: StreamTXACKDisposition
  res_Next :: u64
  res_Max :: u64
  res_FutureCount :: u64
  res_Released :: nat
  res_RetiredBytes :: u64
  res_AckedNext :: u64
  res_LastACKProgress :: gotime
  res_Legacy :: "StreamTXACKLegResult list"
  res_PerLeg :: "StreamTXACKLegResult list"

definition legResult :: "StreamTXACKResult \<Rightarrow> int \<Rightarrow> StreamTXACKLegResult" where
  "legResult res leg =
     (if leg \<ge> 0 \<and> leg < int (length (res_PerLeg res)) then res_PerLeg res ! nat leg
      else if leg < 0 \<or> leg \<ge> 2 then noLegResult
      else res_Legacy res ! nat leg)"

definition syncLegacyLegs :: "StreamTXACKResult \<Rightarrow> StreamTXACKResult" where
  "syncLegacyLegs res =
     res\<lparr>res_Legacy := fold (\<lambda>leg legacy. if leg < length (res_PerLeg res)
                                           then legacy[leg := res_PerLeg res ! leg] else legacy)
                       [0, 1] (res_Legacy res)\<rparr>"

text \<open>The leg a retired record is attributed to.\<close>

definition attributedLeg :: "StreamTXRecord \<Rightarrow> int" where
  "attributedLeg r =
     (let leg1 = (if r_lastSentLeg r < 0 \<and> r_inTransit r then int (unat (r_transitLeg r)) else r_lastSentLeg r)
      in if leg1 < 0 \<and> r_ordinaryOwner r \<ge> 0 then r_ordinaryOwner r else leg1)"

definition attributeRetired :: "StreamTXRecord \<Rightarrow> StreamTXACKLegResult list \<Rightarrow> StreamTXACKLegResult list" where
  "attributeRetired r per =
     (let leg = attributedLeg r; size = of_nat (length (r_payload r))
      in if leg \<ge> 0 \<and> leg < int (length per)
         then bump leg
                (\<lambda>p. let p1 = p\<lparr>p_AckedBytes := p_AckedBytes p + size\<rparr>
                     in if r_ordinaryOwner r \<ge> 0 \<and> \<not> r_duplicated r \<and> \<not> IsZero (r_firstWriteAt r)
                        then p1\<lparr>p_SampleBytes := p_SampleBytes p1 + size,
                                p_SampleAssignedMin :=
                                  (if \<not> IsZero (r_assignedAt r)
                                      \<and> (IsZero (p_SampleAssignedMin p1) \<or> r_assignedAt r < p_SampleAssignedMin p1)
                                   then r_assignedAt r else p_SampleAssignedMin p1)\<rparr>
                        else p1) per
         else per)"

text \<open>The recovery proof a retired record gives its ordinary owner. \<open>ordered\<close> is the test that the
  frontier was recent or that the head of the acknowledged run belonged to another owner.\<close>

definition proofOrdered :: "gotime \<Rightarrow> StreamTXRecord option \<Rightarrow> bool \<Rightarrow> StreamTXRecord \<Rightarrow> bool" where
  "proofOrdered now head headIsRecord r \<longleftrightarrow>
     (\<not> IsZero (r_frontierAt r) \<and> Sub now (r_frontierAt r) \<le> streamProofBudget)
     \<or> (case head of None \<Rightarrow> False
        | Some h \<Rightarrow> \<not> headIsRecord \<and> r_ordinaryOwner h \<noteq> r_ordinaryOwner r \<and> \<not> r_duplicated h
                    \<and> \<not> IsZero (r_firstWriteAt h))"

definition proveOwner ::
  "gotime \<Rightarrow> StreamTXRecord option \<Rightarrow> bool \<Rightarrow> StreamTXRecord \<Rightarrow> StreamTXACKLegResult \<Rightarrow> StreamTXACKLegResult" where
  "proveOwner now head headIsRecord r p =
     (if r_duplicated r \<or> r_sendCount r > 1
      then p\<lparr>p_ProofRejected := bump 0 Suc (p_ProofRejected p)\<rparr>
      else if IsZero (r_firstWriteAt r)
      then p\<lparr>p_ProofRejected := bump 1 Suc (p_ProofRejected p)\<rparr>
      else let proofStartedAt = (case r_recoveryProbeWriteStartedAt r of None \<Rightarrow> r_firstWriteAt r | Some t \<Rightarrow> t);
               age = Sub now proofStartedAt;
               ordered = proofOrdered now head headIsRecord r;
               p1 = p\<lparr>p_UniqueGeneration := r_originGeneration r,
                      p_FeedbackMax := (if age > p_FeedbackMax p then age else p_FeedbackMax p),
                      p_FeedbackMin := (if age > 0 \<and> (p_FeedbackMin p = 0 \<or> age < p_FeedbackMin p)
                                        then age else p_FeedbackMin p)\<rparr>;
               p2 = (if \<not> IsZero proofStartedAt \<and> age \<le> streamProofBudget
                     then p1\<lparr>p_UniqueTimely := p_UniqueTimely p1 + 1\<rparr>
                     else if ordered then p1\<lparr>p_UniqueOrdered := p_UniqueOrdered p1 + 1\<rparr>
                     else p1\<lparr>p_ProofRejected := bump 2 Suc (p_ProofRejected p1)\<rparr>)
           in if \<not> IsZero (r_assignedAt r) \<and> (age \<le> streamProofBudget \<or> ordered)
              then p2\<lparr>p_UniqueBytes := p_UniqueBytes p2 + of_nat (length (r_payload r))\<rparr>
              else p2)"

text \<open>One iteration of the retirement loop; \<open>head\<close> is the record at the old frontier.\<close>

definition retireSequence ::
  "gotime \<Rightarrow> addr option \<Rightarrow> u64 \<Rightarrow> StreamTXLedger \<times> StreamTXACKResult \<Rightarrow> StreamTXLedger \<times> StreamTXACKResult" where
  "retireSequence now head seq = (\<lambda>(l, res).
     (case mget (outstanding l) seq of
        None \<Rightarrow> (l, res)
      | Some a \<Rightarrow>
          let r = rec_at l a;
              res1 = res\<lparr>res_RetiredBytes := res_RetiredBytes res + of_nat (length (r_payload r)),
                         res_PerLeg := attributeRetired r (res_PerLeg res)\<rparr>;
              l1 = evidenceLocked ''ACK_retire'' a now l;
              l2 = l1\<lparr>outstanding := mdel seq (outstanding l1)\<rparr>;
              owned = (r_ordinaryOwner r \<ge> 0 \<and> r_ordinaryOwner r < int (length (ordinaryFrames l2)));
              l3 = (if owned then uncharge (r_ordinaryOwner r) r l2 else l2);
              res2 = (if owned
                      then res1\<lparr>res_PerLeg :=
                             bump (r_ordinaryOwner r)
                               (proveOwner now (map_option (rec_at l) head) (head = Some a) r) (res_PerLeg res1)\<rparr>
                      else res1)
          in (l3, res2\<lparr>res_Released := res_Released res2 + 1\<rparr>)))"

definition ackResult0 :: "u64 \<Rightarrow> StreamTXLedger \<Rightarrow> StreamTXACKResult" where
  "ackResult0 next l =
     \<lparr>res_Disposition = StreamTXACKNoProgress, res_Next = next, res_Max = nextSequence l,
      res_FutureCount = 0, res_Released = 0, res_RetiredBytes = 0, res_AckedNext = ackedNext l,
      res_LastACKProgress = lastACKProgress l, res_Legacy = [noLegResult, noLegResult], res_PerLeg = []\<rparr>"

definition exposeFrontier :: "gotime \<Rightarrow> StreamTXLedger \<Rightarrow> StreamTXLedger" where
  "exposeFrontier now l =
     (case mget (outstanding l) (ackedNext l) of
        None \<Rightarrow> l
      | Some a \<Rightarrow>
          if IsZero (r_frontierAt (rec_at l a))
          then evidenceLocked ''frontier_exposed'' a now (upd a (\<lambda>r. r\<lparr>r_frontierAt := now\<rparr>) l)
          else l)"

definition seqRange :: "u64 \<Rightarrow> u64 \<Rightarrow> u64 list" where
  "seqRange a b = map of_nat [unat a..<unat b]"

definition ApplyACK :: "u64 \<Rightarrow> gotime \<Rightarrow> StreamTXLedger \<Rightarrow> StreamTXACKResult \<times> StreamTXLedger" where
  "ApplyACK next now l0 =
     (let l = ensureLocked l0; res = ackResult0 next l
      in if next > nextSequence l then
           let l1 = l\<lparr>futureACKCount := futureACKCount l + 1\<rparr>
           in (res\<lparr>res_Disposition := StreamTXACKFuture, res_FutureCount := futureACKCount l1\<rparr>, l1)
         else if next \<le> ackedNext l then (res\<lparr>res_Disposition := StreamTXACKNoProgress\<rparr>, l)
         else
           let res1 = res\<lparr>res_Disposition := StreamTXACKAdvanced,
                          res_PerLeg := map (\<lambda>leg. noLegResult\<lparr>p_BeforeOrdinaryFrames := ordinaryFrames l ! leg,
                                                                p_BeforeOrdinaryBytes := ordinaryBytes l ! leg\<rparr>)
                                          [0..<maxLegs l]\<rparr>;
               head = mget (outstanding l) (ackedNext l)
           in case fold (retireSequence now head) (seqRange (ackedNext l) next) (l, res1) of
                (l1, res2) \<Rightarrow>
                  let l2 = exposeFrontier now (l1\<lparr>ackedNext := next\<rparr>);
                      l3 = (if res_Released res2 > 0 then l2\<lparr>lastACKProgress := now\<rparr> else l2);
                      res3 = (if res_Released res2 > 0 then res2\<lparr>res_LastACKProgress := now\<rparr> else res2)
                  in (syncLegacyLegs (res3\<lparr>res_AckedNext := ackedNext l3\<rparr>), l3))"

section \<open>Snapshots\<close>

definition FrontierAge :: "gotime \<Rightarrow> StreamTXLedger \<Rightarrow> duration" where
  "FrontierAge now l =
     (case mget (outstanding l) (ackedNext l) of
        None \<Rightarrow> 0
      | Some a \<Rightarrow> let r = rec_at l a
                  in if IsZero (r_createdAt r) \<or> now < r_createdAt r then 0 else Sub now (r_createdAt r))"

record StreamTXRetryState =
  rs_Record :: addr
  rs_InTransit :: bool
  rs_RescueInTransit :: bool
  rs_LocalEnqueue :: bool
  rs_LastSentLeg :: int

definition retrySnapshot :: "StreamTXLedger \<Rightarrow> StreamTXRetryState list" where
  "retrySnapshot l =
     map (\<lambda>(_, a). let r = rec_at l a
           in \<lparr>rs_Record = a, rs_InTransit = r_inTransit r, rs_RescueInTransit = r_rescueInTransit r,
               rs_LocalEnqueue = r_localEnqueue r, rs_LastSentLeg = r_lastSentLeg r\<rparr>) (outstanding l)"

record StreamTXFrontierSnapshot =
  fs_Record :: "addr option"
  fs_Exists :: bool
  fs_RescueInTransit :: bool
  fs_Owner :: int
  fs_ReferenceTime :: gotime

definition frontierSnapshot :: "StreamTXLedger \<Rightarrow> StreamTXFrontierSnapshot" where
  "frontierSnapshot l =
     (case mget (outstanding l) (ackedNext l) of
        None \<Rightarrow> \<lparr>fs_Record = None, fs_Exists = False, fs_RescueInTransit = False, fs_Owner = -1, fs_ReferenceTime = 0\<rparr>
      | Some a \<Rightarrow>
          let r = rec_at l a;
              owner1 = (if r_lastSentLeg r < 0 then r_ordinaryOwner r else r_lastSentLeg r);
              owner = (if r_inTransit r then int (unat (r_transitLeg r)) else owner1);
              reference = fold (\<lambda>candidate ref. if candidate > ref then candidate else ref)
                            [r_transitSince r, r_lastSentAt r, r_lastRescueAt r] (r_createdAt r)
          in \<lparr>fs_Record = Some a, fs_Exists = True, fs_RescueInTransit = r_rescueInTransit r,
              fs_Owner = owner, fs_ReferenceTime = reference\<rparr>)"

record StreamTXLegSnapshot =
  ls_OutstandingFrames :: nat
  ls_OldestOutstanding :: duration

record StreamTXSnapshot =
  sn_NextSequence :: u64
  sn_AckedNext :: u64
  sn_OutstandingFrames :: nat
  sn_OutstandingBytes :: u64
  sn_OldestOutstandingAge :: duration
  sn_AckFrontierValid :: bool
  sn_AckFrontierLeg :: LegID
  sn_AckFrontierMultiPath :: bool
  sn_AckFrontierAge :: duration
  sn_LastACKProgress :: gotime
  sn_PerLeg :: "StreamTXLegSnapshot list"
  sn_ByLeg :: "StreamTXLegSnapshot list"

text \<open>\<open>markOwner\<close> and the owner assignments of \<open>Snapshot\<close>: set a flag when the leg is in range.\<close>

definition flagOwner :: "int \<Rightarrow> bool list \<Rightarrow> bool list" where
  "flagOwner leg owners = (if leg \<ge> 0 \<and> leg < int (length owners) then owners[nat leg := True] else owners)"

definition recordOwners :: "nat \<Rightarrow> StreamTXRecord \<Rightarrow> bool list" where
  "recordOwners n r =
     (let o1 = flagOwner (r_ordinaryOwner r) (replicate n False);
          o2 = flagOwner (r_lastSentLeg r) o1;
          o3 = (if r_inTransit r then flagOwner (int (unat (r_transitLeg r))) o2 else o2)
      in if r_rescueInTransit r then flagOwner (int (unat (r_rescueLeg r))) o3 else o3)"

definition snapshotRecord :: "gotime \<Rightarrow> nat \<Rightarrow> StreamTXRecord \<Rightarrow> StreamTXSnapshot \<Rightarrow> StreamTXSnapshot" where
  "snapshotRecord now n r s =
     (let age0 = Sub now (r_createdAt r);
          age = (if IsZero (r_createdAt r) \<or> age0 < 0 then 0 else age0)
      in s\<lparr>sn_OutstandingFrames := sn_OutstandingFrames s + 1,
           sn_OutstandingBytes := sn_OutstandingBytes s + of_nat (length (r_payload r)),
           sn_OldestOutstandingAge := (if age > sn_OldestOutstandingAge s then age else sn_OldestOutstandingAge s),
           sn_PerLeg := map2 (\<lambda>owned p. if owned
                                then p\<lparr>ls_OutstandingFrames := ls_OutstandingFrames p + 1,
                                       ls_OldestOutstanding := (if age > ls_OldestOutstanding p then age
                                                                else ls_OldestOutstanding p)\<rparr>
                                else p) (recordOwners n r) (sn_PerLeg s)\<rparr>)"

definition frontierOwners :: "nat \<Rightarrow> StreamTXRecord \<Rightarrow> bool list" where
  "frontierOwners n r =
     (let o1 = flagOwner (r_lastSentLeg r) (replicate n False);
          o2 = (if r_inTransit r then flagOwner (int (unat (r_transitLeg r))) o1 else o1)
      in if r_rescueInTransit r then flagOwner (int (unat (r_rescueLeg r))) o2 else o2)"

definition frontierLeg :: "bool list \<Rightarrow> StreamTXRecord \<Rightarrow> int" where
  "frontierLeg owners r =
     (let (owner1, latest) =
            (if r_inTransit r \<and> (IsZero (r_lastSentAttemptAt r) \<or> r_transitSince r > r_lastSentAttemptAt r)
             then (int (unat (r_transitLeg r)), r_transitSince r)
             else (r_lastSentLeg r, r_lastSentAttemptAt r));
          owner2 = (if r_rescueInTransit r \<and> (IsZero latest \<or> r_rescueSince r > latest)
                    then int (unat (r_rescueLeg r)) else owner1)
      in if owner2 < 0
         then (case find (\<lambda>i. owners ! i) [0..<length owners] of None \<Rightarrow> owner2 | Some i \<Rightarrow> int i)
         else owner2)"

definition snapshotFrontier :: "gotime \<Rightarrow> nat \<Rightarrow> StreamTXRecord \<Rightarrow> StreamTXSnapshot \<Rightarrow> StreamTXSnapshot" where
  "snapshotFrontier now n r s =
     (let owners = frontierOwners n r; ownerCount = length (filter (\<lambda>b. b) owners)
      in if ownerCount > 0
         then s\<lparr>sn_AckFrontierValid := True, sn_AckFrontierMultiPath := ownerCount > 1,
                sn_AckFrontierLeg := of_int (frontierLeg owners r),
                sn_AckFrontierAge := (if \<not> IsZero (r_createdAt r)
                                      then (if Sub now (r_createdAt r) < 0 then 0 else Sub now (r_createdAt r))
                                      else sn_AckFrontierAge s)\<rparr>
         else s)"

definition Snapshot :: "gotime \<Rightarrow> StreamTXLedger \<Rightarrow> StreamTXSnapshot \<times> StreamTXLedger" where
  "Snapshot now l0 =
     (let l = ensureLocked l0; n = maxLegs l;
          none = \<lparr>ls_OutstandingFrames = 0, ls_OldestOutstanding = 0\<rparr>;
          s0 = \<lparr>sn_NextSequence = nextSequence l, sn_AckedNext = ackedNext l, sn_OutstandingFrames = 0,
                sn_OutstandingBytes = 0, sn_OldestOutstandingAge = 0, sn_AckFrontierValid = False,
                sn_AckFrontierLeg = 0, sn_AckFrontierMultiPath = False, sn_AckFrontierAge = 0,
                sn_LastACKProgress = lastACKProgress l, sn_PerLeg = replicate n none, sn_ByLeg = [none, none]\<rparr>;
          s1 = fold (snapshotRecord now n) (outstanding_recs l) s0;
          s2 = s1\<lparr>sn_ByLeg := take 2 (sn_PerLeg s1 @ drop (length (sn_PerLeg s1)) (sn_ByLeg s1))\<rparr>
      in (case mget (outstanding l) (ackedNext l) of
            None \<Rightarrow> s2
          | Some a \<Rightarrow> snapshotFrontier now n (rec_at l a) s2, l))"

record StreamTXRescueEvidence =
  re_Exists :: bool
  re_Sequence :: u64
  re_OrdinaryOwner :: int
  re_OriginGeneration :: u64
  re_Invalidated :: bool
  re_InTransit :: bool
  re_TransitLeg :: LegID
  re_FirstWriteAt :: gotime
  re_Duplicated :: bool
  re_AckedNext :: u64

definition rescueEvidenceSnapshot :: "addr option \<Rightarrow> StreamTXLedger \<Rightarrow> StreamTXRescueEvidence" where
  "rescueEvidenceSnapshot record l =
     (let none = \<lparr>re_Exists = False, re_Sequence = 0, re_OrdinaryOwner = 0, re_OriginGeneration = 0,
                  re_Invalidated = False, re_InTransit = False, re_TransitLeg = 0, re_FirstWriteAt = 0,
                  re_Duplicated = False, re_AckedNext = 0\<rparr>
      in case record of
           None \<Rightarrow> none
         | Some a \<Rightarrow>
             let r = rec_at l a; s = none\<lparr>re_Sequence := r_sequence r, re_AckedNext := ackedNext l\<rparr>
             in if \<not> current l record then s
                else s\<lparr>re_Exists := True, re_OrdinaryOwner := r_ordinaryOwner r,
                       re_OriginGeneration := r_originGeneration r, re_Invalidated := r_invalidated r,
                       re_InTransit := r_inTransit r, re_TransitLeg := r_transitLeg r,
                       re_FirstWriteAt := r_firstWriteAt r, re_Duplicated := r_duplicated r\<rparr>)"

definition probeReference :: "addr option \<Rightarrow> bool \<Rightarrow> StreamTXLedger \<Rightarrow> gotime" where
  "probeReference record recovering l =
     (if \<not> current l record then 0
      else let r = rec_at l (the record);
               ref0 = (if \<not> recovering then r_createdAt r else r_frontierAt r);
               ref1 = (if IsZero ref0 then r_createdAt r else ref0);
               ref2 = (if r_firstWriteAt r > ref1 then r_firstWriteAt r else ref1)
           in if recovering
              then (case r_recoveryProbeWriteStartedAt r of Some t \<Rightarrow> t | None \<Rightarrow> ref2)
              else ref2)"

text \<open>\<open>observed\<close> is the \<open>time.Now()\<close> of the call.\<close>

record streamTXProbeReferenceSnapshot =
  pr_Exists :: bool
  pr_Invalidated :: bool
  pr_AckedNext :: u64
  pr_Sequence :: u64
  pr_Owner :: int
  pr_OriginGeneration :: u64
  pr_CreatedAt :: gotime
  pr_FrontierAt :: gotime
  pr_TransitSince :: gotime
  pr_LastSentAt :: gotime
  pr_LastRescueAt :: gotime
  pr_FirstWriteAt :: gotime
  pr_ReferenceAt :: gotime
  pr_LedgerObservedAt :: gotime
  pr_InTransit :: bool
  pr_TransitLeg :: u8
  pr_RescueInTransit :: bool
  pr_RescueLeg :: u8
  pr_RescueSince :: gotime
  pr_SendCount :: u32

definition probeReferenceSnapshot ::
  "gotime \<Rightarrow> addr option \<Rightarrow> bool \<Rightarrow> StreamTXLedger \<Rightarrow> streamTXProbeReferenceSnapshot" where
  "probeReferenceSnapshot observed record recovering l =
     (if \<not> current l record
      then \<lparr>pr_Exists = False, pr_Invalidated = False, pr_AckedNext = ackedNext l, pr_Sequence = 0, pr_Owner = 0,
            pr_OriginGeneration = 0, pr_CreatedAt = 0, pr_FrontierAt = 0, pr_TransitSince = 0, pr_LastSentAt = 0,
            pr_LastRescueAt = 0, pr_FirstWriteAt = 0, pr_ReferenceAt = 0, pr_LedgerObservedAt = observed,
            pr_InTransit = False, pr_TransitLeg = 0, pr_RescueInTransit = False, pr_RescueLeg = 0,
            pr_RescueSince = 0, pr_SendCount = 0\<rparr>
      else let r = rec_at l (the record);
               ref0 = (if \<not> recovering then r_createdAt r else r_frontierAt r);
               (ref1, probeStart) = (case r_recoveryProbeWriteStartedAt r of
                                       Some t \<Rightarrow> if recovering then (t, True) else (ref0, False)
                                     | None \<Rightarrow> (ref0, False));
               ref2 = (if IsZero ref1 then r_createdAt r else ref1);
               ref3 = (if \<not> probeStart \<and> r_firstWriteAt r > ref2 then r_firstWriteAt r else ref2)
           in \<lparr>pr_Exists = True, pr_Invalidated = r_invalidated r, pr_AckedNext = ackedNext l,
               pr_Sequence = r_sequence r,
               pr_Owner = (if r_inTransit r then int (unat (r_transitLeg r)) else r_lastSentLeg r),
               pr_OriginGeneration = r_originGeneration r, pr_CreatedAt = r_createdAt r,
               pr_FrontierAt = r_frontierAt r, pr_TransitSince = r_transitSince r,
               pr_LastSentAt = r_lastSentAt r, pr_LastRescueAt = r_lastRescueAt r,
               pr_FirstWriteAt = r_firstWriteAt r, pr_ReferenceAt = ref3, pr_LedgerObservedAt = observed,
               pr_InTransit = r_inTransit r, pr_TransitLeg = r_transitLeg r,
               pr_RescueInTransit = r_rescueInTransit r, pr_RescueLeg = r_rescueLeg r,
               pr_RescueSince = r_rescueSince r, pr_SendCount = r_sendCount r\<rparr>)"

text \<open>The loop of \<open>sentTailStalled\<close>: transmitted bytes, whether something was sent twice, and the
  oldest first write.\<close>

definition sentTail :: "StreamTXRecord \<Rightarrow> u64 \<times> bool \<times> gotime \<Rightarrow> u64 \<times> bool \<times> gotime" where
  "sentTail r = (\<lambda>(sz, repeated, old).
     if IsZero (r_firstWriteAt r) then (sz, repeated, old)
     else (sz + of_nat (length (r_payload r)), repeated \<or> r_sendCount r \<ge> 2,
           if IsZero old \<or> r_firstWriteAt r < old then r_firstWriteAt r else old))"

definition sentTailStalled :: "gotime \<Rightarrow> duration \<Rightarrow> u64 \<Rightarrow> StreamTXLedger \<Rightarrow> bool" where
  "sentTailStalled now required minBytes l \<longleftrightarrow>
     (case fold sentTail (outstanding_recs l) (0, False, 0) of
        (sz, repeated, old) \<Rightarrow>
          (sz \<ge> minBytes \<or> repeated) \<and> \<not> IsZero old \<and> Sub now old \<ge> required
          \<and> (IsZero (lastACKProgress l) \<or> Sub now (lastACKProgress l) \<ge> required))"

end
