(* ===== verification/TX_Invariant.thy ===== *)
theory TX_Invariant
  imports TX_Ledger
begin

text \<open>
  The invariant of the transmit ledger and its preservation by every operation: the outstanding
  records are exactly the sequence numbers between the acknowledged and the next one, the heap holds
  one record per allocated sequence number, and the per-leg counters are the sums over the
  outstanding records of their ordinary owner.
\<close>

definition plen :: "StreamTXRecord \<Rightarrow> u64" where "plen r = of_nat (length (r_payload r))"

definition unadmitted :: "StreamTXRecord \<Rightarrow> u64" where
  "unadmitted r = (if r_ordinaryAdmitted r then 0 else plen r)"

definition owned :: "int \<Rightarrow> (StreamTXRecord \<Rightarrow> 'a::comm_monoid_add) \<Rightarrow> StreamTXLedger \<Rightarrow> 'a" where
  "owned i v l = msum (\<lambda>_ a. if r_ordinaryOwner (rec_at l a) = i then v (rec_at l a) else 0) (outstanding l)"

definition counters_ok :: "StreamTXLedger \<Rightarrow> bool" where
  "counters_ok l \<longleftrightarrow>
     length (ordinaryFrames l) = maxLegs l \<and> length (ordinaryBytes l) = maxLegs l
     \<and> length (pendingBytes l) = maxLegs l
     \<and> (\<forall>i < maxLegs l. ordinaryFrames l ! i = owned (int i) (\<lambda>_. 1) l
          \<and> ordinaryBytes l ! i = owned (int i) plen l \<and> pendingBytes l ! i = owned (int i) unadmitted l)"

text \<open>One record per allocated sequence number, with an owner among the known legs.\<close>

definition recs_ok :: "StreamTXLedger \<Rightarrow> bool" where
  "recs_ok l \<longleftrightarrow>
     length (heap l) = unat (nextSequence l)
     \<and> (\<forall>a < length (heap l). r_sequence (rec_at l a) = of_nat a
          \<and> -1 \<le> r_ordinaryOwner (rec_at l a) \<and> r_ordinaryOwner (rec_at l a) < int (maxLegs l))"

text \<open>The outstanding records are those from sequence number \<open>s\<close> on.\<close>

definition dom_ok :: "u64 \<Rightarrow> StreamTXLedger \<Rightarrow> bool" where
  "dom_ok s l \<longleftrightarrow>
     mwf (outstanding l) \<and> s \<le> nextSequence l
     \<and> (\<forall>k. mget (outstanding l) k = (if s \<le> k \<and> k < nextSequence l then Some (unat k) else None))"

definition ledger_from :: "u64 \<Rightarrow> StreamTXLedger \<Rightarrow> bool" where
  "ledger_from s l \<longleftrightarrow>
     dom_ok s l \<and> recs_ok l \<and> 1 \<le> maxLegs l \<and> maxLegs l \<le> MaxStreamLegIDCount \<and> counters_ok l"

definition ledger_inv :: "StreamTXLedger \<Rightarrow> bool" where
  "ledger_inv l \<longleftrightarrow> ledger_from (ackedNext l) l"

text \<open>The part of the ledger that the invariant reads.\<close>

definition vw :: "StreamTXRecord \<Rightarrow> u64 \<times> bytes \<times> int \<times> bool" where
  "vw r = (r_sequence r, r_payload r, r_ordinaryOwner r, r_ordinaryAdmitted r)"

definition core :: "StreamTXLedger \<Rightarrow>
    (u64 \<times> bytes \<times> int \<times> bool) list \<times> u64 \<times> (u64, addr) gomap \<times> nat \<times> int list \<times> u64 list \<times> u64 list" where
  "core l = (map vw (heap l), nextSequence l, outstanding l, maxLegs l, ordinaryFrames l,
             ordinaryBytes l, pendingBytes l)"

section \<open>Frame lemmas\<close>

lemma plen_vw: "vw r = vw r' \<Longrightarrow> plen r = plen r' \<and> unadmitted r = unadmitted r' \<and>
    r_sequence r = r_sequence r' \<and> r_ordinaryOwner r = r_ordinaryOwner r'"
  by (simp add: vw_def plen_def unadmitted_def)

lemma core_eq_vw:
  assumes "core l' = core l" and "a < length (heap l)"
  shows "vw (rec_at l' a) = vw (rec_at l a)"
proof -
  have m: "map vw (heap l') = map vw (heap l)" using assms(1) by (simp add: core_def)
  then have "length (heap l') = length (heap l)" by (rule map_eq_imp_length_eq)
  with assms(2) m show ?thesis using nth_map [of a "heap l'" vw] nth_map [of a "heap l" vw] by simp
qed

lemma outstanding_range:
  assumes "ledger_from s l" and "(k, a) \<in> set (outstanding l)"
  shows "a < length (heap l) \<and> a = unat k \<and> s \<le> k \<and> k < nextSequence l"
proof -
  from assms(1) have wf: "mwf (outstanding l)" and len: "length (heap l) = unat (nextSequence l)"
    and get: "mget (outstanding l) k = (if s \<le> k \<and> k < nextSequence l then Some (unat k) else None)"
    by (auto simp: ledger_from_def dom_ok_def recs_ok_def)
  from in_mget [OF wf assms(2)] get have "s \<le> k \<and> k < nextSequence l \<and> a = unat k"
    by (simp split: if_splits)
  with len show ?thesis by (simp add: word_less_nat_alt)
qed

lemma core_owned:
  assumes "ledger_from s l" and "core l' = core l" and "\<And>r r'. vw r = vw r' \<Longrightarrow> v r = v r'"
  shows "owned i v l' = owned i v l"
proof -
  have o: "outstanding l' = outstanding l" using assms(2) by (simp add: core_def)
  show ?thesis unfolding owned_def o
  proof (rule msum_cong)
    fix k a assume "(k, a) \<in> set (outstanding l)"
    with assms(1) have "a < length (heap l)" using outstanding_range by blast
    from core_eq_vw [OF assms(2) this] assms(3)
    show "(if r_ordinaryOwner (rec_at l' a) = i then v (rec_at l' a) else 0)
        = (if r_ordinaryOwner (rec_at l a) = i then v (rec_at l a) else 0)"
      by (metis plen_vw)
  qed
qed

lemma ledger_from_core:
  assumes "ledger_from s l" and "core l' = core l"
  shows "ledger_from s l'"
proof -
  have eqs: "nextSequence l' = nextSequence l" "outstanding l' = outstanding l" "maxLegs l' = maxLegs l"
    "ordinaryFrames l' = ordinaryFrames l" "ordinaryBytes l' = ordinaryBytes l"
    "pendingBytes l' = pendingBytes l" and len: "length (heap l') = length (heap l)"
    using assms(2) by (auto simp: core_def dest: map_eq_imp_length_eq)
  have ow: "owned i plen l' = owned i plen l" "owned i unadmitted l' = owned i unadmitted l"
    "owned i (\<lambda>_. 1 :: int) l' = owned i (\<lambda>_. 1) l" for i
    by (rule core_owned [OF assms]; use plen_vw in blast)+
  have "counters_ok l" using assms(1) by (simp add: ledger_from_def)
  then have "counters_ok l'" by (simp add: counters_ok_def eqs ow)
  moreover have "recs_ok l'"
    unfolding recs_ok_def eqs len
  proof (intro conjI allI impI)
    show "length (heap l) = unat (nextSequence l)" using assms(1) by (simp add: ledger_from_def recs_ok_def)
    fix a assume a: "a < length (heap l)"
    have "r_sequence (rec_at l' a) = r_sequence (rec_at l a)" "r_ordinaryOwner (rec_at l' a) = r_ordinaryOwner (rec_at l a)"
      using plen_vw [OF core_eq_vw [OF assms(2) a]] by blast+
    then show "r_sequence (rec_at l' a) = of_nat a" "-1 \<le> r_ordinaryOwner (rec_at l' a)"
      "r_ordinaryOwner (rec_at l' a) < int (maxLegs l)"
      using assms(1) a by (simp_all add: ledger_from_def recs_ok_def)
  qed
  moreover have "dom_ok s l'" using assms(1) by (simp add: ledger_from_def dom_ok_def eqs)
  ultimately show ?thesis using assms(1) by (simp add: ledger_from_def eqs)
qed

lemma ledger_inv_core:
  "ledger_inv l \<Longrightarrow> core l' = core l \<Longrightarrow> ackedNext l' = ackedNext l \<Longrightarrow> ledger_inv l'"
  using ledger_from_core by (simp add: ledger_inv_def)

lemma core_upd [simp]:
  assumes "\<And>r. vw (g r) = vw r"
  shows "core (upd a g l) = core l" "ackedNext (upd a g l) = ackedNext l"
proof -
  have "map vw ((heap l)[a := g (rec_at l a)]) = map vw (heap l)"
    using assms by (cases "a < length (heap l)") (auto simp: map_update list_update_same_conv list_update_beyond)
  then show "core (upd a g l) = core l" "ackedNext (upd a g l) = ackedNext l"
    by (simp_all add: core_def upd_def)
qed

lemma evidence_frame [simp]:
  "core (evidenceLocked e a now l) = core l" "ackedNext (evidenceLocked e a now l) = ackedNext l"
  "heap (evidenceLocked e a now l) = heap l" "outstanding (evidenceLocked e a now l) = outstanding l"
  "nextSequence (evidenceLocked e a now l) = nextSequence l" "maxLegs (evidenceLocked e a now l) = maxLegs l"
  "ordinaryFrames (evidenceLocked e a now l) = ordinaryFrames l"
  "ordinaryBytes (evidenceLocked e a now l) = ordinaryBytes l"
  "pendingBytes (evidenceLocked e a now l) = pendingBytes l"
  "futureACKCount (evidenceLocked e a now l) = futureACKCount l"
  "lastACKProgress (evidenceLocked e a now l) = lastACKProgress l"
  by (simp_all add: evidenceLocked_def core_def Let_def)

section \<open>Operations that keep the core\<close>

text \<open>Attempt bookkeeping, snapshots and traces change neither a record's sequence number, payload,
  owner and admission nor the ledger's maps and counters.\<close>

lemma vw_invalidateRecord [simp]: "vw (invalidateRecord leg r) = vw r"
  by (simp add: vw_def invalidateRecord_def Let_def)

lemma vw_commitAttempt [simp]: "vw (commitAttempt leg started now r) = vw r"
  by (simp add: vw_def commitAttempt_def Let_def)

lemma core_upd_const:
  assumes "vw r' = vw (rec_at l a)"
  shows "core (upd a (\<lambda>_. r') l) = core l \<and> ackedNext (upd a (\<lambda>_. r') l) = ackedNext l"
proof -
  have "map vw ((heap l)[a := r']) = map vw (heap l)"
    using assms by (cases "a < length (heap l)") (auto simp: map_update list_update_same_conv list_update_beyond)
  then show ?thesis by (simp add: core_def upd_def)
qed

named_theorems ledger_frame \<open>operations that leave the core of the ledger as it is\<close>

lemma MarkTransit_frame [ledger_frame]:
  "core (snd (MarkTransit rc leg now l)) = core l \<and> ackedNext (snd (MarkTransit rc leg now l)) = ackedNext l"
  by (simp add: MarkTransit_def vw_def)

lemma markRescueTransitLocked_frame [ledger_frame]:
  "core (snd (markRescueTransitLocked rc leg now l)) = core l
   \<and> ackedNext (snd (markRescueTransitLocked rc leg now l)) = ackedNext l"
  by (simp add: markRescueTransitLocked_def Let_def vw_def)

lemma MarkRescueTransit_frame [ledger_frame]:
  "core (snd (MarkRescueTransit rc leg now l)) = core l
   \<and> ackedNext (snd (MarkRescueTransit rc leg now l)) = ackedNext l"
  by (simp add: MarkRescueTransit_def ledger_frame)

lemma MarkRestrictedRescueTransit_frame [ledger_frame]:
  "core (snd (MarkRestrictedRescueTransit rc leg owner now l)) = core l
   \<and> ackedNext (snd (MarkRestrictedRescueTransit rc leg owner now l)) = ackedNext l"
  by (simp add: MarkRestrictedRescueTransit_def ledger_frame)

lemma MarkRescueQueued_frame [ledger_frame]:
  "core (snd (MarkRescueQueued rc leg started l)) = core l
   \<and> ackedNext (snd (MarkRescueQueued rc leg started l)) = ackedNext l"
  by (simp add: MarkRescueQueued_def Let_def vw_def)

lemma clearAttemptAt_frame [ledger_frame]:
  "core (clearAttemptAt rc leg rescue started l) = core l
   \<and> ackedNext (clearAttemptAt rc leg rescue started l) = ackedNext l"
  by (simp add: clearAttemptAt_def Let_def vw_def)

lemma MarkAttemptSent_frame [ledger_frame]:
  "core (snd (MarkAttemptSent rc leg rescue now l)) = core l
   \<and> ackedNext (snd (MarkAttemptSent rc leg rescue now l)) = ackedNext l"
proof -
  have "vw (commitAttempt leg t now (r\<lparr>r_rescueInTransit := False, r_rescueSince := 0\<rparr>)) = vw r"
    "vw (commitAttempt leg t now (r\<lparr>r_inTransit := False, r_transitSince := 0\<rparr>)) = vw r" for t r
    unfolding vw_commitAttempt by (simp_all add: vw_def)
  then show ?thesis by (simp add: MarkAttemptSent_def Let_def core_upd_const)
qed

lemma markWriteStarted_frame [ledger_frame]:
  "core (markWriteStarted a leg rescue now l) = core l \<and> ackedNext (markWriteStarted a leg rescue now l) = ackedNext l"
  by (simp add: markWriteStarted_def Let_def vw_def)

lemma setOrigin_frame [ledger_frame]:
  "core (setOrigin a g epoch l) = core l \<and> ackedNext (setOrigin a g epoch l) = ackedNext l"
  by (simp add: setOrigin_def vw_def)

lemma finishLocalEnqueue_frame [ledger_frame]:
  "core (finishLocalEnqueue a l) = core l \<and> ackedNext (finishLocalEnqueue a l) = ackedNext l"
  by (simp add: finishLocalEnqueue_def vw_def)

lemma exposeFrontier_frame [ledger_frame]:
  "core (exposeFrontier now l) = core l \<and> ackedNext (exposeFrontier now l) = ackedNext l"
  by (simp add: exposeFrontier_def vw_def split: option.split)

lemma upd_fold_frame:
  "(\<And>r. vw (g r) = vw r) \<Longrightarrow>
     core (fold (\<lambda>(_, a). upd a g) m l) = core l \<and> ackedNext (fold (\<lambda>(_, a). upd a g) m l) = ackedNext l"
  by (induction m arbitrary: l) (auto simp: case_prod_unfold)

lemma InvalidateLeg_frame [ledger_frame]:
  "core (InvalidateLeg leg l) = core l \<and> ackedNext (InvalidateLeg leg l) = ackedNext l"
  by (simp add: InvalidateLeg_def upd_fold_frame)

section \<open>Sizing\<close>

lemma counters_grow:
  assumes "ledger_from s l" and "core l' = (map vw (heap l), nextSequence l, outstanding l, n,
      ordinaryFrames l @ replicate (n - maxLegs l) 0, ordinaryBytes l @ replicate (n - maxLegs l) 0,
      pendingBytes l @ replicate (n - maxLegs l) 0)"
    and "maxLegs l \<le> n" and "n \<le> MaxStreamLegIDCount"
  shows "ledger_from s l'"
proof -
  define l1 where "l1 = l\<lparr>maxLegs := n, ordinaryFrames := ordinaryFrames l @ replicate (n - maxLegs l) 0,
     ordinaryBytes := ordinaryBytes l @ replicate (n - maxLegs l) 0,
     pendingBytes := pendingBytes l @ replicate (n - maxLegs l) 0\<rparr>"
  have none: "owned (int i) v l = 0" if "maxLegs l \<le> i" for i and v :: "StreamTXRecord \<Rightarrow> 'a::comm_monoid_add"
  proof -
    have "owned (int i) v l = msum (\<lambda>_ _. 0) (outstanding l)"
      unfolding owned_def
    proof (rule msum_cong)
      fix k a assume "(k, a) \<in> set (outstanding l)"
      with outstanding_range [OF assms(1)] assms(1) that
      have "r_ordinaryOwner (rec_at l a) \<noteq> int i" by (fastforce simp: ledger_from_def recs_ok_def)
      then show "(if r_ordinaryOwner (rec_at l a) = int i then v (rec_at l a) else 0) = 0" by simp
    qed
    then show ?thesis by (simp add: msum_def case_prod_unfold)
  qed
  have ow: "owned i v l1 = owned i v l" for i and v :: "StreamTXRecord \<Rightarrow> 'a::comm_monoid_add"
    by (simp add: owned_def l1_def cong: if_cong)
  have l1: "maxLegs l1 = n" "ordinaryFrames l1 = ordinaryFrames l @ replicate (n - maxLegs l) 0"
    "ordinaryBytes l1 = ordinaryBytes l @ replicate (n - maxLegs l) 0"
    "pendingBytes l1 = pendingBytes l @ replicate (n - maxLegs l) 0"
    by (simp_all add: l1_def)
  have "counters_ok l" using assms(1) by (simp add: ledger_from_def)
  then have "counters_ok l1"
    using assms(3) by (auto simp: counters_ok_def l1 ow none nth_append)
  then have "ledger_from s l1"
    using assms by (force simp: ledger_from_def dom_ok_def recs_ok_def l1_def)
  moreover have "core l' = core l1" using assms(2) by (simp add: core_def l1_def)
  ultimately show ?thesis by (rule ledger_from_core)
qed

lemma ensureLocked_from:
  assumes "ledger_from s l"
  shows "ledger_from s (ensureLocked l)"
proof -
  have len: "length (ordinaryFrames l) = maxLegs l" "length (ordinaryBytes l) = maxLegs l"
    "length (pendingBytes l) = maxLegs l" and pos: "1 \<le> maxLegs l" and le: "maxLegs l \<le> MaxStreamLegIDCount"
    using assms by (auto simp: ledger_from_def counters_ok_def)
  let ?n = "if maxLegs l < 2 then 2 else maxLegs l"
  have "core (ensureLocked l) = (map vw (heap l), nextSequence l, outstanding l, ?n,
      ordinaryFrames l @ replicate (?n - maxLegs l) 0, ordinaryBytes l @ replicate (?n - maxLegs l) 0,
      pendingBytes l @ replicate (?n - maxLegs l) 0)"
    using len by (simp add: ensureLocked_def Let_def core_def)
  then show ?thesis
    by (rule counters_grow [OF assms]) (use le in \<open>auto simp: MaxStreamLegIDCount_def\<close>)
qed

lemma ensureLocked_frame [simp]:
  "heap (ensureLocked l) = heap l" "outstanding (ensureLocked l) = outstanding l"
  "ackedNext (ensureLocked l) = ackedNext l" "nextSequence (ensureLocked l) = nextSequence l"
  "lastACKProgress (ensureLocked l) = lastACKProgress l" "futureACKCount (ensureLocked l) = futureACKCount l"
  by (simp_all add: ensureLocked_def Let_def)

lemma ensureLocked_inv: "ledger_inv l \<Longrightarrow> ledger_inv (ensureLocked l)"
  by (simp add: ledger_inv_def ensureLocked_from)

lemma ensureLegLocked_frame:
  assumes "ensureLegLocked leg l = (ok, l')"
  shows "heap l' = heap l" "outstanding l' = outstanding l" "ackedNext l' = ackedNext l" "nextSequence l' = nextSequence l"
  using assms by (auto simp: ensureLegLocked_def Let_def split: if_splits)

lemma ensureLegLocked_inv:
  assumes "ledger_inv l" and "ensureLegLocked leg l = (ok, l')"
  shows "ledger_inv l' \<and> ok \<and> unat leg < maxLegs l'"
proof -
  let ?l = "ensureLocked l" and ?want = "unat leg + 1"
  have small: "unat leg < 256" using unsigned_less [of leg] by simp
  note inv = ensureLocked_inv [OF assms(1)]
  then have len: "length (ordinaryFrames ?l) = maxLegs ?l" "length (ordinaryBytes ?l) = maxLegs ?l"
    "length (pendingBytes ?l) = maxLegs ?l"
    by (auto simp: ledger_inv_def ledger_from_def counters_ok_def)
  show ?thesis
  proof (cases "?want \<le> maxLegs ?l")
    case True
    with assms(2) inv small show ?thesis by (auto simp: ensureLegLocked_def Let_def MaxStreamLegIDCount_def)
  next
    case False
    with assms(2) small len have ok: "ok" "maxLegs l' = ?want" and
      c: "core l' = (map vw (heap ?l), nextSequence ?l, outstanding ?l, ?want,
          ordinaryFrames ?l @ replicate (?want - maxLegs ?l) 0, ordinaryBytes ?l @ replicate (?want - maxLegs ?l) 0,
          pendingBytes ?l @ replicate (?want - maxLegs ?l) 0)"
      by (auto simp: ensureLegLocked_def Let_def MaxStreamLegIDCount_def core_def)
    have "ledger_from (ackedNext l) l'"
      using counters_grow [OF _ c] inv False small by (simp add: ledger_inv_def MaxStreamLegIDCount_def)
    with ok ensureLegLocked_frame [OF assms(2)] show ?thesis by (simp add: ledger_inv_def)
  qed
qed

section \<open>Adding a record\<close>

lemma owned_append:
  assumes "ledger_from s l" and "heap l' = heap l @ [r]" and "outstanding l' = mput k (length (heap l)) (outstanding l)"
    and "mget (outstanding l) k = None"
  shows "owned i v l' = (if r_ordinaryOwner r = i then v r else 0) + owned i v l"
proof -
  let ?f = "\<lambda>l (_ :: u64) a. if r_ordinaryOwner (rec_at l a) = i then v (rec_at l a) else 0"
  have "msum (?f l') (outstanding l) = msum (?f l) (outstanding l)"
  proof (rule msum_cong)
    fix k a assume "(k, a) \<in> set (outstanding l)"
    with outstanding_range [OF assms(1)] have "a < length (heap l)" by blast
    then show "?f l' k a = ?f l k a" by (simp add: assms(2) nth_append)
  qed
  then show ?thesis
    unfolding owned_def assms(3) msum_update_new [OF assms(4)] by (simp add: assms(2))
qed

lemma add_step:
  assumes "ledger_inv l" and "unat (nextSequence l) + 1 < 2 ^ 64" and "add data now lcl l = (a, l')"
  shows "ledger_inv l' \<and> a = unat (nextSequence l) \<and> ackedNext l' = ackedNext l
    \<and> nextSequence l' = nextSequence l + 1 \<and> map r_payload (heap l') = map r_payload (heap l) @ [data]
    \<and> current l' (Some a)"
proof -
  let ?l = "ensureLocked l" and ?seq = "nextSequence l"
  define r where "r = (if ?seq = ackedNext l then (newRecord ?seq data now lcl)\<lparr>r_frontierAt := now\<rparr>
                       else newRecord ?seq data now lcl)"
  define l1 where "l1 = ?l\<lparr>heap := heap l @ [r], nextSequence := ?seq + 1,
                            outstanding := mput ?seq (length (heap l)) (outstanding l)\<rparr>"
  have r: "r_sequence r = ?seq" "r_ordinaryOwner r = -1" "r_payload r = data"
    by (simp_all add: r_def newRecord_def)
  have inv: "ledger_from (ackedNext l) ?l" using ensureLocked_inv [OF assms(1)] by (simp add: ledger_inv_def)
  then have len: "length (heap l) = unat ?seq" and le: "ackedNext l \<le> ?seq"
    and dom: "\<And>k. mget (outstanding l) k = (if ackedNext l \<le> k \<and> k < ?seq then Some (unat k) else None)"
    by (auto simp: ledger_from_def dom_ok_def recs_ok_def)
  have lt: "k < ?seq + 1 \<longleftrightarrow> k < ?seq \<or> k = ?seq" for k
    using unat_add_1 [OF assms(2)] by (auto simp: word_less_nat_alt word_unat_eq_iff)
  have ow: "owned (int i) v l1 = owned (int i) v ?l" for i and v :: "StreamTXRecord \<Rightarrow> 'a::comm_monoid_add"
    by (subst owned_append [OF inv, of l1 r ?seq]) (simp_all add: l1_def dom r)
  have "ackedNext l \<le> ?seq + 1" using le lt [of "ackedNext l"] by (auto simp: le_less)
  then have "dom_ok (ackedNext l) l1"
    using inv le lt dom by (auto simp: dom_ok_def ledger_from_def l1_def len)
  moreover have "recs_ok l1"
    using inv unat_add_1 [OF assms(2)] r len
    by (auto simp: recs_ok_def ledger_from_def l1_def nth_append less_Suc_eq word_unat_eq_iff)
  moreover have "counters_ok l1"
  proof -
    have "counters_ok ?l" using inv by (simp add: ledger_from_def)
    moreover have "maxLegs l1 = maxLegs ?l" "ordinaryFrames l1 = ordinaryFrames ?l"
      "ordinaryBytes l1 = ordinaryBytes ?l" "pendingBytes l1 = pendingBytes ?l" by (simp_all add: l1_def)
    ultimately show ?thesis by (simp add: counters_ok_def ow)
  qed
  ultimately have "ledger_from (ackedNext l) l1" using inv by (simp add: ledger_from_def l1_def)
  moreover have l': "l' = evidenceLocked ''created'' a now l1" and a: "a = unat ?seq"
    using assms(3) len by (auto simp: add_def Let_def l1_def r_def)
  ultimately have "ledger_from (ackedNext l) l'" by (auto intro: ledger_from_core)
  then show ?thesis using a len r by (simp add: l' ledger_inv_def) (simp add: l1_def r nth_append)
qed

section \<open>Changing the owner\<close>

lemma owned_upd:
  fixes v :: "StreamTXRecord \<Rightarrow> 'a::ab_group_add"
  assumes "ledger_from s l" and "current l (Some a)" and "heap l' = (heap l)[a := r']"
    and "outstanding l' = outstanding l"
  shows "owned i v l' = owned i v l - (if r_ordinaryOwner (rec_at l a) = i then v (rec_at l a) else 0)
           + (if r_ordinaryOwner r' = i then v r' else 0)"
proof -
  have wf: "mwf (outstanding l)" using assms(1) by (simp add: ledger_from_def dom_ok_def)
  have k: "mget (outstanding l) (r_sequence (rec_at l a)) = Some a" using assms(2) by simp
  then have "a < length (heap l)" using outstanding_range [OF assms(1) mget_in [OF k]] by blast
  moreover have "(heap l)[a := r'] ! a' = rec_at l a'"
    if "mget (outstanding l) k' = Some a'" "k' \<noteq> r_sequence (rec_at l a)" for k' a'
    using that k outstanding_range [OF assms(1) mget_in] by (metis nth_list_update_neq word_unat_eq_iff)
  ultimately show ?thesis
    unfolding owned_def assms(4)
    by (subst msum_change [OF wf k, where f = "\<lambda>_ a. if r_ordinaryOwner (rec_at l a) = i then v (rec_at l a) else 0"])
      (auto simp: assms(3))
qed

lemma bump_simps [simp]:
  "length (bump i g xs) = length xs"
  "0 \<le> i \<Longrightarrow> i < int (length xs) \<Longrightarrow> j < length xs \<Longrightarrow> bump i g xs ! j = (if int j = i then g (xs ! j) else xs ! j)"
  by (auto simp: bump_def nth_list_update)

lemma charge_frame [simp]:
  "heap (charge i r l) = heap l" "outstanding (charge i r l) = outstanding l" "maxLegs (charge i r l) = maxLegs l"
  "nextSequence (charge i r l) = nextSequence l" "ackedNext (charge i r l) = ackedNext l"
  "heap (uncharge i r l) = heap l" "outstanding (uncharge i r l) = outstanding l" "maxLegs (uncharge i r l) = maxLegs l"
  "nextSequence (uncharge i r l) = nextSequence l" "ackedNext (uncharge i r l) = ackedNext l"
  "lastACKProgress (uncharge i r l) = lastACKProgress l" "futureACKCount (uncharge i r l) = futureACKCount l"
  by (simp_all add: charge_def uncharge_def)

lemma upd_frame [simp]:
  "outstanding (upd a g l) = outstanding l" "maxLegs (upd a g l) = maxLegs l" "nextSequence (upd a g l) = nextSequence l"
  "ordinaryFrames (upd a g l) = ordinaryFrames l" "ordinaryBytes (upd a g l) = ordinaryBytes l"
  "pendingBytes (upd a g l) = pendingBytes l" "heap (upd a g l) = (heap l)[a := g (rec_at l a)]"
  "ackedNext (upd a g l) = ackedNext l" "lastACKProgress (upd a g l) = lastACKProgress l"
  "futureACKCount (upd a g l) = futureACKCount l"
  by (simp_all add: upd_def)

lemma recs_upd:
  assumes "recs_ok l" and "heap l' = (heap l)[a := r']" and "nextSequence l' = nextSequence l"
    and "maxLegs l' = maxLegs l" and "r_sequence r' = r_sequence (rec_at l a)"
    and "-1 \<le> r_ordinaryOwner r'" and "r_ordinaryOwner r' < int (maxLegs l)"
  shows "recs_ok l'"
proof -
  have "r_sequence (rec_at l' b) = of_nat b \<and> -1 \<le> r_ordinaryOwner (rec_at l' b)
      \<and> r_ordinaryOwner (rec_at l' b) < int (maxLegs l)" if "b < length (heap l)" for b
    using assms that by (cases "b = a") (auto simp: recs_ok_def)
  with assms show ?thesis by (simp add: recs_ok_def)
qed

lemma current_valid:
  assumes "ledger_from s l" and "current l (Some a)"
  shows "a < length (heap l) \<and> -1 \<le> r_ordinaryOwner (rec_at l a) \<and> r_ordinaryOwner (rec_at l a) < int (maxLegs l)
         \<and> s \<le> r_sequence (rec_at l a) \<and> r_sequence (rec_at l a) < nextSequence l"
proof -
  have "a < length (heap l) \<and> s \<le> r_sequence (rec_at l a) \<and> r_sequence (rec_at l a) < nextSequence l"
    using assms(2) outstanding_range [OF assms(1) mget_in] by simp
  moreover from this assms(1) have "-1 \<le> r_ordinaryOwner (rec_at l a) \<and> r_ordinaryOwner (rec_at l a) < int (maxLegs l)"
    unfolding ledger_from_def recs_ok_def by blast
  ultimately show ?thesis by blast
qed

lemma owner_change:
  assumes "ledger_from s l" and "current l (Some a)" and "r = rec_at l a" and "r' = r\<lparr>r_ordinaryOwner := int leg, r_assignedAt := now\<rparr>"
    and "leg < maxLegs l" and "r_ordinaryOwner r \<noteq> int leg"
    and "l1 = (if r_ordinaryOwner r \<ge> 0 then uncharge (r_ordinaryOwner r) r l else l)"
    and "core l2 = core (charge (int leg) r (upd a (\<lambda>_. r') l1))"
  shows "ledger_from s l2"
proof -
  define L where "L = charge (int leg) r (upd a (\<lambda>_. r') l1)"
  note valid = current_valid [OF assms(1,2)]
  have hp: "heap L = (heap l)[a := r']" and out: "outstanding L = outstanding l"
    and ml: "maxLegs L = maxLegs l" and ns: "nextSequence L = nextSequence l"
    by (auto simp: L_def assms(7))
  have c: "counters_ok l" using assms(1) by (simp add: ledger_from_def)
  then have len: "length (ordinaryFrames l) = maxLegs l" "length (ordinaryBytes l) = maxLegs l"
    "length (pendingBytes l) = maxLegs l" by (auto simp: counters_ok_def)
  have v': "plen r' = plen r" "unadmitted r' = unadmitted r" "r_ordinaryOwner r' = int leg"
    by (simp_all add: assms(4) plen_def unadmitted_def)
  have own: "r_ordinaryOwner r < int (maxLegs l)" using valid assms(3) by simp
  have lenL: "length (ordinaryFrames L) = maxLegs l" "length (ordinaryBytes L) = maxLegs l" "length (pendingBytes L) = maxLegs l"
    by (simp_all add: L_def assms(7) charge_def uncharge_def len)
  have "ordinaryFrames L ! i = owned (int i) (\<lambda>_. 1) L \<and> ordinaryBytes L ! i = owned (int i) plen L
      \<and> pendingBytes L ! i = owned (int i) unadmitted L" if i: "i < maxLegs l" for i
  proof -
    let ?was = "\<lambda>x. if r_ordinaryOwner r = int i then x else 0" and ?is = "\<lambda>x. if leg = i then x else 0"
    have "ordinaryFrames L ! i = ordinaryFrames l ! i - (if r_ordinaryOwner r = int i then 1 else 0) + (if leg = i then 1 else 0)"
      "ordinaryBytes L ! i = ordinaryBytes l ! i - ?was (plen r) + ?is (plen r)"
      "pendingBytes L ! i = pendingBytes l ! i - ?was (unadmitted r) + ?is (unadmitted r)"
      using i own assms(5,6) len
      by (auto simp: L_def assms(7) charge_def uncharge_def plen_def unadmitted_def)
    then show ?thesis
      using i c by (simp add: owned_upd [OF assms(1,2) hp out] counters_ok_def v' assms(3) [symmetric])
  qed
  then have "counters_ok L" by (simp add: counters_ok_def ml lenL)
  moreover have "recs_ok L"
    by (rule recs_upd [OF _ hp ns ml]) (use assms in \<open>auto simp: ledger_from_def\<close>)
  ultimately have "ledger_from s L"
    using assms(1) by (simp add: ledger_from_def dom_ok_def out ns ml)
  then show ?thesis using assms(8) by (auto simp: L_def intro: ledger_from_core)
qed

lemma assignOrdinary_inv:
  assumes "ledger_inv l" and "assignOrdinary rc leg now l = (ok, l')"
  shows "ledger_inv l' \<and> nextSequence l' = nextSequence l \<and> ackedNext l' = ackedNext l
    \<and> map r_payload (heap l') = map r_payload (heap l) \<and> outstanding l' = outstanding l"
proof -
  obtain ok0 l0 where E: "ensureLegLocked leg l = (ok0, l0)" by (meson surj_pair)
  note inv0 = ensureLegLocked_inv [OF assms(1) E] and fr = ensureLegLocked_frame [OF E]
  let ?r = "rec_at l0 (the rc)"
  show ?thesis
  proof (cases "current l0 rc \<and> r_ordinaryOwner ?r \<noteq> int (unat leg)")
    case False
    then have "l' = l0" using assms(2) E inv0 by (auto simp: assignOrdinary_def Let_def split: if_splits)
    with inv0 fr show ?thesis by simp
  next
    case True
    then obtain a where a: "rc = Some a" and cur: "current l0 (Some a)" by (cases rc) auto
    let ?r' = "rec_at l0 a\<lparr>r_ordinaryOwner := int (unat leg), r_assignedAt := now\<rparr>"
    define l1 where "l1 = (if r_ordinaryOwner (rec_at l0 a) \<ge> 0 then uncharge (r_ordinaryOwner (rec_at l0 a)) (rec_at l0 a) l0 else l0)"
    have h1: "heap l1 = heap l0" "outstanding l1 = outstanding l0" "nextSequence l1 = nextSequence l0"
      "ackedNext l1 = ackedNext l0" by (auto simp: l1_def)
    have l': "l' = charge (int (unat leg)) (rec_at l0 a) (evidenceLocked ''assigned'' a now (upd a (\<lambda>_. ?r') l1))"
      using assms(2) E inv0 True a by (auto simp: assignOrdinary_def Let_def l1_def upd_def split: if_splits)
    have c: "core l' = core (charge (int (unat leg)) (rec_at l0 a) (upd a (\<lambda>_. ?r') l1))"
      by (simp add: l' core_def charge_def)
    have "ledger_from (ackedNext l) l'"
      by (rule owner_change [OF _ cur refl refl _ _ l1_def c])
        (use inv0 fr True a in \<open>auto simp: ledger_inv_def\<close>)
    moreover have "map r_payload ((heap l)[a := ?r']) = map r_payload (heap l)"
      by (cases "a < length (heap l)") (auto simp: fr map_update list_update_same_conv list_update_beyond)
    ultimately show ?thesis using h1 fr by (simp add: l' ledger_inv_def)
  qed
qed

lemma map_payload_upd:
  "r_payload r' = r_payload (xs ! a) \<Longrightarrow> map r_payload (xs[a := r']) = map r_payload xs"
  by (cases "a < length xs") (auto simp: map_update list_update_same_conv list_update_beyond)

lemma admission_change:
  assumes "ledger_from s l" and "current l (Some a)" and "r = rec_at l a" and "r_ordinaryOwner r = int leg"
    and "\<not> r_ordinaryAdmitted r" and "leg < maxLegs l"
    and "L = (upd a (\<lambda>r. r\<lparr>r_ordinaryAdmitted := True\<rparr>) l)\<lparr>pendingBytes := bump (int leg) (\<lambda>n. n - of_nat (length (r_payload r))) (pendingBytes l)\<rparr>"
  shows "ledger_from s L"
proof -
  let ?r' = "r\<lparr>r_ordinaryAdmitted := True\<rparr>"
  have hp: "heap L = (heap l)[a := ?r']" and out: "outstanding L = outstanding l"
    and ml: "maxLegs L = maxLegs l" and ns: "nextSequence L = nextSequence l"
    and fl: "ordinaryFrames L = ordinaryFrames l" "ordinaryBytes L = ordinaryBytes l"
    "pendingBytes L = bump (int leg) (\<lambda>n. n - of_nat (length (r_payload r))) (pendingBytes l)"
    by (auto simp: assms(3,7))
  have c: "counters_ok l" using assms(1) by (simp add: ledger_from_def)
  have v': "plen ?r' = plen r" "unadmitted ?r' = 0" "unadmitted r = plen r" "r_ordinaryOwner ?r' = r_ordinaryOwner r"
    using assms(5) by (simp_all add: plen_def unadmitted_def)
  have "counters_ok L"
    using c assms(4,6)
    by (auto simp: counters_ok_def ml fl owned_upd [OF assms(1,2) hp out] v' assms(3) [symmetric] plen_def)
  moreover have "recs_ok L"
    by (rule recs_upd [OF _ hp ns ml])
      (use assms current_valid [OF assms(1,2)] in \<open>auto simp: ledger_from_def\<close>)
  ultimately show ?thesis using assms(1) by (simp add: ledger_from_def dom_ok_def out ns ml)
qed

lemma markOrdinaryAdmitted_inv:
  assumes "ledger_inv l"
  shows "ledger_inv (markOrdinaryAdmitted rc leg l) \<and> nextSequence (markOrdinaryAdmitted rc leg l) = nextSequence l
    \<and> ackedNext (markOrdinaryAdmitted rc leg l) = ackedNext l
    \<and> map r_payload (heap (markOrdinaryAdmitted rc leg l)) = map r_payload (heap l)
    \<and> outstanding (markOrdinaryAdmitted rc leg l) = outstanding l"
proof -
  obtain ok0 l0 where E: "ensureLegLocked leg l = (ok0, l0)" by (meson surj_pair)
  note inv0 = ensureLegLocked_inv [OF assms E] and fr = ensureLegLocked_frame [OF E]
  let ?r = "rec_at l0 (the rc)" and ?l = "markOrdinaryAdmitted rc leg l"
  show ?thesis
  proof (cases "current l0 rc \<and> r_ordinaryOwner ?r = int (unat leg) \<and> \<not> r_ordinaryAdmitted ?r")
    case False
    then have "?l = l0" using E inv0 by (auto simp: markOrdinaryAdmitted_def Let_def)
    with inv0 fr show ?thesis by simp
  next
    case True
    then obtain a where a: "rc = Some a" by (cases rc) auto
    define L where "L = (upd a (\<lambda>r. r\<lparr>r_ordinaryAdmitted := True\<rparr>) l0)\<lparr>pendingBytes := bump (int (unat leg)) (\<lambda>n. n - of_nat (length (r_payload (rec_at l0 a)))) (pendingBytes l0)\<rparr>"
    have l: "?l = L" using E inv0 True a by (simp add: markOrdinaryAdmitted_def Let_def L_def)
    have "ledger_from (ackedNext l) L"
      by (rule admission_change [OF _ _ refl _ _ _ L_def]) (use inv0 fr True a in \<open>auto simp: ledger_inv_def\<close>)
    moreover have "ackedNext L = ackedNext l" by (simp add: L_def fr)
    ultimately show ?thesis unfolding l by (simp add: ledger_inv_def) (simp add: L_def fr map_payload_upd)
  qed
qed

section \<open>Retirement\<close>

lemma seqRange_Nil [simp]: "b \<le> a \<Longrightarrow> seqRange a b = []"
  by (simp add: seqRange_def word_le_nat_alt)

lemma seqRange_Cons: "a < b \<Longrightarrow> seqRange a b = a # seqRange (a + 1) b"
proof -
  assume ab: "a < b"
  then have "unat a < unat b" by (simp add: word_less_nat_alt)
  with unat_add_1_less [OF ab] show ?thesis by (simp add: seqRange_def upt_conv_Cons)
qed

lemma retireSequence_step:
  assumes "ledger_from s l" and "s < nextSequence l" and "retireSequence now head s (l, res) = (l', res')"
  shows "ledger_from (s + 1) l' \<and> heap l' = heap l \<and> nextSequence l' = nextSequence l
    \<and> ackedNext l' = ackedNext l \<and> lastACKProgress l' = lastACKProgress l \<and> futureACKCount l' = futureACKCount l
    \<and> res_Released res' = Suc (res_Released res)
    \<and> res_RetiredBytes res' = res_RetiredBytes res + plen (rec_at l (unat s))
    \<and> res_Disposition res' = res_Disposition res"
proof -
  let ?a = "unat s" and ?r = "rec_at l (unat s)"
  have get: "mget (outstanding l) s = Some ?a" and wf: "mwf (outstanding l)"
    using assms(1,2) by (auto simp: ledger_from_def dom_ok_def)
  from outstanding_range [OF assms(1) mget_in [OF get]] have a: "?a < length (heap l)" by blast
  then have own: "-1 \<le> r_ordinaryOwner ?r" "r_ordinaryOwner ?r < int (maxLegs l)"
    using assms(1) by (auto simp: ledger_from_def recs_ok_def)
  have c: "counters_ok l" using assms(1) by (simp add: ledger_from_def)
  define l2 where "l2 = (evidenceLocked ''ACK_retire'' ?a now l)\<lparr>outstanding := mdel s (outstanding l)\<rparr>"
  define L where "L = (if r_ordinaryOwner ?r \<ge> 0 then uncharge (r_ordinaryOwner ?r) ?r l2 else l2)"
  have l': "l' = L"
    using assms(3) get own c by (auto simp: retireSequence_def Let_def L_def l2_def counters_ok_def)
  have fr: "heap L = heap l" "outstanding L = mdel s (outstanding l)" "nextSequence L = nextSequence l"
    "maxLegs L = maxLegs l" "ackedNext L = ackedNext l" "lastACKProgress L = lastACKProgress l"
    "futureACKCount L = futureACKCount l"
    by (simp_all add: L_def l2_def)
  have ow: "owned i v L = owned i v l - (if r_ordinaryOwner ?r = i then v ?r else 0)"
    for i and v :: "StreamTXRecord \<Rightarrow> 'a::ab_group_add"
    using msum_delete [OF wf get, of "\<lambda>_ a. if r_ordinaryOwner (rec_at l a) = i then v (rec_at l a) else 0"]
    unfolding owned_def fr by (simp add: algebra_simps)
  have suc: "s + 1 \<le> k \<longleftrightarrow> s < k" for k by (rule word_Suc_le_iff [OF assms(2)])
  have "dom_ok (s + 1) L"
    using assms(1,2) unfolding ledger_from_def dom_ok_def fr suc by (auto simp: le_less)
  moreover have "counters_ok L"
  proof -
    have len: "length (ordinaryFrames l) = maxLegs l" "length (ordinaryBytes l) = maxLegs l"
      "length (pendingBytes l) = maxLegs l" using c by (auto simp: counters_ok_def)
    then have "length (ordinaryFrames L) = maxLegs l" "length (ordinaryBytes L) = maxLegs l" "length (pendingBytes L) = maxLegs l"
      by (simp_all add: L_def l2_def uncharge_def)
    moreover have "ordinaryFrames L ! i = ordinaryFrames l ! i - (if r_ordinaryOwner ?r = int i then 1 else 0)
        \<and> ordinaryBytes L ! i = ordinaryBytes l ! i - (if r_ordinaryOwner ?r = int i then plen ?r else 0)
        \<and> pendingBytes L ! i = pendingBytes l ! i - (if r_ordinaryOwner ?r = int i then unadmitted ?r else 0)"
      if "i < maxLegs l" for i
      using that len own by (auto simp: L_def l2_def uncharge_def plen_def unadmitted_def)
    ultimately show ?thesis using c by (simp add: counters_ok_def fr ow)
  qed
  ultimately have "ledger_from (s + 1) l'"
    using assms(1) by (simp add: l' ledger_from_def recs_ok_def fr)
  moreover have "res_Released res' = Suc (res_Released res)" "res_Disposition res' = res_Disposition res"
    "res_RetiredBytes res' = res_RetiredBytes res + plen ?r"
    using assms(3) get by (auto simp: retireSequence_def Let_def plen_def)
  ultimately show ?thesis by (simp add: l' fr)
qed

lemma retire_run:
  assumes "ledger_from s l" and "s \<le> n" and "n \<le> nextSequence l"
    and "fold (retireSequence now head) (seqRange s n) (l, res) = (l', res')"
  shows "ledger_from n l' \<and> heap l' = heap l \<and> nextSequence l' = nextSequence l
    \<and> ackedNext l' = ackedNext l \<and> lastACKProgress l' = lastACKProgress l \<and> futureACKCount l' = futureACKCount l
    \<and> res_Released res' = res_Released res + (unat n - unat s)
    \<and> res_RetiredBytes res' = res_RetiredBytes res + (\<Sum>k \<leftarrow> seqRange s n. plen (rec_at l (unat k)))
    \<and> res_Disposition res' = res_Disposition res"
  using assms
proof (induction "unat n - unat s" arbitrary: s l res)
  case 0
  then have "s = n" by (simp add: word_le_nat_alt word_unat_eq_iff)
  with 0 show ?case by simp
next
  case (Suc d)
  then have sn: "s < n" by (simp add: word_less_nat_alt)
  with Suc.prems(3) have lt: "s < nextSequence l" by simp
  obtain l1 res1 where R: "retireSequence now head s (l, res) = (l1, res1)" by (meson surj_pair)
  note step = retireSequence_step [OF Suc.prems(1) lt R]
  have u: "unat (s + 1) = Suc (unat s)"
    by (rule unat_add_1_less [OF sn])
  have "d = unat n - unat (s + 1)" using Suc.hyps(2) u by simp
  from Suc.hyps(1) [OF this, of l1 res1] step R sn Suc.prems(3,4) u word_Suc_le [OF sn]
  show ?case by (simp add: seqRange_Cons [OF sn] word_less_nat_alt)
qed

text \<open>What \<open>ApplyACK\<close> does, by disposition.\<close>

lemma ApplyACK_cases:
  assumes "ledger_inv l" and "ApplyACK next now l = (res, l')"
  obtains (future) "nextSequence l < next" "res_Disposition res = StreamTXACKFuture" "res_Released res = 0"
      "res_RetiredBytes res = 0" "ledger_inv l'" "heap l' = heap l" "outstanding l' = outstanding l"
      "ackedNext l' = ackedNext l" "nextSequence l' = nextSequence l"
  | (no_progress) "next \<le> ackedNext l" "next \<le> nextSequence l" "res_Disposition res = StreamTXACKNoProgress"
      "res_Released res = 0" "res_RetiredBytes res = 0" "ledger_inv l'" "heap l' = heap l" "outstanding l' = outstanding l"
      "ackedNext l' = ackedNext l" "nextSequence l' = nextSequence l"
  | (advanced) "ackedNext l < next" "next \<le> nextSequence l" "res_Disposition res = StreamTXACKAdvanced"
      "res_Released res = unat next - unat (ackedNext l)"
      "res_RetiredBytes res = (\<Sum>k \<leftarrow> seqRange (ackedNext l) next. plen (rec_at l (unat k)))"
      "ledger_inv l'" "map vw (heap l') = map vw (heap l)" "ackedNext l' = next" "nextSequence l' = nextSequence l"
proof -
  let ?l = "ensureLocked l"
  note inv = ensureLocked_inv [OF assms(1)]
  note D = assms(2) [unfolded ApplyACK_def Let_def]
  consider "nextSequence l < next" | "\<not> nextSequence l < next" "next \<le> ackedNext l"
    | "\<not> nextSequence l < next" "\<not> next \<le> ackedNext l" by blast
  then show thesis
  proof cases
    case 1
    then have l': "l' = ?l\<lparr>futureACKCount := futureACKCount ?l + 1\<rparr>" using D by auto
    then have "ledger_inv l'" using inv by (auto intro: ledger_inv_core simp: core_def)
    with 1 D show thesis by (intro future) (auto simp: ackResult0_def)
  next
    case 2
    with D inv show thesis by (intro no_progress) (auto simp: ackResult0_def)
  next
    case 3
    then have lt: "ackedNext l < next" "next \<le> nextSequence l" by auto
    define res1 where "res1 = (ackResult0 next ?l)\<lparr>res_Disposition := StreamTXACKAdvanced,
        res_PerLeg := map (\<lambda>leg. noLegResult\<lparr>p_BeforeOrdinaryFrames := ordinaryFrames ?l ! leg,
                                 p_BeforeOrdinaryBytes := ordinaryBytes ?l ! leg\<rparr>) [0..<maxLegs ?l]\<rparr>"
    define head where "head = mget (outstanding l) (ackedNext l)"
    obtain l1 res2 where F: "fold (retireSequence now head) (seqRange (ackedNext l) next) (?l, res1) = (l1, res2)"
      by (meson surj_pair)
    from retire_run [OF _ _ _ F] inv lt
    have run: "ledger_from next l1" "heap l1 = heap l" "nextSequence l1 = nextSequence l"
      "res_Released res2 = unat next - unat (ackedNext l)"
      "res_RetiredBytes res2 = (\<Sum>k \<leftarrow> seqRange (ackedNext l) next. plen (rec_at l (unat k)))"
      "res_Disposition res2 = StreamTXACKAdvanced"
      by (auto simp: ledger_inv_def res1_def ackResult0_def)
    let ?l2 = "exposeFrontier now (l1\<lparr>ackedNext := next\<rparr>)"
    have l': "l' = (if res_Released res2 > 0 then ?l2\<lparr>lastACKProgress := now\<rparr> else ?l2)"
      and res: "res_Released res = res_Released res2" "res_RetiredBytes res = res_RetiredBytes res2"
        "res_Disposition res = res_Disposition res2"
      using D 3 F by (auto simp: res1_def head_def syncLegacyLegs_def)
    have "core l' = core l1" "ackedNext l' = next"
      using exposeFrontier_frame [of now "l1\<lparr>ackedNext := next\<rparr>"] by (auto simp: l' core_def)
    with run have "ledger_inv l'" "map vw (heap l') = map vw (heap l)" "nextSequence l' = nextSequence l"
      using ledger_from_core [of "next" l1 l'] by (auto simp: ledger_inv_def core_def)
    with lt run res \<open>ackedNext l' = next\<close> show thesis by (intro advanced) auto
  qed
qed

section \<open>Histories of a ledger\<close>

text \<open>One critical section of the ledger other than an ACK, in any order and with any arguments; the
  sequence numbers are not exhausted.\<close>

inductive local_step :: "StreamTXLedger \<Rightarrow> StreamTXLedger \<Rightarrow> bool" where
  add: "unat (nextSequence l) + 1 < 2 ^ 64 \<Longrightarrow> local_step l (snd (add data now lcl l))"
| finishLocalEnqueue: "local_step l (finishLocalEnqueue a l)"
| MarkTransit: "local_step l (snd (MarkTransit rc leg now l))"
| MarkRescueTransit: "local_step l (snd (MarkRescueTransit rc leg now l))"
| MarkRestrictedRescueTransit: "local_step l (snd (MarkRestrictedRescueTransit rc leg owner now l))"
| MarkRescueQueued: "local_step l (snd (MarkRescueQueued rc leg started l))"
| clearAttemptAt: "local_step l (clearAttemptAt rc leg rescue started l)"
| MarkAttemptSent: "local_step l (snd (MarkAttemptSent rc leg rescue now l))"
| markWriteStarted: "local_step l (markWriteStarted a lid rescue now l)"
| setOrigin: "local_step l (setOrigin a gen epoch l)"
| InvalidateLeg: "local_step l (InvalidateLeg leg l)"
| assignOrdinary: "local_step l (snd (assignOrdinary rc lid now l))"
| markOrdinaryAdmitted: "local_step l (markOrdinaryAdmitted rc lid l)"
| Snapshot: "local_step l (snd (Snapshot now l))"

inductive ledger_step :: "StreamTXLedger \<Rightarrow> StreamTXLedger \<Rightarrow> bool" where
  local: "local_step l l' \<Longrightarrow> ledger_step l l'"
| ack: "ledger_step l (snd (ApplyACK next now l))"

inductive_cases ledger_stepE: "ledger_step l l'"

definition payloads :: "StreamTXLedger \<Rightarrow> bytes list" where "payloads l = map r_payload (heap l)"

lemma core_payloads: "core l' = core l \<Longrightarrow> payloads l' = payloads l \<and> nextSequence l' = nextSequence l"
proof -
  assume "core l' = core l"
  then have m: "map vw (heap l') = map vw (heap l)" and n: "nextSequence l' = nextSequence l"
    by (auto simp: core_def)
  have "map r_payload xs = map (\<lambda>(_, p, _, _). p) (map vw xs)" for xs
    by (simp add: vw_def case_prod_unfold)
  with m n show ?thesis unfolding payloads_def by metis
qed

lemma local_step_spec:
  assumes "local_step l l'" and "ledger_inv l"
  shows "ledger_inv l' \<and> ackedNext l' = ackedNext l
    \<and> (\<exists>new. payloads l' = payloads l @ new \<and> unat (nextSequence l') = unat (nextSequence l) + length new)"
proof -
  have keep: ?thesis if "core l' = core l \<and> ackedNext l' = ackedNext l"
    using that ledger_inv_core [OF assms(2)] core_payloads [of l' l] by auto
  show ?thesis
    using assms(1)
  proof cases
    case (add data now lcl)
    obtain a l1 where A: "TX_Ledger.add data now lcl l = (a, l1)" by (meson surj_pair)
    from add_step [OF assms(2) add(2) A] unat_add_1 [OF add(2)] add(1) A
    show ?thesis by (auto simp: payloads_def intro!: exI [of _ "[data]"])
  next
    case (assignOrdinary rc lid now)
    obtain ok l1 where A: "TX_Ledger.assignOrdinary rc lid now l = (ok, l1)" by (meson surj_pair)
    from assignOrdinary_inv [OF assms(2) A] assignOrdinary A show ?thesis by (simp add: payloads_def)
  next
    case (markOrdinaryAdmitted rc lid)
    with markOrdinaryAdmitted_inv [OF assms(2)] show ?thesis by (simp add: payloads_def)
  next
    case (Snapshot now)
    with ensureLocked_inv [OF assms(2)] show ?thesis by (simp add: TX_Ledger.Snapshot_def Let_def payloads_def)
  qed (rule keep, simp add: ledger_frame)+
qed

lemma ack_spec:
  assumes "ledger_inv l" and "l' = snd (ApplyACK next now l)"
  shows "ledger_inv l' \<and> payloads l' = payloads l \<and> nextSequence l' = nextSequence l
    \<and> ackedNext l' = (if ackedNext l < next \<and> next \<le> nextSequence l then next else ackedNext l)"
proof -
  obtain res where A: "ApplyACK next now l = (res, l')" using assms(2) by (metis prod.collapse)
  have pl: "payloads l' = payloads l" if "map vw (heap l') = map vw (heap l)"
  proof -
    have "map r_payload xs = map (\<lambda>(_, p, _, _). p) (map vw xs)" for xs
      by (simp add: vw_def case_prod_unfold)
    with that show ?thesis unfolding payloads_def by metis
  qed
  from assms(1) A show ?thesis by (cases rule: ApplyACK_cases) (auto simp: pl)
qed

lemma ledger_step_inv: "ledger_step l l' \<Longrightarrow> ledger_inv l \<Longrightarrow> ledger_inv l'"
  by (erule ledger_stepE) (auto dest: local_step_spec ack_spec)

lemma ledger_inv_new: "ledger_inv (newStreamTXLedger n)"
  by (auto simp: ledger_inv_def ledger_from_def dom_ok_def recs_ok_def counters_ok_def newStreamTXLedger_def
      Let_def owned_def MaxStreamLegIDCount_def)

lemma ledger_reachable: "ledger_step\<^sup>*\<^sup>* (newStreamTXLedger n) l \<Longrightarrow> ledger_inv l"
  by (induction rule: rtranclp_induct) (auto intro: ledger_inv_new ledger_step_inv)

lemma current_iff:
  assumes "ledger_inv l" and "a < length (heap l)"
  shows "current l (Some a) \<longleftrightarrow> unat (ackedNext l) \<le> a"
proof -
  have "length (heap l) = unat (nextSequence l)" and seq: "r_sequence (rec_at l a) = of_nat a"
    using assms by (auto simp: ledger_inv_def ledger_from_def recs_ok_def)
  moreover from this have "unat (of_nat a :: u64) = a"
    using assms(2) unsigned_less [of "nextSequence l", where ?'a = nat] by (simp add: unat_of_nat)
  ultimately show ?thesis
    using assms by (simp add: ledger_inv_def ledger_from_def dom_ok_def word_le_nat_alt word_less_nat_alt)
qed

section \<open>The contract of a cumulative sender\<close>

text \<open>
  What the transport relies on: the log of payloads only grows and its length is the next sequence
  number; local steps do not move the acknowledged position; an ACK moves it exactly when it names a
  position after it that has been allocated.
\<close>

locale cumulative_sender =
  fixes inv :: "'s \<Rightarrow> bool"
    and log :: "'s \<Rightarrow> bytes list"
    and acked :: "'s \<Rightarrow> nat"
    and step :: "'s \<Rightarrow> 's \<Rightarrow> bool"
    and ack :: "nat \<Rightarrow> 's \<Rightarrow> 's"
    and capacity :: nat
  assumes step_inv: "inv s \<Longrightarrow> step s s' \<Longrightarrow> inv s'"
    and step_log: "inv s \<Longrightarrow> step s s' \<Longrightarrow> \<exists>new. log s' = log s @ new"
    and step_acked: "inv s \<Longrightarrow> step s s' \<Longrightarrow> acked s' = acked s"
    and ack_inv: "inv s \<Longrightarrow> inv (ack k s)"
    and ack_log: "inv s \<Longrightarrow> log (ack k s) = log s"
    and ack_acked: "inv s \<Longrightarrow> k < capacity \<Longrightarrow>
          acked (ack k s) = (if acked s < k \<and> k \<le> length (log s) then k else acked s)"
    and acked_log: "inv s \<Longrightarrow> acked s \<le> length (log s)"
    and log_capacity: "inv s \<Longrightarrow> length (log s) < capacity"
begin

text \<open>A sender whose ACKs never run ahead of a position \<open>m\<close> stays behind it.\<close>

lemma acked_bounded: "inv s \<Longrightarrow> k < capacity \<Longrightarrow> acked s \<le> m \<Longrightarrow> k \<le> m \<Longrightarrow> acked (ack k s) \<le> m"
  by (simp add: ack_acked)

lemma acked_monotone: "inv s \<Longrightarrow> k < capacity \<Longrightarrow> acked s \<le> acked (ack k s)"
  by (simp add: ack_acked)

end

lemma inv_payloads:
  assumes "ledger_inv l"
  shows "length (payloads l) = unat (nextSequence l)" "unat (ackedNext l) \<le> length (payloads l)"
    "length (payloads l) < 2 ^ 64"
  using assms unsigned_less [of "nextSequence l", where ?'a = nat]
  by (auto simp: ledger_inv_def ledger_from_def dom_ok_def recs_ok_def payloads_def word_le_nat_alt)

lemma ack_position:
  assumes "ledger_inv l" and "k < 2 ^ 64"
  shows "unat (ackedNext (snd (ApplyACK (of_nat k) now l)))
    = (if unat (ackedNext l) < k \<and> k \<le> length (payloads l) then k else unat (ackedNext l))"
proof -
  have "unat (of_nat k :: u64) = k" using assms(2) by (simp add: unat_of_nat)
  with ack_spec [OF assms(1) refl, of "of_nat k" now] inv_payloads [OF assms(1)] show ?thesis
    by (simp add: word_less_nat_alt word_le_nat_alt)
qed

interpretation txl: cumulative_sender
  ledger_inv payloads "\<lambda>l. unat (ackedNext l)" local_step "\<lambda>k l. snd (ApplyACK (of_nat k) now l)" "2 ^ 64"
  for now
proof unfold_locales
  fix l l' k
  assume I: "ledger_inv l"
  { assume S: "local_step l l'"
    from local_step_spec [OF S I]
    show "ledger_inv l'" "\<exists>new. payloads l' = payloads l @ new" "unat (ackedNext l') = unat (ackedNext l)" by auto }
  from ack_spec [OF I refl] show "ledger_inv (snd (ApplyACK (of_nat k) now l))"
    "payloads (snd (ApplyACK (of_nat k) now l)) = payloads l" by blast+
  show "unat (ackedNext l) \<le> length (payloads l)" "length (payloads l) < 2 ^ 64"
    using inv_payloads [OF I] by auto
  assume "k < 2 ^ 64"
  then show "unat (ackedNext (snd (ApplyACK (of_nat k) now l)))
    = (if unat (ackedNext l) < k \<and> k \<le> length (payloads l) then k else unat (ackedNext l))"
    by (rule ack_position [OF I])
qed

section \<open>Sums over the outstanding records\<close>

lemma owned_sum:
  "owned i v l = sum_list (map v (filter (\<lambda>r. r_ordinaryOwner r = i) (outstanding_recs l)))"
  unfolding owned_def by (rule msum_filter)

lemma owned_count:
  "owned i (\<lambda>_. 1 :: int) l = int (length (filter (\<lambda>r. r_ordinaryOwner r = i) (outstanding_recs l)))"
  by (simp add: owned_sum sum_list_triv)

lemma owned_bytes:
  "owned i plen l = of_nat (length (concat (map r_payload (filter (\<lambda>r. r_ordinaryOwner r = i) (outstanding_recs l)))))"
  by (simp add: owned_sum plen_def [abs_def] sum_list_of_nat length_concat comp_def)

lemma owned_pending:
  "owned i unadmitted l = of_nat (length (concat (map r_payload
     (filter (\<lambda>r. r_ordinaryOwner r = i \<and> \<not> r_ordinaryAdmitted r) (outstanding_recs l)))))"
proof -
  have "sum_list (map unadmitted rs) = of_nat (length (concat (map r_payload (filter (\<lambda>r. \<not> r_ordinaryAdmitted r) rs))))" for rs
    by (induction rs) (simp_all add: unadmitted_def plen_def)
  then show ?thesis by (simp add: owned_sum filter_filter conj_commute del: filter_map)
qed

lemma retired_bytes:
  assumes "ledger_inv l" and "a \<le> b" and "b \<le> nextSequence l"
  shows "(\<Sum>k \<leftarrow> seqRange a b. plen (rec_at l (unat k)))
    = of_nat (length (concat (take (unat b - unat a) (drop (unat a) (payloads l)))))"
proof -
  have len: "unat b \<le> length (payloads l)" "unat b < 2 ^ 64"
    using assms inv_payloads [OF assms(1)] unsigned_less [of b, where ?'a = nat] by (auto simp: word_le_nat_alt)
  have "plen (rec_at l (unat (of_nat i :: u64))) = of_nat (length (payloads l ! i))" if "i \<in> set [unat a..<unat b]" for i
  proof -
    have "i < length (heap l)" "unat (of_nat i :: u64) = i"
      using that len by (auto simp: payloads_def unat_of_nat)
    then show ?thesis by (simp add: payloads_def plen_def)
  qed
  then have "(\<Sum>k \<leftarrow> seqRange a b. plen (rec_at l (unat k)))
      = (\<Sum>i \<leftarrow> [unat a..<unat b]. of_nat (length (payloads l ! i)))"
    unfolding seqRange_def map_map by (intro arg_cong [of _ _ sum_list] map_cong) (auto simp: comp_def)
  also have "\<dots> = of_nat (sum_list (map length (map ((!) (payloads l)) [unat a..<unat b])))"
    by (simp add: sum_list_of_nat comp_def)
  finally show ?thesis by (simp add: map_nth_upt [OF len(1)] length_concat)
qed

section \<open>Properties\<close>

definition example_ledger :: StreamTXLedger where
  "example_ledger = snd (Add [3] 7 (snd (Add [1, 2] 5 (newStreamTXLedger 2))))"

lemma example_history: "ledger_step\<^sup>*\<^sup>* (newStreamTXLedger 2) example_ledger"
proof -
  have "ledger_step (newStreamTXLedger 2) (snd (Add [1, 2] 5 (newStreamTXLedger 2)))"
    unfolding Add_def by (intro ledger_step.local local_step.add) (simp add: newStreamTXLedger_def Let_def)
  moreover have "ledger_step (snd (Add [1, 2] 5 (newStreamTXLedger 2))) example_ledger"
    unfolding Add_def example_ledger_def
    by (intro ledger_step.local local_step.add)
      (simp add: newStreamTXLedger_def Let_def TX_Ledger.add_def evidenceLocked_def ensureLocked_def MaxStreamLegIDCount_def)
  ultimately show ?thesis by auto
qed

lemmas example_eval = example_ledger_def Add_def TX_Ledger.add_def newStreamTXLedger_def Let_def
  evidenceLocked_def ensureLocked_def MaxStreamLegIDCount_def newRecord_def

lemma example_fields:
  "heap example_ledger = [(newRecord 0 [1, 2] 5 False)\<lparr>r_frontierAt := 5\<rparr>, newRecord 1 [3] 7 False]"
  "outstanding example_ledger = [(0, 0), (1, 1)]" "ackedNext example_ledger = 0" "nextSequence example_ledger = 2"
  by (simp_all add: example_eval)

definition example_owned :: StreamTXLedger where
  "example_owned = markOrdinaryAdmitted (Some 0) 1 (snd (assignOrdinary (Some 1) 1 9 (snd (assignOrdinary (Some 0) 1 8 example_ledger))))"

lemma local_history: "ledger_step\<^sup>*\<^sup>* l0 l \<Longrightarrow> local_step l l' \<Longrightarrow> ledger_step\<^sup>*\<^sup>* l0 l'"
  by (meson ledger_step.local rtranclp.rtrancl_into_rtrancl)

lemma example_owned_history: "ledger_step\<^sup>*\<^sup>* (newStreamTXLedger 2) example_owned"
  unfolding example_owned_def
  by (rule local_history [OF local_history [OF local_history [OF example_history]]])
    (rule local_step.assignOrdinary local_step.markOrdinaryAdmitted)+

lemma example_owned_fields:
  "outstanding example_owned = [(0, 0), (1, 1)]" "ackedNext example_owned = 0" "nextSequence example_owned = 2"
  "maxLegs example_owned = 2" "r_ordinaryOwner (rec_at example_owned 0) = 1" "r_ordinaryOwner (rec_at example_owned (Suc 0)) = 1"
  "r_payload (rec_at example_owned 0) = [1, 2]" "r_payload (rec_at example_owned (Suc 0)) = [3]"
  "r_ordinaryAdmitted (rec_at example_owned 0)" "\<not> r_ordinaryAdmitted (rec_at example_owned (Suc 0))"
  by (simp_all add: example_owned_def example_eval assignOrdinary_def markOrdinaryAdmitted_def ensureLegLocked_def upd_def
      uncharge_def charge_def)

text \<open>C3: in every history of the ledger (any interleaving of all its operations), the outstanding
  sequence numbers are exactly those between the acknowledged and the next one, and the three per-leg
  counters are sums over the outstanding records the leg owns: \<open>ordinaryFrames\<close> their number,
  \<open>ordinaryBytes\<close> their payload bytes, and \<open>pendingBytes\<close> the payload bytes of those that were not
  admitted yet.\<close>

theorem ledger_history:
  assumes "ledger_step\<^sup>*\<^sup>* (newStreamTXLedger n) l"
  shows "(\<forall>k. mget (outstanding l) k \<noteq> None \<longleftrightarrow> ackedNext l \<le> k \<and> k < nextSequence l)
    \<and> (\<forall>i < maxLegs l. let rs = filter (\<lambda>r. r_ordinaryOwner r = int i) (outstanding_recs l)
         in ordinaryFrames l ! i = int (length rs)
            \<and> ordinaryBytes l ! i = of_nat (length (concat (map r_payload rs)))
            \<and> pendingBytes l ! i = of_nat (length (concat (map r_payload (filter (\<lambda>r. \<not> r_ordinaryAdmitted r) rs)))))"
  using ledger_reachable [OF assms]
  by (auto simp: ledger_inv_def ledger_from_def dom_ok_def counters_ok_def owned_count owned_bytes owned_pending
      Let_def filter_filter conj_commute simp del: filter_map)

theorem ledger_history_witness:
  "(\<forall>k. mget (outstanding example_owned) k \<noteq> None \<longleftrightarrow> 0 \<le> k \<and> k < 2)
   \<and> ordinaryFrames example_owned ! 1 = 2 \<and> ordinaryBytes example_owned ! 1 = 3 \<and> pendingBytes example_owned ! 1 = 1"
proof -
  note H = ledger_history [OF example_owned_history]
  have "1 < maxLegs example_owned" by (simp add: example_owned_fields(4))
  note C = spec [OF conjunct2 [OF H], of 1, rule_format, OF this]
  from conjunct1 [OF H] C show ?thesis by (simp add: example_owned_fields Let_def)
qed

text \<open>C4: a cumulative ACK retires exactly the records between the old and the new acknowledged
  position and nothing else: an ACK of the future or of the past changes no record, a valid one
  releases as many records as it advances and reports their total payload.\<close>

theorem ack_retires_exactly:
  assumes "ledger_step\<^sup>*\<^sup>* (newStreamTXLedger n) l" and "ApplyACK next now l = (res, l')"
  shows "ackedNext l' = (if ackedNext l < next \<and> next \<le> nextSequence l then next else ackedNext l)
    \<and> (\<forall>k. mget (outstanding l') k = (if k < ackedNext l' then None else mget (outstanding l) k))
    \<and> res_Released res = unat (ackedNext l') - unat (ackedNext l)
    \<and> res_RetiredBytes res
        = of_nat (length (concat (take (res_Released res) (drop (unat (ackedNext l)) (map r_payload (heap l))))))
    \<and> map r_payload (heap l') = map r_payload (heap l)"
proof -
  have I: "ledger_inv l" by (rule ledger_reachable [OF assms(1)])
  have S: "l' = snd (ApplyACK next now l)" using assms(2) by simp
  note spec = ack_spec [OF I S]
  have dom: "mget (outstanding l') k = (if k < ackedNext l' then None else mget (outstanding l) k)" for k
    using spec I by (auto simp: ledger_inv_def ledger_from_def dom_ok_def not_le not_less)
  from I assms(2) have "res_Released res = unat (ackedNext l') - unat (ackedNext l)
      \<and> res_RetiredBytes res = of_nat (length (concat (take (res_Released res) (drop (unat (ackedNext l)) (payloads l)))))"
    by (cases rule: ApplyACK_cases) (auto simp: retired_bytes [OF I])
  with spec dom show ?thesis by (simp add: payloads_def)
qed

theorem ack_retires_exactly_witness:
  "ackedNext (snd (ApplyACK 1 9 example_ledger)) = 1 \<and> res_Released (fst (ApplyACK 1 9 example_ledger)) = 1
   \<and> res_RetiredBytes (fst (ApplyACK 1 9 example_ledger)) = 2"
proof -
  have A: "ApplyACK 1 9 example_ledger = (fst (ApplyACK 1 9 example_ledger), snd (ApplyACK 1 9 example_ledger))" by simp
  from ack_retires_exactly [OF example_history A] show ?thesis by (simp add: example_eval)
qed

text \<open>A record that has been retired never becomes current again, whatever happens later, so a
  stale pointer kept by a queue stays inert; and the sequence number and payload behind a pointer
  never change.\<close>

theorem retired_forever:
  assumes "ledger_step\<^sup>*\<^sup>* (newStreamTXLedger n) l" and "ledger_step\<^sup>*\<^sup>* l l'" and "a < length (heap l)"
  shows "(\<not> current l (Some a) \<longrightarrow> \<not> current l' (Some a))
    \<and> r_payload (rec_at l' a) = r_payload (rec_at l a) \<and> r_sequence (rec_at l' a) = r_sequence (rec_at l a)"
proof -
  have I: "ledger_inv l" by (rule ledger_reachable [OF assms(1)])
  have "ledger_inv l' \<and> unat (ackedNext l) \<le> unat (ackedNext l') \<and> (\<exists>new. payloads l' = payloads l @ new)"
    using assms(2)
  proof (induction rule: rtranclp_induct)
    case base
    with I show ?case by simp
  next
    case (step l1 l2)
    then have I1: "ledger_inv l1" by blast
    from step.hyps(2) show ?case
    proof (cases rule: ledger_step.cases)
      case local
      with local_step_spec [OF local I1] step.IH show ?thesis by auto
    next
      case (ack k now)
      with ack_spec [OF I1, of l2 k now] step.IH show ?thesis by (auto simp: word_less_nat_alt)
    qed
  qed
  then obtain new where I': "ledger_inv l'" and mono: "unat (ackedNext l) \<le> unat (ackedNext l')"
    and pl: "payloads l' = payloads l @ new" by blast
  from pl have len: "a < length (heap l')" using assms(3) by (auto simp: payloads_def dest: arg_cong [where f = length])
  from pl have "payloads l' ! a = payloads l ! a" using assms(3) by (simp add: payloads_def nth_append)
  then have "r_payload (rec_at l' a) = r_payload (rec_at l a)" using assms(3) len by (simp add: payloads_def)
  moreover have "r_sequence (rec_at l' a) = r_sequence (rec_at l a)"
    using I I' assms(3) len by (simp add: ledger_inv_def ledger_from_def recs_ok_def)
  ultimately show ?thesis using current_iff [OF I assms(3)] current_iff [OF I' len] mono by auto
qed

theorem retired_forever_witness:
  "r_payload (rec_at example_ledger 1) = [3] \<and> r_sequence (rec_at (snd (ApplyACK 2 9 example_ledger)) 1) = 1"
proof -
  have "ledger_step\<^sup>*\<^sup>* example_ledger (snd (ApplyACK 2 9 example_ledger))" by (intro r_into_rtranclp ledger_step.ack)
  from retired_forever [OF example_history this, of 1] show ?thesis by (simp add: example_eval)
qed

text \<open>Once everything sent has been acknowledged, nothing is outstanding and every per-leg
  counter is back at zero: no frame or byte of ordinary or pending work leaks.\<close>

theorem drained_counters_zero:
  assumes "ledger_step\<^sup>*\<^sup>* (newStreamTXLedger n) l" and "ackedNext l = nextSequence l" and "i < maxLegs l"
  shows "\<not> HasOutstanding l \<and> ordinaryFrames l ! i = 0 \<and> ordinaryBytes l ! i = 0 \<and> pendingBytes l ! i = 0"
proof -
  have I: "ledger_inv l" by (rule ledger_reachable [OF assms(1)])
  then have "mget (outstanding l) k = None" for k
    using assms(2) by (auto simp: ledger_inv_def ledger_from_def dom_ok_def)
  then have "outstanding l = []" by (metis map_of_eq_empty_iff ext)
  with I assms(3) show ?thesis
    by (simp add: ledger_inv_def ledger_from_def counters_ok_def HasOutstanding_def owned_def)
qed

theorem drained_counters_zero_witness:
  "\<not> HasOutstanding (snd (ApplyACK 2 9 example_ledger))"
proof -
  have h: "ledger_step\<^sup>*\<^sup>* (newStreamTXLedger 2) (snd (ApplyACK 2 9 example_ledger))"
    by (rule rtranclp.rtrancl_into_rtrancl [OF example_history ledger_step.ack])
  have A: "ackedNext (snd (ApplyACK 2 9 example_ledger)) = 2" "nextSequence (snd (ApplyACK 2 9 example_ledger)) = 2"
    using ack_spec [OF ledger_reachable [OF example_history] refl, of 2 9] by (auto simp: example_eval)
  have "0 < maxLegs (snd (ApplyACK 2 9 example_ledger))"
    using ledger_reachable [OF h] by (simp add: ledger_inv_def ledger_from_def)
  from drained_counters_zero [OF h _ this] A show ?thesis by simp
qed

end
