(* ===== verification/TX_Repair.thy ===== *)
theory TX_Repair
  imports TX_Invariant
begin

text \<open>
  Repair planning over the transmit ledger (\<open>core/stream_repair.go\<close>): the ordinary retry plan, the
  frontier rescue decision, and the bounded batch of old-owner records that a proven overdue frontier
  may rescue.
\<close>

section \<open>Live legs\<close>

text \<open>The mask of live legs: an array of \<open>MaxStreamLegIDCount\<close> booleans.\<close>

type_synonym StreamLegAvailability = "bool list"

definition Has :: "StreamLegAvailability \<Rightarrow> LegID \<Rightarrow> bool" where
  "Has live leg \<longleftrightarrow> unat leg < length live \<and> live ! unat leg"

definition Count :: "StreamLegAvailability \<Rightarrow> nat" where
  "Count live = fold (\<lambda>present n. if present then n + 1 else n) live 0"

section \<open>Ordinary retries\<close>

record StreamTXRetryCandidate =
  rc_Record :: addr
  rc_Avoid :: int

definition retryCandidate :: "StreamLegAvailability \<Rightarrow> StreamTXRetryState \<Rightarrow> StreamTXRetryCandidate list" where
  "retryCandidate live state =
     (if rs_LocalEnqueue state \<or> rs_InTransit state \<or> rs_RescueInTransit state then []
      else if rs_LastSentLeg state < 0 then [\<lparr>rc_Record = rs_Record state, rc_Avoid = -1\<rparr>]
      else if \<not> Has live (of_int (rs_LastSentLeg state))
      then [\<lparr>rc_Record = rs_Record state, rc_Avoid = rs_LastSentLeg state\<rparr>]
      else [])"

definition PlanRetries :: "StreamLegAvailability \<Rightarrow> StreamTXLedger \<Rightarrow> StreamTXRetryCandidate list" where
  "PlanRetries live l =
     sort_key (\<lambda>c. r_sequence (rec_at l (rc_Record c))) (concat (map (retryCandidate live) (retrySnapshot l)))"

section \<open>The frontier\<close>

record StreamTXFrontierCandidate =
  fc_record :: "addr option"
  fc_owner :: int
  fc_reference :: gotime
  fc_overdue :: bool
  fc_exists :: bool
  fc_rescueInTransit :: bool

definition noCandidate :: StreamTXFrontierCandidate where
  "noCandidate = \<lparr>fc_record = None, fc_owner = 0, fc_reference = 0, fc_overdue = False, fc_exists = False,
                  fc_rescueInTransit = False\<rparr>"

datatype StreamTXFrontierAction =
  StreamTXFrontierNone | StreamTXFrontierNeedActivation | StreamTXFrontierRescue

record StreamTXFrontierPlan =
  fp_Action :: StreamTXFrontierAction
  fp_Record :: "addr option"
  fp_Avoid :: int

definition noPlan :: StreamTXFrontierPlan where
  "noPlan = \<lparr>fp_Action = StreamTXFrontierNone, fp_Record = None, fp_Avoid = 0\<rparr>"

definition FrontierCandidate :: "gotime \<Rightarrow> duration \<Rightarrow> StreamTXLedger \<Rightarrow> StreamTXFrontierCandidate" where
  "FrontierCandidate now timeout l =
     (let s = frontierSnapshot l
      in if \<not> fs_Exists s then noCandidate
         else \<lparr>fc_record = fs_Record s, fc_owner = fs_Owner s, fc_reference = fs_ReferenceTime s,
               fc_overdue = (\<not> IsZero (fs_ReferenceTime s) \<and> Sub now (fs_ReferenceTime s) \<ge> timeout),
               fc_exists = True, fc_rescueInTransit = fs_RescueInTransit s\<rparr>)"

definition DecideStreamTXFrontierRepair ::
  "StreamTXFrontierCandidate \<Rightarrow> StreamLegAvailability \<Rightarrow> StreamTXFrontierPlan" where
  "DecideStreamTXFrontierRepair candidate live =
     (let owned_plan = (if fc_owner candidate < 0 \<or> \<not> Has live (of_int (fc_owner candidate)) then noPlan
                        else \<lparr>fp_Action = StreamTXFrontierRescue, fp_Record = fc_record candidate,
                              fp_Avoid = fc_owner candidate\<rparr>)
      in if \<not> fc_exists candidate \<or> fc_rescueInTransit candidate \<or> \<not> fc_overdue candidate then noPlan
         else if Count live = 0 then noPlan
         else if Count live = 1
         then (case find (\<lambda>i. live ! i) [0..<length live] of
                 Some i \<Rightarrow> \<lparr>fp_Action = StreamTXFrontierRescue, fp_Record = fc_record candidate,
                            fp_Avoid = int i - 1\<rparr>
               | None \<Rightarrow> owned_plan)
         else owned_plan)"

section \<open>The restricted batch\<close>

definition batchEligible :: "int \<Rightarrow> gotime \<Rightarrow> gotime \<Rightarrow> duration \<Rightarrow> StreamTXRecord \<Rightarrow> bool" where
  "batchEligible owner now cutoff cooldown r \<longleftrightarrow>
     \<not> (r_ordinaryOwner r \<noteq> owner \<or> r_createdAt r > cutoff \<or> r_rescueInTransit r
        \<or> (\<not> IsZero (r_lastRescueAt r) \<and> Sub now (r_lastRescueAt r) < cooldown))"

text \<open>Insertion into the eight-entry \<open>prefix\<close> array; \<open>key\<close> is the sequence number.\<close>

definition insertPrefix :: "('r \<Rightarrow> u64) \<Rightarrow> 'r \<Rightarrow> 'r list \<Rightarrow> 'r list" where
  "insertPrefix key r ps =
     (let position = length (takeWhile (\<lambda>p. key p < key r) ps)
      in if position \<ge> 8 then ps else take 8 (take position ps @ [r] @ drop position ps))"

text \<open>The byte budget: the first record always fits, later ones only within the budget.\<close>

fun batchCount :: "('r \<Rightarrow> nat) \<Rightarrow> int \<Rightarrow> bool \<Rightarrow> int \<Rightarrow> 'r list \<Rightarrow> 'r list" where
  "batchCount sz byteBudget first used [] = []"
| "batchCount sz byteBudget first used (p # ps) =
     (if \<not> first \<and> used + int (sz p) > byteBudget then []
      else p # batchCount sz byteBudget False (used + int (sz p)) ps)"

definition RestrictedFrontierBatch ::
  "addr option \<Rightarrow> int \<Rightarrow> gotime \<Rightarrow> gotime \<Rightarrow> duration \<Rightarrow> int \<Rightarrow> StreamTXLedger \<Rightarrow> addr list" where
  "RestrictedFrontierBatch frontier owner now cutoff cooldown byteBudget l =
     (case frontier of
        None \<Rightarrow> []
      | Some f \<Rightarrow>
          if mget (outstanding l) (ackedNext l) \<noteq> Some f \<or> r_ordinaryOwner (rec_at l f) \<noteq> owner then []
          else let key = (\<lambda>a. r_sequence (rec_at l a));
                   eligible = filter (\<lambda>a. batchEligible owner now cutoff cooldown (rec_at l a)) (map snd (outstanding l))
               in batchCount (\<lambda>a. length (r_payload (rec_at l a))) byteBudget True 0
                    (fold (insertPrefix key) eligible []))"

section \<open>Lemmas\<close>

lemma Count_filter: "Count live = length (filter (\<lambda>b. b) live)"
proof -
  have "fold (\<lambda>present n. if present then n + 1 else n) live k = k + length (filter (\<lambda>b. b) live)" for k :: nat
    by (induction live arbitrary: k) auto
  then show ?thesis by (simp add: Count_def)
qed

lemma Count_find: "0 < Count live \<Longrightarrow> \<exists>i < length live. find (\<lambda>i. live ! i) [0..<length live] = Some i \<and> live ! i"
proof -
  assume "0 < Count live"
  then have "\<exists>i < length live. live ! i" by (auto simp: Count_filter filter_empty_conv in_set_conv_nth)
  then have "find (\<lambda>i. live ! i) [0..<length live] \<noteq> None" by (auto simp: find_None_iff)
  then obtain i where i: "find (\<lambda>i. live ! i) [0..<length live] = Some i" by blast
  then have "i < length live \<and> live ! i" by (auto simp: find_Some_iff)
  with i show ?thesis by blast
qed

lemma outstanding_inj:
  assumes "ledger_inv l"
  shows "distinct (map snd (outstanding l))"
    and "inj_on (\<lambda>a. r_sequence (rec_at l a)) (snd ` set (outstanding l))"
    and "(k, a) \<in> set (outstanding l) \<Longrightarrow> r_sequence (rec_at l a) = k \<and> current l (Some a)"
proof -
  have fr: "ledger_from (ackedNext l) l" using assms by (simp add: ledger_inv_def)
  then have wf: "mwf (outstanding l)" by (simp add: ledger_from_def dom_ok_def)
  have seq: "r_sequence (rec_at l a) = k" if "(k, a) \<in> set (outstanding l)" for k a
    using outstanding_range [OF fr that] fr by (auto simp: ledger_from_def recs_ok_def)
  then show "(k, a) \<in> set (outstanding l) \<Longrightarrow> r_sequence (rec_at l a) = k \<and> current l (Some a)"
    by (simp add: in_mget [OF wf])
  show "inj_on (\<lambda>a. r_sequence (rec_at l a)) (snd ` set (outstanding l))"
  proof (rule inj_onI)
    fix a b assume "a \<in> snd ` set (outstanding l)" "b \<in> snd ` set (outstanding l)"
      and eq: "r_sequence (rec_at l a) = r_sequence (rec_at l b)"
    then obtain k j where "(k, a) \<in> set (outstanding l)" "(j, b) \<in> set (outstanding l)" by auto
    with eq show "a = b" using seq outstanding_range [OF fr] by metis
  qed
  have "distinct (map fst (outstanding l))" using fr by (simp add: ledger_from_def dom_ok_def mwf_def)
  moreover have "map fst (outstanding l) = map (\<lambda>a. r_sequence (rec_at l a)) (map snd (outstanding l))"
    using seq by (auto simp: comp_def)
  ultimately show "distinct (map snd (outstanding l))" using distinct_map by metis
qed

subsection \<open>The restricted batch is the sorted prefix\<close>

lemma insort_key_split:
  "insort_key f x xs = takeWhile (\<lambda>y. f y < f x) xs @ x # dropWhile (\<lambda>y. f y < f x) xs"
proof (induction xs)
  case (Cons y ys)
  show ?case
  proof (cases "f x \<le> f y")
    case True
    then have "\<not> f y < f x" by simp
    with True show ?thesis by simp
  next
    case False
    then have "f y < f x" by simp
    with False Cons show ?thesis by simp
  qed
qed simp

lemma takeWhile_take: "takeWhile P (take n xs) = take n (takeWhile P xs)"
  by (induction xs arbitrary: n) (auto simp: take_Cons split: nat.splits)

lemma insertPrefix_insort: "insertPrefix key r (take 8 xs) = take 8 (insort_key key r xs)"
proof -
  let ?P = "\<lambda>p. key p < key r"
  define n where "n = length (takeWhile ?P xs)"
  have W: "takeWhile ?P xs = take n xs" and D: "dropWhile ?P xs = drop n xs"
    unfolding n_def by (metis append_eq_conv_conj takeWhile_dropWhile_id)+
  have "n \<le> length xs" by (simp add: n_def length_takeWhile_le)
  then show ?thesis
    by (cases "n \<ge> 8") (simp_all add: insertPrefix_def takeWhile_take insort_key_split W D min_def drop_take take_Cons')
qed

lemma fold_insertPrefix: "fold (insertPrefix key) xs (take 8 ys) = take 8 (fold (insort_key key) xs ys)"
  by (induction xs arbitrary: ys) (simp_all add: insertPrefix_insort)

lemma fold_insort_sort:
  assumes "inj_on key (set xs)" and "distinct xs"
  shows "fold (insort_key key) xs [] = sort_key key xs"
proof -
  have "fold (insort_key key) xs [] = sort_key key (rev xs)"
    by (simp add: sort_key_def foldr_conv_fold)
  also have "\<dots> = sort_key key xs"
    using assms by (intro map_sorted_distinct_set_unique [of key]) (simp_all add: distinct_map)
  finally show ?thesis .
qed

lemma batchCount_prefix: "\<exists>n. batchCount sz budget first used ps = take n ps"
proof (induction ps arbitrary: first used)
  case (Cons p ps)
  from Cons.IH [of False "used + int (sz p)"] obtain n where
    "batchCount sz budget False (used + int (sz p)) ps = take n ps" by blast
  then show ?case by (auto intro: exI [of _ 0] exI [of _ "Suc n"])
qed simp

lemma batchCount_budget:
  "used \<le> budget \<Longrightarrow> used + int (sum_list (map sz (batchCount sz budget False used ps))) \<le> budget"
  by (induction ps arbitrary: used) (auto simp: add.assoc [symmetric])

lemma batchCount_first:
  "length (batchCount sz budget True 0 ps) \<le> 1 \<or> int (sum_list (map sz (batchCount sz budget True 0 ps))) \<le> budget"
proof (cases ps)
  case (Cons p qs)
  show ?thesis
  proof (cases "int (sz p) \<le> budget")
    case True
    with Cons batchCount_budget [of "int (sz p)" budget sz qs] show ?thesis by simp
  next
    case False
    with Cons show ?thesis by (cases qs) auto
  qed
qed simp

text \<open>A list sorted by an injective key, cut anywhere, is closed under smaller keys.\<close>

lemma sorted_take_closed:
  assumes "inj_on key (set xs)" and "ys = take n (sort_key key xs)" and "y \<in> set ys" and "x \<in> set xs" and "key x < key y"
  shows "x \<in> set ys"
proof -
  have s: "sorted (map key (sort_key key xs))" by simp
  have "x \<in> set (take n (sort_key key xs)) \<or> x \<in> set (drop n (sort_key key xs))"
    using assms(4) by (metis Un_iff append_take_drop_id set_append set_sort)
  moreover have "key y \<le> key x" if "x \<in> set (drop n (sort_key key xs))"
  proof -
    have "sorted (map key (take n (sort_key key xs)) @ map key (drop n (sort_key key xs)))"
      using s by (simp flip: map_append)
    then show ?thesis using that assms(2,3) unfolding sorted_append by auto
  qed
  ultimately show ?thesis using assms(2,5) by auto
qed

subsection \<open>Retry planning\<close>

definition retryable :: "StreamLegAvailability \<Rightarrow> StreamTXRecord \<Rightarrow> bool" where
  "retryable live r \<longleftrightarrow>
     \<not> r_localEnqueue r \<and> \<not> r_inTransit r \<and> \<not> r_rescueInTransit r
     \<and> (r_lastSentLeg r < 0 \<or> \<not> Has live (of_int (r_lastSentLeg r)))"

lemma PlanRetries_unsorted:
  "concat (map (retryCandidate live) (retrySnapshot l))
     = map (\<lambda>a. \<lparr>rc_Record = a, rc_Avoid = (if r_lastSentLeg (rec_at l a) < 0 then -1 else r_lastSentLeg (rec_at l a))\<rparr>)
         (filter (\<lambda>a. retryable live (rec_at l a)) (map snd (outstanding l)))"
proof -
  have "concat (map (retryCandidate live) (map (\<lambda>(_, a). let r = rec_at l a
           in \<lparr>rs_Record = a, rs_InTransit = r_inTransit r, rs_RescueInTransit = r_rescueInTransit r,
               rs_LocalEnqueue = r_localEnqueue r, rs_LastSentLeg = r_lastSentLeg r\<rparr>) m))
     = map (\<lambda>a. \<lparr>rc_Record = a, rc_Avoid = (if r_lastSentLeg (rec_at l a) < 0 then -1 else r_lastSentLeg (rec_at l a))\<rparr>)
         (filter (\<lambda>a. retryable live (rec_at l a)) (map snd m))" for m :: "(u64, addr) gomap"
    by (induction m) (auto simp: retryCandidate_def retryable_def Let_def)
  then show ?thesis by (simp add: retrySnapshot_def)
qed

lemma fold_upd:
  assumes "distinct (map snd m)"
  shows "heap (fold (\<lambda>(_, a). upd a g) m l) ! a
    = (if a \<in> snd ` set m \<and> a < length (heap l) then g (heap l ! a) else heap l ! a)
    \<and> outstanding (fold (\<lambda>(_, a). upd a g) m l) = outstanding l
    \<and> length (heap (fold (\<lambda>(_, a). upd a g) m l)) = length (heap l)"
  using assms
proof (induction m arbitrary: l)
  case (Cons p m)
  obtain k b where p: "p = (k, b)" by (cases p)
  from Cons.IH [of "upd b g l"] Cons.prems p show ?case
    by (cases "b < length (heap l)") (auto simp: nth_list_update list_update_beyond)
qed simp

lemma InvalidateLeg_records:
  assumes "ledger_inv l" and "(k, a) \<in> set (outstanding l)"
  shows "rec_at (InvalidateLeg leg l) a = invalidateRecord leg (rec_at l a)" "outstanding (InvalidateLeg leg l) = outstanding l"
proof -
  have "a < length (heap l)" using outstanding_range assms by (auto simp: ledger_inv_def)
  moreover have "a \<in> snd ` set (outstanding l)" using assms(2) by force
  ultimately show "rec_at (InvalidateLeg leg l) a = invalidateRecord leg (rec_at l a)"
    "outstanding (InvalidateLeg leg l) = outstanding l"
    using fold_upd [OF outstanding_inj(1) [OF assms(1)], of "invalidateRecord leg" l a] by (simp_all add: InvalidateLeg_def)
qed

lemma invalidateRecord_clears:
  "r_inTransit (invalidateRecord leg r) \<Longrightarrow> r_inTransit r \<and> r_transitLeg (invalidateRecord leg r) = r_transitLeg r \<and> r_transitLeg r \<noteq> leg"
  "r_rescueInTransit (invalidateRecord leg r) \<Longrightarrow> r_rescueInTransit r \<and> r_rescueLeg (invalidateRecord leg r) = r_rescueLeg r \<and> r_rescueLeg r \<noteq> leg"
  "r_lastSentLeg (invalidateRecord leg r) = (if r_lastSentLeg r = int (unat leg) then -1 else r_lastSentLeg r)"
  "r_localEnqueue (invalidateRecord leg r) = r_localEnqueue r"
  by (auto simp: invalidateRecord_def Let_def split: if_splits)

section \<open>Properties\<close>

text \<open>C17: the retry plan names, in strictly ascending sequence order, exactly the outstanding records
  that have no attempt under way and either were never sent or were last sent on a leg that is no
  longer live; each candidate avoids that leg.\<close>

theorem plan_retries_exact:
  assumes "ledger_step\<^sup>*\<^sup>* (newStreamTXLedger n) l"
  shows "rc_Record ` set (PlanRetries live l) = {a. current l (Some a) \<and> a \<in> snd ` set (outstanding l) \<and> retryable live (rec_at l a)}
    \<and> sorted_wrt (<) (map (\<lambda>c. r_sequence (rec_at l (rc_Record c))) (PlanRetries live l))
    \<and> (\<forall>c \<in> set (PlanRetries live l).
         rc_Avoid c = (if r_lastSentLeg (rec_at l (rc_Record c)) < 0 then -1 else r_lastSentLeg (rec_at l (rc_Record c))))"
proof -
  have I: "ledger_inv l" by (rule ledger_reachable [OF assms])
  define cand where "cand a = \<lparr>rc_Record = a, rc_Avoid = (if r_lastSentLeg (rec_at l a) < 0 then -1 else r_lastSentLeg (rec_at l a))\<rparr>" for a
  define as where "as = filter (\<lambda>a. retryable live (rec_at l a)) (map snd (outstanding l))"
  let ?key = "\<lambda>c. r_sequence (rec_at l (rc_Record c))"
  have P: "PlanRetries live l = sort_key ?key (map cand as)"
    unfolding PlanRetries_def PlanRetries_unsorted as_def cand_def [abs_def] ..
  have rc: "rc_Record (cand a) = a" for a by (simp add: cand_def)
  have as: "set as = {a \<in> snd ` set (outstanding l). retryable live (rec_at l a)}" by (auto simp: as_def)
  have cur: "current l (Some a)" if "a \<in> snd ` set (outstanding l)" for a
    using that outstanding_inj(3) [OF I] by (metis imageE prod.collapse)
  have "distinct as" using outstanding_inj(1) [OF I] by (simp add: as_def)
  moreover have "inj_on (\<lambda>a. r_sequence (rec_at l a)) (set as)"
    by (rule inj_on_subset [OF outstanding_inj(2) [OF I]]) (auto simp: as)
  ultimately have "distinct (map (\<lambda>a. r_sequence (rec_at l a)) as)" by (simp add: distinct_map)
  then have "distinct (map ?key (map cand as))" by (simp add: comp_def rc)
  then have "distinct (map ?key (PlanRetries live l))" 
    unfolding P by (auto simp: distinct_map intro: inj_on_imageI inj_on_imageI2)
  then have "sorted_wrt (<) (map ?key (PlanRetries live l))" by (simp add: strict_sorted_iff P)
  moreover have "rc_Record ` set (PlanRetries live l) = set as" by (simp add: P image_image rc)
  moreover have "\<forall>c \<in> set (PlanRetries live l).
       rc_Avoid c = (if r_lastSentLeg (rec_at l (rc_Record c)) < 0 then -1 else r_lastSentLeg (rec_at l (rc_Record c)))"
    by (auto simp: P cand_def)
  moreover have "set as = {a. current l (Some a) \<and> a \<in> snd ` set (outstanding l) \<and> retryable live (rec_at l a)}"
    using cur as by blast
  ultimately show ?thesis by (intro conjI) (simp_all only:)
qed

theorem plan_retries_exact_witness:
  "rc_Record ` set (PlanRetries [True, True] example_ledger) = {0, 1}"
proof -
  have G: "P 0 \<Longrightarrow> P 1 \<Longrightarrow> Q 0 \<Longrightarrow> Q 1 \<Longrightarrow> S = {0, 1} \<Longrightarrow> {a. P a \<and> a \<in> S \<and> Q a} = {0, 1}"
    for P Q :: "nat \<Rightarrow> bool" and S by auto
  show ?thesis
    unfolding conjunct1 [OF plan_retries_exact [OF example_history, of "[True, True]"]]
    by (rule G) (simp_all add: example_fields newRecord_def retryable_def)
qed

definition example_sent_leg :: StreamTXLedger where
  "example_sent_leg = snd (MarkTransit (Some 0) 1 10
     (snd (MarkAttemptSent (Some 1) 1 False 9 (snd (MarkTransit (Some 1) 1 8 example_ledger)))))"

lemma example_sent_leg_history: "ledger_step\<^sup>*\<^sup>* (newStreamTXLedger 2) example_sent_leg"
  unfolding example_sent_leg_def
  by (rule local_history [OF local_history [OF local_history [OF example_history]]])
    (rule local_step.MarkTransit local_step.MarkAttemptSent)+

lemma example_sent_leg_fields:
  "outstanding example_sent_leg = [(0, 0), (1, 1)]" "ackedNext example_sent_leg = 0"
  "r_lastSentLeg (rec_at example_sent_leg (Suc 0)) = 1" "\<not> r_localEnqueue (rec_at example_sent_leg (Suc 0))"
  "\<not> r_inTransit (rec_at example_sent_leg (Suc 0))" "\<not> r_rescueInTransit (rec_at example_sent_leg (Suc 0))"
  "r_inTransit (rec_at example_sent_leg 0)" "r_transitLeg (rec_at example_sent_leg 0) = 1"
  "r_transitSince (rec_at example_sent_leg 0) = 10" "r_createdAt (rec_at example_sent_leg 0) = 5"
  "r_lastSentAt (rec_at example_sent_leg 0) = 0" "r_lastRescueAt (rec_at example_sent_leg 0) = 0"
  "\<not> r_rescueInTransit (rec_at example_sent_leg 0)"
  by (simp_all add: example_sent_leg_def example_eval MarkTransit_def MarkAttemptSent_def commitAttempt_def upd_def)



text \<open>The leg a record was last given to, the last time anything was done with it, and whether that is
  too long ago.\<close>

definition carriedBy :: "StreamTXRecord \<Rightarrow> int" where
  "carriedBy r = (if r_inTransit r then int (unat (r_transitLeg r))
     else if r_lastSentLeg r \<ge> 0 then r_lastSentLeg r else r_ordinaryOwner r)"

definition lastTouched :: "StreamTXRecord \<Rightarrow> gotime" where
  "lastTouched r = max (max (r_createdAt r) (r_transitSince r)) (max (r_lastSentAt r) (r_lastRescueAt r))"

definition overdue :: "gotime \<Rightarrow> duration \<Rightarrow> StreamTXRecord \<Rightarrow> bool" where
  "overdue now timeout r \<longleftrightarrow> lastTouched r \<noteq> 0 \<and> timeout \<le> Sub now (lastTouched r)"

lemma FrontierCandidate_Some:
  assumes "mget (outstanding l) (ackedNext l) = Some a"
  shows "FrontierCandidate now timeout l = \<lparr>fc_record = Some a, fc_owner = carriedBy (rec_at l a),
    fc_reference = lastTouched (rec_at l a), fc_overdue = overdue now timeout (rec_at l a), fc_exists = True,
    fc_rescueInTransit = r_rescueInTransit (rec_at l a)\<rparr>"
proof -
  let ?r = "rec_at l a"
  have "fold (\<lambda>candidate ref. if candidate > ref then candidate else ref)
      [r_transitSince ?r, r_lastSentAt ?r, r_lastRescueAt ?r] (r_createdAt ?r) = lastTouched ?r"
    by (simp add: lastTouched_def max_def)
  with assms show ?thesis
    by (simp add: FrontierCandidate_def frontierSnapshot_def overdue_def carriedBy_def Let_def not_less del: fold_simps)
qed

lemma FrontierCandidate_None:
  "mget (outstanding l) (ackedNext l) = None \<Longrightarrow> FrontierCandidate now timeout l = noCandidate"
  by (simp add: FrontierCandidate_def frontierSnapshot_def)

lemma only_live_leg:
  assumes "Count live = 1" and "i < length live" and "live ! i" and "j < length live" and "live ! j"
  shows "i = j"
proof (rule ccontr)
  assume "i \<noteq> j"
  then have "card {i, j} = 2" by simp
  moreover have "{i, j} \<subseteq> {k. k < length live \<and> live ! k}" using assms by auto
  then have "card {i, j} \<le> card {k. k < length live \<and> live ! k}" by (intro card_mono) auto
  ultimately show False using assms(1) by (simp add: Count_filter length_filter_conv_card)
qed



text \<open>The restricted rescue batch does not depend on the order in which the outstanding map is
  visited: it is a prefix, of at most eight records, of the eligible outstanding records in ascending
  sequence order; every eligible record older than a chosen one is chosen; and beyond its first
  record the batch stays within the byte budget.\<close>

theorem restricted_batch_prefix:
  assumes "ledger_step\<^sup>*\<^sup>* (newStreamTXLedger n) l"
    and "batch = RestrictedFrontierBatch frontier owner now cutoff cooldown byteBudget l"
  shows "length batch \<le> 8
    \<and> sorted_wrt (<) (map (\<lambda>a. r_sequence (rec_at l a)) batch)
    \<and> (\<forall>a \<in> set batch. current l (Some a) \<and> batchEligible owner now cutoff cooldown (rec_at l a))
    \<and> (\<forall>a \<in> set batch. \<forall>b \<in> snd ` set (outstanding l). batchEligible owner now cutoff cooldown (rec_at l b)
         \<and> r_sequence (rec_at l b) < r_sequence (rec_at l a) \<longrightarrow> b \<in> set batch)
    \<and> (length batch \<le> 1 \<or> int (sum_list (map (\<lambda>a. length (r_payload (rec_at l a))) batch)) \<le> byteBudget)"
proof -
  have I: "ledger_inv l" by (rule ledger_reachable [OF assms(1)])
  define key where "key a = r_sequence (rec_at l a)" for a
  define es where "es = filter (\<lambda>a. batchEligible owner now cutoff cooldown (rec_at l a)) (map snd (outstanding l))"
  have es: "set es = {a \<in> snd ` set (outstanding l). batchEligible owner now cutoff cooldown (rec_at l a)}"
    by (auto simp: es_def)
  have dist: "distinct es" using outstanding_inj(1) [OF I] by (simp add: es_def)
  have inj: "inj_on key (set es)"
    unfolding key_def [abs_def] by (rule inj_on_subset [OF outstanding_inj(2) [OF I]]) (auto simp: es)
  have cur: "current l (Some a)" if "a \<in> snd ` set (outstanding l)" for a
    using that outstanding_inj(3) [OF I] by (metis imageE prod.collapse)
  show ?thesis
  proof (cases "batch = []")
    case False
    then have "batch = batchCount (\<lambda>a. length (r_payload (rec_at l a))) byteBudget True 0 (fold (insertPrefix key) es [])"
      using assms(2) by (auto simp: RestrictedFrontierBatch_def key_def [abs_def] es_def Let_def split: option.splits if_splits)
    also have "fold (insertPrefix key) es [] = take 8 (sort_key key es)"
      using fold_insertPrefix [of key es "[]"] fold_insort_sort [OF inj dist] by simp
    finally have b: "batch = batchCount (\<lambda>a. length (r_payload (rec_at l a))) byteBudget True 0 (take 8 (sort_key key es))" .
    from batchCount_prefix obtain m where "batch = take m (take 8 (sort_key key es))" unfolding b by blast
    then have t: "batch = take (min m 8) (sort_key key es)" by simp
    have "distinct (map key (sort_key key es))" using dist inj by (simp add: distinct_map)
    then have "sorted_wrt (<) (map key (sort_key key es))" by (simp add: strict_sorted_iff)
    then have "sorted_wrt (<) (map key batch)" by (simp add: t take_map [symmetric] sorted_wrt_take)
    moreover have sub: "set batch \<subseteq> set es" unfolding t by (metis set_sort set_take_subset)
    moreover have "y \<in> set batch" if "x \<in> set batch" "y \<in> set es" "key y < key x" for x y
      using sorted_take_closed [OF inj t that(1,2,3)] .
    moreover have "length batch \<le> 8" by (simp add: t)
    moreover have "length batch \<le> 1 \<or> int (sum_list (map (\<lambda>a. length (r_payload (rec_at l a))) batch)) \<le> byteBudget"
      unfolding b by (rule batchCount_first)
    ultimately show ?thesis using cur unfolding key_def es by blast
  qed simp
qed

theorem restricted_batch_prefix_witness:
  "length (RestrictedFrontierBatch (Some 0) (-1) 20 10 1 64 example_ledger) \<le> 8
   \<and> RestrictedFrontierBatch (Some 0) (-1) 20 10 1 64 example_ledger = [0, 1]"
proof -
  have e: "RestrictedFrontierBatch (Some 0) (-1) 20 10 1 64 example_ledger = [0, 1]"
    by (simp add: RestrictedFrontierBatch_def example_fields newRecord_def batchEligible_def Let_def insertPrefix_def)
  from restricted_batch_prefix [OF example_history refl, of "Some 0" "-1" 20 10 1 64] e show ?thesis by simp
qed

section \<open>The life of an attempt\<close>

text \<open>an attempt is claimed at most once and committed at most once. A successful
  \<open>MarkTransit\<close> makes exactly this leg's attempt current and refuses every further claim until it
  ends; \<open>MarkAttemptSent\<close> then applies once, reports the payload's size, remembers the leg as last
  sender, and a second commit of the same attempt changes nothing.\<close>

theorem attempt_once:
  assumes "ledger_step\<^sup>*\<^sup>* (newStreamTXLedger n) l" and "MarkTransit (Some a) leg t0 l = (True, l1)"
    and "MarkAttemptSent (Some a) leg False t1 l1 = (res, l2)"
  shows "AttemptCurrent (Some a) leg False l1 \<and> fst (MarkTransit (Some a) leg' t l1) = False
    \<and> at_Applied res \<and> at_Bytes res = length (r_payload (rec_at l a))
    \<and> r_sendCount (rec_at l2 a) = r_sendCount (rec_at l a) + 1
    \<and> \<not> AttemptCurrent (Some a) leg' False l2
    \<and> MarkAttemptSent (Some a) leg' False t l2 = (\<lparr>at_Applied = False, at_Bytes = 0, at_Retransmit = False\<rparr>, l2)"
proof -
  have I: "ledger_inv l" by (rule ledger_reachable [OF assms(1)])
  from assms(2) have cur: "current l (Some a)"
    and l1: "l1 = upd a (\<lambda>r. r\<lparr>r_inTransit := True, r_duplicated := (r_duplicated r \<or> r_sendCount r > 0),
                    r_transitLeg := leg, r_transitSince := t0\<rparr>) l"
    by (auto simp: MarkTransit_def simp del: current.simps split: if_splits)
  have a: "a < length (heap l)" using current_valid [OF _ cur] I by (auto simp: ledger_inv_def)
  have c1: "current l1 (Some a)" and r1: "rec_at l1 a = (rec_at l a)\<lparr>r_inTransit := True,
      r_duplicated := (r_duplicated (rec_at l a) \<or> r_sendCount (rec_at l a) > 0), r_transitLeg := leg, r_transitSince := t0\<rparr>"
    using cur a by (simp_all add: l1)
  have a1: "a < length (heap l1)" using a by (simp add: l1)
  define r2 where "r2 = commitAttempt leg (if IsZero t0 then t1 else t0) t1 ((rec_at l1 a)\<lparr>r_inTransit := False, r_transitSince := 0\<rparr>)"
  have res: "res = \<lparr>at_Applied = True, at_Bytes = length (r_payload r2), at_Retransmit = (r_sendCount r2 > 1)\<rparr>"
    and l2: "l2 = evidenceLocked ''write_complete'' a t1 (upd a (\<lambda>_. r2) l1)"
    using assms(3) c1 by (auto simp: MarkAttemptSent_def Let_def r2_def r1 simp del: current.simps)
  have f2: "r_payload r2 = r_payload (rec_at l a)" "r_sendCount r2 = r_sendCount (rec_at l a) + 1"
    "\<not> r_inTransit r2" "r_sequence r2 = r_sequence (rec_at l1 a)"
    by (simp_all add: r2_def commitAttempt_def Let_def r1)
  have "rec_at l2 a = r2" using a1 by (simp add: l2)
  with f2 c1 r1 res show ?thesis
    by (simp add: AttemptCurrent_def MarkTransit_def MarkAttemptSent_def Let_def)
qed

theorem attempt_once_witness:
  "at_Applied (fst (MarkAttemptSent (Some 1) 0 False 9 (snd (MarkTransit (Some 1) 0 8 example_ledger))))"
proof -
  have M: "MarkTransit (Some 1) 0 8 example_ledger = (True, snd (MarkTransit (Some 1) 0 8 example_ledger))"
    by (simp add: MarkTransit_def example_fields newRecord_def)
  from attempt_once [OF example_history M prod.collapse [symmetric]] show ?thesis by blast
qed

end
