(* ===== verification/Stream_Link.thy ===== *)
theory Stream_Link
  imports Stream_RX TX_Repair
begin

text \<open>
  One direction of a stream session: the sender's transmit ledger, the receiver's loop, and carriers
  that may lose, duplicate and reorder DATA and ACK frames. The contracts of the two ends are composed
  in the locale \<open>reliable_link\<close>; its facts, interpreted on the ledger and the receive loop, give the
  end-to-end properties.
\<close>

record link =
  lk_tx :: StreamTXLedger
  lk_rx :: rx_engine
  lk_data :: "StreamRXFrame list"
  lk_acks :: "u64 list"

definition newLink :: "int \<Rightarrow> int \<Rightarrow> nat \<Rightarrow> writer \<Rightarrow> link" where
  "newLink legs maxReorder rxLegs p =
     \<lparr>lk_tx = newStreamTXLedger legs, lk_rx = newRX maxReorder rxLegs p, lk_data = [], lk_acks = []\<rparr>"

text \<open>The DATA frame of a record on a leg, as the peer's reader hands it to its receive loop.\<close>

definition frameOf :: "LegID \<Rightarrow> StreamTXRecord \<Rightarrow> StreamRXFrame" where
  "frameOf leg r = \<lparr>rx_Sequence = r_sequence r, rx_Leg = leg, rx_Payload = r_payload r\<rparr>"

text \<open>
  \<open>lk_data\<close> and \<open>lk_acks\<close> are all the frames ever written: delivering a frame does not remove it
  (duplication), frames are delivered in any order (reordering) or never (loss). A DATA frame is
  written for the current attempt of a record; the ACK loop may send the requested value at any time.
\<close>

inductive link_step :: "(nat \<Rightarrow> gotime) \<Rightarrow> link \<Rightarrow> link \<Rightarrow> bool" for clk where
  sender: "local_step (lk_tx s) l \<Longrightarrow> link_step clk s (s\<lparr>lk_tx := l\<rparr>)"
| transmit: "AttemptCurrent (Some a) leg rescue (lk_tx s) \<Longrightarrow>
    link_step clk s (s\<lparr>lk_data := frameOf leg (rec_at (lk_tx s) a) # lk_data s\<rparr>)"
| deliver: "f \<in> set (lk_data s) \<Longrightarrow> link_step clk s (s\<lparr>lk_rx := rxStep clk f (lk_rx s)\<rparr>)"
| ack_send: "link_step clk s (s\<lparr>lk_acks := ackNext (lk_rx s) # lk_acks s\<rparr>)"
| ack_receive: "v \<in> set (lk_acks s) \<Longrightarrow> link_step clk s (s\<lparr>lk_tx := snd (ApplyACK v now (lk_tx s))\<rparr>)"

section \<open>Composing the contracts of the two ends\<close>

locale reliable_link =
  ordered_receiver rinv frontier racked out carried receive capacity +
  cumulative_sender sinv log sacked step ack capacity
  for rinv :: "bytes list \<Rightarrow> 'r \<Rightarrow> bool" and frontier racked :: "'r \<Rightarrow> nat" and out :: "'r \<Rightarrow> bytes"
    and carried :: "bytes list \<Rightarrow> 'f \<Rightarrow> bool" and receive :: "'f \<Rightarrow> 'r \<Rightarrow> 'r"
    and sinv :: "'s \<Rightarrow> bool" and log :: "'s \<Rightarrow> bytes list" and sacked :: "'s \<Rightarrow> nat"
    and step :: "'s \<Rightarrow> 's \<Rightarrow> bool" and ack :: "nat \<Rightarrow> 's \<Rightarrow> 's" and capacity :: nat
begin

lemma sender_keeps:
  assumes "sinv s" and "rinv (log s) r" and "step s s'"
  shows "sinv s' \<and> rinv (log s') r \<and> sacked s' = sacked s \<and> (carried (log s) f \<longrightarrow> carried (log s') f)"
proof -
  from step_log [OF assms(1,3)] obtain new where "log s' = log s @ new" by blast
  with assms show ?thesis using step_inv step_acked more_sent more_carried by metis
qed

lemma receiver_keeps:
  assumes "sinv s" and "rinv (log s) r" and "carried (log s) f"
  shows "rinv (log s) (receive f r) \<and> frontier r \<le> frontier (receive f r)"
  using assms receive_inv receive_frontier log_capacity by blast

lemma ack_keeps:
  assumes "sinv s" and "rinv (log s) r" and "sacked s \<le> frontier r" and "k \<le> frontier r"
  shows "sinv (ack k s) \<and> rinv (log (ack k s)) r \<and> sacked (ack k s) \<le> frontier r \<and> log (ack k s) = log s"
proof -
  have "k < capacity"
    using inv_frontier [OF assms(2)] log_capacity [OF assms(1)] assms(4) by linarith
  with assms show ?thesis using ack_inv ack_log acked_bounded by metis
qed

lemma end_to_end:
  assumes "sinv s" and "rinv (log s) r" and "sacked s \<le> frontier r"
  shows "prefix (out r) (concat (log s)) \<and> prefix (concat (take (sacked s) (log s))) (out r)"
proof -
  have "take (sacked s) (log s) = take (sacked s) (take (frontier r) (log s))"
    using assms(3) by (simp add: min_def)
  then have "prefix (concat (take (sacked s) (log s))) (concat (take (frontier r) (log s)))"
    by (metis append_take_drop_id concat_append prefixI)
  with inv_out [OF assms(2)] show ?thesis by (meson prefix_order.trans)
qed

end

interpretation rl: reliable_link
  rx_ok "\<lambda>c. unat (expected (window c))" "\<lambda>c. unat (ackNext c)" "\<lambda>c. written (pipe c)" carries "rxStep clk"
  ledger_inv payloads "\<lambda>l. unat (ackedNext l)" local_step "\<lambda>k l. snd (ApplyACK (of_nat k) now l)" "2 ^ 64"
  for clk now
  by unfold_locales

section \<open>The invariant of the link\<close>

definition link_ok :: "link \<Rightarrow> bool" where
  "link_ok s \<longleftrightarrow>
     ledger_inv (lk_tx s) \<and> rx_ok (payloads (lk_tx s)) (lk_rx s)
     \<and> unat (ackedNext (lk_tx s)) \<le> unat (expected (window (lk_rx s)))
     \<and> (\<forall>f \<in> set (lk_data s). carries (payloads (lk_tx s)) f)
     \<and> (\<forall>v \<in> set (lk_acks s). unat v \<le> unat (expected (window (lk_rx s))))"

lemma link_ok_new: "written p = [] \<Longrightarrow> link_ok (newLink legs maxReorder rxLegs p)"
  by (simp add: link_ok_def newLink_def ledger_inv_new rx_ok_new)
    (simp add: newStreamTXLedger_def Let_def newRX_def NewStreamRXWindow_def)

lemma attempt_carries:
  assumes "ledger_inv l" and "AttemptCurrent (Some a) leg rescue l"
  shows "carries (payloads l) (frameOf leg (rec_at l a))"
proof -
  have cur: "current l (Some a)" using assms(2) by (simp add: AttemptCurrent_def)
  have fr: "ledger_from (ackedNext l) l" using assms(1) by (simp add: ledger_inv_def)
  note v = current_valid [OF fr cur]
  then have "unat (r_sequence (rec_at l a)) < length (payloads l)"
    using inv_payloads [OF assms(1)] by (simp add: word_less_nat_alt)
  moreover have "unat (r_sequence (rec_at l a)) = a"
    using outstanding_range [OF fr mget_in] cur by simp
  ultimately show ?thesis using v by (simp add: carries_def frameOf_def payloads_def)
qed

lemma link_ok_step:
  assumes "link_step clk s s'" and "link_ok s"
  shows "link_ok s'"
proof -
  from assms(2) have S: "ledger_inv (lk_tx s)" and R: "rx_ok (payloads (lk_tx s)) (lk_rx s)"
    and A: "unat (ackedNext (lk_tx s)) \<le> unat (expected (window (lk_rx s)))" by (auto simp: link_ok_def)
  show ?thesis
    using assms(1)
  proof (cases rule: link_step.cases)
    case (sender l)
    with rl.sender_keeps [OF S R] assms(2) show ?thesis by (auto simp: link_ok_def)
  next
    case (transmit a leg rescue)
    with attempt_carries [OF S] assms(2) show ?thesis by (auto simp: link_ok_def)
  next
    case (deliver f)
    then have "carries (payloads (lk_tx s)) f" using assms(2) by (simp add: link_ok_def)
    with rl.receiver_keeps [OF S R] deliver assms(2) show ?thesis
      by (fastforce simp: link_ok_def intro: order_trans)
  next
    case ack_send
    with rxl.inv_acked [OF R] assms(2) show ?thesis by (simp add: link_ok_def)
  next
    case (ack_receive v now)
    then have "unat v \<le> unat (expected (window (lk_rx s)))" using assms(2) by (simp add: link_ok_def)
    with rl.ack_keeps [OF S R A, of "unat v" now] ack_receive assms(2) show ?thesis by (auto simp: link_ok_def)
  qed
qed

lemma link_reachable:
  "(link_step clk)\<^sup>*\<^sup>* (newLink legs maxReorder rxLegs p) s \<Longrightarrow> written p = [] \<Longrightarrow> link_ok s"
  by (induction rule: rtranclp_induct) (auto intro: link_ok_new link_ok_step)

section \<open>Progress\<close>

definition receptive :: "link \<Rightarrow> bool" where
  "receptive s \<longleftrightarrow> running (lk_rx s) \<and> script (pipe (lk_rx s)) = []"

lemma rxStep_frontier:
  assumes "rx_ok sent c" and "running c" and "script (pipe c) = []" and "carries sent f"
    and "rx_Sequence f = expected (window c)" and "length sent < 2 ^ 64"
  shows "running (rxStep clk f c) \<and> script (pipe (rxStep clk f c)) = []
    \<and> unat (expected (window c)) < unat (expected (window (rxStep clk f c)))"
proof -
  have S: "settled (window c)" and R: "retains sent (pending (window c))" using assms(1,2) by (auto simp: rx_ok_def)
  from assms(2) S show ?thesis
  proof (cases rule: rxStep_cases [where f = f and clk = clk])
    case (ready c1)
    with assms R have D: "in_delivery sent f c1"
      by (auto simp: in_delivery_def rx_ok_def carries_def delivered_def Let_def)
    have "script (pipe c1) = []" using ready assms(3) by simp
    with rxDeliver_arrived [OF D assms(6)] rxDeliver_ok [OF D assms(6), of clk] ready show ?thesis
      by (auto split: if_splits)
  qed (use S assms(5) in \<open>auto simp: settled_def Insert_def dest: settled_Buffered\<close>)
qed

text \<open>The record at the receiver's frontier can always be put on a carrier.\<close>

lemma transmit_possible:
  assumes "link_ok s" and "unat (expected (window (lk_rx s))) < length (payloads (lk_tx s))"
  obtains s' f where "(link_step clk)\<^sup>*\<^sup>* s s'" and "f \<in> set (lk_data s')"
    and "rx_Sequence f = expected (window (lk_rx s))" and "lk_rx s' = lk_rx s" and "payloads (lk_tx s') = payloads (lk_tx s)"
proof -
  let ?l = "lk_tx s" and ?e = "expected (window (lk_rx s))"
  have I: "ledger_inv ?l" using assms(1) by (simp add: link_ok_def)
  have a: "unat ?e < length (heap ?l)" using assms(2) by (simp add: payloads_def)
  have cur: "current ?l (Some (unat ?e))"
    using current_iff [OF I a] assms(1) by (simp add: link_ok_def)
  have seq: "r_sequence (rec_at ?l (unat ?e)) = ?e"
    using I a by (simp add: ledger_inv_def ledger_from_def recs_ok_def)
  obtain s1 leg where s1: "(link_step clk)\<^sup>*\<^sup>* s s1" "AttemptCurrent (Some (unat ?e)) leg False (lk_tx s1)"
    "lk_rx s1 = lk_rx s" "payloads (lk_tx s1) = payloads ?l" "r_sequence (rec_at (lk_tx s1) (unat ?e)) = ?e"
  proof (cases "r_inTransit (rec_at ?l (unat ?e))")
    case True
    then have "AttemptCurrent (Some (unat ?e)) (r_transitLeg (rec_at ?l (unat ?e))) False ?l"
      using cur by (simp add: AttemptCurrent_def)
    then show thesis using seq by (intro that [of s]) auto
  next
    case False
    let ?l' = "snd (MarkTransit (Some (unat ?e)) 0 0 ?l)"
    have "link_step clk s (s\<lparr>lk_tx := ?l'\<rparr>)" by (intro link_step.sender local_step.MarkTransit)
    moreover have "AttemptCurrent (Some (unat ?e)) 0 False ?l' \<and> r_sequence (rec_at ?l' (unat ?e)) = ?e"
      using False cur a seq by (simp add: MarkTransit_def AttemptCurrent_def)
    moreover have "payloads ?l' = payloads ?l"
      using core_payloads [of ?l' ?l] MarkTransit_frame by blast
    ultimately show thesis by (intro that [of "s\<lparr>lk_tx := ?l'\<rparr>" 0]) auto
  qed
  show thesis
  proof (rule that)
    let ?f = "frameOf leg (rec_at (lk_tx s1) (unat ?e))"
    show "(link_step clk)\<^sup>*\<^sup>* s (s1\<lparr>lk_data := ?f # lk_data s1\<rparr>)"
      using s1(1) link_step.transmit [OF s1(2)] by (rule rtranclp.rtrancl_into_rtrancl)
    show "?f \<in> set (lk_data (s1\<lparr>lk_data := ?f # lk_data s1\<rparr>))" by simp
    show "rx_Sequence ?f = ?e" using s1(5) by (simp add: frameOf_def)
  qed (use s1 in simp_all)
qed

lemma link_advances:
  assumes "link_ok s" and "receptive s" and "unat (expected (window (lk_rx s))) < length (payloads (lk_tx s))"
  obtains s' where "(link_step clk)\<^sup>*\<^sup>* s s'" and "link_ok s'" and "receptive s'"
    and "unat (expected (window (lk_rx s))) < unat (expected (window (lk_rx s')))"
    and "payloads (lk_tx s') = payloads (lk_tx s)"
proof -
  obtain s1 f where s1: "(link_step clk)\<^sup>*\<^sup>* s s1" "f \<in> set (lk_data s1)"
    "rx_Sequence f = expected (window (lk_rx s))" "lk_rx s1 = lk_rx s" "payloads (lk_tx s1) = payloads (lk_tx s)"
    by (rule transmit_possible [OF assms(1,3)])
  let ?s2 = "s1\<lparr>lk_rx := rxStep clk f (lk_rx s1)\<rparr>"
  have ok1: "link_ok s1"
    using s1(1) assms(1) by (induction rule: rtranclp_induct) (auto intro: link_ok_step)
  have step: "link_step clk s1 ?s2" by (rule link_step.deliver [OF s1(2)])
  have F: "rx_ok (payloads (lk_tx s1)) (lk_rx s1)" "carries (payloads (lk_tx s1)) f" "length (payloads (lk_tx s1)) < 2 ^ 64"
    using ok1 s1(2) inv_payloads(3) by (auto simp: link_ok_def)
  from rxStep_frontier [OF F(1) _ _ F(2) _ F(3), of clk] s1 assms(2)
  have "receptive ?s2 \<and> unat (expected (window (lk_rx s))) < unat (expected (window (lk_rx ?s2)))"
    by (simp add: receptive_def)
  then show thesis
    using that [of ?s2] s1 step link_ok_step [OF step ok1] by (auto intro: rtranclp.rtrancl_into_rtrancl)
qed

lemma link_completes:
  assumes "link_ok s" and "receptive s"
  shows "\<exists>s'. (link_step clk)\<^sup>*\<^sup>* s s' \<and> link_ok s' \<and> payloads (lk_tx s') = payloads (lk_tx s)
    \<and> ackedNext (lk_tx s') = nextSequence (lk_tx s') \<and> written (pipe (lk_rx s')) = concat (payloads (lk_tx s))"
  using assms
proof (induction "length (payloads (lk_tx s)) - unat (expected (window (lk_rx s)))" arbitrary: s rule: less_induct)
  case less
  have I: "ledger_inv (lk_tx s)" and R: "rx_ok (payloads (lk_tx s)) (lk_rx s)"
    using less.prems by (auto simp: link_ok_def)
  show ?case
  proof (cases "unat (expected (window (lk_rx s))) < length (payloads (lk_tx s))")
    case True
    obtain s' where s': "(link_step clk)\<^sup>*\<^sup>* s s'" "link_ok s'" "receptive s'"
      "unat (expected (window (lk_rx s))) < unat (expected (window (lk_rx s')))" "payloads (lk_tx s') = payloads (lk_tx s)"
      by (rule link_advances [OF less.prems True])
    then have "length (payloads (lk_tx s')) - unat (expected (window (lk_rx s')))
        < length (payloads (lk_tx s)) - unat (expected (window (lk_rx s)))" using True by simp
    from less.hyps [OF this s'(2,3)] s'(1,5) show ?thesis by (auto intro: rtranclp_trans)
  next
    case False
    with rxl.inv_frontier [OF R] inv_payloads(1) [OF I] have e: "expected (window (lk_rx s)) = nextSequence (lk_tx s)"
      by (simp add: word_unat_eq_iff)
    then have ack: "ackNext (lk_rx s) = nextSequence (lk_tx s)"
      and out: "written (pipe (lk_rx s)) = concat (payloads (lk_tx s))"
      using R less.prems(2) inv_payloads(1) [OF I] by (auto simp: rx_ok_def receptive_def)
    let ?s1 = "s\<lparr>lk_acks := ackNext (lk_rx s) # lk_acks s\<rparr>"
    let ?s2 = "?s1\<lparr>lk_tx := snd (ApplyACK (ackNext (lk_rx s)) 0 (lk_tx ?s1))\<rparr>"
    have "link_step clk s ?s1" by (rule link_step.ack_send)
    moreover have "link_step clk ?s1 ?s2" by (rule link_step.ack_receive) simp
    ultimately have steps: "(link_step clk)\<^sup>*\<^sup>* s ?s2" and ok2: "link_ok ?s2"
      using less.prems(1) by (auto intro: link_ok_step)
    have "ackedNext (lk_tx s) \<le> nextSequence (lk_tx s)"
      using I by (simp add: ledger_inv_def ledger_from_def dom_ok_def)
    then have "ackedNext (lk_tx ?s2) = nextSequence (lk_tx ?s2) \<and> payloads (lk_tx ?s2) = payloads (lk_tx s)"
      using ack_spec [OF I refl, of "nextSequence (lk_tx s)" 0] by (auto simp: ack)
    with steps ok2 out show ?thesis by (intro exI [of _ ?s2]) simp
  qed
qed

end
