(* ===== verification/Path_Protocol.thy ===== *)
theory Path_Protocol
  imports Types
begin

unbundle bit_operations_syntax

text \<open>
  The authenticated path protocol of \<open>core/stream_path_protocol.go\<close>: the READY reply of a Version 6
  or 7 stream HELLO and the keys both ends derive from it, the RTT probe and echo messages, and the
  coordinated-drain control messages. Random nonces are arguments; \<open>time.Now()\<close> is an argument.
\<close>

definition streamReadyV2Magic :: bytes where "streamReadyV2Magic = str_bytes ''SMP3RDY2''"
definition streamReadyV3Magic :: bytes where "streamReadyV3Magic = str_bytes ''SMP3RDY3''"
definition streamRTTMessageMagic :: bytes where "streamRTTMessageMagic = str_bytes ''SMP3RTT1''"
definition streamDrainControlMagic :: bytes where "streamDrainControlMagic = str_bytes ''SMP3DRN1''"
definition streamRTTMessageV1 :: byte where [simp]: "streamRTTMessageV1 = 1"
definition StreamRTTProbeTimeout :: duration where "StreamRTTProbeTimeout = 2 * Second"

record StreamReadyV2 =
  rd_SessionID :: SessionID
  rd_LegID :: LegID
  rd_Mode :: HelloMode
  rd_Capabilities :: u32
  rd_ServerNonce :: bytes

record StreamPathAuth =
  sessionID :: SessionID
  legID :: LegID
  capabilities :: u32
  probeKey :: bytes
  drainKey :: bytes
  drainBinding :: bytes
  authenticated :: bool
  handshakeRTT :: duration
  handshakeAt :: gotime

definition noAuth :: StreamPathAuth where
  "noAuth = \<lparr>sessionID = replicate 16 0, legID = 0, capabilities = 0, probeKey = replicate 32 0,
             drainKey = replicate 32 0, drainBinding = replicate 16 0, authenticated = False,
             handshakeRTT = 0, handshakeAt = 0\<rparr>"

definition CoordinatedDrainEnabled :: "StreamPathAuth \<Rightarrow> bool" where
  "CoordinatedDrainEnabled a \<longleftrightarrow> authenticated a \<and> capabilities a AND StreamCapabilityCoordinatedDrain \<noteq> 0"

definition PathRTTEnabled :: "StreamPathAuth \<Rightarrow> bool" where
  "PathRTTEnabled a \<longleftrightarrow> authenticated a \<and> capabilities a AND StreamCapabilityPathRTT \<noteq> 0"

definition CarrierHandshakeRTT :: "StreamPathAuth \<Rightarrow> duration option" where
  "CarrierHandshakeRTT a =
     (if \<not> PathRTTEnabled a \<or> handshakeRTT a \<le> 0 \<or> handshakeRTT a \<ge> StreamRTTProbeTimeout
         \<or> IsZero (handshakeAt a) then None
      else Some (handshakeRTT a))"

definition WithCarrierHandshakeRTT :: "duration \<Rightarrow> gotime \<Rightarrow> StreamPathAuth \<Rightarrow> smp3_error + StreamPathAuth" where
  "WithCarrierHandshakeRTT rtt now a =
     (if \<not> PathRTTEnabled a then Inl ErrStreamPathNegotiation
      else if rtt \<le> 0 \<or> rtt \<ge> StreamRTTProbeTimeout then Inl ErrStreamPathMessage
      else Inr (a\<lparr>handshakeRTT := rtt, handshakeAt := now\<rparr>))"

record StreamPathBinding =
  pb_SessionID :: SessionID
  pb_LegID :: LegID
  pb_CarrierID :: bytes
  pb_Generation :: u64

type_synonym StreamRTTMessageKind = u8
definition StreamRTTProbe :: StreamRTTMessageKind where [simp]: "StreamRTTProbe = 1"
definition StreamRTTEcho :: StreamRTTMessageKind where [simp]: "StreamRTTEcho = 2"

type_synonym StreamRTTDirection = u8
definition StreamRTTClientToServer :: StreamRTTDirection where [simp]: "StreamRTTClientToServer = 1"
definition StreamRTTServerToClient :: StreamRTTDirection where [simp]: "StreamRTTServerToClient = 2"

type_synonym StreamPathRole = u8
definition StreamPathRoleClient :: StreamPathRole where [simp]: "StreamPathRoleClient = 1"
definition StreamPathRoleServer :: StreamPathRole where [simp]: "StreamPathRoleServer = 2"

record StreamPathIdentity =
  pi_SessionID :: SessionID
  pi_LegID :: LegID
  pi_CarrierID :: bytes
  pi_Generation :: u64
  pi_Direction :: StreamRTTDirection

definition binding_of :: "StreamPathIdentity \<Rightarrow> StreamPathBinding" where
  "binding_of i = \<lparr>pb_SessionID = pi_SessionID i, pb_LegID = pi_LegID i, pb_CarrierID = pi_CarrierID i,
                   pb_Generation = pi_Generation i\<rparr>"

record StreamRTTMessage =
  rm_Kind :: StreamRTTMessageKind
  rm_Identity :: StreamPathIdentity
  rm_Token :: u64

section \<open>READY\<close>

definition validateStreamV6Hello :: "Hello \<Rightarrow> smp3_error option" where
  "validateStreamV6Hello hello =
     (if h_Version hello \<noteq> Version6 \<or> h_Mode hello \<noteq> ModeStream then Some ErrStreamPathMessage
      else if h_Capabilities hello AND NOT StreamCapabilityPathRTT \<noteq> 0
           \<or> h_Capabilities hello AND StreamCapabilityPathRTT = 0 then Some errInvalidCapabilities
      else None)"

definition validateStreamPathHello :: "Hello \<Rightarrow> smp3_error option" where
  "validateStreamPathHello hello =
     (if h_Mode hello \<noteq> ModeStream \<or> (h_Version hello \<noteq> Version6 \<and> h_Version hello \<noteq> Version7)
         \<or> h_Capabilities hello AND StreamCapabilityPathRTT = 0 then Some ErrStreamPathMessage
      else if h_Version hello = Version6 \<and> h_Capabilities hello AND NOT StreamCapabilityPathRTT \<noteq> 0
           \<or> h_Version hello = Version7 \<and> h_Capabilities hello AND NOT knownStreamCapabilities \<noteq> 0
      then Some errInvalidCapabilities
      else None)"

definition validateStreamReadyHello :: "Hello \<Rightarrow> smp3_error option" where
  "validateStreamReadyHello hello =
     (if h_Version hello = Version6 then validateStreamV6Hello hello
      else if h_Version hello \<noteq> Version7 \<or> h_Mode hello \<noteq> ModeStream
           \<or> h_Capabilities hello AND NOT knownStreamCapabilities \<noteq> 0
           \<or> h_Capabilities hello AND StreamCapabilityCoordinatedDrain = 0 then Some ErrStreamPathMessage
      else None)"

definition validSelectedStreamCapabilities :: "Hello \<Rightarrow> u32 \<Rightarrow> bool" where
  "validSelectedStreamCapabilities hello selected =
     (if selected AND NOT (h_Capabilities hello) \<noteq> 0 \<or> selected AND NOT knownStreamCapabilities \<noteq> 0 then False
      else if h_Version hello = Version6 then selected AND NOT StreamCapabilityPathRTT = 0
      else h_Version hello = Version7 \<and> h_Mode hello = ModeStream)"

definition readyMagic :: "Version \<Rightarrow> bytes" where
  "readyMagic version = (if version = Version7 then streamReadyV3Magic else streamReadyV2Magic)"

definition streamReadyV2MAC :: "Hello \<Rightarrow> bytes \<Rightarrow> bytes \<Rightarrow> bytes" where
  "streamReadyV2MAC hello pre password =
     hmac_sha256 password (str_bytes ''SMP3-SIDECAR-READY-V2'' @ h_Nonce hello @ pre)"

definition streamReadyMAC :: "Hello \<Rightarrow> bytes \<Rightarrow> bytes \<Rightarrow> bytes" where
  "streamReadyMAC hello pre password =
     (if h_Version hello = Version6 then streamReadyV2MAC hello pre password
      else hmac_sha256 password (str_bytes ''SMP3-SIDECAR-READY-V3'' @ [h_Version hello] @ h_Nonce hello @ pre))"

definition deriveStreamPathProbeKey :: "Hello \<Rightarrow> StreamReadyV2 \<Rightarrow> bytes \<Rightarrow> smp3_error + bytes" where
  "deriveStreamPathProbeKey hello ready password =
     (case validateStreamPathHello hello of
        Some err \<Rightarrow> Inl err
      | None \<Rightarrow>
          if length password = 0 then Inl errEmptyPassword
          else if rd_SessionID ready \<noteq> h_SessionID hello \<or> rd_LegID ready \<noteq> h_LegID hello
               \<or> rd_Mode ready \<noteq> ModeStream \<or> \<not> validSelectedStreamCapabilities hello (rd_Capabilities ready)
          then Inl ErrStreamPathMessage
          else if rd_Capabilities ready AND StreamCapabilityPathRTT = 0 then Inl ErrStreamPathNegotiation
          else Inr (hmac_sha256 password
                 (str_bytes ''SMP3-STREAM-PATH-KEY-V6'' @ h_SessionID hello @ [h_LegID hello, h_Mode hello]
                  @ put_u32 (rd_Capabilities ready) @ h_Nonce hello @ rd_ServerNonce ready)))"

definition deriveStreamDrainControlKey :: "Hello \<Rightarrow> StreamReadyV2 \<Rightarrow> bytes \<Rightarrow> bytes" where
  "deriveStreamDrainControlKey hello ready password =
     hmac_sha256 password
       (str_bytes ''SMP3-STREAM-DRAIN-CONTROL-KEY-V1'' @ [h_Version hello, h_Mode hello, h_LegID hello]
        @ h_SessionID hello @ put_u32 (rd_Capabilities ready) @ h_Nonce hello @ rd_ServerNonce ready)"

definition makeStreamPathAuth :: "Hello \<Rightarrow> StreamReadyV2 \<Rightarrow> bytes \<Rightarrow> smp3_error + StreamPathAuth" where
  "makeStreamPathAuth hello ready password =
     (if rd_SessionID ready \<noteq> h_SessionID hello \<or> rd_LegID ready \<noteq> h_LegID hello
         \<or> rd_Mode ready \<noteq> ModeStream \<or> \<not> validSelectedStreamCapabilities hello (rd_Capabilities ready)
      then Inl ErrStreamPathMessage
      else if rd_Capabilities ready = 0 then Inr noAuth
      else
        case (if rd_Capabilities ready AND StreamCapabilityPathRTT \<noteq> 0
              then deriveStreamPathProbeKey hello ready password else Inr (replicate 32 0)) of
          Inl err \<Rightarrow> Inl err
        | Inr pathKey \<Rightarrow>
            if rd_Capabilities ready AND StreamCapabilityCoordinatedDrain \<noteq> 0
               \<and> (h_Version hello \<noteq> Version7 \<or> length password = 0) then Inl errInvalidCapabilities
            else let drain = (rd_Capabilities ready AND StreamCapabilityCoordinatedDrain \<noteq> 0);
                     dkey = (if drain then deriveStreamDrainControlKey hello ready password else replicate 32 0);
                     dbind = (if drain
                              then take 16 (hmac_sha256 dkey (str_bytes ''SMP3-DRAIN-CARRIER-BINDING-V1''
                                                             @ h_SessionID hello @ [h_LegID hello]))
                              else replicate 16 0)
                 in Inr \<lparr>sessionID = h_SessionID hello, legID = h_LegID hello,
                         capabilities = rd_Capabilities ready, probeKey = pathKey, drainKey = dkey,
                         drainBinding = dbind, authenticated = True, handshakeRTT = 0, handshakeAt = 0\<rparr>)"

text \<open>The first 46 bytes of a READY.\<close>

definition readyPrefix :: "Hello \<Rightarrow> u32 \<Rightarrow> bytes \<Rightarrow> bytes" where
  "readyPrefix hello selected nonce =
     readyMagic (h_Version hello) @ h_SessionID hello @ [h_LegID hello] @ [h_Mode hello]
       @ put_u32 selected @ nonce"

definition EncodeStreamReadyV2 :: "Hello \<Rightarrow> u32 \<Rightarrow> bytes \<Rightarrow> bytes \<Rightarrow> smp3_error + bytes" where
  "EncodeStreamReadyV2 hello selected nonce password =
     (case validateStreamReadyHello hello of
        Some err \<Rightarrow> Inl err
      | None \<Rightarrow>
          if length password = 0 then Inl errEmptyPassword
          else if \<not> validSelectedStreamCapabilities hello selected then Inl errInvalidCapabilities
          else let pre = readyPrefix hello selected nonce
               in Inr (pre @ streamReadyMAC hello pre password))"

definition ReadStreamReadyV2 ::
  "reader \<Rightarrow> Hello \<Rightarrow> bytes \<Rightarrow> smp3_error + (StreamReadyV2 \<times> StreamPathAuth) \<times> reader" where
  "ReadStreamReadyV2 r hello password =
     (case validateStreamReadyHello hello of
        Some err \<Rightarrow> Inl err
      | None \<Rightarrow>
          if length password = 0 then Inl errEmptyPassword
          else case ReadFull streamReadyV2Size r of
            Inl err \<Rightarrow> Inl (IOErr err)
          | Inr (wire, r') \<Rightarrow>
              if drop 46 wire \<noteq> streamReadyMAC hello (take 46 wire) password then Inl errInvalidAuthentication
              else if slice_of 0 8 wire \<noteq> readyMagic (h_Version hello) \<or> slice_of 8 24 wire \<noteq> h_SessionID hello
                   \<or> wire ! 24 \<noteq> h_LegID hello \<or> wire ! 25 \<noteq> h_Mode hello then Inl ErrStreamPathMessage
              else let selected = get_u32 (slice_of 26 30 wire)
                   in if \<not> validSelectedStreamCapabilities hello selected then Inl errInvalidCapabilities
                      else let ready = \<lparr>rd_SessionID = h_SessionID hello, rd_LegID = h_LegID hello,
                                        rd_Mode = h_Mode hello, rd_Capabilities = selected,
                                        rd_ServerNonce = slice_of 30 46 wire\<rparr>
                           in case makeStreamPathAuth hello ready password of
                                Inl err \<Rightarrow> Inl err
                              | Inr auth \<Rightarrow> Inr ((ready, auth), r'))"

text \<open>The server side: the auth is returned only after the whole READY was written.\<close>

definition writeStreamReadyV2WithNonce ::
  "writer \<Rightarrow> Hello \<Rightarrow> u32 \<Rightarrow> bytes \<Rightarrow> bytes \<Rightarrow> (smp3_error + StreamPathAuth) \<times> writer" where
  "writeStreamReadyV2WithNonce w hello selected nonce password =
     (case EncodeStreamReadyV2 hello selected nonce password of
        Inl err \<Rightarrow> (Inl err, w)
      | Inr wire \<Rightarrow>
          (case writeProtocolFull w wire of
             (Some err, w') \<Rightarrow> (Inl (IOErr err), w')
           | (None, w') \<Rightarrow>
               (makeStreamPathAuth hello
                  \<lparr>rd_SessionID = h_SessionID hello, rd_LegID = h_LegID hello, rd_Mode = h_Mode hello,
                   rd_Capabilities = selected, rd_ServerNonce = nonce\<rparr> password, w')))"

definition validFor :: "StreamPathAuth \<Rightarrow> StreamPathBinding \<Rightarrow> bool" where
  "validFor a binding \<longleftrightarrow>
     authenticated a \<and> sessionID a = pb_SessionID binding \<and> legID a = pb_LegID binding
     \<and> capabilities a AND StreamCapabilityPathRTT \<noteq> 0 \<and> capabilities a AND NOT knownStreamCapabilities = 0"

section \<open>RTT messages\<close>

definition validateStreamPathBinding :: "StreamPathBinding \<Rightarrow> smp3_error option" where
  "validateStreamPathBinding binding =
     (if pb_CarrierID binding = [] \<or> pb_Generation binding = 0 then Some ErrStreamPathMessage else None)"

definition validateStreamRTTMessage :: "StreamRTTMessage \<Rightarrow> smp3_error option" where
  "validateStreamRTTMessage message =
     (case validateStreamPathBinding (binding_of (rm_Identity message)) of
        Some err \<Rightarrow> Some err
      | None \<Rightarrow>
          if pi_Direction (rm_Identity message) \<noteq> StreamRTTClientToServer
             \<and> pi_Direction (rm_Identity message) \<noteq> StreamRTTServerToClient then Some ErrStreamPathMessage
          else if (rm_Kind message \<noteq> StreamRTTProbe \<and> rm_Kind message \<noteq> StreamRTTEcho) \<or> rm_Token message = 0
          then Some ErrStreamPathMessage
          else None)"

definition streamRTTMessageMAC :: "bytes \<Rightarrow> bytes \<Rightarrow> bytes" where
  "streamRTTMessageMAC key pre = hmac_sha256 key (str_bytes ''SMP3-STREAM-RTT-MESSAGE-V1'' @ pre)"

definition rttPrefix :: "StreamRTTMessage \<Rightarrow> bytes" where
  "rttPrefix message =
     streamRTTMessageMagic @ [streamRTTMessageV1] @ [rm_Kind message] @ [pi_Direction (rm_Identity message)]
       @ [pi_LegID (rm_Identity message)] @ pi_SessionID (rm_Identity message) @ put_u64 (rm_Token message)"

definition encodeStreamRTTMessage :: "StreamRTTMessage \<Rightarrow> bytes \<Rightarrow> smp3_error + bytes" where
  "encodeStreamRTTMessage message key =
     (case validateStreamRTTMessage message of
        Some err \<Rightarrow> Inl err
      | None \<Rightarrow> Inr (rttPrefix message @ streamRTTMessageMAC key (rttPrefix message)))"

definition decodeStreamRTTMessage ::
  "bytes \<Rightarrow> bytes \<Rightarrow> StreamPathBinding \<Rightarrow> smp3_error + StreamRTTMessage" where
  "decodeStreamRTTMessage wire key binding =
     (case validateStreamPathBinding binding of
        Some err \<Rightarrow> Inl err
      | None \<Rightarrow>
          if length wire \<noteq> StreamRTTMessageSize \<or> slice_of 0 8 wire \<noteq> streamRTTMessageMagic
             \<or> wire ! 8 \<noteq> streamRTTMessageV1 then Inl ErrStreamPathMessage
          else if drop 36 wire \<noteq> streamRTTMessageMAC key (take 36 wire) then Inl errInvalidAuthentication
          else let kind = wire ! 9; direction = wire ! 10; leg = wire ! 11; session = slice_of 12 28 wire;
                   token = get_u64 (slice_of 28 36 wire)
               in if (kind \<noteq> StreamRTTProbe \<and> kind \<noteq> StreamRTTEcho)
                     \<or> (direction \<noteq> StreamRTTClientToServer \<and> direction \<noteq> StreamRTTServerToClient)
                     \<or> leg \<noteq> pb_LegID binding \<or> session \<noteq> pb_SessionID binding \<or> token = 0
                  then Inl ErrStreamPathMessage
                  else Inr \<lparr>rm_Kind = kind,
                            rm_Identity = \<lparr>pi_SessionID = pb_SessionID binding, pi_LegID = pb_LegID binding,
                                           pi_CarrierID = pb_CarrierID binding,
                                           pi_Generation = pb_Generation binding, pi_Direction = direction\<rparr>,
                            rm_Token = token\<rparr>)"

section \<open>Drain messages\<close>

type_synonym StreamDrainMessageKind = u8
definition StreamDrainIntent :: StreamDrainMessageKind where [simp]: "StreamDrainIntent = 1"
definition StreamDrainQuiesced :: StreamDrainMessageKind where [simp]: "StreamDrainQuiesced = 2"
definition StreamDrainReady :: StreamDrainMessageKind where [simp]: "StreamDrainReady = 3"
definition StreamDrainCommit :: StreamDrainMessageKind where [simp]: "StreamDrainCommit = 4"
definition StreamDrainCommitAck :: StreamDrainMessageKind where [simp]: "StreamDrainCommitAck = 5"
definition StreamDrainAbort :: StreamDrainMessageKind where [simp]: "StreamDrainAbort = 6"

record StreamDrainMessage =
  dm_Kind :: StreamDrainMessageKind
  dm_SenderRole :: StreamPathRole
  dm_SessionID :: SessionID
  dm_TargetLeg :: LegID
  dm_Generation :: u64
  dm_TargetBinding :: bytes
  dm_OperationID :: bytes
  dm_Counter :: u64
  dm_AckedNext :: u64
  dm_OutstandingFrames :: u32
  dm_OutstandingBytes :: u64

definition validStreamDrainMessage :: "StreamDrainMessage \<Rightarrow> bool" where
  "validStreamDrainMessage m =
     (if dm_Kind m < StreamDrainIntent \<or> dm_Kind m > StreamDrainAbort
         \<or> (dm_SenderRole m \<noteq> StreamPathRoleClient \<and> dm_SenderRole m \<noteq> StreamPathRoleServer)
         \<or> dm_Generation m = 0 \<or> dm_Counter m = 0 then False
      else if dm_TargetBinding m = replicate 16 0 \<or> dm_OperationID m = replicate 16 0 then False
      else if (dm_Kind m = StreamDrainReady \<or> dm_Kind m = StreamDrainCommit \<or> dm_Kind m = StreamDrainCommitAck)
           \<and> (dm_OutstandingFrames m \<noteq> 0 \<or> dm_OutstandingBytes m \<noteq> 0) then False
      else True)"

definition streamDrainMessageMAC :: "bytes \<Rightarrow> bytes \<Rightarrow> bytes" where
  "streamDrainMessageMAC key pre = hmac_sha256 key (str_bytes ''SMP3-STREAM-DRAIN-MESSAGE-V1'' @ pre)"

text \<open>The first 97 bytes of a drain message; byte 11 is reserved and zero.\<close>

definition drainPrefix :: "StreamDrainMessage \<Rightarrow> bytes" where
  "drainPrefix m =
     streamDrainControlMagic @ [1] @ [dm_Kind m] @ [dm_SenderRole m] @ [0] @ dm_SessionID m @ [dm_TargetLeg m]
       @ put_u64 (dm_Generation m) @ dm_TargetBinding m @ dm_OperationID m @ put_u64 (dm_Counter m)
       @ put_u64 (dm_AckedNext m) @ put_u32 (dm_OutstandingFrames m) @ put_u64 (dm_OutstandingBytes m)"

definition EncodeDrainMessage :: "StreamPathAuth \<Rightarrow> StreamDrainMessage \<Rightarrow> smp3_error + bytes" where
  "EncodeDrainMessage a m =
     (if \<not> CoordinatedDrainEnabled a \<or> dm_SessionID m \<noteq> sessionID a \<or> \<not> validStreamDrainMessage m
      then Inl ErrStreamDrainNegotiation
      else Inr (drainPrefix m @ streamDrainMessageMAC (drainKey a) (drainPrefix m)))"

definition DecodeDrainMessage ::
  "StreamPathAuth \<Rightarrow> bytes \<Rightarrow> StreamPathRole \<Rightarrow> smp3_error + StreamDrainMessage" where
  "DecodeDrainMessage a wire role =
     (if \<not> CoordinatedDrainEnabled a \<or> length wire \<noteq> StreamDrainControlMessageSize
         \<or> slice_of 0 8 wire \<noteq> streamDrainControlMagic \<or> wire ! 8 \<noteq> 1 then Inl ErrStreamDrainMessage
      else if wire ! 11 \<noteq> 0 then Inl ErrStreamDrainMessage
      else if drop 97 wire \<noteq> streamDrainMessageMAC (drainKey a) (take 97 wire) then Inl errInvalidAuthentication
      else let m = \<lparr>dm_Kind = wire ! 9, dm_SenderRole = wire ! 10, dm_SessionID = slice_of 12 28 wire,
                    dm_TargetLeg = wire ! 28, dm_Generation = get_u64 (slice_of 29 37 wire),
                    dm_TargetBinding = slice_of 37 53 wire, dm_OperationID = slice_of 53 69 wire,
                    dm_Counter = get_u64 (slice_of 69 77 wire), dm_AckedNext = get_u64 (slice_of 77 85 wire),
                    dm_OutstandingFrames = get_u32 (slice_of 85 89 wire),
                    dm_OutstandingBytes = get_u64 (slice_of 89 97 wire)\<rparr>
           in if dm_SessionID m \<noteq> sessionID a \<or> dm_SenderRole m \<noteq> role \<or> \<not> validStreamDrainMessage m
              then Inl ErrStreamDrainMessage
              else Inr m)"

section \<open>Lemmas\<close>

lemma length_magics [simp, codec_simps]:
  "length (readyMagic v) = 8" "length streamRTTMessageMagic = 8" "length streamDrainControlMagic = 8"
  by (simp_all add: readyMagic_def streamReadyV2Magic_def streamReadyV3Magic_def streamRTTMessageMagic_def
      streamDrainControlMagic_def)

lemma length_macs [simp, codec_simps]:
  "length (streamReadyMAC h p k) = 32" "length (streamRTTMessageMAC k p) = 32" "length (streamDrainMessageMAC k p) = 32"
  by (simp_all add: streamReadyMAC_def streamReadyV2MAC_def streamRTTMessageMAC_def streamDrainMessageMAC_def)

subsection \<open>READY\<close>

lemma length_readyPrefix:
  "wf_Hello hello \<Longrightarrow> length nonce = 16 \<Longrightarrow> length (readyPrefix hello sel nonce) = 46"
  by (simp add: readyPrefix_def wf_Hello_def)

lemma readyPrefix_fields:
  assumes "wf_Hello hello" and "length nonce = 16"
  shows "slice_of 0 8 (readyPrefix hello sel nonce @ t) = readyMagic (h_Version hello)"
    "slice_of 8 24 (readyPrefix hello sel nonce @ t) = h_SessionID hello"
    "(readyPrefix hello sel nonce @ t) ! 24 = h_LegID hello"
    "(readyPrefix hello sel nonce @ t) ! 25 = h_Mode hello"
    "get_u32 (slice_of 26 30 (readyPrefix hello sel nonce @ t)) = sel"
    "slice_of 30 46 (readyPrefix hello sel nonce @ t) = nonce"
  using assms by (simp_all add: readyPrefix_def wf_Hello_def codec_simps)

lemma readyPrefix_assemble:
  assumes "length pre = 46" and "slice_of 0 8 pre = readyMagic (h_Version hello)"
    and "slice_of 8 24 pre = h_SessionID hello" and "pre ! 24 = h_LegID hello" and "pre ! 25 = h_Mode hello"
  shows "readyPrefix hello (get_u32 (slice_of 26 30 pre)) (slice_of 30 46 pre) = pre"
proof -
  have "readyPrefix hello (get_u32 (slice_of 26 30 pre)) (slice_of 30 46 pre)
    = slice_of 0 8 pre @ slice_of 8 24 pre @ [pre ! 24] @ [pre ! 25] @ slice_of 26 30 pre @ slice_of 30 46 pre"
    using assms by (simp add: readyPrefix_def get_put_u32)
  also have "\<dots> = pre" using assms(1) by (simp add: reassemble del: One_nat_def)
  finally show ?thesis .
qed

lemma read_encoded_ready:
  assumes "wf_Hello hello" and "length nonce = 16" and "EncodeStreamReadyV2 hello sel nonce password = Inr wire"
    and "ready = \<lparr>rd_SessionID = h_SessionID hello, rd_LegID = h_LegID hello, rd_Mode = h_Mode hello,
                  rd_Capabilities = sel, rd_ServerNonce = nonce\<rparr>"
    and "makeStreamPathAuth hello ready password = Inr auth"
  shows "ReadStreamReadyV2 \<lparr>avail = wire @ rest, atEnd = e\<rparr> hello password = Inr ((ready, auth), \<lparr>avail = rest, atEnd = e\<rparr>)"
proof -
  let ?pre = "readyPrefix hello sel nonce"
  from assms(3) have v: "validateStreamReadyHello hello = None" "length password \<noteq> 0"
    "validSelectedStreamCapabilities hello sel" and w: "wire = ?pre @ streamReadyMAC hello ?pre password"
    by (auto simp: EncodeStreamReadyV2_def Let_def split: option.splits if_splits)
  have len: "length ?pre = 46" by (rule length_readyPrefix [OF assms(1,2)])
  have "length wire = streamReadyV2Size" by (simp add: w len streamReadyV2Size_def sha256_Size_def)
  then show ?thesis
    using v len assms(4,5) readyPrefix_fields [OF assms(1,2)]
    by (simp add: ReadStreamReadyV2_def ReadFull_append w Let_def)
qed

lemma ReadStreamReadyV2_InrD:
  assumes "ReadStreamReadyV2 r hello password = Inr ((ready, auth), r')"
  shows "\<exists>wire. avail r = wire @ avail r' \<and> EncodeStreamReadyV2 hello (rd_Capabilities ready) (rd_ServerNonce ready) password = Inr wire
    \<and> length (rd_ServerNonce ready) = 16 \<and> makeStreamPathAuth hello ready password = Inr auth
    \<and> validSelectedStreamCapabilities hello (rd_Capabilities ready)
    \<and> ready = \<lparr>rd_SessionID = h_SessionID hello, rd_LegID = h_LegID hello, rd_Mode = h_Mode hello,
                rd_Capabilities = rd_Capabilities ready, rd_ServerNonce = rd_ServerNonce ready\<rparr>"
proof -
  from assms obtain wire where rf: "ReadFull streamReadyV2Size r = Inr (wire, r')"
    and v: "validateStreamReadyHello hello = None" "length password \<noteq> 0"
    and mac: "drop 46 wire = streamReadyMAC hello (take 46 wire) password"
    and f: "slice_of 0 8 wire = readyMagic (h_Version hello)" "slice_of 8 24 wire = h_SessionID hello"
      "wire ! 24 = h_LegID hello" "wire ! 25 = h_Mode hello"
    and c: "validSelectedStreamCapabilities hello (get_u32 (slice_of 26 30 wire))"
    and rd: "ready = \<lparr>rd_SessionID = h_SessionID hello, rd_LegID = h_LegID hello, rd_Mode = h_Mode hello,
        rd_Capabilities = get_u32 (slice_of 26 30 wire), rd_ServerNonce = slice_of 30 46 wire\<rparr>"
    and a: "makeStreamPathAuth hello ready password = Inr auth"
    by (auto simp: ReadStreamReadyV2_def Let_def split: option.splits if_splits sum.splits prod.splits)
  from ReadFull_InrD [OF rf] have len: "length wire = 78" and av: "avail r = wire @ avail r'"
    by (auto simp: streamReadyV2Size_def sha256_Size_def)
  have sl: "slice_of i j (take 46 wire) = slice_of i j wire" if "j \<le> 46" for i j
    using that by (simp add: slice_of_def drop_take min_def)
  have pre: "readyPrefix hello (get_u32 (slice_of 26 30 wire)) (slice_of 30 46 wire) = take 46 wire"
    using readyPrefix_assemble [of "take 46 wire" hello] f len by (simp add: sl)
  have "take 46 wire @ streamReadyMAC hello (take 46 wire) password = wire"
    using mac by (metis append_take_drop_id)
  with v c pre have "EncodeStreamReadyV2 hello (rd_Capabilities ready) (rd_ServerNonce ready) password = Inr wire"
    by (simp add: EncodeStreamReadyV2_def rd Let_def)
  with av a c rd len show ?thesis by auto
qed

subsection \<open>RTT messages\<close>

lemma rttPrefix_fields:
  assumes "length (pi_SessionID (rm_Identity m)) = 16"
  shows "length (rttPrefix m) = 36" "slice_of 0 8 (rttPrefix m @ t) = streamRTTMessageMagic"
    "(rttPrefix m @ t) ! 8 = 1" "(rttPrefix m @ t) ! 9 = rm_Kind m" "(rttPrefix m @ t) ! 10 = pi_Direction (rm_Identity m)"
    "(rttPrefix m @ t) ! 11 = pi_LegID (rm_Identity m)" "slice_of 12 28 (rttPrefix m @ t) = pi_SessionID (rm_Identity m)"
    "get_u64 (slice_of 28 36 (rttPrefix m @ t)) = rm_Token m"
  using assms by (simp_all add: rttPrefix_def codec_simps)

lemma rttPrefix_assemble:
  assumes "length pre = 36" and "slice_of 0 8 pre = streamRTTMessageMagic" and "pre ! 8 = 1"
    and "rm_Kind m = pre ! 9" and "pi_Direction (rm_Identity m) = pre ! 10" and "pi_LegID (rm_Identity m) = pre ! 11"
    and "pi_SessionID (rm_Identity m) = slice_of 12 28 pre" and "rm_Token m = get_u64 (slice_of 28 36 pre)"
  shows "rttPrefix m = pre"
proof -
  have "rttPrefix m = slice_of 0 8 pre @ [pre ! 8] @ [pre ! 9] @ [pre ! 10] @ [pre ! 11] @ slice_of 12 28 pre @ slice_of 28 36 pre"
    using assms by (simp add: rttPrefix_def get_put_u64)
  also have "\<dots> = pre" using assms(1) by (simp add: reassemble del: One_nat_def)
  finally show ?thesis .
qed

lemma binding_of_fields [simp]:
  "pb_SessionID (binding_of i) = pi_SessionID i" "pb_LegID (binding_of i) = pi_LegID i"
  "pb_CarrierID (binding_of i) = pi_CarrierID i" "pb_Generation (binding_of i) = pi_Generation i"
  by (simp_all add: binding_of_def)

lemma StreamRTTMessage_eta:
  "\<lparr>rm_Kind = rm_Kind m,
    rm_Identity = \<lparr>pi_SessionID = pi_SessionID (rm_Identity m), pi_LegID = pi_LegID (rm_Identity m),
      pi_CarrierID = pi_CarrierID (rm_Identity m), pi_Generation = pi_Generation (rm_Identity m),
      pi_Direction = pi_Direction (rm_Identity m)\<rparr>, rm_Token = rm_Token m\<rparr> = m"
  by (cases m, cases "rm_Identity m") simp

lemma decode_encoded_rtt:
  assumes "length (pi_SessionID (rm_Identity m)) = 16" and "encodeStreamRTTMessage m key = Inr wire"
  shows "decodeStreamRTTMessage wire key (binding_of (rm_Identity m)) = Inr m"
proof -
  from assms(2) have v: "validateStreamRTTMessage m = None"
    and w: "wire = rttPrefix m @ streamRTTMessageMAC key (rttPrefix m)"
    by (auto simp: encodeStreamRTTMessage_def split: option.splits)
  note F = rttPrefix_fields [OF assms(1)]
  from v have "validateStreamPathBinding (binding_of (rm_Identity m)) = None"
    "rm_Kind m = 1 \<or> rm_Kind m = 2" "rm_Token m \<noteq> 0" "pi_Direction (rm_Identity m) = 1 \<or> pi_Direction (rm_Identity m) = 2"
    by (auto simp: validateStreamRTTMessage_def split: option.splits if_splits)
  then show ?thesis
    by (auto simp: decodeStreamRTTMessage_def w F Let_def StreamRTTMessageSize_def sha256_Size_def StreamRTTMessage_eta)
qed

lemma decode_rtt_InrD:
  assumes "decodeStreamRTTMessage wire key binding = Inr m"
  shows "encodeStreamRTTMessage m key = Inr wire \<and> binding_of (rm_Identity m) = binding"
proof -
  from assms have b: "validateStreamPathBinding binding = None" and len: "length wire = 68"
    and f: "slice_of 0 8 wire = streamRTTMessageMagic" "wire ! 8 = 1"
    and mac: "drop 36 wire = streamRTTMessageMAC key (take 36 wire)"
    and k: "wire ! 9 = 1 \<or> wire ! 9 = 2" "wire ! 10 = 1 \<or> wire ! 10 = 2" "wire ! 11 = pb_LegID binding"
      "slice_of 12 28 wire = pb_SessionID binding" "get_u64 (slice_of 28 36 wire) \<noteq> 0"
    and m: "m = \<lparr>rm_Kind = wire ! 9,
                  rm_Identity = \<lparr>pi_SessionID = pb_SessionID binding, pi_LegID = pb_LegID binding,
                    pi_CarrierID = pb_CarrierID binding, pi_Generation = pb_Generation binding, pi_Direction = wire ! 10\<rparr>,
                  rm_Token = get_u64 (slice_of 28 36 wire)\<rparr>"
    by (auto simp: decodeStreamRTTMessage_def Let_def StreamRTTMessageSize_def sha256_Size_def
        split: option.splits if_splits)
  have sl: "slice_of i j (take 36 wire) = slice_of i j wire" if "j \<le> 36" for i j
    using that by (simp add: slice_of_def drop_take min_def)
  have "rttPrefix m = take 36 wire"
    by (rule rttPrefix_assemble) (use len f k in \<open>simp_all add: sl m\<close>)
  moreover have "take 36 wire @ streamRTTMessageMAC key (take 36 wire) = wire"
    using mac by (metis append_take_drop_id)
  moreover have bm: "binding_of (rm_Identity m) = binding" by (simp add: m binding_of_def)
  moreover have "validateStreamRTTMessage m = None"
    unfolding validateStreamRTTMessage_def bm b using k by (auto simp: m)
  ultimately show ?thesis by (simp add: encodeStreamRTTMessage_def)
qed

subsection \<open>Drain messages\<close>

definition wf_drain :: "StreamDrainMessage \<Rightarrow> bool" where
  "wf_drain m \<longleftrightarrow> length (dm_SessionID m) = 16 \<and> length (dm_TargetBinding m) = 16 \<and> length (dm_OperationID m) = 16"

lemma length_drainPrefix: "wf_drain m \<Longrightarrow> length (drainPrefix m) = 97"
  by (simp add: drainPrefix_def wf_drain_def)

lemma drainPrefix_fields:
  assumes "wf_drain m"
  shows "slice_of 0 8 (drainPrefix m @ t) = streamDrainControlMagic" "(drainPrefix m @ t) ! 8 = 1"
    "(drainPrefix m @ t) ! 9 = dm_Kind m" "(drainPrefix m @ t) ! 10 = dm_SenderRole m" "(drainPrefix m @ t) ! 11 = 0"
    "slice_of 12 28 (drainPrefix m @ t) = dm_SessionID m" "(drainPrefix m @ t) ! 28 = dm_TargetLeg m"
    "get_u64 (slice_of 29 37 (drainPrefix m @ t)) = dm_Generation m"
    "slice_of 37 53 (drainPrefix m @ t) = dm_TargetBinding m" "slice_of 53 69 (drainPrefix m @ t) = dm_OperationID m"
    "get_u64 (slice_of 69 77 (drainPrefix m @ t)) = dm_Counter m" "get_u64 (slice_of 77 85 (drainPrefix m @ t)) = dm_AckedNext m"
    "get_u32 (slice_of 85 89 (drainPrefix m @ t)) = dm_OutstandingFrames m"
    "get_u64 (slice_of 89 97 (drainPrefix m @ t)) = dm_OutstandingBytes m"
  using assms by (simp_all add: drainPrefix_def wf_drain_def codec_simps)

definition drainFields :: "bytes \<Rightarrow> StreamDrainMessage" where
  "drainFields wire = \<lparr>dm_Kind = wire ! 9, dm_SenderRole = wire ! 10, dm_SessionID = slice_of 12 28 wire,
     dm_TargetLeg = wire ! 28, dm_Generation = get_u64 (slice_of 29 37 wire),
     dm_TargetBinding = slice_of 37 53 wire, dm_OperationID = slice_of 53 69 wire,
     dm_Counter = get_u64 (slice_of 69 77 wire), dm_AckedNext = get_u64 (slice_of 77 85 wire),
     dm_OutstandingFrames = get_u32 (slice_of 85 89 wire), dm_OutstandingBytes = get_u64 (slice_of 89 97 wire)\<rparr>"

lemma drainFields_prefix: "wf_drain m \<Longrightarrow> drainFields (drainPrefix m @ t) = m"
  by (simp add: drainFields_def drainPrefix_fields)

lemma drainPrefix_assemble:
  assumes "length wire = 129" and "slice_of 0 8 wire = streamDrainControlMagic" and "wire ! 8 = 1" and "wire ! 11 = 0"
  shows "drainPrefix (drainFields wire) = take 97 wire"
proof -
  have "drainPrefix (drainFields wire)
    = slice_of 0 8 wire @ [wire ! 8] @ [wire ! 9] @ [wire ! 10] @ [wire ! 11] @ slice_of 12 28 wire @ [wire ! 28]
      @ slice_of 29 37 wire @ slice_of 37 53 wire @ slice_of 53 69 wire @ slice_of 69 77 wire @ slice_of 77 85 wire
      @ slice_of 85 89 wire @ slice_of 89 97 wire"
    using assms by (simp add: drainPrefix_def drainFields_def get_put_u64 get_put_u32)
  also have "\<dots> = slice_of 0 97 wire" using assms(1) by (simp add: reassemble del: One_nat_def)
  finally show ?thesis by (simp add: slice_of_def)
qed

lemma DecodeDrainMessage_alt:
  "DecodeDrainMessage a wire role =
     (if \<not> CoordinatedDrainEnabled a \<or> length wire \<noteq> 129 \<or> slice_of 0 8 wire \<noteq> streamDrainControlMagic
         \<or> wire ! 8 \<noteq> 1 \<or> wire ! 11 \<noteq> 0 then Inl ErrStreamDrainMessage
      else if drop 97 wire \<noteq> streamDrainMessageMAC (drainKey a) (take 97 wire) then Inl errInvalidAuthentication
      else if dm_SessionID (drainFields wire) \<noteq> sessionID a \<or> dm_SenderRole (drainFields wire) \<noteq> role
         \<or> \<not> validStreamDrainMessage (drainFields wire) then Inl ErrStreamDrainMessage
      else Inr (drainFields wire))"
  unfolding DecodeDrainMessage_def drainFields_def Let_def
  by (simp add: StreamDrainControlMessageSize_def sha256_Size_def)

section \<open>Properties\<close>

text \<open>C6: both ends of a READY derive the same secrets. When the server's READY write succeeds with
  a path auth, the client that sent the HELLO and knows the password accepts exactly those bytes,
  learns the selected capabilities and the server nonce, and derives the identical auth: session, leg,
  probe key, drain key and carrier binding.\<close>

theorem ready_agreement:
  assumes "wf_Hello hello" and "length nonce = 16"
    and "writeStreamReadyV2WithNonce w hello selected nonce password = (Inr auth, w')"
  shows "\<exists>wire ready. written w' = written w @ wire
    \<and> ReadStreamReadyV2 \<lparr>avail = wire @ rest, atEnd = e\<rparr> hello password = Inr ((ready, auth), \<lparr>avail = rest, atEnd = e\<rparr>)
    \<and> rd_Capabilities ready = selected \<and> rd_ServerNonce ready = nonce"
proof -
  let ?ready = "\<lparr>rd_SessionID = h_SessionID hello, rd_LegID = h_LegID hello, rd_Mode = h_Mode hello,
                 rd_Capabilities = selected, rd_ServerNonce = nonce\<rparr>"
  from assms(3) obtain wire where E: "EncodeStreamReadyV2 hello selected nonce password = Inr wire"
    and W: "writeProtocolFull w wire = (None, w')" and M: "makeStreamPathAuth hello ?ready password = Inr auth"
    by (auto simp: writeStreamReadyV2WithNonce_def split: sum.splits prod.splits option.splits)
  from writeProtocolFull_written [OF W] have "written w' = written w @ wire" by auto
  with read_encoded_ready [OF assms(1,2) E refl M, of rest e] show ?thesis by auto
qed

definition ready_hello :: Hello where
  "ready_hello = \<lparr>h_Version = Version7, h_SessionID = replicate 16 7, h_LegID = 1, h_Mode = ModeStream,
     h_Timestamp = 0, h_Nonce = replicate 16 9, h_Capabilities = 3, h_Destination = [97]\<rparr>"

lemma ready_hello_written:
  "writeStreamReadyV2WithNonce \<lparr>written = [], script = []\<rparr> ready_hello 3 (replicate 16 5) [1]
     = (Inr (projr (fst (writeStreamReadyV2WithNonce \<lparr>written = [], script = []\<rparr> ready_hello 3 (replicate 16 5) [1]))),
        snd (writeStreamReadyV2WithNonce \<lparr>written = [], script = []\<rparr> ready_hello 3 (replicate 16 5) [1]))"
  by (simp add: writeStreamReadyV2WithNonce_def EncodeStreamReadyV2_def validateStreamReadyHello_def ready_hello_def
      validSelectedStreamCapabilities_def writeProtocolFull_def writeLoop_silent makeStreamPathAuth_def
      deriveStreamPathProbeKey_def validateStreamPathHello_def Let_def)

theorem ready_agreement_witness:
  "\<exists>wire ready auth. ReadStreamReadyV2 \<lparr>avail = wire, atEnd = EOF\<rparr> ready_hello [1]
     = Inr ((ready, auth), \<lparr>avail = [], atEnd = EOF\<rparr>) \<and> rd_Capabilities ready = 3"
proof -
  have "wf_Hello ready_hello" by (simp add: wf_Hello_def ready_hello_def)
  from ready_agreement [OF this _ ready_hello_written, of "[]" EOF] show ?thesis by auto
qed

text \<open>the client accepts nothing but the server's canonical READY for its own HELLO: an accepted
  READY is byte for byte the encoding of the capabilities and nonce that were read, those capabilities
  were offered in the HELLO, and the auth is the one the server derives from them.\<close>

theorem ready_canonical:
  assumes "ReadStreamReadyV2 r hello password = Inr ((ready, auth), r')"
  shows "\<exists>wire. avail r = wire @ avail r'
    \<and> EncodeStreamReadyV2 hello (rd_Capabilities ready) (rd_ServerNonce ready) password = Inr wire
    \<and> rd_Capabilities ready AND NOT (h_Capabilities hello) = 0
    \<and> (authenticated auth \<longleftrightarrow> rd_Capabilities ready \<noteq> 0)
    \<and> (\<forall>w. script w = [] \<longrightarrow>
         fst (writeStreamReadyV2WithNonce w hello (rd_Capabilities ready) (rd_ServerNonce ready) password) = Inr auth)"
proof -
  from ReadStreamReadyV2_InrD [OF assms] obtain wire where W: "avail r = wire @ avail r'"
    "EncodeStreamReadyV2 hello (rd_Capabilities ready) (rd_ServerNonce ready) password = Inr wire"
    and M: "makeStreamPathAuth hello ready password = Inr auth"
    and C: "validSelectedStreamCapabilities hello (rd_Capabilities ready)"
    and R: "ready = \<lparr>rd_SessionID = h_SessionID hello, rd_LegID = h_LegID hello, rd_Mode = h_Mode hello,
                rd_Capabilities = rd_Capabilities ready, rd_ServerNonce = rd_ServerNonce ready\<rparr>" by blast
  have "fst (writeStreamReadyV2WithNonce w hello (rd_Capabilities ready) (rd_ServerNonce ready) password) = Inr auth"
    if "script w = []" for w
    using that W(2) M R by (simp add: writeStreamReadyV2WithNonce_def writeProtocolFull_def writeLoop_silent)
  moreover have "authenticated auth \<longleftrightarrow> rd_Capabilities ready \<noteq> 0"
    using M by (auto simp: makeStreamPathAuth_def noAuth_def Let_def split: if_splits sum.splits)
  moreover have "rd_Capabilities ready AND NOT (h_Capabilities hello) = 0"
    using C by (simp add: validSelectedStreamCapabilities_def split: if_splits)
  ultimately show ?thesis using W by blast
qed

theorem ready_canonical_witness:
  "\<exists>r ready auth r'. ReadStreamReadyV2 r ready_hello [1] = Inr ((ready, auth), r') \<and> authenticated auth"
proof -
  have wf: "wf_Hello ready_hello" by (simp add: wf_Hello_def ready_hello_def)
  let ?ready = "\<lparr>rd_SessionID = h_SessionID ready_hello, rd_LegID = h_LegID ready_hello, rd_Mode = h_Mode ready_hello,
                 rd_Capabilities = 3, rd_ServerNonce = replicate 16 5\<rparr>"
  obtain wire auth where E: "EncodeStreamReadyV2 ready_hello 3 (replicate 16 5) [1] = Inr wire"
    and M: "makeStreamPathAuth ready_hello ?ready [1] = Inr auth"
    by (simp add: EncodeStreamReadyV2_def validateStreamReadyHello_def ready_hello_def validSelectedStreamCapabilities_def
        makeStreamPathAuth_def deriveStreamPathProbeKey_def validateStreamPathHello_def Let_def)
  from read_encoded_ready [OF wf _ E refl M, of "[]" EOF] ready_canonical [OF read_encoded_ready [OF wf _ E refl M, of "[]" EOF]]
  show ?thesis by auto
qed

text \<open>An authenticated RTT message is read back by the holder of the same key bound to the same
  carrier, and conversely every accepted message is the canonical encoding of what was read, bound to
  the local carrier's session, leg, carrier id and generation.\<close>

theorem rtt_message_roundtrip:
  assumes "length (pi_SessionID (rm_Identity m)) = 16"
  shows "encodeStreamRTTMessage m key = Inr wire
    \<longleftrightarrow> decodeStreamRTTMessage wire key (binding_of (rm_Identity m)) = Inr m"
  using decode_encoded_rtt [OF assms] decode_rtt_InrD by blast

definition example_message :: StreamRTTMessage where
  "example_message = \<lparr>rm_Kind = StreamRTTProbe,
     rm_Identity = \<lparr>pi_SessionID = replicate 16 7, pi_LegID = 1, pi_CarrierID = [99], pi_Generation = 4,
                    pi_Direction = StreamRTTClientToServer\<rparr>, rm_Token = 11\<rparr>"

theorem rtt_message_roundtrip_witness:
  "\<exists>wire. decodeStreamRTTMessage wire (replicate 32 1) (binding_of (rm_Identity example_message)) = Inr example_message"
proof -
  obtain wire where "encodeStreamRTTMessage example_message (replicate 32 1) = Inr wire"
    by (simp add: encodeStreamRTTMessage_def validateStreamRTTMessage_def validateStreamPathBinding_def example_message_def)
  with rtt_message_roundtrip [of example_message "replicate 32 1" wire] show ?thesis by (auto simp: example_message_def)
qed

text \<open>A drain control message survives the wire between ends that share the drain key and
  session, and an accepted one is the canonical encoding of a valid message of the expected peer role,
  so no READY, COMMIT or COMMIT-ACK that still claims outstanding data is ever accepted.\<close>

theorem drain_message_roundtrip:
  assumes "wf_drain m"
  shows "EncodeDrainMessage a m = Inr wire \<longleftrightarrow> DecodeDrainMessage a wire (dm_SenderRole m) = Inr m"
proof
  assume "EncodeDrainMessage a m = Inr wire"
  then have e: "CoordinatedDrainEnabled a" "dm_SessionID m = sessionID a" "validStreamDrainMessage m"
    and w: "wire = drainPrefix m @ streamDrainMessageMAC (drainKey a) (drainPrefix m)"
    by (auto simp: EncodeDrainMessage_def split: if_splits)
  have len: "length (drainPrefix m) = 97" by (rule length_drainPrefix [OF assms])
  show "DecodeDrainMessage a wire (dm_SenderRole m) = Inr m"
    using e len by (simp add: DecodeDrainMessage_alt w drainPrefix_fields [OF assms] drainFields_prefix [OF assms])
next
  assume "DecodeDrainMessage a wire (dm_SenderRole m) = Inr m"
  then have c: "CoordinatedDrainEnabled a" "dm_SessionID m = sessionID a" "validStreamDrainMessage m"
    and f: "length wire = 129" "slice_of 0 8 wire = streamDrainControlMagic" "wire ! 8 = 1" "wire ! 11 = 0"
    and mac: "drop 97 wire = streamDrainMessageMAC (drainKey a) (take 97 wire)" and m: "m = drainFields wire"
    by (auto simp: DecodeDrainMessage_alt split: if_splits)
  have "drainPrefix m = take 97 wire" unfolding m by (rule drainPrefix_assemble [OF f])
  moreover have "take 97 wire @ streamDrainMessageMAC (drainKey a) (take 97 wire) = wire"
    using mac by (metis append_take_drop_id)
  ultimately show "EncodeDrainMessage a m = Inr wire" using c by (simp add: EncodeDrainMessage_def)
qed

definition example_auth :: StreamPathAuth where
  "example_auth = noAuth\<lparr>sessionID := replicate 16 7, capabilities := 2, authenticated := True\<rparr>"

definition example_drain :: StreamDrainMessage where
  "example_drain = \<lparr>dm_Kind = StreamDrainIntent, dm_SenderRole = StreamPathRoleClient, dm_SessionID = replicate 16 7,
     dm_TargetLeg = 1, dm_Generation = 3, dm_TargetBinding = replicate 16 8, dm_OperationID = replicate 16 9,
     dm_Counter = 1, dm_AckedNext = 12, dm_OutstandingFrames = 2, dm_OutstandingBytes = 900\<rparr>"

theorem drain_message_roundtrip_witness:
  "\<exists>wire. DecodeDrainMessage example_auth wire StreamPathRoleClient = Inr example_drain"
proof -
  have wf: "wf_drain example_drain" by (simp add: wf_drain_def example_drain_def)
  obtain wire where "EncodeDrainMessage example_auth example_drain = Inr wire"
    by (simp add: EncodeDrainMessage_def CoordinatedDrainEnabled_def validStreamDrainMessage_def example_auth_def
        example_drain_def)
  with drain_message_roundtrip [OF wf] show ?thesis by (auto simp: example_drain_def)
qed

end
