(* ===== verification/RTT_Cache.thy ===== *)
theory RTT_Cache
  imports Path_Protocol "HOL-Library.Multiset"
begin

unbundle bit_operations_syntax

text \<open>
  The per-session RTT probe cache of \<open>core/stream_rtt_probe_cache.go\<close>: binding of authenticated
  carriers to generations, probe tokens, replay protection, and the feedback snapshot that the
  scheduler reads. \<open>time.Now()\<close> is an argument. \<open>acceptProbe\<close> and \<open>acceptEchoAt\<close> release the lock
  while they authenticate the message, so they take the state of their first and the state of their
  second critical section.
\<close>

definition StreamRTTProbePendingLimit :: nat where "StreamRTTProbePendingLimit = 8"
definition StreamRTTSampleWindow :: duration where "StreamRTTSampleWindow = 30 * Second"
definition streamRTTMaxSamples :: nat where "streamRTTMaxSamples = 5"

record StreamPathFeedback =
  fb_Identity :: StreamPathIdentity
  fb_RTT :: duration
  fb_Samples :: u32
  fb_ObservedAt :: gotime

record streamRTTPending =
  pd_identity :: StreamPathIdentity
  pd_started :: gotime

record streamRTTSample =
  sm_rtt :: duration
  sm_at :: gotime

record streamRTTPublished =
  pub_identity :: StreamPathIdentity
  pub_samples :: "streamRTTSample list"

text \<open>A feedback read loads the active view, the published snapshot and the view again; a rebind between
  the loads makes it answer "no feedback", so a successful read is a read of one state.
  The arrays indexed by leg are lists of \<open>c_maxLegs\<close> entries; those indexed by leg and direction
  are lists of two-entry lists.\<close>

record streamRTTProbeCache =
  c_maxLegs :: nat
  c_closed :: bool
  c_highWater :: "u64 list"
  c_active :: "bool list"
  c_binding :: "StreamPathBinding list"
  c_probeKey :: "bytes list"
  c_lastPeerToken :: "u64 list list"
  c_nextToken :: u64
  c_pending :: "(u64, streamRTTPending) gomap"
  c_samples :: "streamRTTSample list list list"
  c_activeView :: "StreamPathBinding option list"
  c_feedback :: "streamRTTPublished option list list"

definition noBinding :: StreamPathBinding where
  "noBinding = \<lparr>pb_SessionID = replicate 16 0, pb_LegID = 0, pb_CarrierID = [], pb_Generation = 0\<rparr>"

definition newStreamRTTProbeCacheForLegs :: "int \<Rightarrow> streamRTTProbeCache" where
  "newStreamRTTProbeCacheForLegs maxLegs =
     (let n = (if maxLegs < 1 \<or> maxLegs > int MaxStreamLegIDCount then 2 else nat maxLegs)
      in \<lparr>c_maxLegs = n, c_closed = False, c_highWater = replicate n 0, c_active = replicate n False,
          c_binding = replicate n noBinding, c_probeKey = replicate n (replicate 32 0),
          c_lastPeerToken = replicate n [0, 0], c_nextToken = 0, c_pending = [],
          c_samples = replicate n [[], []], c_activeView = replicate n None,
          c_feedback = replicate n [None, None]\<rparr>)"

definition validStreamRTTDirection :: "StreamRTTDirection \<Rightarrow> bool" where
  "validStreamRTTDirection d \<longleftrightarrow> d = StreamRTTClientToServer \<or> d = StreamRTTServerToClient"

abbreviation dirIndex :: "StreamRTTDirection \<Rightarrow> nat" where "dirIndex d \<equiv> unat (d - 1)"

definition expirePendingLocked :: "gotime \<Rightarrow> streamRTTProbeCache \<Rightarrow> nat \<times> streamRTTProbeCache" where
  "expirePendingLocked now c =
     (let expired = (\<lambda>(t, p). \<not> now < pd_started p \<and> Sub now (pd_started p) \<ge> StreamRTTProbeTimeout)
      in (length (filter expired (c_pending c)), c\<lparr>c_pending := filter (\<lambda>e. \<not> expired e) (c_pending c)\<rparr>))"

definition expirePending :: "gotime \<Rightarrow> streamRTTProbeCache \<Rightarrow> nat \<times> streamRTTProbeCache" where
  "expirePending now c = expirePendingLocked now c"

definition clearLegLocked :: "nat \<Rightarrow> streamRTTProbeCache \<Rightarrow> streamRTTProbeCache" where
  "clearLegLocked leg c =
     c\<lparr>c_pending := filter (\<lambda>(t, p). unat (pi_LegID (pd_identity p)) \<noteq> leg) (c_pending c),
       c_active := (c_active c)[leg := False], c_binding := (c_binding c)[leg := noBinding],
       c_probeKey := (c_probeKey c)[leg := replicate 32 0],
       c_lastPeerToken := (c_lastPeerToken c)[leg := [0, 0]],
       c_samples := (c_samples c)[leg := [[], []]], c_feedback := (c_feedback c)[leg := [None, None]]\<rparr>"

definition bindLeg ::
  "StreamPathBinding \<Rightarrow> StreamPathAuth \<Rightarrow> streamRTTProbeCache \<Rightarrow> smp3_error option \<times> streamRTTProbeCache" where
  "bindLeg binding auth c =
     (case validateStreamPathBinding binding of
        Some err \<Rightarrow> (Some err, c)
      | None \<Rightarrow>
          let leg = unat (pb_LegID binding)
          in if leg \<ge> c_maxLegs c then (Some ErrStreamPathMessage, c)
             else if \<not> validFor auth binding then (Some ErrStreamPathNegotiation, c)
             else if c_closed c then (Some ErrStreamRTTCacheClosed, c)
             else if pb_Generation binding < c_highWater c ! leg then (Some ErrStreamRTTStaleGeneration, c)
             else if pb_Generation binding = c_highWater c ! leg then
               (if c_active c ! leg \<and> c_binding c ! leg = binding \<and> c_probeKey c ! leg = probeKey auth
                then (None, c) else (Some ErrStreamRTTGenerationReuse, c))
             else let c1 = clearLegLocked leg c
                  in (None, c1\<lparr>c_highWater := (c_highWater c1)[leg := pb_Generation binding],
                               c_binding := (c_binding c1)[leg := binding],
                               c_probeKey := (c_probeKey c1)[leg := probeKey auth],
                               c_active := (c_active c1)[leg := True],
                               c_activeView := (c_activeView c1)[leg := Some binding]\<rparr>))"

text \<open>The insertion sorts of the source move an element left past every greater one.\<close>

definition insertRight :: "('a \<Rightarrow> int) \<Rightarrow> 'a \<Rightarrow> 'a list \<Rightarrow> 'a list" where
  "insertRight key v acc =
     rev (dropWhile (\<lambda>x. key x > key v) (rev acc)) @ [v] @ rev (takeWhile (\<lambda>x. key x > key v) (rev acc))"

definition insertionSort :: "('a \<Rightarrow> int) \<Rightarrow> 'a list \<Rightarrow> 'a list" where
  "insertionSort key xs = fold (insertRight key) xs []"

text \<open>The new sample window: what the newest observation still covers, sorted by time, last five.\<close>

definition recentSamples :: "duration \<Rightarrow> gotime \<Rightarrow> streamRTTSample list \<Rightarrow> streamRTTSample list" where
  "recentSamples rtt now current =
     (let windowEnd = fold (\<lambda>s e. if sm_at s > e then sm_at s else e) current now;
          kept = filter (\<lambda>s. let age = Sub windowEnd (sm_at s) in age \<ge> 0 \<and> age \<le> StreamRTTSampleWindow) current;
          recent = (if Sub windowEnd now \<le> StreamRTTSampleWindow
                    then kept @ [\<lparr>sm_rtt = rtt, sm_at = now\<rparr>] else kept);
          ordered = insertionSort sm_at recent
      in if length ordered > streamRTTMaxSamples
         then drop (length ordered - streamRTTMaxSamples) ordered else ordered)"

definition recordSampleLocked ::
  "StreamPathIdentity \<Rightarrow> duration \<Rightarrow> gotime \<Rightarrow> streamRTTProbeCache \<Rightarrow> streamRTTProbeCache" where
  "recordSampleLocked identity rtt now c =
     (let leg = unat (pi_LegID identity); d = dirIndex (pi_Direction identity)
      in if leg \<ge> c_maxLegs c then c
         else let recent = recentSamples rtt now (c_samples c ! leg ! d)
              in c\<lparr>c_samples := (c_samples c)[leg := (c_samples c ! leg)[d := recent]],
                   c_feedback := (c_feedback c)[leg := (c_feedback c ! leg)[d :=
                      Some \<lparr>pub_identity = identity, pub_samples = recent\<rparr>]]\<rparr>)"

definition recordHandshakeSample ::
  "StreamPathBinding \<Rightarrow> StreamPathIdentity \<Rightarrow> StreamPathAuth \<Rightarrow> gotime \<Rightarrow> streamRTTProbeCache \<Rightarrow> bool \<times> streamRTTProbeCache" where
  "recordHandshakeSample binding identity auth now c =
     (let rtt = handshakeRTT auth; observedAt = handshakeAt auth; leg = unat (pb_LegID binding)
      in if leg \<ge> c_maxLegs c \<or> pi_Direction identity \<noteq> StreamRTTClientToServer \<or> rtt \<le> 0
            \<or> rtt \<ge> StreamRTTProbeTimeout \<or> IsZero observedAt \<or> \<not> validFor auth binding
            \<or> binding_of identity \<noteq> binding then (False, c)
         else if c_closed c \<or> \<not> c_active c ! leg \<or> c_binding c ! leg \<noteq> binding then (False, c)
         else let age = Sub now observedAt
              in if age < 0 \<or> age > StreamRTTSampleWindow then (False, c)
                 else (True, recordSampleLocked identity rtt observedAt c))"

definition invalidateLeg :: "StreamPathBinding \<Rightarrow> streamRTTProbeCache \<Rightarrow> bool \<times> streamRTTProbeCache" where
  "invalidateLeg binding c =
     (let leg = unat (pb_LegID binding)
      in if leg \<ge> c_maxLegs c then (False, c)
         else if c_closed c \<or> \<not> c_active c ! leg \<or> c_binding c ! leg \<noteq> binding then (False, c)
         else (True, clearLegLocked leg (c\<lparr>c_activeView := (c_activeView c)[leg := None]\<rparr>)))"

definition pendingForLeg :: "LegID \<Rightarrow> streamRTTProbeCache \<Rightarrow> nat" where
  "pendingForLeg leg c =
     fold (\<lambda>(t, p) n. if pi_LegID (pd_identity p) = leg then n + 1 else n) (c_pending c) 0"

definition startProbeAt ::
  "StreamPathIdentity \<Rightarrow> gotime \<Rightarrow> streamRTTProbeCache \<Rightarrow> (smp3_error + u64 \<times> bytes) \<times> streamRTTProbeCache" where
  "startProbeAt identity now c =
     (let leg = unat (pi_LegID identity)
      in if \<not> validStreamRTTDirection (pi_Direction identity) \<or> leg \<ge> c_maxLegs c then (Inl ErrStreamPathMessage, c)
         else if c_closed c then (Inl ErrStreamRTTCacheClosed, c)
         else if \<not> c_active c ! leg \<or> c_binding c ! leg \<noteq> binding_of identity
         then (Inl ErrStreamRTTStaleGeneration, c)
         else let c1 = snd (expirePendingLocked now c)
              in if pendingForLeg (pi_LegID identity) c1 \<ge> StreamRTTProbePendingLimit then (Inl ErrStreamRTTPendingFull, c1)
                 else if c_nextToken c1 = -1 then (Inl ErrStreamRTTTokenExhausted, c1)
                 else let token = c_nextToken c1 + 1
                      in case encodeStreamRTTMessage
                                \<lparr>rm_Kind = StreamRTTProbe, rm_Identity = identity, rm_Token = token\<rparr> (c_probeKey c1 ! leg) of
                           Inl err \<Rightarrow> (Inl err, c1)
                         | Inr wire \<Rightarrow>
                             (Inr (token, wire),
                              c1\<lparr>c_nextToken := token,
                                 c_pending := mput token \<lparr>pd_identity = identity, pd_started = now\<rparr> (c_pending c1)\<rparr>))"

definition cancelProbe :: "StreamPathIdentity \<Rightarrow> u64 \<Rightarrow> streamRTTProbeCache \<Rightarrow> bool \<times> streamRTTProbeCache" where
  "cancelProbe identity token c =
     (if unat (pi_LegID identity) \<ge> c_maxLegs c \<or> token = 0 then (False, c)
      else case mget (c_pending c) token of
        None \<Rightarrow> (False, c)
      | Some p \<Rightarrow> if pd_identity p \<noteq> identity then (False, c)
                  else (True, c\<lparr>c_pending := mdel token (c_pending c)\<rparr>))"

text \<open>The check of the first critical section, repeated in the second.\<close>

definition bound :: "nat \<Rightarrow> StreamPathBinding \<Rightarrow> streamRTTProbeCache \<Rightarrow> bool" where
  "bound leg binding c \<longleftrightarrow> \<not> (c_closed c \<or> \<not> c_active c ! leg \<or> c_binding c ! leg \<noteq> binding)"

definition acceptProbe ::
  "StreamPathBinding \<Rightarrow> StreamRTTDirection \<Rightarrow> bytes \<Rightarrow> streamRTTProbeCache \<Rightarrow> streamRTTProbeCache
     \<Rightarrow> (smp3_error + bytes) \<times> streamRTTProbeCache" where
  "acceptProbe binding expectedDirection wire c0 c1 =
     (let leg = unat (pb_LegID binding)
      in if leg \<ge> c_maxLegs c0 \<or> \<not> validStreamRTTDirection expectedDirection then (Inl ErrStreamPathMessage, c1)
         else if \<not> bound leg binding c0 then (Inl ErrStreamRTTStaleGeneration, c1)
         else case decodeStreamRTTMessage wire (c_probeKey c0 ! leg) binding of
           Inl err \<Rightarrow> (Inl err, c1)
         | Inr message \<Rightarrow>
             if rm_Kind message \<noteq> StreamRTTProbe \<or> pi_Direction (rm_Identity message) \<noteq> expectedDirection
             then (Inl ErrStreamPathMessage, c1)
             else if \<not> bound leg binding c1 then (Inl ErrStreamRTTStaleGeneration, c1)
             else let d = dirIndex (pi_Direction (rm_Identity message))
                  in if rm_Token message \<le> c_lastPeerToken c1 ! leg ! d then (Inl ErrStreamRTTReplay, c1)
                     else case encodeStreamRTTMessage (message\<lparr>rm_Kind := StreamRTTEcho\<rparr>) (c_probeKey c1 ! leg) of
                            Inl err \<Rightarrow> (Inl err, c1)
                          | Inr echo \<Rightarrow>
                              (Inr echo,
                               c1\<lparr>c_lastPeerToken := (c_lastPeerToken c1)[leg := (c_lastPeerToken c1 ! leg)[d := rm_Token message]]\<rparr>))"

definition acceptEchoAt ::
  "StreamPathIdentity \<Rightarrow> bytes \<Rightarrow> gotime \<Rightarrow> streamRTTProbeCache \<Rightarrow> streamRTTProbeCache
     \<Rightarrow> smp3_error option \<times> streamRTTProbeCache" where
  "acceptEchoAt identity wire now c0 c1 =
     (let leg = unat (pi_LegID identity)
      in if leg \<ge> c_maxLegs c0 \<or> \<not> validStreamRTTDirection (pi_Direction identity) then (Some ErrStreamPathMessage, c1)
         else if \<not> bound leg (binding_of identity) c0 then (Some ErrStreamRTTStaleGeneration, c1)
         else case decodeStreamRTTMessage wire (c_probeKey c0 ! leg) (binding_of identity) of
           Inl err \<Rightarrow> (Some err, c1)
         | Inr message \<Rightarrow>
             if rm_Kind message \<noteq> StreamRTTEcho \<or> pi_Direction (rm_Identity message) \<noteq> pi_Direction identity
             then (Some ErrStreamPathMessage, c1)
             else if \<not> bound leg (binding_of identity) c1 then (Some ErrStreamRTTStaleGeneration, c1)
             else case mget (c_pending c1) (rm_Token message) of
                    None \<Rightarrow> (Some ErrStreamRTTNoPending, c1)
                  | Some p \<Rightarrow>
                      if pd_identity p \<noteq> identity then (Some ErrStreamRTTNoPending, c1)
                      else let c2 = c1\<lparr>c_pending := mdel (rm_Token message) (c_pending c1)\<rparr>;
                               rtt = Sub now (pd_started p)
                           in if now < pd_started p \<or> rtt \<ge> StreamRTTProbeTimeout then (Some ErrStreamRTTProbeExpired, c2)
                              else if rtt \<le> 0 then (None, c2)
                              else (None, recordSampleLocked identity rtt now c2))"

definition median :: "int list \<Rightarrow> int" where
  "median xs =
     (let n = length xs
      in if n mod 2 = 0 then xs ! (n div 2 - 1) + (xs ! (n div 2) - xs ! (n div 2 - 1)) div 2 else xs ! (n div 2))"

definition pathFeedbackAt :: "StreamPathIdentity \<Rightarrow> gotime \<Rightarrow> streamRTTProbeCache \<Rightarrow> StreamPathFeedback option" where
  "pathFeedbackAt identity now c =
     (let leg = unat (pi_LegID identity)
      in if leg \<ge> c_maxLegs c \<or> \<not> validStreamRTTDirection (pi_Direction identity) then None
         else if c_activeView c ! leg \<noteq> Some (binding_of identity) then None
         else case c_feedback c ! leg ! dirIndex (pi_Direction identity) of
           None \<Rightarrow> None
         | Some snapshot \<Rightarrow>
             if pub_identity snapshot \<noteq> identity then None
             else let fresh = filter (\<lambda>s. let age = Sub now (sm_at s) in \<not> (age < 0 \<or> age > StreamRTTSampleWindow))
                                (pub_samples snapshot);
                      newest = fold (\<lambda>s n. if sm_at s > n then sm_at s else n) fresh 0
                  in if fresh = [] then None
                     else Some \<lparr>fb_Identity = identity,
                                fb_RTT = median (insertionSort (\<lambda>x. x) (map sm_rtt fresh)),
                                fb_Samples = of_nat (length fresh), fb_ObservedAt = newest\<rparr>)"

definition close_cache :: "streamRTTProbeCache \<Rightarrow> streamRTTProbeCache" where
  "close_cache c =
     (if c_closed c then c
      else (fold (\<lambda>leg c. clearLegLocked leg (c\<lparr>c_activeView := (c_activeView c)[leg := None]\<rparr>))
              [0..<length (c_active c)] (c\<lparr>c_closed := True\<rparr>))\<lparr>c_pending := []\<rparr>)"


section \<open>Monotone registries\<close>

text \<open>The contract shared by components that keep a high-water mark so that an identity once passed
  is never admitted again: every step keeps the invariant and never lowers the mark.\<close>

locale high_water = invariant_run inv step
  for inv :: "'s \<Rightarrow> bool" and step :: "'s \<Rightarrow> 's \<Rightarrow> bool" +
  fixes mark :: "'k \<Rightarrow> 's \<Rightarrow> u64"
  assumes step_mark: "inv s \<Longrightarrow> step s t \<Longrightarrow> mark k s \<le> mark k t"
begin

lemma run_mark: "step\<^sup>*\<^sup>* s t \<Longrightarrow> inv s \<Longrightarrow> mark k s \<le> mark k t"
proof (induction rule: rtranclp_induct)
  case (step t u)
  then show ?case using run_inv step_mark by (blast intro: order_trans)
qed simp

end

section \<open>Sorting and the median\<close>

lemma mset_insertRight [simp]: "mset (insertRight key v acc) = add_mset v (mset acc)"
proof -
  have "mset (dropWhile P xs) + mset (takeWhile P xs) = mset xs" for P and xs :: "'a list"
    by (metis mset_append takeWhile_dropWhile_id union_commute)
  then show ?thesis by (simp add: insertRight_def)
qed

lemma sorted_insertRight:
  assumes "sorted (map key acc)"
  shows "sorted (map key (insertRight key v acc))"
proof -
  let ?P = "\<lambda>x. key x > key v"
  let ?a = "rev (dropWhile ?P (rev acc))" and ?b = "rev (takeWhile ?P (rev acc))"
  have split: "acc = ?a @ ?b" by (metis rev_append rev_rev_ident takeWhile_dropWhile_id)
  have "sorted (map key (?a @ ?b))" using assms split by simp
  then have s: "sorted (map key ?a)" "sorted (map key ?b)" and ab: "\<forall>x \<in> set ?a. \<forall>y \<in> set ?b. key x \<le> key y"
    unfolding map_append sorted_append set_map by auto
  have b: "\<forall>y \<in> set ?b. key v \<le> key y" by (auto dest: set_takeWhileD)
  have a: "\<forall>x \<in> set ?a. key x \<le> key v"
  proof (cases "dropWhile ?P (rev acc)")
    case (Cons x xs)
    then have "key x \<le> key v" by (simp add: dropWhile_eq_Cons_conv)
    moreover have "\<forall>y \<in> set ?a. key y \<le> key x" using s(1) unfolding Cons by (simp add: sorted_append)
    ultimately show ?thesis by (meson order_trans)
  next
    case Nil
    show ?thesis unfolding Nil by simp
  qed
  have "sorted (map key ?a @ [key v] @ map key ?b)"
    unfolding sorted_append set_append set_map using s a b ab by auto
  then show ?thesis unfolding insertRight_def by (simp only: map_append list.map)
qed

lemma insertionSort_fold:
  "sorted (map key acc) \<Longrightarrow> sorted (map key (fold (insertRight key) xs acc))
    \<and> mset (fold (insertRight key) xs acc) = mset xs + mset acc"
  by (induction xs arbitrary: acc) (auto simp: sorted_insertRight)

lemma sorted_insertionSort: "sorted (map key (insertionSort key xs))"
  and mset_insertionSort [simp]: "mset (insertionSort key xs) = mset xs"
  using insertionSort_fold [of key "[]" xs] by (simp_all add: insertionSort_def)

lemma set_insertionSort [simp]: "set (insertionSort key xs) = set xs"
  and length_insertionSort [simp]: "length (insertionSort key xs) = length xs"
  by (metis mset_insertionSort set_mset_mset) (metis mset_insertionSort size_mset)

text \<open>The median of a sorted list lies between two of its elements.\<close>

lemma median_between:
  assumes "sorted xs" and "xs \<noteq> []"
  shows "\<exists>x \<in> set xs. \<exists>y \<in> set xs. x \<le> median xs \<and> median xs \<le> y"
proof (cases "even (length xs)")
  case True
  let ?n = "length xs div 2"
  have "length xs \<noteq> 0" "length xs \<noteq> 1" using assms(2) True by auto
  then have n: "0 < ?n" "?n < length xs" by linarith+
  then have "xs ! (?n - 1) \<le> xs ! ?n" using assms(1) by (simp add: sorted_nth_mono)
  moreover have "median xs = xs ! (?n - 1) + (xs ! ?n - xs ! (?n - 1)) div 2"
    using True by (simp add: median_def Let_def even_iff_mod_2_eq_zero)
  ultimately have "xs ! (?n - 1) \<le> median xs" "median xs \<le> xs ! ?n" by linarith+
  with n show ?thesis by (meson less_imp_diff_less nth_mem)
next
  case False
  then have "median xs = xs ! (length xs div 2)" by (simp add: median_def Let_def odd_iff_mod_2_eq_one)
  moreover have "length xs div 2 < length xs" using assms(2) by simp
  ultimately show ?thesis by (metis nth_mem order_refl)
qed

section \<open>The invariant\<close>

definition samples_ok :: "streamRTTSample list \<Rightarrow> bool" where
  "samples_ok xs \<longleftrightarrow> length xs \<le> streamRTTMaxSamples \<and> sorted (map sm_at xs)
     \<and> (\<forall>s \<in> set xs. 0 < sm_rtt s \<and> sm_rtt s < StreamRTTProbeTimeout)"

abbreviation leg_pending :: "nat \<Rightarrow> streamRTTProbeCache \<Rightarrow> (u64, streamRTTPending) gomap" where
  "leg_pending leg c \<equiv> filter (\<lambda>(t, p). unat (pi_LegID (pd_identity p)) = leg) (c_pending c)"

text \<open>What holds of each leg: the lock-free view is the active binding, an active binding carries the
  high-water generation, and feedback belongs to the active binding and publishes its samples.\<close>

definition leg_ok :: "nat \<Rightarrow> streamRTTProbeCache \<Rightarrow> bool" where
  "leg_ok leg c \<longleftrightarrow>
     length (c_lastPeerToken c ! leg) = 2 \<and> length (c_samples c ! leg) = 2 \<and> length (c_feedback c ! leg) = 2
     \<and> c_activeView c ! leg = (if c_active c ! leg then Some (c_binding c ! leg) else None)
     \<and> (c_active c ! leg \<longrightarrow> \<not> c_closed c \<and> unat (pb_LegID (c_binding c ! leg)) = leg
          \<and> pb_Generation (c_binding c ! leg) = c_highWater c ! leg)
     \<and> (\<forall>d < 2. samples_ok (c_samples c ! leg ! d)
          \<and> (\<forall>p. c_feedback c ! leg ! d = Some p \<longrightarrow> pub_samples p = c_samples c ! leg ! d))
     \<and> length (leg_pending leg c) \<le> StreamRTTProbePendingLimit"

definition pending_ok :: "streamRTTProbeCache \<Rightarrow> bool" where
  "pending_ok c \<longleftrightarrow> mwf (c_pending c) \<and> (\<forall>(t, p) \<in> set (c_pending c). t \<noteq> 0 \<and> t \<le> c_nextToken c
     \<and> unat (pi_LegID (pd_identity p)) < c_maxLegs c \<and> c_active c ! unat (pi_LegID (pd_identity p))
     \<and> binding_of (pd_identity p) = c_binding c ! unat (pi_LegID (pd_identity p))
     \<and> validStreamRTTDirection (pi_Direction (pd_identity p)))"

definition sized :: "streamRTTProbeCache \<Rightarrow> bool" where
  "sized c \<longleftrightarrow> length (c_highWater c) = c_maxLegs c \<and> length (c_active c) = c_maxLegs c
     \<and> length (c_binding c) = c_maxLegs c \<and> length (c_probeKey c) = c_maxLegs c
     \<and> length (c_lastPeerToken c) = c_maxLegs c \<and> length (c_samples c) = c_maxLegs c
     \<and> length (c_activeView c) = c_maxLegs c \<and> length (c_feedback c) = c_maxLegs c"

definition rtt_inv :: "streamRTTProbeCache \<Rightarrow> bool" where
  "rtt_inv c \<longleftrightarrow> sized c \<and> pending_ok c \<and> (\<forall>leg < c_maxLegs c. leg_ok leg c)"

lemma rtt_invI: "sized c \<Longrightarrow> pending_ok c \<Longrightarrow> (\<And>leg. leg < c_maxLegs c \<Longrightarrow> leg_ok leg c) \<Longrightarrow> rtt_inv c"
  by (simp add: rtt_inv_def)

lemma rtt_invD: "rtt_inv c \<Longrightarrow> sized c" "rtt_inv c \<Longrightarrow> pending_ok c" "rtt_inv c \<Longrightarrow> leg < c_maxLegs c \<Longrightarrow> leg_ok leg c"
  by (simp_all add: rtt_inv_def)

lemma samples_ok_Nil [simp]: "samples_ok []"
  by (simp add: samples_ok_def)

lemma less_2_cases_nat: "(d :: nat) < 2 \<Longrightarrow> d = 0 \<or> d = 1"
  by auto

lemma rtt_inv_new: "rtt_inv (newStreamRTTProbeCacheForLegs n)"
  by (auto simp: rtt_inv_def newStreamRTTProbeCacheForLegs_def Let_def sized_def pending_ok_def leg_ok_def
      dest!: less_2_cases_nat)

text \<open>Dropping pending probes keeps the invariant.\<close>

lemma rtt_inv_drop_pending:
  assumes "rtt_inv c"
  shows "rtt_inv (c\<lparr>c_pending := filter Q (c_pending c)\<rparr>)"
proof (rule rtt_invI)
  show "sized (c\<lparr>c_pending := filter Q (c_pending c)\<rparr>)" using rtt_invD(1) [OF assms] by (simp add: sized_def)
  show "pending_ok (c\<lparr>c_pending := filter Q (c_pending c)\<rparr>)"
    using rtt_invD(2) [OF assms] by (auto simp: pending_ok_def)
  fix leg assume "leg < c_maxLegs (c\<lparr>c_pending := filter Q (c_pending c)\<rparr>)"
  then have "leg_ok leg c" using rtt_invD(3) [OF assms] by simp
  moreover have "length (filter P (filter Q xs)) \<le> length (filter P xs)" for P and xs :: "(u64 \<times> streamRTTPending) list"
    by (induction xs) auto
  ultimately show "leg_ok leg (c\<lparr>c_pending := filter Q (c_pending c)\<rparr>)"
    unfolding leg_ok_def by (auto intro: order_trans)
qed

lemma mdel_filter: "mdel k m = filter (\<lambda>(t, p). t \<noteq> k) m"
  by (auto simp: AList.delete_eq intro!: filter_cong)

abbreviation cleared :: "nat \<Rightarrow> streamRTTProbeCache \<Rightarrow> streamRTTProbeCache" where
  "cleared leg c \<equiv> clearLegLocked leg (c\<lparr>c_activeView := (c_activeView c)[leg := None]\<rparr>)"

lemma rtt_inv_cleared:
  assumes "rtt_inv c"
  shows "rtt_inv (cleared leg c)"
proof (rule rtt_invI)
  show "sized (cleared leg c)" using rtt_invD(1) [OF assms] by (simp add: sized_def clearLegLocked_def)
  show "pending_ok (cleared leg c)"
    using rtt_invD(2) [OF assms] by (auto simp: pending_ok_def clearLegLocked_def)
  fix l assume l: "l < c_maxLegs (cleared leg c)"
  then have ok: "leg_ok l c" using rtt_invD(3) [OF assms] by (simp add: clearLegLocked_def)
  have F: "length (filter P (filter Q xs)) \<le> length (filter P xs)" for P Q and xs :: "(u64 \<times> streamRTTPending) list"
    by (induction xs) auto
  have len: "length (leg_pending l (cleared leg c)) \<le> StreamRTTProbePendingLimit"
    using ok F unfolding leg_ok_def clearLegLocked_def by (auto intro: order_trans)
  show "leg_ok l (cleared leg c)"
  proof (cases "l = leg")
    case True
    with l rtt_invD(1) [OF assms] have "leg < c_maxLegs c" "sized c" by (simp_all add: clearLegLocked_def)
    with True len show ?thesis
      unfolding leg_ok_def by (auto simp: clearLegLocked_def sized_def dest!: less_2_cases_nat)
  next
    case False
    with ok len show ?thesis unfolding leg_ok_def by (simp add: clearLegLocked_def)
  qed
qed

lemma rtt_inv_bindLeg:
  assumes "rtt_inv c"
  shows "rtt_inv (snd (bindLeg binding auth c))"
proof -
  let ?leg = "unat (pb_LegID binding)"
  let ?c = "cleared ?leg c"
  let ?b = "?c\<lparr>c_highWater := (c_highWater ?c)[?leg := pb_Generation binding],
               c_binding := (c_binding ?c)[?leg := binding], c_probeKey := (c_probeKey ?c)[?leg := probeKey auth],
               c_active := (c_active ?c)[?leg := True], c_activeView := (c_activeView ?c)[?leg := Some binding]\<rparr>"
  have "rtt_inv ?b" if "?leg < c_maxLegs c" "\<not> c_closed c"
  proof (rule rtt_invI)
    have inv: "rtt_inv ?c" by (rule rtt_inv_cleared [OF assms])
    show "sized ?b" using rtt_invD(1) [OF inv] by (simp add: sized_def)
    have "\<forall>(t, p) \<in> set (c_pending ?c). unat (pi_LegID (pd_identity p)) \<noteq> ?leg" by (auto simp: clearLegLocked_def)
    then show "pending_ok ?b" using rtt_invD(2) [OF inv] by (fastforce simp: pending_ok_def)
    fix l assume "l < c_maxLegs ?b"
    then have ok: "leg_ok l ?c" and l: "l < c_maxLegs ?c" using rtt_invD(3) [OF inv] by simp_all
    then show "leg_ok l ?b"
      using that rtt_invD(1) [OF inv] unfolding leg_ok_def sized_def
      by (cases "l = ?leg") (simp_all add: clearLegLocked_def)
  qed
  moreover have "snd (bindLeg binding auth c) = (if \<exists>e. fst (bindLeg binding auth c) = Some e then c else
      if c_highWater c ! ?leg = pb_Generation binding then c else ?b)"
    by (auto simp: bindLeg_def Let_def clearLegLocked_def split: option.splits)
  moreover have "?leg < c_maxLegs c \<and> \<not> c_closed c" if "\<not> (\<exists>e. fst (bindLeg binding auth c) = Some e)"
    using that by (auto simp: bindLeg_def Let_def split: option.splits if_splits)
  ultimately show ?thesis using assms by auto
qed

lemma dirIndex_valid: "validStreamRTTDirection d \<Longrightarrow> dirIndex d < 2"
  by (auto simp: validStreamRTTDirection_def)

lemma samples_ok_recentSamples:
  assumes "samples_ok xs" and "0 < rtt" and "rtt < StreamRTTProbeTimeout"
  shows "samples_ok (recentSamples rtt now xs)"
proof -
  have cut: "samples_ok (if length r > streamRTTMaxSamples then drop (length r - streamRTTMaxSamples) r else r)"
    if "r = insertionSort sm_at ys" "\<forall>s \<in> set ys. 0 < sm_rtt s \<and> sm_rtt s < StreamRTTProbeTimeout" for r ys
  proof -
    have "sorted (map sm_at r)" unfolding that(1) by (rule sorted_insertionSort)
    moreover have "\<forall>s \<in> set r. 0 < sm_rtt s \<and> sm_rtt s < StreamRTTProbeTimeout" using that by simp
    ultimately show ?thesis
      unfolding samples_ok_def by (auto simp: drop_map [symmetric] sorted_wrt_drop dest: in_set_dropD)
  qed
  show ?thesis
    unfolding recentSamples_def Let_def by (rule cut [OF refl]) (use assms in \<open>auto simp: samples_ok_def\<close>)
qed

lemma rtt_inv_recordSampleLocked:
  assumes "rtt_inv c" and "validStreamRTTDirection (pi_Direction identity)" and "0 < rtt" and "rtt < StreamRTTProbeTimeout"
  shows "rtt_inv (recordSampleLocked identity rtt now c)"
proof (cases "unat (pi_LegID identity) < c_maxLegs c")
  case True
  let ?leg = "unat (pi_LegID identity)" and ?d = "dirIndex (pi_Direction identity)"
  let ?c = "recordSampleLocked identity rtt now c"
  define xs where "xs = recentSamples rtt now (c_samples c ! ?leg ! ?d)"
  have "samples_ok (c_samples c ! ?leg ! ?d)"
    using rtt_invD(3) [OF assms(1) True] dirIndex_valid [OF assms(2)] by (simp add: leg_ok_def)
  then have xs: "samples_ok xs" unfolding xs_def by (rule samples_ok_recentSamples [OF _ assms(3,4)])
  have c: "?c = c\<lparr>c_samples := (c_samples c)[?leg := (c_samples c ! ?leg)[?d := xs]],
      c_feedback := (c_feedback c)[?leg := (c_feedback c ! ?leg)[?d := Some \<lparr>pub_identity = identity, pub_samples = xs\<rparr>]]\<rparr>"
    using True by (simp add: recordSampleLocked_def Let_def xs_def)
  show ?thesis
  proof (rule rtt_invI)
    show "sized ?c" using rtt_invD(1) [OF assms(1)] by (simp add: c sized_def)
    show "pending_ok ?c" using rtt_invD(2) [OF assms(1)] by (simp add: c pending_ok_def)
    fix l assume "l < c_maxLegs ?c"
    then have "leg_ok l c" "l < c_maxLegs c" using rtt_invD(3) [OF assms(1)] by (simp_all add: c)
    with xs rtt_invD(1) [OF assms(1)] dirIndex_valid [OF assms(2)] show "leg_ok l ?c"
      unfolding leg_ok_def c sized_def by (cases "l = ?leg") (auto simp: nth_list_update)
  qed
next
  case False
  with assms(1) show ?thesis by (simp add: recordSampleLocked_def Let_def)
qed

lemma pendingForLeg_length: "pendingForLeg leg c = length (leg_pending (unat leg) c)"
proof -
  have "fold (\<lambda>(t, p) n. if pi_LegID (pd_identity p) = leg then n + 1 else n) xs n
      = n + length (filter (\<lambda>(t, p). unat (pi_LegID (pd_identity p)) = unat leg) xs)"
    for n and xs :: "(u64 \<times> streamRTTPending) list"
    by (induction xs arbitrary: n) (auto simp: word_unat_eq_iff)
  then show ?thesis by (simp add: pendingForLeg_def)
qed

lemma filter_update_new: "mget m k = None \<Longrightarrow> filter P (mput k v m) = filter P m @ filter P [(k, v)]"
  by (induction m) (auto split: if_splits)

lemma max_word_Suc: "(a :: u64) \<noteq> -1 \<Longrightarrow> a < a + 1"
proof -
  assume "a \<noteq> -1"
  then have "a < -1" by (simp add: word_order.not_eq_extremum)
  then show ?thesis using unat_add_1_less [of a "-1"] by (simp add: word_less_nat_alt)
qed

lemma rtt_inv_add_pending:
  assumes "rtt_inv c" and "c_nextToken c \<noteq> -1" and "unat (pi_LegID i) < c_maxLegs c"
    and "c_active c ! unat (pi_LegID i)" and "c_binding c ! unat (pi_LegID i) = binding_of i"
    and "validStreamRTTDirection (pi_Direction i)" and "pendingForLeg (pi_LegID i) c < StreamRTTProbePendingLimit"
  shows "rtt_inv (c\<lparr>c_nextToken := c_nextToken c + 1,
            c_pending := mput (c_nextToken c + 1) \<lparr>pd_identity = i, pd_started = now\<rparr> (c_pending c)\<rparr>)" (is "rtt_inv ?c")
proof (rule rtt_invI)
  let ?t = "c_nextToken c + 1"
  have t: "c_nextToken c < ?t" by (rule max_word_Suc [OF assms(2)])
  have P: "pending_ok c" by (rule rtt_invD(2) [OF assms(1)])
  have "\<not> ?t \<le> c_nextToken c" using t by simp
  then have new: "mget (c_pending c) ?t = None"
    using P unfolding pending_ok_def by (cases "mget (c_pending c) ?t") (auto dest!: mget_in)
  have S: "set (c_pending ?c) \<subseteq> insert (?t, \<lparr>pd_identity = i, pd_started = now\<rparr>) (set (c_pending c))"
    using filter_update_new [OF new, of "\<lambda>_. True"] by auto
  show "sized ?c" using rtt_invD(1) [OF assms(1)] by (simp add: sized_def)
  show "pending_ok ?c"
    unfolding pending_ok_def
  proof (intro conjI ballI)
    show "mwf (c_pending ?c)" using P by (simp add: pending_ok_def)
    fix e assume "e \<in> set (c_pending ?c)"
    then have "e = (?t, \<lparr>pd_identity = i, pd_started = now\<rparr>) \<or> e \<in> set (c_pending c)" using S by blast
    then show "case e of (t, p) \<Rightarrow> t \<noteq> 0 \<and> t \<le> c_nextToken ?c \<and> unat (pi_LegID (pd_identity p)) < c_maxLegs ?c
        \<and> c_active ?c ! unat (pi_LegID (pd_identity p))
        \<and> binding_of (pd_identity p) = c_binding ?c ! unat (pi_LegID (pd_identity p))
        \<and> validStreamRTTDirection (pi_Direction (pd_identity p))"
      using assms(3-6) t P by (auto simp: pending_ok_def)
  qed
  fix l assume "l < c_maxLegs ?c"
  then have "leg_ok l c" using rtt_invD(3) [OF assms(1)] by simp
  with assms(7) show "leg_ok l ?c"
    unfolding leg_ok_def by (auto simp: filter_update_new [OF new] pendingForLeg_length)
qed

lemma rtt_inv_startProbeAt:
  assumes "rtt_inv c"
  shows "rtt_inv (snd (startProbeAt identity now c))"
proof -
  let ?c = "snd (expirePendingLocked now c)"
  have inv: "rtt_inv ?c" by (simp add: expirePendingLocked_def Let_def rtt_inv_drop_pending [OF assms])
  have frame: "c_maxLegs ?c = c_maxLegs c" "c_active ?c = c_active c" "c_binding ?c = c_binding c"
    by (simp_all add: expirePendingLocked_def Let_def)
  from rtt_inv_add_pending [OF inv, of identity now, unfolded frame] inv assms show ?thesis
    unfolding startProbeAt_def Let_def by (auto split: sum.splits)
qed

lemma rtt_inv_acceptProbe:
  assumes "rtt_inv c"
  shows "rtt_inv (snd (acceptProbe binding d wire c0 c))"
proof -
  have "rtt_inv (c\<lparr>c_lastPeerToken := (c_lastPeerToken c)[leg := (c_lastPeerToken c ! leg)[k := t]]\<rparr>)" for leg k t
  proof (rule rtt_invI)
    fix l assume "l < c_maxLegs (c\<lparr>c_lastPeerToken := (c_lastPeerToken c)[leg := (c_lastPeerToken c ! leg)[k := t]]\<rparr>)"
    then have "leg_ok l c" "l < c_maxLegs c" using rtt_invD(3) [OF assms] by simp_all
    then show "leg_ok l (c\<lparr>c_lastPeerToken := (c_lastPeerToken c)[leg := (c_lastPeerToken c ! leg)[k := t]]\<rparr>)"
      using rtt_invD(1) [OF assms] unfolding leg_ok_def sized_def by (cases "l = leg") simp_all
  qed (use rtt_invD(1,2) [OF assms] in \<open>simp_all add: sized_def pending_ok_def\<close>)
  with assms show ?thesis unfolding acceptProbe_def Let_def by (auto split: sum.splits)
qed

lemma rtt_inv_acceptEchoAt:
  assumes "rtt_inv c"
  shows "rtt_inv (snd (acceptEchoAt identity wire now c0 c))"
proof -
  let ?c = "\<lambda>t. c\<lparr>c_pending := mdel t (c_pending c)\<rparr>"
  have inv: "rtt_inv (?c t)" for t unfolding mdel_filter by (rule rtt_inv_drop_pending [OF assms])
  have "rtt_inv (recordSampleLocked identity (Sub now st) now (?c t))"
    if "validStreamRTTDirection (pi_Direction identity)" "\<not> Sub now st \<le> 0" "\<not> Sub now st \<ge> StreamRTTProbeTimeout" for st t
    by (rule rtt_inv_recordSampleLocked [OF inv]) (use that in auto)
  with inv assms show ?thesis unfolding acceptEchoAt_def Let_def by (auto split: sum.splits option.splits)
qed

lemma cleared_frame [simp]:
  "c_closed (cleared leg c) = c_closed c" "c_maxLegs (cleared leg c) = c_maxLegs c"
  "c_highWater (cleared leg c) = c_highWater c" "length (c_active (cleared leg c)) = length (c_active c)"
  by (simp_all add: clearLegLocked_def)

lemma cleared_closed:
  "clearLegLocked leg (c\<lparr>c_closed := b, c_activeView := v\<rparr>) = (clearLegLocked leg (c\<lparr>c_activeView := v\<rparr>))\<lparr>c_closed := b\<rparr>"
  by (simp add: clearLegLocked_def)

lemma fold_cleared:
  "c_closed (fold cleared xs c) = c_closed c" "c_maxLegs (fold cleared xs c) = c_maxLegs c"
  "c_highWater (fold cleared xs c) = c_highWater c"
  "rtt_inv c \<Longrightarrow> rtt_inv (fold cleared xs c)"
  "fold cleared xs (c\<lparr>c_closed := b\<rparr>) = (fold cleared xs c)\<lparr>c_closed := b\<rparr>"
  by (induction xs arbitrary: c) (simp_all add: rtt_inv_cleared cleared_closed)

lemma fold_cleared_inactive:
  "l < length (c_active c) \<Longrightarrow> l \<in> set xs \<or> \<not> c_active c ! l \<Longrightarrow> \<not> c_active (fold cleared xs c) ! l"
proof (induction xs arbitrary: c)
  case (Cons x xs)
  have "\<not> c_active (cleared x c) ! l" if "l = x \<or> \<not> c_active c ! l"
    using that Cons.prems(1) by (cases "l = x") (auto simp: clearLegLocked_def)
  with Cons.IH [of "cleared x c"] Cons.prems show ?case by auto
qed simp

lemma close_cache_alt:
  "\<not> c_closed c \<Longrightarrow> close_cache c = (fold cleared [0..<length (c_active c)] c)\<lparr>c_pending := [], c_closed := True\<rparr>"
  by (simp add: close_cache_def fold_cleared)

lemma rtt_inv_close:
  assumes "rtt_inv c"
  shows "rtt_inv (close_cache c)"
proof (cases "c_closed c")
  case False
  let ?f = "fold cleared [0..<length (c_active c)] c"
  let ?c = "?f\<lparr>c_pending := filter (\<lambda>_. False) (c_pending ?f)\<rparr>"
  have inv: "rtt_inv ?c" by (rule rtt_inv_drop_pending [OF fold_cleared(4) [OF assms]])
  have off: "\<not> c_active ?c ! l" if "l < c_maxLegs c" for l
    using that rtt_invD(1) [OF assms] fold_cleared_inactive [of l c "[0..<length (c_active c)]"] by (simp add: sized_def)
  have "rtt_inv (?c\<lparr>c_closed := True\<rparr>)"
  proof (rule rtt_invI)
    fix l assume "l < c_maxLegs (?c\<lparr>c_closed := True\<rparr>)"
    then have "leg_ok l ?c" "\<not> c_active ?c ! l" using rtt_invD(3) [OF inv] off by (simp_all add: fold_cleared)
    then show "leg_ok l (?c\<lparr>c_closed := True\<rparr>)" by (simp add: leg_ok_def)
  qed (use rtt_invD(1,2) [OF inv] in \<open>simp_all add: sized_def pending_ok_def\<close>)
  then show ?thesis using False by (simp add: close_cache_alt)
qed (use assms in \<open>simp add: close_cache_def\<close>)

section \<open>Runs of the cache\<close>

text \<open>\<open>c0\<close> is the state in which an \<open>acceptProbe\<close> or \<open>acceptEchoAt\<close> read its key: any state of the
  cache, since every step may run between its two critical sections.\<close>

inductive rtt_step :: "streamRTTProbeCache \<Rightarrow> streamRTTProbeCache \<Rightarrow> bool" where
  bindLeg: "rtt_step c (snd (bindLeg binding auth c))"
| recordHandshakeSample: "rtt_step c (snd (recordHandshakeSample binding identity auth now c))"
| invalidateLeg: "rtt_step c (snd (invalidateLeg binding c))"
| startProbeAt: "rtt_step c (snd (startProbeAt identity now c))"
| cancelProbe: "rtt_step c (snd (cancelProbe identity token c))"
| expirePending: "rtt_step c (snd (expirePending now c))"
| acceptProbe: "c_maxLegs c0 = c_maxLegs c \<Longrightarrow> rtt_step c (snd (acceptProbe binding direction wire c0 c))"
| acceptEchoAt: "c_maxLegs c0 = c_maxLegs c \<Longrightarrow> rtt_step c (snd (acceptEchoAt identity wire now c0 c))"
| close: "rtt_step c (close_cache c)"

lemma rtt_step_inv:
  assumes "rtt_step c c'" and "rtt_inv c"
  shows "rtt_inv c'"
  using assms(1)
proof cases
  case (recordHandshakeSample binding identity auth now)
  have "rtt_inv (recordSampleLocked identity (handshakeRTT auth) (handshakeAt auth) c)"
    if "pi_Direction identity = StreamRTTClientToServer" "\<not> handshakeRTT auth \<le> 0"
       "\<not> handshakeRTT auth \<ge> StreamRTTProbeTimeout"
    by (rule rtt_inv_recordSampleLocked [OF assms(2)]) (use that in \<open>auto simp: validStreamRTTDirection_def\<close>)
  with recordHandshakeSample assms(2) show ?thesis by (auto simp: recordHandshakeSample_def Let_def)
next
  case (invalidateLeg binding)
  with assms(2) rtt_inv_cleared [OF assms(2)] show ?thesis by (simp add: invalidateLeg_def Let_def)
next
  case (cancelProbe identity token)
  have "rtt_inv (c\<lparr>c_pending := mdel token (c_pending c)\<rparr>)"
    unfolding mdel_filter by (rule rtt_inv_drop_pending [OF assms(2)])
  with cancelProbe assms(2) show ?thesis by (auto simp: cancelProbe_def split: option.splits)
next
  case (expirePending now)
  with assms(2) show ?thesis by (simp add: expirePending_def expirePendingLocked_def Let_def rtt_inv_drop_pending)
qed (use assms(2) in \<open>simp_all add: rtt_inv_bindLeg rtt_inv_startProbeAt rtt_inv_acceptProbe rtt_inv_acceptEchoAt rtt_inv_close\<close>)

text \<open>How a step changes a leg: its mark never falls, and it is active afterwards only under a higher
  mark, or under the binding it had before, whose replay guard did not fall.\<close>

definition leg_evolves :: "nat \<Rightarrow> streamRTTProbeCache \<Rightarrow> streamRTTProbeCache \<Rightarrow> bool" where
  "leg_evolves leg c c' \<longleftrightarrow> c_maxLegs c' = c_maxLegs c \<and> c_highWater c ! leg \<le> c_highWater c' ! leg
     \<and> (c_active c' ! leg \<longrightarrow> c_highWater c ! leg < c_highWater c' ! leg
          \<or> c_active c ! leg \<and> c_binding c' ! leg = c_binding c ! leg
            \<and> (\<forall>d < 2. c_lastPeerToken c ! leg ! d \<le> c_lastPeerToken c' ! leg ! d))"

lemma recordSampleLocked_frame [simp]:
  "c_highWater (recordSampleLocked i r t c) = c_highWater c" "c_maxLegs (recordSampleLocked i r t c) = c_maxLegs c"
  "c_closed (recordSampleLocked i r t c) = c_closed c" "c_active (recordSampleLocked i r t c) = c_active c"
  "c_binding (recordSampleLocked i r t c) = c_binding c" "c_lastPeerToken (recordSampleLocked i r t c) = c_lastPeerToken c"
  by (simp_all add: recordSampleLocked_def Let_def)

lemma leg_evolves_refl [simp]: "leg_evolves leg c c"
  by (simp add: leg_evolves_def)

lemma leg_evolves_frame:
  "c_highWater c' = c_highWater c \<Longrightarrow> c_maxLegs c' = c_maxLegs c \<Longrightarrow> c_active c' = c_active c \<Longrightarrow>
   c_binding c' = c_binding c \<Longrightarrow> c_lastPeerToken c' = c_lastPeerToken c \<Longrightarrow> leg_evolves leg c c'"
  by (simp add: leg_evolves_def)

lemma leg_evolves_cleared:
  assumes "sized c" and "leg < c_maxLegs c"
  shows "leg_evolves leg c (cleared l c)"
  using assms by (cases "l = leg") (simp_all add: leg_evolves_def clearLegLocked_def sized_def)

lemma leg_evolves_bindLeg:
  assumes "sized c" and "leg < c_maxLegs c"
  shows "leg_evolves leg c (snd (bindLeg binding auth c))"
proof -
  let ?leg = "unat (pb_LegID binding)"
  have "c_highWater c ! ?leg < pb_Generation binding"
    if "\<not> pb_Generation binding < c_highWater c ! ?leg" "pb_Generation binding \<noteq> c_highWater c ! ?leg"
    using that by auto
  with assms show ?thesis
    by (cases "?leg = leg")
      (auto simp: bindLeg_def Let_def leg_evolves_def clearLegLocked_def sized_def split: option.splits)
qed

lemma nth_raise: "i < length xs \<Longrightarrow> \<not> t \<le> xs ! k \<Longrightarrow> xs ! i \<le> (xs[k := t] ! i :: u64)"
  by (cases "k = i") auto

lemma leg_evolves_acceptProbe:
  assumes "sized c" and "leg < c_maxLegs c" and "leg_ok leg c"
  shows "leg_evolves leg c (snd (acceptProbe binding d wire c0 c))"
proof -
  have "leg_evolves leg c (c\<lparr>c_lastPeerToken := (c_lastPeerToken c)[l := (c_lastPeerToken c ! l)[k := t]]\<rparr>)"
    if "\<not> t \<le> c_lastPeerToken c ! l ! k" for l k t
    using that assms by (cases "l = leg") (auto simp: leg_evolves_def sized_def leg_ok_def nth_raise)
  then show ?thesis unfolding acceptProbe_def Let_def by (auto split: sum.splits)
qed

lemma leg_evolves_close:
  assumes "sized c" and "leg < c_maxLegs c"
  shows "leg_evolves leg c (close_cache c)"
proof (cases "c_closed c")
  case False
  have "\<not> c_active (fold cleared [0..<length (c_active c)] c) ! leg"
    by (rule fold_cleared_inactive) (use assms in \<open>simp_all add: sized_def\<close>)
  then show ?thesis using False by (simp add: close_cache_alt leg_evolves_def fold_cleared)
qed (simp add: close_cache_def)

lemma leg_evolves_others:
  "leg_evolves leg c (snd (recordHandshakeSample binding identity auth now c))"
  "leg_evolves leg c (snd (startProbeAt identity now c))"
  "leg_evolves leg c (snd (cancelProbe identity token c))"
  "leg_evolves leg c (snd (expirePending now c))"
  "leg_evolves leg c (snd (acceptEchoAt identity wire now c0 c))"
proof -
  show "leg_evolves leg c (snd (recordHandshakeSample binding identity auth now c))"
    by (rule leg_evolves_frame) (simp_all add: recordHandshakeSample_def Let_def)
  show "leg_evolves leg c (snd (startProbeAt identity now c))"
    by (rule leg_evolves_frame) (simp_all add: startProbeAt_def expirePendingLocked_def Let_def split: sum.splits)
  show "leg_evolves leg c (snd (cancelProbe identity token c))"
    by (rule leg_evolves_frame) (simp_all add: cancelProbe_def split: option.splits)
  show "leg_evolves leg c (snd (expirePending now c))"
    by (rule leg_evolves_frame) (simp_all add: expirePending_def expirePendingLocked_def Let_def)
  show "leg_evolves leg c (snd (acceptEchoAt identity wire now c0 c))"
    by (rule leg_evolves_frame) (simp_all add: acceptEchoAt_def Let_def split: sum.splits option.splits)
qed

lemma rtt_step_evolves:
  assumes "rtt_step c c'" and "rtt_inv c" and "leg < c_maxLegs c"
  shows "leg_evolves leg c c'"
  using assms(1)
proof cases
  case (invalidateLeg binding)
  then show ?thesis
    using leg_evolves_cleared [OF rtt_invD(1) [OF assms(2)] assms(3)] by (simp add: invalidateLeg_def Let_def)
qed (use assms(2,3) rtt_invD [OF assms(2)] in \<open>simp_all add: leg_evolves_bindLeg leg_evolves_acceptProbe leg_evolves_close leg_evolves_others\<close>)

interpretation rttl: high_water
  "\<lambda>c. rtt_inv c \<and> leg < c_maxLegs c" rtt_step "\<lambda>_ c. c_highWater c ! leg" for leg
proof
  fix s t :: streamRTTProbeCache and k :: unit
  assume "rtt_inv s \<and> leg < c_maxLegs s" and "rtt_step s t"
  then have "leg_evolves leg s t" "rtt_inv t" using rtt_step_evolves rtt_step_inv by blast+
  then show "c_highWater s ! leg \<le> c_highWater t ! leg"
    and "rtt_inv t \<and> leg < c_maxLegs t" using \<open>rtt_inv s \<and> leg < c_maxLegs s\<close> by (auto simp: leg_evolves_def)
qed

lemma reachable_rtt_inv: "rtt_step\<^sup>*\<^sup>* (newStreamRTTProbeCacheForLegs n) c \<Longrightarrow> rtt_inv c"
  by (induction rule: rtranclp_induct) (auto simp: rtt_inv_new intro: rtt_step_inv)

lemma rtt_step_maxLegs: "rtt_step\<^sup>*\<^sup>* c c' \<Longrightarrow> rtt_inv c \<Longrightarrow> leg < c_maxLegs c \<Longrightarrow> rtt_inv c' \<and> leg < c_maxLegs c'"
  by (rule rttl.run_inv) simp_all

text \<open>A binding that was active and is not any more, or that was replaced, never becomes active again.\<close>

lemma dead_binding_stable:
  assumes "rtt_step\<^sup>*\<^sup>* c c'" and "rtt_inv c" and "leg < c_maxLegs c"
    and "g \<le> c_highWater c ! leg" and "c_active c ! leg \<Longrightarrow> g < pb_Generation (c_binding c ! leg)"
  shows "g \<le> c_highWater c' ! leg \<and> (c_active c' ! leg \<longrightarrow> g < pb_Generation (c_binding c' ! leg))"
proof (rule rttl.run_stable [OF assms(1), where leg = leg
      and Q = "\<lambda>c. g \<le> c_highWater c ! leg \<and> (c_active c ! leg \<longrightarrow> g < pb_Generation (c_binding c ! leg))"])
  fix s t
  assume I: "rtt_inv s \<and> leg < c_maxLegs s" and st: "rtt_step s t"
    and Q: "g \<le> c_highWater s ! leg \<and> (c_active s ! leg \<longrightarrow> g < pb_Generation (c_binding s ! leg))"
  have ev: "leg_evolves leg s t" and t: "rtt_inv t" using I st rtt_step_evolves rtt_step_inv by blast+
  then have "leg_ok leg t" using I rtt_invD(3) by (simp add: leg_evolves_def)
  with ev Q show "g \<le> c_highWater t ! leg \<and> (c_active t ! leg \<longrightarrow> g < pb_Generation (c_binding t ! leg))"
    by (auto simp: leg_evolves_def leg_ok_def)
qed (use assms in auto)

text \<open>A token accepted for a binding stays behind the replay guard for as long as the binding lasts.\<close>

lemma replay_guard_stable:
  assumes "rtt_step\<^sup>*\<^sup>* c c'" and "rtt_inv c" and "leg < c_maxLegs c" and "d < 2"
    and "pb_Generation b \<le> c_highWater c ! leg"
    and "c_active c ! leg \<Longrightarrow> c_binding c ! leg = b \<Longrightarrow> t \<le> c_lastPeerToken c ! leg ! d"
  shows "c_active c' ! leg \<longrightarrow> c_binding c' ! leg = b \<longrightarrow> t \<le> c_lastPeerToken c' ! leg ! d"
proof -
  have "pb_Generation b \<le> c_highWater c' ! leg
     \<and> (c_active c' ! leg \<longrightarrow> c_binding c' ! leg = b \<longrightarrow> t \<le> c_lastPeerToken c' ! leg ! d)"
  proof (rule rttl.run_stable [OF assms(1), where leg = leg and Q = "\<lambda>c. pb_Generation b \<le> c_highWater c ! leg
      \<and> (c_active c ! leg \<longrightarrow> c_binding c ! leg = b \<longrightarrow> t \<le> c_lastPeerToken c ! leg ! d)"])
    fix s u
    assume I: "rtt_inv s \<and> leg < c_maxLegs s" and st: "rtt_step s u"
      and Q: "pb_Generation b \<le> c_highWater s ! leg
        \<and> (c_active s ! leg \<longrightarrow> c_binding s ! leg = b \<longrightarrow> t \<le> c_lastPeerToken s ! leg ! d)"
    have ev: "leg_evolves leg s u" and u: "rtt_inv u" using I st rtt_step_evolves rtt_step_inv by blast+
    then have "leg_ok leg u" using I rtt_invD(3) by (simp add: leg_evolves_def)
    with ev Q assms(4) show "pb_Generation b \<le> c_highWater u ! leg
      \<and> (c_active u ! leg \<longrightarrow> c_binding u ! leg = b \<longrightarrow> t \<le> c_lastPeerToken u ! leg ! d)"
      unfolding leg_evolves_def leg_ok_def by (auto intro: order_trans)
  qed (use assms in auto)
  then show ?thesis by blast
qed

text \<open>The token and the direction of an authentic message are in its wire image, whatever the key.\<close>

lemma decode_rtt_wire:
  assumes "decodeStreamRTTMessage wire key binding = Inr m"
  shows "rm_Token m = get_u64 (slice_of 28 36 wire) \<and> pi_Direction (rm_Identity m) = wire ! 10
    \<and> validStreamRTTDirection (wire ! 10) \<and> binding_of (rm_Identity m) = binding"
  using assms by (auto simp: decodeStreamRTTMessage_def validStreamRTTDirection_def Let_def binding_of_def
      split: option.splits if_splits)

lemma Sub_exact: "minDuration \<le> t - u \<Longrightarrow> t - u \<le> maxDuration \<Longrightarrow> Sub t u = t - u"
  by (simp add: Sub_def)

lemma Sub_same [simp]: "Sub t t = 0"
  by (simp add: Sub_def minDuration_def maxDuration_def)

lemma insertRight_end: "\<forall>s \<in> set acc. \<not> key v < key s \<Longrightarrow> insertRight key v acc = acc @ [v]"
proof -
  assume "\<forall>s \<in> set acc. \<not> key v < key s"
  then have "takeWhile (\<lambda>x. key v < key x) (rev acc) = []"
    by (cases "rev acc") (simp_all add: rev_eq_Cons_iff)
  moreover from this have "dropWhile (\<lambda>x. key v < key x) (rev acc) = rev acc"
    by (metis append_Nil takeWhile_dropWhile_id)
  ultimately show ?thesis by (simp add: insertRight_def)
qed

text \<open>A sample newer than all the others is kept, as the last of the window.\<close>

lemma recentSamples_newest:
  assumes "\<forall>s \<in> set xs. sm_at s \<le> now"
  shows "\<lparr>sm_rtt = rtt, sm_at = now\<rparr> \<in> set (recentSamples rtt now xs)"
proof -
  let ?new = "\<lparr>sm_rtt = rtt, sm_at = now\<rparr>"
  have e: "fold (\<lambda>s e. if sm_at s > e then sm_at s else e) xs now = now"
    using assms by (induction xs) auto
  let ?k = "filter (\<lambda>s. let age = Sub now (sm_at s) in age \<ge> 0 \<and> age \<le> StreamRTTSampleWindow) xs"
  have "\<forall>s \<in> set (insertionSort sm_at ?k). \<not> now < sm_at s" using assms by auto
  then have "insertionSort sm_at (?k @ [?new]) = insertionSort sm_at ?k @ [?new]"
    using insertRight_end [of "insertionSort sm_at ?k" sm_at ?new] by (simp add: insertionSort_def)
  moreover have "0 \<le> StreamRTTSampleWindow" by (simp add: StreamRTTSampleWindow_def Second_def)
  ultimately show ?thesis
    by (simp add: recentSamples_def e Let_def streamRTTMaxSamples_def)
qed

text \<open>Only session and leg are on the wire: a message is read by whoever holds the key for them, as a
  message of the reader's own carrier.\<close>

definition rebound :: "StreamPathBinding \<Rightarrow> StreamPathIdentity \<Rightarrow> StreamPathIdentity" where
  "rebound b i = i\<lparr>pi_CarrierID := pb_CarrierID b, pi_Generation := pb_Generation b\<rparr>"

lemma rebound_fields [simp]:
  "pi_SessionID (rebound b i) = pi_SessionID i" "pi_LegID (rebound b i) = pi_LegID i"
  "pi_Direction (rebound b i) = pi_Direction i"
  "pb_SessionID b = pi_SessionID i \<Longrightarrow> pb_LegID b = pi_LegID i \<Longrightarrow> binding_of (rebound b i) = b"
  by (simp_all add: rebound_def binding_of_def)

lemma decode_rtt_rebound:
  assumes "encodeStreamRTTMessage m key = Inr wire" and "validateStreamPathBinding b = None"
    and "pb_SessionID b = pi_SessionID (rm_Identity m)" and "pb_LegID b = pi_LegID (rm_Identity m)"
    and "length (pi_SessionID (rm_Identity m)) = 16"
  shows "decodeStreamRTTMessage wire key b = Inr (m\<lparr>rm_Identity := rebound b (rm_Identity m)\<rparr>)"
proof -
  let ?m = "m\<lparr>rm_Identity := rebound b (rm_Identity m)\<rparr>"
  have b: "binding_of (rm_Identity ?m) = b" using assms(3,4) by simp
  have "rttPrefix ?m = rttPrefix m" by (simp add: rttPrefix_def)
  then have "encodeStreamRTTMessage ?m key = Inr wire"
    using assms(1,2) b by (auto simp: encodeStreamRTTMessage_def validateStreamRTTMessage_def
        split: option.splits if_splits)
  then have "decodeStreamRTTMessage wire key (binding_of (rm_Identity ?m)) = Inr ?m"
    by (rule decode_encoded_rtt [rotated]) (use assms(5) in simp)
  then show ?thesis by (simp only: b)
qed

lemma encode_rtt_kind:
  assumes "encodeStreamRTTMessage m key = Inr wire" and "validateStreamPathBinding b = None"
    and "binding_of i = b" and "pi_Direction i = pi_Direction (rm_Identity m)" and "kind \<in> {StreamRTTProbe, StreamRTTEcho}"
  shows "\<exists>echo. encodeStreamRTTMessage (m\<lparr>rm_Identity := i, rm_Kind := kind\<rparr>) key = Inr echo"
  using assms by (auto simp: encodeStreamRTTMessage_def validateStreamRTTMessage_def split: option.splits if_splits)

lemma startProbeAt_InrD:
  assumes "startProbeAt i t0 c = (Inr (token, wire), c1)"
  shows "encodeStreamRTTMessage \<lparr>rm_Kind = StreamRTTProbe, rm_Identity = i, rm_Token = token\<rparr>
           (c_probeKey c ! unat (pi_LegID i)) = Inr wire
    \<and> unat (pi_LegID i) < c_maxLegs c1 \<and> validStreamRTTDirection (pi_Direction i)
    \<and> bound (unat (pi_LegID i)) (binding_of i) c1 \<and> c_probeKey c1 = c_probeKey c \<and> c_samples c1 = c_samples c
    \<and> mget (c_pending c1) token = Some \<lparr>pd_identity = i, pd_started = t0\<rparr>"
  using assms by (auto simp: startProbeAt_def expirePendingLocked_def Let_def bound_def split: if_splits sum.splits)

lemma acceptEchoAt_recorded:
  assumes "rtt_inv c1" and "unat (pi_LegID i) < c_maxLegs c1" and "validStreamRTTDirection (pi_Direction i)"
    and "bound (unat (pi_LegID i)) (binding_of i) c1" and "mget (c_pending c1) token = Some \<lparr>pd_identity = i, pd_started = t0\<rparr>"
    and "decodeStreamRTTMessage echo (c_probeKey c1 ! unat (pi_LegID i)) (binding_of i)
         = Inr \<lparr>rm_Kind = StreamRTTEcho, rm_Identity = i, rm_Token = token\<rparr>"
    and "t0 < t1" and "t1 - t0 < StreamRTTProbeTimeout"
  shows "acceptEchoAt i echo t1 c1 c1 = (None, recordSampleLocked i (t1 - t0) t1 (c1\<lparr>c_pending := mdel token (c_pending c1)\<rparr>))"
proof -
  have "Sub t1 t0 = t1 - t0"
    by (rule Sub_exact) (use assms(7,8) in \<open>auto simp: StreamRTTProbeTimeout_def Second_def minDuration_def maxDuration_def\<close>)
  with assms(2-8) show ?thesis by (simp add: acceptEchoAt_def Let_def)
qed

lemma feedback_after_record:
  assumes "rtt_inv c" and "unat (pi_LegID i) < c_maxLegs c" and "validStreamRTTDirection (pi_Direction i)"
    and "bound (unat (pi_LegID i)) (binding_of i) c"
    and "\<forall>s \<in> set (c_samples c ! unat (pi_LegID i) ! dirIndex (pi_Direction i)). sm_at s \<le> t1"
  shows "\<lparr>sm_rtt = r, sm_at = t1\<rparr> \<in> set (c_samples (recordSampleLocked i r t1 c) ! unat (pi_LegID i) ! dirIndex (pi_Direction i))
    \<and> (\<exists>fb. pathFeedbackAt i t1 (recordSampleLocked i r t1 c) = Some fb)"
proof -
  let ?leg = "unat (pi_LegID i)" and ?d = "dirIndex (pi_Direction i)"
  let ?r = "recentSamples r t1 (c_samples c ! ?leg ! ?d)"
  have sz: "?leg < length (c_samples c)" "?leg < length (c_feedback c)" "length (c_samples c ! ?leg) = 2"
    "length (c_feedback c ! ?leg) = 2" "c_activeView c ! ?leg = Some (binding_of i)"
    using rtt_invD [OF assms(1)] assms(2,4) by (auto simp: sized_def leg_ok_def bound_def)
  have new: "\<lparr>sm_rtt = r, sm_at = t1\<rparr> \<in> set ?r" by (rule recentSamples_newest [OF assms(5)])
  then have "filter (\<lambda>s. let age = Sub t1 (sm_at s) in \<not> (age < 0 \<or> age > StreamRTTSampleWindow)) ?r \<noteq> []"
    by (auto simp: filter_empty_conv StreamRTTSampleWindow_def Second_def intro!: bexI [of _ "\<lparr>sm_rtt = r, sm_at = t1\<rparr>"])
  with new sz assms(2,3) dirIndex_valid [OF assms(3)] show ?thesis
    by (auto simp: recordSampleLocked_def pathFeedbackAt_def Let_def)
qed

lemma probe_answered:
  assumes "encodeStreamRTTMessage \<lparr>rm_Kind = StreamRTTProbe, rm_Identity = i, rm_Token = token\<rparr> key = Inr wire"
    and "length (pi_SessionID i) = 16" and "validStreamRTTDirection (pi_Direction i)"
    and "bound (unat (pi_LegID i)) b s" and "unat (pi_LegID i) < c_maxLegs s" and "validateStreamPathBinding b = None"
    and "pb_SessionID b = pi_SessionID i" and "pb_LegID b = pi_LegID i" and "c_probeKey s ! unat (pi_LegID i) = key"
    and "c_lastPeerToken s ! unat (pi_LegID i) ! dirIndex (pi_Direction i) < token"
  shows "\<exists>echo s'. acceptProbe b (pi_Direction i) wire s s = (Inr echo, s')
    \<and> encodeStreamRTTMessage \<lparr>rm_Kind = StreamRTTEcho, rm_Identity = rebound b i, rm_Token = token\<rparr> key = Inr echo"
proof -
  let ?m = "\<lparr>rm_Kind = StreamRTTProbe, rm_Identity = i, rm_Token = token\<rparr>"
  have dec: "decodeStreamRTTMessage wire key b = Inr (?m\<lparr>rm_Identity := rebound b i\<rparr>)"
    using decode_rtt_rebound [OF assms(1,6)] assms(2,7,8) by simp
  have bi: "binding_of (rebound b i) = b" using assms(7,8) by simp
  obtain echo where "encodeStreamRTTMessage (?m\<lparr>rm_Identity := rebound b i, rm_Kind := StreamRTTEcho\<rparr>) key = Inr echo"
    using encode_rtt_kind [OF assms(1,6) bi, of StreamRTTEcho] by auto
  with dec assms(3-5,8-10) show ?thesis by (simp add: acceptProbe_def Let_def)
qed

section \<open>Properties\<close>

definition example_path :: StreamPathIdentity where "example_path = rm_Identity example_message"

definition example_path_auth :: StreamPathAuth where
  "example_path_auth = noAuth\<lparr>sessionID := replicate 16 7, legID := 1, capabilities := 1, probeKey := replicate 32 1,
     authenticated := True, handshakeRTT := 5 * Millisecond, handshakeAt := 70 * Second\<rparr>"

definition example_cache :: streamRTTProbeCache where
  "example_cache = snd (bindLeg (binding_of example_path) example_path_auth (newStreamRTTProbeCacheForLegs 2))"

lemma example_cache_reachable: "rtt_step\<^sup>*\<^sup>* (newStreamRTTProbeCacheForLegs 2) example_cache"
  unfolding example_cache_def by (intro r_into_rtranclp rtt_step.bindLeg)

lemma replicate_2: "replicate 2 x = [x, x]"
  by (simp add: numeral_2_eq_2)

lemmas example_cache_simps = replicate_2 example_cache_def bindLeg_def newStreamRTTProbeCacheForLegs_def clearLegLocked_def
  validateStreamPathBinding_def validFor_def example_path_auth_def example_path_def example_message_def binding_of_def
  noAuth_def MaxStreamLegIDCount_def Let_def

lemma example_cache_fields:
  "c_maxLegs example_cache = 2" "c_active example_cache = [False, True]" "\<not> c_closed example_cache"
  "c_binding example_cache = [noBinding, binding_of example_path]" "c_probeKey example_cache ! Suc 0 = replicate 32 1"
  "c_lastPeerToken example_cache = [[0, 0], [0, 0]]" "c_pending example_cache = []" "c_nextToken example_cache = 0"
  "c_samples example_cache = [[[], []], [[], []]]" "c_feedback example_cache = [[None, None], [None, None]]"
  "c_activeView example_cache = [None, Some (binding_of example_path)]"
  by (simp_all add: example_cache_simps)

lemma example_path_fields:
  "unat (pi_LegID example_path) = 1" "pi_Direction example_path = 1" "length (pi_SessionID example_path) = 16"
  "validateStreamPathBinding (binding_of example_path) = None" "pb_LegID (binding_of example_path) = pi_LegID example_path"
  "pb_SessionID (binding_of example_path) = pi_SessionID example_path"
  by (simp_all add: example_path_def example_message_def validateStreamPathBinding_def binding_of_def)

lemma example_probe:
  "\<exists>wire c1. startProbeAt example_path 100 example_cache = (Inr (1, wire), c1)
    \<and> encodeStreamRTTMessage \<lparr>rm_Kind = StreamRTTProbe, rm_Identity = example_path, rm_Token = 1\<rparr> (replicate 32 1) = Inr wire"
  by (simp add: startProbeAt_def expirePendingLocked_def example_cache_fields example_path_fields validStreamRTTDirection_def
      pendingForLeg_def StreamRTTProbePendingLimit_def encodeStreamRTTMessage_def validateStreamRTTMessage_def Let_def)

text \<open>C24: a carrier generation that was invalidated is never bound again: whatever happens afterwards,
  binding the same or an older generation of that leg is refused, so a delayed or replayed bind cannot
  resurrect a dead carrier.\<close>

theorem rtt_generation_never_reused:
  assumes "rtt_step\<^sup>*\<^sup>* (newStreamRTTProbeCacheForLegs n) c"
    and "invalidateLeg b c = (True, c1)" and "rtt_step\<^sup>*\<^sup>* c1 c'"
    and "pb_LegID b' = pb_LegID b" and "pb_Generation b' \<le> pb_Generation b"
  shows "\<exists>err. bindLeg b' auth c' = (Some err, c')"
proof -
  let ?leg = "unat (pb_LegID b)"
  have inv: "rtt_inv c" by (rule reachable_rtt_inv [OF assms(1)])
  from assms(2) have leg: "?leg < c_maxLegs c" and act: "c_active c ! ?leg" "c_binding c ! ?leg = b" and c1: "c1 = cleared ?leg c"
    by (auto simp: invalidateLeg_def Let_def split: if_splits)
  have hw: "pb_Generation b = c_highWater c ! ?leg" using rtt_invD(3) [OF inv leg] act by (auto simp: leg_ok_def)
  have len: "?leg < length (c_active c)" using rtt_invD(1) [OF inv] leg by (simp add: sized_def)
  have inv1: "rtt_inv c1" unfolding c1 by (rule rtt_inv_cleared [OF inv])
  have leg1: "?leg < c_maxLegs c1" using leg by (simp add: c1)
  have "pb_Generation b \<le> c_highWater c' ! ?leg \<and> (c_active c' ! ?leg \<longrightarrow> pb_Generation b < pb_Generation (c_binding c' ! ?leg))"
    by (rule dead_binding_stable [OF assms(3) inv1 leg1]) (use hw len in \<open>simp_all add: c1 clearLegLocked_def\<close>)
  moreover have "rtt_inv c' \<and> ?leg < c_maxLegs c'" by (rule rtt_step_maxLegs [OF assms(3) inv1 leg1])
  ultimately have "leg_ok ?leg c'" and le: "pb_Generation b' \<le> c_highWater c' ! ?leg"
    and dead: "c_active c' ! ?leg \<Longrightarrow> pb_Generation b < pb_Generation (c_binding c' ! ?leg)"
    using rtt_invD(3) assms(5) by auto
  then have "\<not> (c_active c' ! ?leg \<and> c_binding c' ! ?leg = b')" using assms(5) by auto
  with le show ?thesis by (auto simp: bindLeg_def Let_def assms(4) split: option.splits)
qed

theorem rtt_generation_never_reused_witness:
  "\<exists>err c'. bindLeg (binding_of example_path) example_path_auth (snd (invalidateLeg (binding_of example_path) example_cache))
     = (Some err, c')"
proof -
  have "invalidateLeg (binding_of example_path) example_cache
      = (True, snd (invalidateLeg (binding_of example_path) example_cache))"
    by (simp add: invalidateLeg_def example_cache_fields example_path_fields Let_def)
  from rtt_generation_never_reused [OF example_cache_reachable this rtranclp.rtrancl_refl refl order_refl]
  show ?thesis by blast
qed

text \<open>C23: probes are answered at most once. A probe that was answered on a binding is refused in every
  later state of the cache, on that binding, under any key and any expected direction, so a replayed
  probe never obtains a second echo.\<close>

theorem rtt_probe_answered_once:
  assumes "rtt_step\<^sup>*\<^sup>* (newStreamRTTProbeCacheForLegs n) c"
    and "acceptProbe b d wire c0 c = (Inr echo, c1)" and "c_maxLegs c0 = c_maxLegs c" and "rtt_step\<^sup>*\<^sup>* c1 c'"
  shows "\<exists>err. acceptProbe b d' wire c0' c' = (Inl err, c')"
proof (rule ccontr)
  assume no: "\<not> ?thesis"
  let ?leg = "unat (pb_LegID b)" and ?t = "get_u64 (slice_of 28 36 wire)" and ?d = "dirIndex (wire ! 10)"
  have inv: "rtt_inv c" by (rule reachable_rtt_inv [OF assms(1)])
  have "rtt_step c c1" using rtt_step.acceptProbe [OF assms(3), of b d wire] assms(2) by simp
  then have inv1: "rtt_inv c1" by (rule rtt_step_inv [OF _ inv])
  from assms(2) obtain m where m: "decodeStreamRTTMessage wire (c_probeKey c0 ! ?leg) b = Inr m" and leg0: "?leg < c_maxLegs c0"
    and bnd: "bound ?leg b c" and c1: "c1 = c\<lparr>c_lastPeerToken := (c_lastPeerToken c)[?leg := (c_lastPeerToken c ! ?leg)
       [dirIndex (pi_Direction (rm_Identity m)) := rm_Token m]]\<rparr>"
    by (auto simp: acceptProbe_def Let_def split: if_splits sum.splits)
  note W = decode_rtt_wire [OF m]
  have leg: "?leg < c_maxLegs c" "?leg < c_maxLegs c1" using leg0 assms(3) by (simp_all add: c1)
  have d: "?d < 2" using W dirIndex_valid by blast
  have ok: "leg_ok ?leg c" "sized c" using rtt_invD [OF inv] leg(1) by blast+
  have t: "c_lastPeerToken c1 ! ?leg ! ?d = ?t" using W ok d leg(1) by (simp add: c1 leg_ok_def sized_def)
  have hw: "pb_Generation b \<le> c_highWater c1 ! ?leg" using ok(1) bnd by (auto simp: c1 leg_ok_def bound_def)
  have "c_active c' ! ?leg \<longrightarrow> c_binding c' ! ?leg = b \<longrightarrow> ?t \<le> c_lastPeerToken c' ! ?leg ! ?d"
    by (rule replay_guard_stable [OF assms(4) inv1 leg(2) d hw]) (simp add: t)
  moreover from no obtain m' where "decodeStreamRTTMessage wire (c_probeKey c0' ! ?leg) b = Inr m'" and "bound ?leg b c'"
    and "\<not> rm_Token m' \<le> c_lastPeerToken c' ! ?leg ! dirIndex (pi_Direction (rm_Identity m'))"
    by (auto simp: acceptProbe_def Let_def split: if_splits sum.splits)
  ultimately show False using decode_rtt_wire [of wire "c_probeKey c0' ! ?leg" b m'] by (auto simp: bound_def)
qed

theorem rtt_probe_answered_once_witness:
  "\<exists>wire echo c1 err. acceptProbe (binding_of example_path) 1 wire example_cache example_cache = (Inr echo, c1)
     \<and> acceptProbe (binding_of example_path) 1 wire c1 c1 = (Inl err, c1)"
proof -
  obtain wire where w: "encodeStreamRTTMessage \<lparr>rm_Kind = StreamRTTProbe, rm_Identity = example_path, rm_Token = 1\<rparr>
      (replicate 32 1) = Inr wire" using example_probe by blast
  obtain echo c1 where "acceptProbe (binding_of example_path) 1 wire example_cache example_cache = (Inr echo, c1)"
    using probe_answered [OF w, of "binding_of example_path" example_cache]
    by (auto simp: example_path_fields example_cache_fields validStreamRTTDirection_def bound_def)
  with rtt_probe_answered_once [OF example_cache_reachable this refl rtranclp.rtrancl_refl, of 1 c1] show ?thesis by blast
qed

text \<open>C25: the scheduler never reads feedback of another path. A feedback snapshot is returned only for
  the carrier that is bound now, it counts one to five samples, its RTT is positive and below the probe
  timeout, and it lies between two samples of that path, both inside the sample window.\<close>

theorem rtt_feedback_sound:
  assumes "rtt_step\<^sup>*\<^sup>* (newStreamRTTProbeCacheForLegs n) c" and "pathFeedbackAt i now c = Some fb"
  shows "\<not> c_closed c \<and> c_active c ! unat (pi_LegID i) \<and> c_binding c ! unat (pi_LegID i) = binding_of i
    \<and> fb_Identity fb = i \<and> 1 \<le> unat (fb_Samples fb) \<and> unat (fb_Samples fb) \<le> 5
    \<and> 0 < fb_RTT fb \<and> fb_RTT fb < StreamRTTProbeTimeout
    \<and> (\<exists>x y. {x, y} \<subseteq> set (c_samples c ! unat (pi_LegID i) ! dirIndex (pi_Direction i))
         \<and> sm_rtt x \<le> fb_RTT fb \<and> fb_RTT fb \<le> sm_rtt y
         \<and> Sub now (sm_at x) \<in> {0..StreamRTTSampleWindow} \<and> Sub now (sm_at y) \<in> {0..StreamRTTSampleWindow})"
proof -
  let ?leg = "unat (pi_LegID i)" and ?d = "dirIndex (pi_Direction i)"
  have inv: "rtt_inv c" by (rule reachable_rtt_inv [OF assms(1)])
  let ?fresh = "\<lambda>p. filter (\<lambda>s. let age = Sub now (sm_at s) in \<not> (age < 0 \<or> age > StreamRTTSampleWindow)) (pub_samples p)"
  from assms(2) obtain p where leg: "?leg < c_maxLegs c" and d: "validStreamRTTDirection (pi_Direction i)"
    and view: "c_activeView c ! ?leg = Some (binding_of i)" and p: "c_feedback c ! ?leg ! ?d = Some p" and ne: "?fresh p \<noteq> []"
    and fb: "fb_Identity fb = i" "fb_RTT fb = median (insertionSort (\<lambda>x. x) (map sm_rtt (?fresh p)))"
      "fb_Samples fb = of_nat (length (?fresh p))"
    by (auto simp: pathFeedbackAt_def Let_def split: if_splits option.splits)
  have ok: "leg_ok ?leg c" by (rule rtt_invD(3) [OF inv leg])
  have s: "pub_samples p = c_samples c ! ?leg ! ?d" "samples_ok (c_samples c ! ?leg ! ?d)"
    using ok p dirIndex_valid [OF d] by (auto simp: leg_ok_def)
  let ?xs = "insertionSort (\<lambda>x. x) (map sm_rtt (?fresh p))"
  have "length ?xs \<noteq> 0" using ne by simp
  then have "?xs \<noteq> []" by (metis list.size(3))
  from median_between [OF _ this] sorted_insertionSort [of "\<lambda>x. x" "map sm_rtt (?fresh p)"]
  obtain x y where "x \<in> set (?fresh p)" "y \<in> set (?fresh p)" "sm_rtt x \<le> fb_RTT fb" "fb_RTT fb \<le> sm_rtt y"
    by (auto simp: fb(2))
  moreover have "length (?fresh p) \<le> 5"
    by (rule order_trans [OF length_filter_le]) (use s in \<open>simp add: samples_ok_def streamRTTMaxSamples_def\<close>)
  then have "unat (fb_Samples fb) = length (?fresh p)" "length (?fresh p) \<le> 5"
    by (simp_all only: fb(3)) (simp add: unat_of_nat)
  moreover have "1 \<le> length (?fresh p)" using ne by (cases "?fresh p") auto
  moreover have "\<not> c_closed c \<and> c_active c ! ?leg \<and> c_binding c ! ?leg = binding_of i"
    using ok view by (auto simp: leg_ok_def split: if_splits)
  ultimately show ?thesis
    using fb(1) s unfolding samples_ok_def
    by (intro conjI exI [of _ x] exI [of _ y]) (auto simp: Let_def intro: order_less_le_trans order_le_less_trans)
qed

theorem rtt_feedback_sound_witness:
  "\<exists>c fb. pathFeedbackAt example_path (71 * Second) c = Some fb \<and> 0 < fb_RTT fb \<and> fb_Samples fb = 1"
proof -
  let ?c = "snd (recordHandshakeSample (binding_of example_path) example_path example_path_auth (71 * Second) example_cache)"
  have auth: "handshakeRTT example_path_auth = 5 * Millisecond" "handshakeAt example_path_auth = 70 * Second"
    "validFor example_path_auth (binding_of example_path)"
    by (simp_all add: example_path_auth_def noAuth_def validFor_def binding_of_def example_path_def example_message_def)
  have "rtt_step\<^sup>*\<^sup>* (newStreamRTTProbeCacheForLegs 2) ?c"
    by (rule rtranclp.rtrancl_into_rtrancl [OF example_cache_reachable rtt_step.recordHandshakeSample])
  moreover have "pathFeedbackAt example_path (71 * Second) ?c = Some \<lparr>fb_Identity = example_path, fb_RTT = 5 * Millisecond,
      fb_Samples = 1, fb_ObservedAt = 70 * Second\<rparr>"
    by (simp add: recordHandshakeSample_def auth example_path_fields example_cache_fields recordSampleLocked_def
        recentSamples_def insertionSort_def insertRight_def pathFeedbackAt_def median_def validStreamRTTDirection_def Let_def
        StreamRTTProbeTimeout_def StreamRTTSampleWindow_def streamRTTMaxSamples_def Second_def Millisecond_def Sub_def
        minDuration_def maxDuration_def)
  ultimately show ?thesis using rtt_feedback_sound [of 2 ?c] by fastforce
qed

text \<open>C22: a probe measures its own round trip. When the peer holds the same key for the session and
  leg and has not yet seen the token, it answers the probe, the echo is accepted before the timeout,
  and the time between the two calls becomes a sample and feedback of exactly that path.\<close>

theorem rtt_probe_measures:
  assumes "rtt_step\<^sup>*\<^sup>* (newStreamRTTProbeCacheForLegs n) c" and "startProbeAt i t0 c = (Inr (token, wire), c1)"
    and "length (pi_SessionID i) = 16" and "t0 < t1" and "t1 - t0 < StreamRTTProbeTimeout"
    and "\<forall>s \<in> set (c_samples c ! unat (pi_LegID i) ! dirIndex (pi_Direction i)). sm_at s \<le> t1"
    and "bound (unat (pi_LegID i)) b s" and "unat (pi_LegID i) < c_maxLegs s" and "validateStreamPathBinding b = None"
    and "pb_SessionID b = pi_SessionID i" and "pb_LegID b = pi_LegID i"
    and "c_probeKey s ! unat (pi_LegID i) = c_probeKey c ! unat (pi_LegID i)"
    and "c_lastPeerToken s ! unat (pi_LegID i) ! dirIndex (pi_Direction i) < token"
  shows "\<exists>echo s' c2. acceptProbe b (pi_Direction i) wire s s = (Inr echo, s')
    \<and> acceptEchoAt i echo t1 c1 c1 = (None, c2)
    \<and> \<lparr>sm_rtt = t1 - t0, sm_at = t1\<rparr> \<in> set (c_samples c2 ! unat (pi_LegID i) ! dirIndex (pi_Direction i))
    \<and> (\<exists>fb. pathFeedbackAt i t1 c2 = Some fb)"
proof -
  let ?leg = "unat (pi_LegID i)"
  let ?m = "\<lparr>rm_Kind = StreamRTTProbe, rm_Identity = i, rm_Token = token\<rparr>"
  note S = startProbeAt_InrD [OF assms(2)]
  have "rtt_step c c1" using rtt_step.startProbeAt [of c i t0] assms(2) by simp
  then have inv: "rtt_inv c1" by (rule rtt_step_inv [OF _ reachable_rtt_inv [OF assms(1)]])
  obtain echo where "\<exists>s'. acceptProbe b (pi_Direction i) wire s s = (Inr echo, s')"
    and echo: "encodeStreamRTTMessage \<lparr>rm_Kind = StreamRTTEcho, rm_Identity = rebound b i, rm_Token = token\<rparr>
      (c_probeKey c ! ?leg) = Inr echo"
    using probe_answered [OF conjunct1 [OF S] assms(3) _ assms(7-13)] S by blast
  note this(1)
  moreover have "validateStreamPathBinding (binding_of i) = None"
    using S by (auto simp: encodeStreamRTTMessage_def validateStreamRTTMessage_def split: option.splits)
  then have echoed: "decodeStreamRTTMessage echo (c_probeKey c1 ! ?leg) (binding_of i) = Inr (?m\<lparr>rm_Kind := StreamRTTEcho\<rparr>)"
    using decode_rtt_rebound [OF echo, of "binding_of i"] S assms(3) by (simp add: rebound_def binding_of_def)
  moreover from this have "acceptEchoAt i echo t1 c1 c1
      = (None, recordSampleLocked i (t1 - t0) t1 (c1\<lparr>c_pending := mdel token (c_pending c1)\<rparr>))"
    using acceptEchoAt_recorded [OF inv] S assms(4,5) by simp
  moreover have "rtt_inv (c1\<lparr>c_pending := mdel token (c_pending c1)\<rparr>)"
    unfolding mdel_filter by (rule rtt_inv_drop_pending [OF inv])
  from feedback_after_record [OF this, of i t1 "t1 - t0"] S assms(6)
  have "\<lparr>sm_rtt = t1 - t0, sm_at = t1\<rparr> \<in> set (c_samples (recordSampleLocked i (t1 - t0) t1
        (c1\<lparr>c_pending := mdel token (c_pending c1)\<rparr>)) ! ?leg ! dirIndex (pi_Direction i))
    \<and> (\<exists>fb. pathFeedbackAt i t1 (recordSampleLocked i (t1 - t0) t1 (c1\<lparr>c_pending := mdel token (c_pending c1)\<rparr>)) = Some fb)"
    by (simp add: bound_def)
  ultimately show ?thesis by blast
qed

theorem rtt_probe_measures_witness:
  "\<exists>c fb. pathFeedbackAt example_path 250 c = Some fb
     \<and> \<lparr>sm_rtt = 150, sm_at = 250\<rparr> \<in> set (c_samples c ! 1 ! 0)"
proof -
  obtain wire c1 where w: "startProbeAt example_path 100 example_cache = (Inr (1, wire), c1)" using example_probe by blast
  have "\<exists>echo s' c2. acceptProbe (binding_of example_path) (pi_Direction example_path) wire example_cache example_cache = (Inr echo, s')
    \<and> acceptEchoAt example_path echo 250 c1 c1 = (None, c2)
    \<and> \<lparr>sm_rtt = 250 - 100, sm_at = 250\<rparr> \<in> set (c_samples c2 ! unat (pi_LegID example_path) ! dirIndex (pi_Direction example_path))
    \<and> (\<exists>fb. pathFeedbackAt example_path 250 c2 = Some fb)"
    by (rule rtt_probe_measures [OF example_cache_reachable w])
      (simp_all add: example_path_fields example_cache_fields bound_def StreamRTTProbeTimeout_def Second_def)
  then show ?thesis by (auto simp: example_path_fields)
qed

end
