(* ===== verification/Startup_Gate.thy ===== *)
theory Startup_Gate
  imports Types
begin

text \<open>
  The startup gate (\<open>core/stream_startup.go\<close>) and the startup part of the telemetry
  (\<open>core/telemetry.go\<close>). With the policy \<open>StreamStartupPreferred\<close> the first application payload waits for
  the preferred carrier, for a bounded grace once another carrier is ready. Each operation is one
  critical section of the gate's lock; \<open>await\<close> is one round of its loop followed by one \<open>select\<close>, so that
  the other operations interleave between its rounds. The engine's \<open>hasLeg\<close> is the argument \<open>hasLeg\<close>, the
  grace timer a flag of the waiter, \<open>time.Now()\<close> an argument.
\<close>

section \<open>Types\<close>

datatype StreamStartupPolicy = StreamStartupFirstReady | StreamStartupPreferred

datatype streamStartupState =
    streamStartupNoData | streamStartupDataWaitingNoLeg | streamStartupGrace | streamStartupReleased

datatype StreamStartupReleaseReason =
    StartupReleaseNone | StartupReleasePreferredAlreadyAttached
  | StartupReleasePreferredAttachedBeforeNonPreferred | StartupReleasePreferredArrivedWithinGrace
  | StartupReleaseGraceExpired | StartupReleasePreferredTerminalUnavailable
  | StartupReleaseSessionClosedBeforeRelease

definition MaxStreamStartupGrace :: duration where "MaxStreamStartupGrace = 10 * Second"

text \<open>The fields of \<open>StreamConfig\<close> that the gate reads.\<close>

record StartupConfig =
  sc_StartupPolicy :: StreamStartupPolicy
  sc_StartupPreferredLeg :: LegID
  sc_StartupGrace :: duration
  sc_MaxActiveLegs :: nat

record StreamStartupTelemetrySnapshot =
  ts_Applied :: bool
  ts_Policy :: StreamStartupPolicy
  ts_PreferredLeg :: int
  ts_Grace :: duration
  ts_FirstDataWaitingAt :: gotime
  ts_GraceStartedAt :: gotime
  ts_PreferredAttachedAt :: gotime
  ts_NonPreferredAttachedAt :: gotime
  ts_ReleasedAt :: gotime
  ts_ReleaseReason :: StreamStartupReleaseReason
  ts_FirstDataLeg :: int

text \<open>\<open>sg_wake\<close> is the channel \<open>wake\<close> of capacity one, \<open>sg_telemetry\<close> the state behind the telemetry's
  pointer (\<open>None\<close> for no telemetry).\<close>

record streamStartupGate =
  sg_preferred :: u8
  sg_grace :: duration
  sg_state :: streamStartupState
  sg_terminal :: "bool list"
  sg_attached :: "bool list"
  sg_preferredBeforeNonPreferred :: bool
  sg_released :: bool
  sg_wake :: bool
  sg_graceStarted :: bool
  sg_releaseReason :: StreamStartupReleaseReason
  sg_telemetry :: "StreamStartupTelemetrySnapshot option"

section \<open>Startup telemetry\<close>

definition configureStartup :: "StartupConfig \<Rightarrow> StreamStartupTelemetrySnapshot" where
  "configureStartup cfg =
     (let state = \<lparr>ts_Applied = False, ts_Policy = sc_StartupPolicy cfg, ts_PreferredLeg = -1, ts_Grace = 0,
                   ts_FirstDataWaitingAt = 0, ts_GraceStartedAt = 0, ts_PreferredAttachedAt = 0,
                   ts_NonPreferredAttachedAt = 0, ts_ReleasedAt = 0, ts_ReleaseReason = StartupReleaseNone,
                   ts_FirstDataLeg = -1\<rparr>
      in if sc_StartupPolicy cfg = StreamStartupPreferred
         then state\<lparr>ts_Applied := True, ts_PreferredLeg := int (unat (sc_StartupPreferredLeg cfg)),
                    ts_Grace := sc_StartupGrace cfg\<rparr>
         else state)"

definition markStartupFirstDataWaiting :: "gotime \<Rightarrow> StreamStartupTelemetrySnapshot \<Rightarrow> StreamStartupTelemetrySnapshot" where
  "markStartupFirstDataWaiting now t =
     (if \<not> ts_Applied t \<or> \<not> IsZero (ts_FirstDataWaitingAt t) then t else t\<lparr>ts_FirstDataWaitingAt := now\<rparr>)"

definition markStartupAttached :: "u8 \<Rightarrow> gotime \<Rightarrow> StreamStartupTelemetrySnapshot \<Rightarrow> StreamStartupTelemetrySnapshot" where
  "markStartupAttached leg now t =
     (if \<not> ts_Applied t then t
      else if int (unat leg) = ts_PreferredLeg t
      then if \<not> IsZero (ts_PreferredAttachedAt t) then t else t\<lparr>ts_PreferredAttachedAt := now\<rparr>
      else if \<not> IsZero (ts_NonPreferredAttachedAt t) then t
      else t\<lparr>ts_NonPreferredAttachedAt := now\<rparr>)"

definition markStartupGraceStarted :: "gotime \<Rightarrow> StreamStartupTelemetrySnapshot \<Rightarrow> StreamStartupTelemetrySnapshot" where
  "markStartupGraceStarted now t =
     (if \<not> ts_Applied t \<or> \<not> IsZero (ts_GraceStartedAt t) then t else t\<lparr>ts_GraceStartedAt := now\<rparr>)"

definition markStartupReleased ::
  "gotime \<Rightarrow> StreamStartupReleaseReason \<Rightarrow> StreamStartupTelemetrySnapshot \<Rightarrow> StreamStartupTelemetrySnapshot" where
  "markStartupReleased now reason t =
     (if \<not> ts_Applied t \<or> \<not> IsZero (ts_ReleasedAt t) \<or> ts_ReleaseReason t \<noteq> StartupReleaseNone then t
      else t\<lparr>ts_ReleasedAt := now, ts_ReleaseReason := reason\<rparr>)"

definition markStartupClosedBeforeRelease :: "StreamStartupTelemetrySnapshot \<Rightarrow> StreamStartupTelemetrySnapshot" where
  "markStartupClosedBeforeRelease t =
     (if \<not> ts_Applied t \<or> IsZero (ts_FirstDataWaitingAt t) \<or> \<not> IsZero (ts_ReleasedAt t)
         \<or> ts_ReleaseReason t \<noteq> StartupReleaseNone then t
      else t\<lparr>ts_ReleaseReason := StartupReleaseSessionClosedBeforeRelease\<rparr>)"

definition markStartupFirstDataLeg :: "u8 \<Rightarrow> StreamStartupTelemetrySnapshot \<Rightarrow> StreamStartupTelemetrySnapshot" where
  "markStartupFirstDataLeg leg t =
     (if \<not> ts_Applied t \<or> ts_FirstDataLeg t \<ge> 0 then t else t\<lparr>ts_FirstDataLeg := int (unat leg)\<rparr>)"

abbreviation tele :: "(StreamStartupTelemetrySnapshot \<Rightarrow> StreamStartupTelemetrySnapshot) \<Rightarrow> streamStartupGate \<Rightarrow> streamStartupGate" where
  "tele f s \<equiv> s\<lparr>sg_telemetry := map_option f (sg_telemetry s)\<rparr>"

section \<open>The gate\<close>

definition newStreamStartupGate :: "StartupConfig \<Rightarrow> StreamStartupTelemetrySnapshot option \<Rightarrow> streamStartupGate option" where
  "newStreamStartupGate cfg telemetry =
     (if sc_StartupPolicy cfg \<noteq> StreamStartupPreferred then None
      else let preferred = (if unat (sc_StartupPreferredLeg cfg) \<ge> sc_MaxActiveLegs cfg then 0 else sc_StartupPreferredLeg cfg);
               grace0 = (if sc_StartupGrace cfg < 0 then 0 else sc_StartupGrace cfg);
               grace = (if grace0 > MaxStreamStartupGrace then MaxStreamStartupGrace else grace0)
           in Some \<lparr>sg_preferred = preferred, sg_grace = grace, sg_state = streamStartupNoData,
                    sg_terminal = replicate (sc_MaxActiveLegs cfg) False,
                    sg_attached = replicate (sc_MaxActiveLegs cfg) False,
                    sg_preferredBeforeNonPreferred = False, sg_released = False, sg_wake = False,
                    sg_graceStarted = False, sg_releaseReason = StartupReleaseNone, sg_telemetry = telemetry\<rparr>)"

definition hasOtherAttachedLocked :: "streamStartupGate \<Rightarrow> bool" where
  "hasOtherAttachedLocked s \<longleftrightarrow>
     list_ex (\<lambda>i. of_nat i \<noteq> sg_preferred s \<and> sg_attached s ! i) [0..<length (sg_attached s)]"

text \<open>\<open>notify()\<close> is \<open>None\<close>, \<open>notify(id)\<close> is \<open>Some id\<close>.\<close>

definition startupNotify :: "u8 option \<Rightarrow> streamStartupGate \<Rightarrow> streamStartupGate" where
  "startupNotify ids s =
     (if sg_released s then s
      else let s1 = (case ids of
                       Some i \<Rightarrow>
                         if unat i < length (sg_attached s) \<and> \<not> sg_attached s ! unat i
                         then (if i = sg_preferred s \<and> \<not> hasOtherAttachedLocked s
                               then s\<lparr>sg_preferredBeforeNonPreferred := True\<rparr> else s)
                              \<lparr>sg_attached := (sg_attached s)[unat i := True]\<rparr>
                         else s
                     | None \<Rightarrow> s)
           in s1\<lparr>sg_wake := True\<rparr>)"

definition markTerminalUnavailable :: "LegID \<Rightarrow> streamStartupGate \<Rightarrow> bool \<times> streamStartupGate" where
  "markTerminalUnavailable i s =
     (if unat i \<ge> length (sg_terminal s) \<or> sg_released s then (False, s)
      else if i \<noteq> sg_preferred s then (False, s)
      else (True, startupNotify None (s\<lparr>sg_terminal := (sg_terminal s)[unat i := True]\<rparr>)))"

definition releaseGate :: "gotime \<Rightarrow> StreamStartupReleaseReason \<Rightarrow> streamStartupGate \<Rightarrow> streamStartupGate" where
  "releaseGate now reason s =
     (if sg_released s then s
      else tele (markStartupReleased now reason)
             (s\<lparr>sg_state := streamStartupReleased, sg_releaseReason := reason, sg_released := True\<rparr>))"

definition markSessionClosed :: "streamStartupGate \<Rightarrow> streamStartupGate" where
  "markSessionClosed s = (if sg_released s then s else tele markStartupClosedBeforeRelease s)"

definition preferredReleaseReason :: "streamStartupGate \<Rightarrow> StreamStartupReleaseReason" where
  "preferredReleaseReason s =
     (if sg_graceStarted s then StartupReleasePreferredArrivedWithinGrace
      else if sg_preferredBeforeNonPreferred s then StartupReleasePreferredAttachedBeforeNonPreferred
      else StartupReleasePreferredAlreadyAttached)"

text \<open>\<open>s.terminal[s.preferred]\<close> is in range: there is at least one leg.\<close>

definition terminalPreferred :: "streamStartupGate \<Rightarrow> bool" where
  "terminalPreferred s = sg_terminal s ! unat (sg_preferred s)"

definition hasOtherReady :: "(u8 \<Rightarrow> bool) \<Rightarrow> streamStartupGate \<Rightarrow> bool" where
  "hasOtherReady hasLeg s \<longleftrightarrow>
     list_ex (\<lambda>i. of_nat i \<noteq> sg_preferred s \<and> hasLeg (of_nat i)) [0..<length (sg_attached s)]"

definition setWaitingState :: "gotime \<Rightarrow> streamStartupState \<Rightarrow> streamStartupGate \<Rightarrow> streamStartupGate" where
  "setWaitingState now state s =
     (if sg_released s then s
      else let s1 = s\<lparr>sg_state := state\<rparr>
           in if state = streamStartupGrace \<and> \<not> sg_graceStarted s
              then tele (markStartupGraceStarted now) (s1\<lparr>sg_graceStarted := True\<rparr>)
              else s1)"

text \<open>The local variables of \<open>await\<close>: whether its timer runs, and \<open>graceExpired\<close>.\<close>

record waiter =
  aw_timer :: bool
  aw_graceExpired :: bool

definition newWaiter :: waiter where "newWaiter = \<lparr>aw_timer = False, aw_graceExpired = False\<rparr>"

text \<open>One round of \<open>await\<close>, up to its \<open>select\<close>: \<open>Some hint\<close> when it returns \<open>(hint, true)\<close>.\<close>

definition awaitRound ::
  "(u8 \<Rightarrow> bool) \<Rightarrow> gotime \<Rightarrow> streamStartupGate \<Rightarrow> waiter \<Rightarrow> int option \<times> streamStartupGate \<times> waiter" where
  "awaitRound hasLeg now s a =
     (if sg_released s then (Some (-1), s, a)
      else let nonPreferredReady = hasOtherReady hasLeg s
           in if hasLeg (sg_preferred s)
              then (Some (int (unat (sg_preferred s))), releaseGate now (preferredReleaseReason s) s, a)
              else if nonPreferredReady \<and> terminalPreferred s
              then (Some (-1), releaseGate now StartupReleasePreferredTerminalUnavailable s, a)
              else if nonPreferredReady \<and> (sg_grace s = 0 \<or> aw_graceExpired a)
              then (Some (-1), releaseGate now StartupReleaseGraceExpired s, a)
              else if \<not> nonPreferredReady
              then (None, setWaitingState now streamStartupDataWaitingNoLeg s, \<lparr>aw_timer = False, aw_graceExpired = False\<rparr>)
              else if \<not> aw_timer a
              then (None, setWaitingState now streamStartupGrace s, a\<lparr>aw_timer := True\<rparr>)
              else (None, s, a))"

text \<open>The \<open>select\<close>: the engine ends (\<open>done\<close> or \<open>gracefulCh\<close>), the gate was woken, or the timer fires.\<close>

datatype await_event = AwaitEnded | AwaitWake | AwaitTimer

definition awaitEnabled :: "await_event \<Rightarrow> streamStartupGate \<Rightarrow> waiter \<Rightarrow> bool" where
  "awaitEnabled ev s a = (case ev of AwaitEnded \<Rightarrow> True | AwaitWake \<Rightarrow> sg_wake s | AwaitTimer \<Rightarrow> aw_timer a)"

definition awaitSelect :: "await_event \<Rightarrow> streamStartupGate \<Rightarrow> waiter \<Rightarrow> bool \<times> streamStartupGate \<times> waiter" where
  "awaitSelect ev s a =
     (case ev of
        AwaitEnded \<Rightarrow> (True, s, a)
      | AwaitWake \<Rightarrow> (False, s\<lparr>sg_wake := False\<rparr>, a)
      | AwaitTimer \<Rightarrow> (False, s, \<lparr>aw_timer = False, aw_graceExpired = True\<rparr>))"

section \<open>The gate in the engine\<close>

text \<open>Where the transmit loop stands: before \<open>await\<close>, at the head of its loop, in its \<open>select\<close>, or back
  with a result.\<close>

datatype await_phase = Before | Round | Select | Returned int bool

text \<open>\<open>y_legs\<close> are the registered legs; \<open>y_joining\<close> are the attach calls between the registration of the leg
  and their \<open>startup.notify\<close>.\<close>

record startup_sys =
  y_gate :: streamStartupGate
  y_waiter :: waiter
  y_phase :: await_phase
  y_legs :: "u8 set"
  y_joining :: "u8 list"

definition startupSystem :: "streamStartupGate \<Rightarrow> startup_sys" where
  "startupSystem g = \<lparr>y_gate = g, y_waiter = newWaiter, y_phase = Before, y_legs = {}, y_joining = []\<rparr>"

inductive startup_step :: "startup_sys \<Rightarrow> startup_sys \<Rightarrow> bool" where
  register: "i \<notin> y_legs y \<Longrightarrow> unat i < length (sg_attached (y_gate y)) \<Longrightarrow>
     startup_step y (y\<lparr>y_legs := insert i (y_legs y), y_joining := i # y_joining y\<rparr>)"
| notify: "i \<in> set (y_joining y) \<Longrightarrow>
     startup_step y (y\<lparr>y_gate := startupNotify (Some i) (y_gate y), y_joining := remove1 i (y_joining y)\<rparr>)"
| lost: "startup_step y (y\<lparr>y_legs := y_legs y - {i}\<rparr>)"
| terminal: "startup_step y (y\<lparr>y_gate := snd (markTerminalUnavailable i (y_gate y))\<rparr>)"
| closed: "startup_step y (y\<lparr>y_gate := markSessionClosed (y_gate y)\<rparr>)"
| start: "y_phase y = Before \<Longrightarrow>
     startup_step y (y\<lparr>y_phase := (if sg_released (y_gate y) then Returned (-1) True else Round), y_waiter := newWaiter\<rparr>)"
| awaiting: "y_phase y = Round \<Longrightarrow> awaitRound (\<lambda>i. i \<in> y_legs y) now (y_gate y) (y_waiter y) = (r, g, a) \<Longrightarrow>
     startup_step y (y\<lparr>y_gate := g, y_waiter := a, y_phase := (case r of None \<Rightarrow> Select | Some h \<Rightarrow> Returned h True)\<rparr>)"
| woken: "y_phase y = Select \<Longrightarrow> awaitEnabled ev (y_gate y) (y_waiter y) \<Longrightarrow>
     awaitSelect ev (y_gate y) (y_waiter y) = (ended, g, a) \<Longrightarrow>
     startup_step y (y\<lparr>y_gate := g, y_waiter := a, y_phase := (if ended then Returned (-1) False else Round)\<rparr>)"

text \<open>No wake-up is lost: while the transmit loop sleeps, every registered leg is still to be notified, or
  the gate is woken, or the grace timer runs and the leg is not the preferred one.\<close>

definition startup_inv :: "startup_sys \<Rightarrow> bool" where
  "startup_inv y \<longleftrightarrow>
     (let g = y_gate y in
      unat (sg_preferred g) < length (sg_attached g) \<and> length (sg_terminal g) = length (sg_attached g)
      \<and> (\<forall>i \<in> y_legs y. unat i < length (sg_attached g))
      \<and> 0 \<le> sg_grace g \<and> sg_grace g \<le> MaxStreamStartupGrace
      \<and> (sg_released g \<longrightarrow> (\<exists>h. y_phase y = Returned h True))
      \<and> (y_phase y = Select \<longrightarrow>
           (\<forall>i \<in> y_legs y. i \<in> set (y_joining y) \<or> sg_wake g \<or> (i \<noteq> sg_preferred g \<and> aw_timer (y_waiter y)))))"

lemma startupNotify_frame [simp]:
  "sg_preferred (startupNotify ids g) = sg_preferred g" "sg_grace (startupNotify ids g) = sg_grace g"
  "sg_released (startupNotify ids g) = sg_released g" "length (sg_attached (startupNotify ids g)) = length (sg_attached g)"
  "sg_terminal (startupNotify ids g) = sg_terminal g" "sg_wake (startupNotify ids g) \<longleftrightarrow> \<not> sg_released g \<or> sg_wake g"
  by (auto simp: startupNotify_def Let_def split: option.splits)

lemma markTerminal_frame [simp]:
  "sg_preferred (snd (markTerminalUnavailable i g)) = sg_preferred g"
  "sg_grace (snd (markTerminalUnavailable i g)) = sg_grace g"
  "sg_released (snd (markTerminalUnavailable i g)) = sg_released g"
  "length (sg_attached (snd (markTerminalUnavailable i g))) = length (sg_attached g)"
  "length (sg_terminal (snd (markTerminalUnavailable i g))) = length (sg_terminal g)"
  "sg_wake g \<Longrightarrow> sg_wake (snd (markTerminalUnavailable i g))"
  by (auto simp: markTerminalUnavailable_def)

lemma gate_frame [simp]:
  "sg_preferred (markSessionClosed g) = sg_preferred g" "sg_grace (markSessionClosed g) = sg_grace g"
  "sg_released (markSessionClosed g) = sg_released g" "sg_attached (markSessionClosed g) = sg_attached g"
  "sg_terminal (markSessionClosed g) = sg_terminal g" "sg_wake (markSessionClosed g) = sg_wake g"
  "sg_preferred (releaseGate now r g) = sg_preferred g" "sg_grace (releaseGate now r g) = sg_grace g"
  "sg_released (releaseGate now r g)" "sg_attached (releaseGate now r g) = sg_attached g"
  "sg_terminal (releaseGate now r g) = sg_terminal g" "sg_wake (releaseGate now r g) = sg_wake g"
  "sg_preferred (setWaitingState now st g) = sg_preferred g" "sg_grace (setWaitingState now st g) = sg_grace g"
  "sg_released (setWaitingState now st g) = sg_released g" "sg_attached (setWaitingState now st g) = sg_attached g"
  "sg_terminal (setWaitingState now st g) = sg_terminal g" "sg_wake (setWaitingState now st g) = sg_wake g"
  by (simp_all add: markSessionClosed_def releaseGate_def setWaitingState_def Let_def)

lemma hasOtherReady_iff:
  "hasOtherReady hasLeg g \<longleftrightarrow> (\<exists>i. unat i < length (sg_attached g) \<and> i \<noteq> sg_preferred g \<and> hasLeg i)"
proof
  assume "hasOtherReady hasLeg g"
  then obtain i where "i < length (sg_attached g)" "of_nat i \<noteq> sg_preferred g" "hasLeg (of_nat i)"
    by (auto simp: hasOtherReady_def list_ex_iff)
  moreover have "unat (of_nat i :: u8) \<le> i" by (simp add: unat_of_nat)
  ultimately show "\<exists>i. unat i < length (sg_attached g) \<and> i \<noteq> sg_preferred g \<and> hasLeg i"
    by (intro exI [of _ "of_nat i"]) auto
next
  assume "\<exists>i. unat i < length (sg_attached g) \<and> i \<noteq> sg_preferred g \<and> hasLeg i"
  then obtain i where "unat i < length (sg_attached g)" "i \<noteq> sg_preferred g" "hasLeg i" by blast
  then show "hasOtherReady hasLeg g" by (auto simp: hasOtherReady_def list_ex_iff intro!: bexI [of _ "unat i"])
qed

text \<open>What a round returns, by cases.\<close>

lemma awaitRound_cases:
  assumes "awaitRound hasLeg now g a = (r, g', a')"
  obtains (released) "sg_released g" "r = Some (-1)" "g' = g"
  | (preferred) "\<not> sg_released g" "hasLeg (sg_preferred g)" "r = Some (int (unat (sg_preferred g)))"
      "g' = releaseGate now (preferredReleaseReason g) g"
  | (other) reason where "\<not> sg_released g" "hasOtherReady hasLeg g" "r = Some (-1)" "g' = releaseGate now reason g"
      "reason = StartupReleasePreferredTerminalUnavailable \<and> terminalPreferred g
       \<or> reason = StartupReleaseGraceExpired \<and> (sg_grace g = 0 \<or> aw_graceExpired a)" "\<not> hasLeg (sg_preferred g)"
  | (idle) "\<not> sg_released g" "\<not> hasLeg (sg_preferred g)" "\<not> hasOtherReady hasLeg g" "r = None"
      "g' = setWaitingState now streamStartupDataWaitingNoLeg g"
  | (graced) "\<not> sg_released g" "\<not> hasLeg (sg_preferred g)" "hasOtherReady hasLeg g" "r = None" "aw_timer a'"
      "g' = g \<or> g' = setWaitingState now streamStartupGrace g" "sg_grace g \<noteq> 0"
  using assms unfolding awaitRound_def Let_def by (auto split: if_splits)

lemma startup_inv_step:
  assumes "startup_step y y'" and "startup_inv y"
  shows "startup_inv y'"
  using assms(1)
proof cases
  case (awaiting now r g a)
  from awaiting(3) show ?thesis
  proof (cases rule: awaitRound_cases)
    case idle
    then have "y_legs y = {}" using assms(2) by (auto simp: hasOtherReady_iff startup_inv_def Let_def)
    then show ?thesis using idle awaiting assms(2) by (auto simp: startup_inv_def Let_def)
  next
    case graced
    then show ?thesis using awaiting assms(2) by (auto simp: startup_inv_def Let_def)
  qed (use awaiting assms(2) in \<open>auto simp: startup_inv_def Let_def\<close>)
next
  case (woken ev ended g a)
  then show ?thesis using assms(2)
    by (auto simp: startup_inv_def Let_def awaitSelect_def split: await_event.splits)
next
  case (start)
  then show ?thesis using assms(2) by (auto simp: startup_inv_def Let_def)
next
  case (notify i)
  then show ?thesis using assms(2) by (auto simp: startup_inv_def Let_def)
next
  case (terminal i)
  then show ?thesis using assms(2) by (auto simp: startup_inv_def Let_def)
qed (use assms(2) in \<open>auto simp: startup_inv_def Let_def\<close>)

lemma startup_inv_new:
  assumes "newStreamStartupGate cfg tel = Some g" and "0 < sc_MaxActiveLegs cfg"
  shows "startup_inv (startupSystem g)"
  using assms by (auto simp: newStreamStartupGate_def startupSystem_def startup_inv_def Let_def MaxStreamStartupGrace_def
      Second_def split: if_splits)

interpretation sgl: invariant_run startup_inv startup_step
  by unfold_locales (rule startup_inv_step)

lemma reachable_startup_inv:
  assumes "newStreamStartupGate cfg tel = Some g" and "0 < sc_MaxActiveLegs cfg" and "startup_step\<^sup>*\<^sup>* (startupSystem g) y"
  shows "startup_inv y"
  by (rule sgl.run_inv [OF assms(3) startup_inv_new [OF assms(1,2)]])

section \<open>Properties\<close>


text \<open>C33: The first payload never waits forever for the preferred carrier. In every reachable state in
  which the transmit loop sleeps although a carrier is registered and notified, it will be resumed: the
  gate is woken or the grace timer, of at most ten seconds, runs. After the timer it returns in its next
  round, and whenever the preferred leg is registered a wake-up is pending and the next round returns.\<close>

theorem startup_wait_bounded:
  assumes "newStreamStartupGate cfg tel = Some g0" and "0 < sc_MaxActiveLegs cfg" and "startup_step\<^sup>*\<^sup>* (startupSystem g0) y"
    and "y_phase y = Select" and "y_joining y = []" and "y_legs y \<noteq> {}"
  shows "(sg_wake (y_gate y) \<or> aw_timer (y_waiter y)) \<and> sg_grace (y_gate y) \<le> 10 * Second
    \<and> (sg_preferred (y_gate y) \<in> y_legs y \<longrightarrow> sg_wake (y_gate y))
    \<and> (\<forall>ev g a now. awaitEnabled ev (y_gate y) (y_waiter y) \<and> awaitSelect ev (y_gate y) (y_waiter y) = (False, g, a)
         \<and> (ev = AwaitTimer \<or> sg_preferred (y_gate y) \<in> y_legs y)
       \<longrightarrow> (\<exists>h. fst (awaitRound (\<lambda>i. i \<in> y_legs y) now g a) = Some h))"
proof -
  have inv: "startup_inv y" by (rule reachable_startup_inv [OF assms(1-3)])
  then have w: "\<forall>i \<in> y_legs y. sg_wake (y_gate y) \<or> (i \<noteq> sg_preferred (y_gate y) \<and> aw_timer (y_waiter y))"
    and ids: "\<forall>i \<in> y_legs y. unat i < length (sg_attached (y_gate y))" and gr: "sg_grace (y_gate y) \<le> 10 * Second"
    using assms(4,5) by (auto simp: startup_inv_def Let_def MaxStreamStartupGrace_def)
  have "\<exists>h. fst (awaitRound (\<lambda>i. i \<in> y_legs y) now g a) = Some h"
    if "awaitSelect ev (y_gate y) (y_waiter y) = (False, g, a)" "ev = AwaitTimer \<or> sg_preferred (y_gate y) \<in> y_legs y"
    for ev g a now
  proof -
    have g: "sg_preferred g = sg_preferred (y_gate y)" "sg_attached g = sg_attached (y_gate y)" "ev = AwaitTimer \<Longrightarrow> aw_graceExpired a"
      using that(1) by (auto simp: awaitSelect_def split: await_event.splits)
    have "hasOtherReady (\<lambda>i. i \<in> y_legs y) g \<or> sg_preferred g \<in> y_legs y"
      using assms(6) ids by (auto simp: hasOtherReady_iff g)
    then show ?thesis using that(2) g by (auto simp: awaitRound_def Let_def)
  qed
  with w gr assms(6) show ?thesis by blast
qed

definition exampleStartup :: StartupConfig where
  "exampleStartup = \<lparr>sc_StartupPolicy = StreamStartupPreferred, sc_StartupPreferredLeg = 0, sc_StartupGrace = 60 * Second,
     sc_MaxActiveLegs = 2\<rparr>"

definition exampleGate :: streamStartupGate where
  "exampleGate = the (newStreamStartupGate exampleStartup None)"

text \<open>Leg 1 joined and was notified, and the transmit loop waits for leg 0.\<close>

definition exampleWaiting :: startup_sys where
  "exampleWaiting = \<lparr>y_gate = setWaitingState 0 streamStartupGrace (startupNotify (Some 1) exampleGate),
     y_waiter = \<lparr>aw_timer = True, aw_graceExpired = False\<rparr>, y_phase = Select, y_legs = {1}, y_joining = []\<rparr>"

lemma exampleGate_new: "newStreamStartupGate exampleStartup None = Some exampleGate"
  by (simp add: exampleGate_def newStreamStartupGate_def exampleStartup_def Let_def)

lemma exampleGate_fields:
  "sg_preferred exampleGate = 0" "length (sg_attached exampleGate) = 2" "sg_grace exampleGate = 10 * Second"
  "\<not> sg_released exampleGate" "sg_terminal exampleGate = [False, False]"
  by (simp_all add: exampleGate_def newStreamStartupGate_def exampleStartup_def Let_def MaxStreamStartupGrace_def Second_def numeral_2_eq_2)

lemma exampleWaiting_reachable: "startup_step\<^sup>*\<^sup>* (startupSystem exampleGate) exampleWaiting"
proof -
  let ?g = "startupNotify (Some 1) exampleGate"
  let ?y0 = "startupSystem exampleGate"
  let ?y1 = "?y0\<lparr>y_legs := insert 1 (y_legs ?y0), y_joining := 1 # y_joining ?y0\<rparr>"
  let ?y2 = "?y1\<lparr>y_gate := startupNotify (Some 1) (y_gate ?y1), y_joining := remove1 1 (y_joining ?y1)\<rparr>"
  let ?y3 = "?y2\<lparr>y_phase := (if sg_released (y_gate ?y2) then Returned (-1) True else Round), y_waiter := newWaiter\<rparr>"
  have s1: "startup_step ?y0 ?y1" by (rule startup_step.register) (simp_all add: startupSystem_def exampleGate_fields)
  have s2: "startup_step ?y1 ?y2" by (rule startup_step.notify) simp
  have s3: "startup_step ?y2 ?y3" by (rule startup_step.start) (simp add: startupSystem_def)
  have r: "y_phase ?y3 = Round" "y_gate ?y3 = ?g" "y_waiter ?y3 = newWaiter" "y_legs ?y3 = {1}"
    by (simp_all add: startupSystem_def exampleGate_fields)
  have "hasOtherReady (\<lambda>i. i \<in> {1}) ?g" by (auto simp: hasOtherReady_iff exampleGate_fields)
  then have "awaitRound (\<lambda>i. i \<in> y_legs ?y3) 0 (y_gate ?y3) (y_waiter ?y3)
      = (None, setWaitingState 0 streamStartupGrace ?g, \<lparr>aw_timer = True, aw_graceExpired = False\<rparr>)"
    unfolding r by (simp add: awaitRound_def terminalPreferred_def exampleGate_fields newWaiter_def Second_def)
  from startup_step.awaiting [OF r(1) this] have "startup_step ?y3 exampleWaiting"
    by (simp add: exampleWaiting_def startupSystem_def newWaiter_def)
  with s1 s2 s3 show ?thesis by (meson converse_rtranclp_into_rtranclp rtranclp.rtrancl_refl)
qed

theorem startup_wait_bounded_witness:
  "aw_timer (y_waiter exampleWaiting) \<and> sg_grace (y_gate exampleWaiting) \<le> 10 * Second
    \<and> (\<exists>h. fst (awaitRound (\<lambda>i. i \<in> y_legs exampleWaiting) 5 (y_gate exampleWaiting) \<lparr>aw_timer = False, aw_graceExpired = True\<rparr>) = Some h)"
proof -
  have f: "y_phase exampleWaiting = Select" "y_joining exampleWaiting = []" "y_legs exampleWaiting \<noteq> {}"
    "aw_timer (y_waiter exampleWaiting)" by (simp_all add: exampleWaiting_def)
  have e: "awaitEnabled AwaitTimer (y_gate exampleWaiting) (y_waiter exampleWaiting)"
    "awaitSelect AwaitTimer (y_gate exampleWaiting) (y_waiter exampleWaiting)
       = (False, y_gate exampleWaiting, \<lparr>aw_timer = False, aw_graceExpired = True\<rparr>)"
    using f(4) by (simp_all add: awaitEnabled_def awaitSelect_def)
  note B = startup_wait_bounded [OF exampleGate_new _ exampleWaiting_reachable f(1-3)]
  have n: "0 < sc_MaxActiveLegs exampleStartup" by (simp add: exampleStartup_def)
  show ?thesis using B [OF n] e f(4) by blast
qed


end
