(* ===== verification/Stream_Legs.thy ===== *)
theory Stream_Legs
  imports RTT_Cache TX_Repair Startup_Gate Stream_Frame
begin

unbundle bit_operations_syntax

text \<open>
  The carriers of a stream engine (\<open>core/stream_engine.go\<close>): attaching, failing, replacing and retiring
  legs, activation, and the shutdown of the engine, over the TX ledger, the RTT probe cache and the
  startup gate that these operations update. Legs are objects named by their address in a heap, so
  that \<open>c.legs[id] == leg\<close> compares addresses. Calls that only inform another component (the capacity
  provider, the admission policy's reset, host callbacks) are recorded in the state in call order.
  \<open>time.Now()\<close> is an argument.
\<close>

section \<open>State\<close>

text \<open>An entry of a leg's control queue. Its reply channel is the business of whoever queued it.\<close>

record legControl =
  lc_typ :: u8
  lc_value :: u64
  lc_data :: bytes

text \<open>A carrier. \<open>sl_closed\<close> is \<open>closed\<close> and the closed channel \<open>done\<close>; \<open>sl_closeErr\<close> is what \<open>onClose\<close> was
  called with; \<open>sl_writing\<close>, \<open>sl_reading\<close>, \<open>sl_probing\<close> are the worker goroutines of the wait group that
  still run; \<open>sl_send\<close> and \<open>sl_rescue\<close> are the lengths of the data queues.\<close>

record streamLeg =
  sl_id :: u8
  sl_generation :: u64
  sl_pathBinding :: StreamPathBinding
  sl_pathIdentity :: StreamPathIdentity
  sl_pathRTTEnabled :: bool
  sl_drainAuth :: StreamPathAuth
  sl_drainBinding :: bytes
  sl_drainEnabled :: bool
  sl_priorMbps :: u32
  sl_draining :: bool
  sl_closed :: bool
  sl_closeErr :: "smp3_error option"
  sl_retired :: bool
  sl_activateQueued :: bool
  sl_control :: "legControl list"
  sl_send :: nat
  sl_rescue :: nat
  sl_debugWriterState :: int
  sl_writing :: bool
  sl_reading :: bool
  sl_probing :: bool

text \<open>The fields of \<open>StreamConfig\<close> that these operations read; \<open>cfg_decoupled\<close> is \<open>assignedDecoupledEnabled\<close>,
  \<open>cfg_boundedRescue\<close> that bounded rescue is configured and enabled.\<close>

record LegConfig =
  cfg_PathRole :: StreamPathRole
  cfg_ExperimentalPathAware :: bool
  cfg_NotifyPeerOnActivate :: bool
  cfg_BandwidthMbps :: "u32 list"
  cfg_decoupled :: bool
  cfg_boundedRescue :: bool

record StreamEngine =
  se_cfg :: LegConfig
  se_maxActiveLegs :: nat
  se_configError :: string
  se_legHeap :: "streamLeg list"
  se_legs :: "(u8, nat) gomap"
  se_retiring :: "(u8, nat) gomap"
  se_reapers :: "nat list"
  se_legGeneration :: "u64 list"
  se_pathRTTCache :: "streamRTTProbeCache option"
  se_pathSessionID :: SessionID
  se_pathSessionSet :: bool
  se_drainSessionID :: SessionID
  se_drainSessionSet :: bool
  se_txLedger :: StreamTXLedger
  se_startup :: "streamStartupGate option"
  se_done :: bool
  se_closeErr :: "smp3_error option"
  se_appClosed :: bool
  se_pipeClosed :: bool
  se_closing :: bool
  se_graceful :: bool
  se_finalizing :: bool
  se_active :: bool
  se_recoveryEpoch :: u64
  se_timers :: "u64 list"
  se_retryCh :: bool
  se_spaceWake :: bool
  se_ackForce :: bool
  se_ackWake :: bool
  se_feeders :: "bool list"
  se_reassign :: "u8 list"
  se_capacityResets :: "(u8 \<times> gotime) list"
  se_capacityClosed :: bool
  se_rejoined :: "(u8 \<times> u64) list"
  se_legDown :: "(u8 \<times> smp3_error option) list"
  se_onActivate :: nat

abbreviation sleg :: "StreamEngine \<Rightarrow> nat \<Rightarrow> streamLeg" where "sleg e a \<equiv> se_legHeap e ! a"

definition setLeg :: "nat \<Rightarrow> (streamLeg \<Rightarrow> streamLeg) \<Rightarrow> StreamEngine \<Rightarrow> StreamEngine" where
  "setLeg a g e = e\<lparr>se_legHeap := (se_legHeap e)[a := g (se_legHeap e ! a)]\<rparr>"

definition noIdentity :: StreamPathIdentity where
  "noIdentity = \<lparr>pi_SessionID = replicate 16 0, pi_LegID = 0, pi_CarrierID = [], pi_Generation = 0, pi_Direction = 0\<rparr>"

section \<open>Wake-ups\<close>

definition kickRetry :: "StreamEngine \<Rightarrow> StreamEngine" where "kickRetry e = e\<lparr>se_retryCh := True\<rparr>"

definition kickSpaceSource :: "StreamEngine \<Rightarrow> StreamEngine" where "kickSpaceSource e = e\<lparr>se_spaceWake := True\<rparr>"

definition kickAck :: "StreamEngine \<Rightarrow> StreamEngine" where "kickAck e = e\<lparr>se_ackWake := True\<rparr>"

definition engineForceAck :: "StreamEngine \<Rightarrow> StreamEngine" where "engineForceAck e = kickAck (e\<lparr>se_ackForce := True\<rparr>)"

section \<open>Looking up legs\<close>

definition getLeg :: "u8 \<Rightarrow> StreamEngine \<Rightarrow> nat option" where "getLeg i e = mget (se_legs e) i"

definition engineHasLeg :: "u8 \<Rightarrow> StreamEngine \<Rightarrow> bool" where "engineHasLeg i e \<longleftrightarrow> getLeg i e \<noteq> None"

definition legCount :: "StreamEngine \<Rightarrow> nat" where "legCount e = length (se_legs e)"

definition availableStreamLegs :: "StreamEngine \<Rightarrow> nat list" where
  "availableStreamLegs e =
     sort_key (\<lambda>a. sl_id (sleg e a))
       (filter (\<lambda>a. \<not> sl_closed (sleg e a) \<and> \<not> sl_draining (sleg e a)) (map snd (se_legs e)))"

section \<open>RTT probes of a leg\<close>

definition pathDirections :: "StreamEngine \<Rightarrow> (StreamRTTDirection \<times> StreamRTTDirection) option" where
  "pathDirections e =
     (if cfg_PathRole (se_cfg e) = StreamPathRoleClient then Some (StreamRTTClientToServer, StreamRTTServerToClient)
      else if cfg_PathRole (se_cfg e) = StreamPathRoleServer then Some (StreamRTTServerToClient, StreamRTTClientToServer)
      else None)"

text \<open>The control queue holds eight entries.\<close>

definition pushControl :: "legControl \<Rightarrow> streamLeg \<Rightarrow> streamLeg" where
  "pushControl c l = l\<lparr>sl_control := sl_control l @ [c]\<rparr>"

definition controlRoom :: "streamLeg \<Rightarrow> bool" where "controlRoom l \<longleftrightarrow> length (sl_control l) < 8"

text \<open>\<open>pick\<close>: which ready case the \<open>select\<close> takes when the leg is done and its queue has room.\<close>

definition queuePathRTTProbe :: "bool \<Rightarrow> nat \<Rightarrow> gotime \<Rightarrow> StreamEngine \<Rightarrow> bool \<times> StreamEngine" where
  "queuePathRTTProbe pick a now e =
     (let l = sleg e a
      in case se_pathRTTCache e of
           None \<Rightarrow> (False, e)
         | Some cache \<Rightarrow>
             if \<not> sl_pathRTTEnabled l then (False, e)
             else case startProbeAt (sl_pathIdentity l) now cache of
                    (Inl err, cache1) \<Rightarrow> (False, e\<lparr>se_pathRTTCache := Some cache1\<rparr>)
                  | (Inr (token, wire), cache1) \<Rightarrow>
                      if controlRoom l \<and> (\<not> sl_closed l \<or> pick)
                      then (True, setLeg a (pushControl \<lparr>lc_typ = StreamFramePathRTT, lc_value = 0, lc_data = wire\<rparr>)
                                    (e\<lparr>se_pathRTTCache := Some cache1\<rparr>))
                      else (False, e\<lparr>se_pathRTTCache := Some (snd (cancelProbe (sl_pathIdentity l) token cache1))\<rparr>))"

text \<open>One tick of \<open>pathRTTProbeLoop\<close>.\<close>

definition pathRTTProbeTick :: "bool \<Rightarrow> nat \<Rightarrow> gotime \<Rightarrow> StreamEngine \<Rightarrow> StreamEngine" where
  "pathRTTProbeTick pick a now e =
     (if \<not> sl_probing (sleg e a) then e
      else if se_done e \<or> sl_closed (sleg e a) then setLeg a (\<lambda>l. l\<lparr>sl_probing := False\<rparr>) e
      else snd (queuePathRTTProbe pick a now
                  (e\<lparr>se_pathRTTCache := map_option (\<lambda>c. snd (expirePending now c)) (se_pathRTTCache e)\<rparr>)))"

definition handlePathRTTFrame :: "nat \<Rightarrow> bytes \<Rightarrow> gotime \<Rightarrow> StreamEngine \<Rightarrow> smp3_error option \<times> StreamEngine" where
  "handlePathRTTFrame a wire now e =
     (let l = sleg e a
      in case se_pathRTTCache e of
           None \<Rightarrow> (Some ErrStreamPathNegotiation, e)
         | Some cache \<Rightarrow>
             if \<not> sl_pathRTTEnabled l then (Some ErrStreamPathNegotiation, e)
             else case pathDirections e of
                    None \<Rightarrow> (Some ErrStreamPathRole, e)
                  | Some (_, peerDirection) \<Rightarrow>
                      if length wire \<noteq> StreamRTTMessageSize then (Some ErrStreamPathMessage, e)
                      else if wire ! 9 = StreamRTTProbe then
                        (case acceptProbe (sl_pathBinding l) peerDirection wire cache cache of
                           (Inl err, cache1) \<Rightarrow> (Some err, e\<lparr>se_pathRTTCache := Some cache1\<rparr>)
                         | (Inr echo, cache1) \<Rightarrow>
                             let e1 = e\<lparr>se_pathRTTCache := Some cache1\<rparr>
                             in (None, if controlRoom l
                                       then setLeg a (pushControl \<lparr>lc_typ = StreamFramePathRTT, lc_value = 0, lc_data = echo\<rparr>) e1
                                       else e1))
                      else if wire ! 9 = StreamRTTEcho then
                        (case acceptEchoAt (sl_pathIdentity l) wire now cache cache of
                           (err, cache1) \<Rightarrow>
                             (if err = Some ErrStreamRTTNoPending \<or> err = Some ErrStreamRTTProbeExpired
                                 \<or> err = Some ErrStreamRTTReplay then None else err,
                              e\<lparr>se_pathRTTCache := Some cache1\<rparr>))
                      else (Some ErrStreamPathMessage, e))"

section \<open>Activation\<close>

definition notifyLegActivate :: "nat \<Rightarrow> StreamEngine \<Rightarrow> StreamEngine" where
  "notifyLegActivate a e =
     (if sl_activateQueued (sleg e a) \<or> sl_closed (sleg e a) \<or> \<not> controlRoom (sleg e a) then e
      else setLeg a (\<lambda>l. pushControl \<lparr>lc_typ = StreamFrameActivate, lc_value = 0, lc_data = []\<rparr> (l\<lparr>sl_activateQueued := True\<rparr>)) e)"

definition notifyPeerActivate :: "StreamEngine \<Rightarrow> StreamEngine" where
  "notifyPeerActivate e = (if se_done e then e else fold notifyLegActivate (availableStreamLegs e) e)"

definition activate :: "StreamEngine \<Rightarrow> StreamEngine" where
  "activate e =
     (if se_active e then e
      else let e1 = kickSpaceSource (e\<lparr>se_active := True\<rparr>);
               e2 = (if cfg_NotifyPeerOnActivate (se_cfg e1) then notifyPeerActivate e1 else e1)
           in e2\<lparr>se_onActivate := se_onActivate e2 + 1\<rparr>)"

section \<open>Attaching a leg\<close>

text \<open>\<open>fmt.Sprintf("%x/%d/%d", sessionID, id8, generation)\<close>.\<close>

definition hexDigit :: "nat \<Rightarrow> byte" where "hexDigit n = (if n < 10 then 48 + of_nat n else 87 + of_nat n)"

definition hexBytes :: "bytes \<Rightarrow> bytes" where
  "hexBytes bs = concat (map (\<lambda>b. [hexDigit (unat b div 16), hexDigit (unat b mod 16)]) bs)"

fun decimal :: "nat \<Rightarrow> bytes" where
  "decimal n = (if n < 10 then [48 + of_nat n] else decimal (n div 10) @ [48 + of_nat (n mod 10)])"

declare decimal.simps [simp del]

definition decimalString :: "nat \<Rightarrow> string" where "decimalString n = map (\<lambda>b. char_of (unat b)) (decimal n)"

definition carrierID :: "SessionID \<Rightarrow> u8 \<Rightarrow> u64 \<Rightarrow> bytes" where
  "carrierID sid i generation = hexBytes sid @ [47] @ decimal (unat i) @ [47] @ decimal (unat generation)"

datatype attach_outcome = AttachFailed smp3_error | AttachedLeg nat | AttachWaits nat

text \<open>The path-RTT part of an attach: the binding and identity of the new carrier.\<close>

definition attachPathRTT ::
  "u8 \<Rightarrow> StreamPathAuth \<Rightarrow> u64 \<Rightarrow> gotime \<Rightarrow> StreamEngine \<Rightarrow> (smp3_error + StreamPathBinding \<times> StreamPathIdentity) \<times> StreamEngine" where
  "attachPathRTT i auth generation now e =
     (case pathDirections e of
        None \<Rightarrow> (Inl ErrStreamPathRole, e)
      | Some (localDirection, _) \<Rightarrow>
          if se_pathSessionSet e \<and> se_pathSessionID e \<noteq> sessionID auth then (Inl ErrStreamPathMessage, e)
          else let binding = \<lparr>pb_SessionID = sessionID auth, pb_LegID = i, pb_CarrierID = carrierID (sessionID auth) i generation,
                              pb_Generation = generation\<rparr>;
                   cache = the (se_pathRTTCache e)
               in if \<not> validFor auth binding then (Inl ErrStreamPathMessage, e)
                  else case bindLeg binding auth cache of
                         (Some err, cache1) \<Rightarrow> (Inl err, e\<lparr>se_pathRTTCache := Some cache1\<rparr>)
                       | (None, cache1) \<Rightarrow>
                           let identity = \<lparr>pi_SessionID = sessionID auth, pi_LegID = i, pi_CarrierID = pb_CarrierID binding,
                                           pi_Generation = generation, pi_Direction = localDirection\<rparr>
                           in (Inr (binding, identity),
                               e\<lparr>se_pathSessionID := sessionID auth, se_pathSessionSet := True,
                                 se_pathRTTCache := Some (snd (recordHandshakeSample binding identity auth now cache1))\<rparr>))"

text \<open>The coordinated-drain part.\<close>

definition attachDrain :: "StreamPathAuth \<Rightarrow> StreamEngine \<Rightarrow> smp3_error option \<times> StreamEngine" where
  "attachDrain auth e =
     (if se_drainSessionSet e \<and> se_drainSessionID e \<noteq> sessionID auth then (Some ErrStreamDrainMessage, e)
      else if drainBinding auth = replicate 16 0 then (Some ErrStreamDrainMessage, e)
      else (None, e\<lparr>se_drainSessionID := sessionID auth, se_drainSessionSet := True\<rparr>))"

definition newLeg ::
  "u8 \<Rightarrow> u64 \<Rightarrow> StreamPathBinding \<times> StreamPathIdentity \<Rightarrow> bool \<Rightarrow> bool \<Rightarrow> StreamPathAuth option \<Rightarrow> u32 \<Rightarrow> StreamEngine \<Rightarrow> streamLeg" where
  "newLeg i generation path rttOn drainOn auth priorMbps e =
     \<lparr>sl_id = i, sl_generation = generation, sl_pathBinding = fst path, sl_pathIdentity = snd path, sl_pathRTTEnabled = rttOn,
      sl_drainAuth = (case auth of Some a \<Rightarrow> a | None \<Rightarrow> noAuth),
      sl_drainBinding = (case auth of Some a \<Rightarrow> drainBinding a | None \<Rightarrow> replicate 16 0), sl_drainEnabled = drainOn,
      sl_priorMbps = (if priorMbps > 0 then priorMbps
                      else if unat i < length (cfg_BandwidthMbps (se_cfg e)) \<and> cfg_BandwidthMbps (se_cfg e) ! unat i > 0
                      then cfg_BandwidthMbps (se_cfg e) ! unat i else 1),
      sl_draining = False, sl_closed = False, sl_closeErr = None, sl_retired = False, sl_activateQueued = False,
      sl_control = [], sl_send = 0, sl_rescue = 0, sl_debugWriterState = 0,
      sl_writing = True, sl_reading = True, sl_probing = rttOn\<rparr>"

text \<open>What the locked section of an attach does to the registry.\<close>

definition registerLeg :: "streamLeg \<Rightarrow> gotime \<Rightarrow> StreamEngine \<Rightarrow> StreamEngine" where
  "registerLeg l now e =
     (let i = sl_id l; a = length (se_legHeap e)
      in e\<lparr>se_legHeap := se_legHeap e @ [l], se_legs := mput i a (se_legs e),
           se_feeders := (if cfg_decoupled (se_cfg e) then (se_feeders e)[unat i := True] else se_feeders e),
           se_legGeneration := (se_legGeneration e)[unat i := sl_generation l],
           se_rejoined := se_rejoined e @ [(i, sl_generation l)],
           se_capacityResets := se_capacityResets e @ [(i, now)]\<rparr>)"

text \<open>What follows outside the lock.\<close>

definition announceLeg :: "bool \<Rightarrow> nat \<Rightarrow> gotime \<Rightarrow> StreamEngine \<Rightarrow> StreamEngine" where
  "announceLeg pick a now e =
     (let i = sl_id (sleg e a);
          e1 = (if sl_pathRTTEnabled (sleg e a) then snd (queuePathRTTProbe pick a now e) else e);
          e2 = e1\<lparr>se_recoveryEpoch := se_recoveryEpoch e1 + 1,
                  se_startup := map_option (\<lambda>g. startupNotify (Some i) (tele (markStartupAttached i now) g)) (se_startup e1)\<rparr>;
          e3 = engineForceAck (kickSpaceSource (kickRetry e2))
      in if se_active e3 \<and> cfg_NotifyPeerOnActivate (se_cfg e3) then notifyPeerActivate e3 else e3)"

text \<open>One pass of the loop of \<open>attachLeg\<close>; \<open>AttachWaits a\<close> waits for the retirement of carrier \<open>a\<close>.\<close>

definition attachLeg ::
  "bool \<Rightarrow> LegID \<Rightarrow> StreamPathAuth option \<Rightarrow> u32 \<Rightarrow> gotime \<Rightarrow> StreamEngine \<Rightarrow> attach_outcome \<times> StreamEngine" where
  "attachLeg pick i auth priorMbps now e =
     (if se_configError e \<noteq> [] then (AttachFailed (StreamErr (se_configError e)), e)
      else if unat i \<ge> se_maxActiveLegs e then (AttachFailed errInvalidLeg, e)
      else if se_finalizing e then (AttachFailed ErrStreamClosed, e)
      else if se_done e then (AttachFailed ErrStreamClosed, e)
      else if mget (se_legs e) i \<noteq> None then (AttachFailed (StreamErr ''duplicate multipath leg''), e)
      else case mget (se_retiring e) i of
             Some a \<Rightarrow> (AttachWaits a, e)
           | None \<Rightarrow>
               let previousGeneration = se_legGeneration e ! unat i;
                   generation = previousGeneration + 1;
                   rttOn = (case auth of Some a \<Rightarrow> PathRTTEnabled a | None \<Rightarrow> False);
                   drainOn = (case auth of Some a \<Rightarrow> CoordinatedDrainEnabled a | None \<Rightarrow> False)
               in if previousGeneration = -1 then (AttachFailed ErrStreamRTTGenerationReuse, e)
                  else if auth \<noteq> None \<and> \<not> rttOn \<and> \<not> drainOn then (AttachFailed ErrStreamPathNegotiation, e)
                  else if rttOn \<and> (\<not> cfg_ExperimentalPathAware (se_cfg e) \<or> se_pathRTTCache e = None)
                  then (AttachFailed ErrStreamPathNegotiation, e)
                  else case (if rttOn then attachPathRTT i (the auth) generation now e else (Inr (noBinding, noIdentity), e)) of
                         (Inl err, e1) \<Rightarrow> (AttachFailed err, e1)
                       | (Inr path, e1) \<Rightarrow>
                           (case (if drainOn then attachDrain (the auth) e1 else (None, e1)) of
                              (Some err, e2) \<Rightarrow> (AttachFailed err, e2)
                            | (None, e2) \<Rightarrow>
                                let a = length (se_legHeap e2)
                                in (AttachedLeg a, announceLeg pick a now
                                      (registerLeg (newLeg i generation path rttOn drainOn auth priorMbps e2) now e2))))"

text \<open>The exported forms.\<close>

definition AttachStreamLeg :: "bool \<Rightarrow> LegID \<Rightarrow> gotime \<Rightarrow> StreamEngine \<Rightarrow> attach_outcome \<times> StreamEngine" where
  "AttachStreamLeg pick i now e = attachLeg pick i None 0 now e"

definition AttachLegWithBandwidthPrior :: "bool \<Rightarrow> LegID \<Rightarrow> u32 \<Rightarrow> gotime \<Rightarrow> StreamEngine \<Rightarrow> attach_outcome \<times> StreamEngine" where
  "AttachLegWithBandwidthPrior pick i mbps now e = attachLeg pick i None mbps now e"

definition AttachLegWithPathAuthAndBandwidthPrior ::
  "bool \<Rightarrow> LegID \<Rightarrow> StreamPathAuth \<Rightarrow> u32 \<Rightarrow> gotime \<Rightarrow> StreamEngine \<Rightarrow> attach_outcome \<times> StreamEngine" where
  "AttachLegWithPathAuthAndBandwidthPrior pick i auth mbps now e =
     (if PathRTTEnabled auth \<and> (\<not> cfg_ExperimentalPathAware (se_cfg e) \<or> se_pathRTTCache e = None)
      then (AttachFailed ErrStreamPathNegotiation, e)
      else if \<not> PathRTTEnabled auth \<and> \<not> CoordinatedDrainEnabled auth then (AttachFailed ErrStreamPathNegotiation, e)
      else attachLeg pick i (Some auth) mbps now e)"

definition AttachLegWithProtocolAuth :: "bool \<Rightarrow> LegID \<Rightarrow> StreamPathAuth \<Rightarrow> gotime \<Rightarrow> StreamEngine \<Rightarrow> attach_outcome \<times> StreamEngine" where
  "AttachLegWithProtocolAuth pick i auth now e =
     (if PathRTTEnabled auth \<and> (\<not> cfg_ExperimentalPathAware (se_cfg e) \<or> se_pathRTTCache e = None)
      then (AttachFailed ErrStreamPathNegotiation, e)
      else if \<not> PathRTTEnabled auth \<and> \<not> CoordinatedDrainEnabled auth then (AttachFailed ErrStreamPathNegotiation, e)
      else attachLeg pick i (Some auth) 0 now e)"

definition AttachLegWithPathAuth :: "bool \<Rightarrow> LegID \<Rightarrow> StreamPathAuth \<Rightarrow> gotime \<Rightarrow> StreamEngine \<Rightarrow> attach_outcome \<times> StreamEngine" where
  "AttachLegWithPathAuth pick i auth now e = AttachLegWithProtocolAuth pick i auth now e"

definition SetLegBandwidthPrior :: "LegID \<Rightarrow> u32 \<Rightarrow> StreamEngine \<Rightarrow> bool \<times> StreamEngine" where
  "SetLegBandwidthPrior i mbps e =
     (if mbps = 0 then (False, e)
      else case getLeg i e of
             None \<Rightarrow> (False, e)
           | Some a \<Rightarrow> if sl_closed (sleg e a) then (False, e)
                       else (True, setLeg a (\<lambda>l. l\<lparr>sl_priorMbps := mbps\<rparr>) e))"

section \<open>Losing a leg\<close>

text \<open>\<open>streamLeg.close\<close>: once only.\<close>

definition closeStreamLeg :: "smp3_error option \<Rightarrow> streamLeg \<Rightarrow> streamLeg" where
  "closeStreamLeg err l = (if sl_closed l then l else l\<lparr>sl_closed := True, sl_closeErr := err\<rparr>)"

text \<open>The registry part: the binding is invalidated, the carrier closed and moved to the retiring ones.\<close>

definition invalidatePath :: "nat \<Rightarrow> StreamEngine \<Rightarrow> StreamEngine" where
  "invalidatePath a e =
     (if sl_pathRTTEnabled (sleg e a)
      then e\<lparr>se_pathRTTCache := map_option (\<lambda>c. snd (invalidateLeg (sl_pathBinding (sleg e a)) c)) (se_pathRTTCache e)\<rparr>
      else e)"

definition moveToRetiring :: "nat \<Rightarrow> StreamEngine \<Rightarrow> StreamEngine" where
  "moveToRetiring a e =
     (let i = sl_id (sleg e a)
      in e\<lparr>se_legs := mdel i (se_legs e), se_retiring := mput i a (se_retiring e), se_reapers := a # se_reapers e\<rparr>)"

definition HasOutstandingEngine :: "StreamEngine \<Rightarrow> bool" where
  "HasOutstandingEngine e \<longleftrightarrow> HasOutstanding (se_txLedger e)"

definition handleStreamLegFailure :: "nat \<Rightarrow> smp3_error option \<Rightarrow> StreamEngine \<Rightarrow> StreamEngine" where
  "handleStreamLegFailure a err e =
     (let e1 = setLeg a (closeStreamLeg err) (invalidatePath a e); i = sl_id (sleg e a)
      in if mget (se_legs e1) i \<noteq> Some a then e1
         else let e2 = moveToRetiring a e1;
                  e3 = e2\<lparr>se_txLedger := InvalidateLeg i (se_txLedger e2),
                          se_reassign := (if cfg_decoupled (se_cfg e2) then se_reassign e2 @ [i] else se_reassign e2)\<rparr>
              in if se_done e3 then e3
                 else if se_finalizing e3 then e3
                 else if se_closing e3 \<and> \<not> HasOutstandingEngine e3 then e3
                 else let e4 = (if i = 0 \<and> \<not> se_active e3 then activate e3 else e3);
                          e5 = e4\<lparr>se_legDown := (i, err) # se_legDown e4\<rparr>;
                          e6 = engineForceAck (kickSpaceSource (kickRetry e5))
                      in if se_legs e2 = []
                         then e6\<lparr>se_recoveryEpoch := se_recoveryEpoch e6 + 1,
                                 se_timers := (se_recoveryEpoch e6 + 1) # se_timers e6\<rparr>
                         else e6)"

definition ReplaceStreamLeg :: "LegID \<Rightarrow> smp3_error option \<Rightarrow> StreamEngine \<Rightarrow> bool \<times> StreamEngine" where
  "ReplaceStreamLeg i err e =
     (case getLeg i e of None \<Rightarrow> (False, e) | Some a \<Rightarrow> (True, handleStreamLegFailure a err e))"

text \<open>The goroutine that waits for the workers of a carrier that left the registry.\<close>

definition retireStreamLeg :: "nat \<Rightarrow> StreamEngine \<Rightarrow> StreamEngine" where
  "retireStreamLeg a e =
     (let i = sl_id (sleg e a);
          e1 = (if mget (se_retiring e) i = Some a then e\<lparr>se_retiring := mdel i (se_retiring e)\<rparr> else e)
      in kickRetry (setLeg a (\<lambda>l. l\<lparr>sl_retired := True\<rparr>) (e1\<lparr>se_reapers := removeAll a (se_reapers e1)\<rparr>)))"

text \<open>\<open>WaitLegRetired\<close>: \<open>None\<close> is a call that keeps waiting.\<close>

definition WaitLegRetired :: "LegID \<Rightarrow> StreamEngine \<Rightarrow> smp3_error option option" where
  "WaitLegRetired i e =
     (if unat i \<ge> se_maxActiveLegs e then Some (Some ErrStreamLegNotFound)
      else if mget (se_legs e) i \<noteq> None then Some (Some (StreamErr ''multipath leg is still active''))
      else case mget (se_retiring e) i of
             None \<Rightarrow> Some None
           | Some a \<Rightarrow> if sl_retired (sleg e a) then Some None
                       else if se_done e then Some (Some ErrStreamClosed) else None)"

section \<open>Shutting down\<close>

definition releaseCapacityProvider :: "StreamEngine \<Rightarrow> StreamEngine" where
  "releaseCapacityProvider e = e\<lparr>se_capacityClosed := True\<rparr>"

definition failWithAppClose :: "smp3_error option \<Rightarrow> bool \<Rightarrow> StreamEngine \<Rightarrow> StreamEngine" where
  "failWithAppClose err closeApp e =
     (let err1 = (case err of Some x \<Rightarrow> x | None \<Rightarrow> ErrStreamClosed);
          e0 = releaseCapacityProvider e;
          e1 = e0\<lparr>se_pathRTTCache := map_option close_cache (se_pathRTTCache e0)\<rparr>
      in if se_done e1 then e1
         else fold (\<lambda>(_, a). setLeg a (closeStreamLeg (Some err1))) (se_legs e1)
                (e1\<lparr>se_startup := map_option markSessionClosed (se_startup e1), se_finalizing := True,
                    se_closeErr := Some err1, se_done := True, se_appClosed := (se_appClosed e1 \<or> closeApp),
                    se_pipeClosed := True\<rparr>))"

definition engineFail :: "smp3_error option \<Rightarrow> StreamEngine \<Rightarrow> StreamEngine" where
  "engineFail err e = failWithAppClose err True e"

definition engineClose :: "StreamEngine \<Rightarrow> StreamEngine" where
  "engineClose e = engineFail (Some ErrStreamClosed) (releaseCapacityProvider (e\<lparr>se_closing := True\<rparr>))"

definition finishGracefulClose :: "smp3_error option \<Rightarrow> StreamEngine \<Rightarrow> StreamEngine" where
  "finishGracefulClose err e =
     (let err1 = (case err of Some x \<Rightarrow> x | None \<Rightarrow> IOErr EOF)
      in if err1 \<noteq> IOErr EOF then engineFail (Some err1) e else failWithAppClose (Some err1) False e)"

definition beginFinalizing :: "StreamEngine \<Rightarrow> bool \<times> StreamEngine" where
  "beginFinalizing e = (if se_done e then (False, e) else (True, e\<lparr>se_finalizing := True\<rparr>))"

text \<open>A recovery timer of an epoch fires.\<close>

definition failIfNoStreamLegRecovers :: "u64 \<Rightarrow> StreamEngine \<Rightarrow> StreamEngine" where
  "failIfNoStreamLegRecovers epoch e =
     (let e1 = e\<lparr>se_timers := removeAll epoch (se_timers e)\<rparr>
      in if se_done e then e1
         else if se_recoveryEpoch e = epoch \<and> legCount e = 0
         then engineFail (Some (StreamErr ''multipath recovery timeout: no transport leg available'')) e1
         else e1)"

section \<open>A new engine\<close>

definition DefaultMaxActiveStreamLegs :: nat where "DefaultMaxActiveStreamLegs = 16"

definition normalizeMaxActiveStreamLegs :: "int \<Rightarrow> nat \<times> string" where
  "normalizeMaxActiveStreamLegs configured =
     (if configured = 0 then (DefaultMaxActiveStreamLegs, [])
      else if configured < 1 \<or> configured > int MaxStreamLegIDCount
      then (DefaultMaxActiveStreamLegs, ''max_active_legs must be between 1 and 256'')
      else (nat configured, []))"

text \<open>The part of \<open>NewStreamEngine\<close> that these operations see. \<open>startNow\<close> is the condition under which the
  engine activates at once.\<close>

definition NewStreamEngine :: "LegConfig \<Rightarrow> int \<Rightarrow> StartupConfig \<Rightarrow> bool \<Rightarrow> StreamEngine" where
  "NewStreamEngine cfg configuredLegs startup startNow =
     (let (n, configError0) = normalizeMaxActiveStreamLegs configuredLegs;
          configError1 = (if unat (sc_StartupPreferredLeg startup) \<ge> n
                          then ''startup_preferred_leg must be less than max_active_legs ('' @ decimalString n @ '')''
                          else configError0);
          configError = (if cfg_boundedRescue cfg \<and> n > 2 then ''bounded rescue currently supports at most two active legs''
                         else configError1);
          e = \<lparr>se_cfg = cfg, se_maxActiveLegs = n, se_configError = configError, se_legHeap = [], se_legs = [],
               se_retiring = [], se_reapers = [], se_legGeneration = replicate n 0,
               se_pathRTTCache = (if cfg_ExperimentalPathAware cfg \<and> (cfg_PathRole cfg = StreamPathRoleClient
                                     \<or> cfg_PathRole cfg = StreamPathRoleServer)
                                  then Some (newStreamRTTProbeCacheForLegs (int n)) else None),
               se_pathSessionID = replicate 16 0, se_pathSessionSet = False, se_drainSessionID = replicate 16 0,
               se_drainSessionSet = False, se_txLedger = newStreamTXLedger (int n),
               se_startup = newStreamStartupGate (startup\<lparr>sc_MaxActiveLegs := n\<rparr>) None,
               se_done = False, se_closeErr = None, se_appClosed = False, se_pipeClosed = False, se_closing = False,
               se_graceful = False, se_finalizing = False, se_active = False, se_recoveryEpoch = 0, se_timers = [],
               se_retryCh = False, se_spaceWake = False, se_ackForce = False, se_ackWake = False,
               se_feeders = replicate n False, se_reassign = [], se_capacityResets = [], se_capacityClosed = False,
               se_rejoined = [], se_legDown = [], se_onActivate = 0\<rparr>
      in if startNow then activate e else e)"

section \<open>The registry invariant\<close>

definition legBusy :: "streamLeg \<Rightarrow> bool" where
  "legBusy l \<longleftrightarrow> sl_writing l \<or> sl_reading l \<or> sl_probing l"

text \<open>What the invariants read of a leg.\<close>

definition lview :: "streamLeg \<Rightarrow> u8 \<times> u64 \<times> bool \<times> bool \<times> bool \<times> bytes \<times> bool" where
  "lview l = (sl_id l, sl_generation l, sl_closed l, legBusy l, sl_drainEnabled l, sl_drainBinding l, sl_draining l)"

text \<open>A registered leg has its own id and the newest generation of that id, and is open while the engine
  is; an id is registered or retiring, never both; a leg whose workers run is one of the two; the
  generations of an id increase in the order of attachment.\<close>

definition legs_inv :: "StreamEngine \<Rightarrow> bool" where
  "legs_inv e \<longleftrightarrow> mwf (se_legs e) \<and> mwf (se_retiring e)
     \<and> length (se_legGeneration e) = se_maxActiveLegs e
     \<and> (\<forall>i a. mget (se_legs e) i = Some a \<longrightarrow> a < length (se_legHeap e) \<and> sl_id (sleg e a) = i
          \<and> mget (se_retiring e) i = None \<and> sl_generation (sleg e a) = se_legGeneration e ! unat i
          \<and> (sl_closed (sleg e a) \<longrightarrow> se_done e))
     \<and> (\<forall>i a. mget (se_retiring e) i = Some a \<longrightarrow> a < length (se_legHeap e) \<and> sl_id (sleg e a) = i
          \<and> sl_closed (sleg e a) \<and> a \<in> set (se_reapers e))
     \<and> (\<forall>a < length (se_legHeap e). unat (sl_id (sleg e a)) < se_maxActiveLegs e
          \<and> sl_generation (sleg e a) \<le> se_legGeneration e ! unat (sl_id (sleg e a))
          \<and> (legBusy (sleg e a) \<longrightarrow> mget (se_legs e) (sl_id (sleg e a)) = Some a
               \<or> mget (se_retiring e) (sl_id (sleg e a)) = Some a))
     \<and> (\<forall>a b. a < b \<and> b < length (se_legHeap e) \<and> sl_id (sleg e a) = sl_id (sleg e b)
          \<longrightarrow> sl_generation (sleg e a) < sl_generation (sleg e b))"

lemma legs_invD:
  assumes "legs_inv e"
  shows "mwf (se_legs e)" "mwf (se_retiring e)" "length (se_legGeneration e) = se_maxActiveLegs e"
    "mget (se_legs e) i = Some a \<Longrightarrow> a < length (se_legHeap e) \<and> sl_id (sleg e a) = i
       \<and> mget (se_retiring e) i = None \<and> sl_generation (sleg e a) = se_legGeneration e ! unat i
       \<and> (sl_closed (sleg e a) \<longrightarrow> se_done e)"
    "mget (se_retiring e) i = Some a \<Longrightarrow> a < length (se_legHeap e) \<and> sl_id (sleg e a) = i
       \<and> sl_closed (sleg e a) \<and> a \<in> set (se_reapers e)"
    "a < length (se_legHeap e) \<Longrightarrow> unat (sl_id (sleg e a)) < se_maxActiveLegs e
       \<and> sl_generation (sleg e a) \<le> se_legGeneration e ! unat (sl_id (sleg e a))
       \<and> (legBusy (sleg e a) \<longrightarrow> mget (se_legs e) (sl_id (sleg e a)) = Some a
            \<or> mget (se_retiring e) (sl_id (sleg e a)) = Some a)"
    "a < b \<Longrightarrow> b < length (se_legHeap e) \<Longrightarrow> sl_id (sleg e a) = sl_id (sleg e b)
       \<Longrightarrow> sl_generation (sleg e a) < sl_generation (sleg e b)"
  using assms unfolding legs_inv_def by auto

lemma lview_nth:
  assumes "map lview xs = map lview ys" and "a < length ys"
  shows "sl_id (xs ! a) = sl_id (ys ! a)" "sl_generation (xs ! a) = sl_generation (ys ! a)"
    "sl_closed (xs ! a) = sl_closed (ys ! a)" "legBusy (xs ! a) = legBusy (ys ! a)"
    "sl_drainEnabled (xs ! a) = sl_drainEnabled (ys ! a)" "sl_drainBinding (xs ! a) = sl_drainBinding (ys ! a)"
    "sl_draining (xs ! a) = sl_draining (ys ! a)"
proof -
  have "length xs = length ys" using assms(1) map_eq_imp_length_eq by blast
  then have "lview (xs ! a) = lview (ys ! a)" using assms by (metis nth_map)
  then show "sl_id (xs ! a) = sl_id (ys ! a)" "sl_generation (xs ! a) = sl_generation (ys ! a)"
    "sl_closed (xs ! a) = sl_closed (ys ! a)" "legBusy (xs ! a) = legBusy (ys ! a)"
    "sl_drainEnabled (xs ! a) = sl_drainEnabled (ys ! a)" "sl_drainBinding (xs ! a) = sl_drainBinding (ys ! a)"
    "sl_draining (xs ! a) = sl_draining (ys ! a)" by (simp_all add: lview_def)
qed

text \<open>The registry, as far as the invariant reads it.\<close>

definition sameRegistry :: "StreamEngine \<Rightarrow> StreamEngine \<Rightarrow> bool" where
  "sameRegistry e e' \<longleftrightarrow> map lview (se_legHeap e') = map lview (se_legHeap e) \<and> se_legs e' = se_legs e
     \<and> se_retiring e' = se_retiring e \<and> se_reapers e' = se_reapers e \<and> se_legGeneration e' = se_legGeneration e
     \<and> se_maxActiveLegs e' = se_maxActiveLegs e \<and> se_done e' = se_done e \<and> se_cfg e' = se_cfg e"

lemma sameRegistry_refl [simp]: "sameRegistry e e"
  by (simp add: sameRegistry_def)

lemma sameRegistry_trans [trans]: "sameRegistry e e' \<Longrightarrow> sameRegistry e' e'' \<Longrightarrow> sameRegistry e e''"
  by (simp add: sameRegistry_def)

lemma same_fields [simp]:
  "sameRegistry e (se_pathRTTCache_update (\<lambda>_. v0) e') = sameRegistry e e'"
  "sameRegistry e (se_pathSessionID_update (\<lambda>_. v1) e') = sameRegistry e e'"
  "sameRegistry e (se_pathSessionSet_update (\<lambda>_. v2) e') = sameRegistry e e'"
  "sameRegistry e (se_drainSessionID_update (\<lambda>_. v3) e') = sameRegistry e e'"
  "sameRegistry e (se_drainSessionSet_update (\<lambda>_. v4) e') = sameRegistry e e'"
  "sameRegistry e (se_txLedger_update (\<lambda>_. v5) e') = sameRegistry e e'"
  "sameRegistry e (se_startup_update (\<lambda>_. v6) e') = sameRegistry e e'"
  "sameRegistry e (se_closeErr_update (\<lambda>_. v7) e') = sameRegistry e e'"
  "sameRegistry e (se_appClosed_update (\<lambda>_. v8) e') = sameRegistry e e'"
  "sameRegistry e (se_pipeClosed_update (\<lambda>_. v9) e') = sameRegistry e e'"
  "sameRegistry e (se_closing_update (\<lambda>_. v10) e') = sameRegistry e e'"
  "sameRegistry e (se_graceful_update (\<lambda>_. v11) e') = sameRegistry e e'"
  "sameRegistry e (se_finalizing_update (\<lambda>_. v12) e') = sameRegistry e e'"
  "sameRegistry e (se_active_update (\<lambda>_. v13) e') = sameRegistry e e'"
  "sameRegistry e (se_recoveryEpoch_update (\<lambda>_. v14) e') = sameRegistry e e'"
  "sameRegistry e (se_timers_update (\<lambda>_. v15) e') = sameRegistry e e'"
  "sameRegistry e (se_retryCh_update (\<lambda>_. v16) e') = sameRegistry e e'"
  "sameRegistry e (se_spaceWake_update (\<lambda>_. v17) e') = sameRegistry e e'"
  "sameRegistry e (se_ackForce_update (\<lambda>_. v18) e') = sameRegistry e e'"
  "sameRegistry e (se_ackWake_update (\<lambda>_. v19) e') = sameRegistry e e'"
  "sameRegistry e (se_feeders_update (\<lambda>_. v20) e') = sameRegistry e e'"
  "sameRegistry e (se_reassign_update (\<lambda>_. v21) e') = sameRegistry e e'"
  "sameRegistry e (se_capacityResets_update (\<lambda>_. v22) e') = sameRegistry e e'"
  "sameRegistry e (se_capacityClosed_update (\<lambda>_. v23) e') = sameRegistry e e'"
  "sameRegistry e (se_rejoined_update (\<lambda>_. v24) e') = sameRegistry e e'"
  "sameRegistry e (se_legDown_update (\<lambda>_. v25) e') = sameRegistry e e'"
  "sameRegistry e (se_onActivate_update (\<lambda>_. v26) e') = sameRegistry e e'"
  by (simp_all add: sameRegistry_def)

lemma legs_inv_same:
  assumes "legs_inv e" and "sameRegistry e e'"
  shows "legs_inv e'"
proof -
  note D = legs_invD [OF assms(1)]
  have m: "map lview (se_legHeap e') = map lview (se_legHeap e)" and len: "length (se_legHeap e') = length (se_legHeap e)"
    and f: "se_legs e' = se_legs e" "se_retiring e' = se_retiring e" "se_reapers e' = se_reapers e"
    "se_legGeneration e' = se_legGeneration e" "se_maxActiveLegs e' = se_maxActiveLegs e" "se_done e' = se_done e"
    using assms(2) map_eq_imp_length_eq by (auto simp: sameRegistry_def)
  note v = lview_nth [OF m]
  show ?thesis
    unfolding legs_inv_def f len
    using D v by (intro conjI allI impI) (simp_all, (metis less_trans)+)
qed

lemma map_lview_update: "lview (g (xs ! a)) = lview (xs ! a) \<Longrightarrow> map lview (xs[a := g (xs ! a)]) = map lview xs"
  by (metis list_update_id map_update)

lemma same_setLeg: "(\<And>l. lview (g l) = lview l) \<Longrightarrow> sameRegistry e (setLeg a g e)"
  by (simp add: sameRegistry_def setLeg_def map_lview_update)

lemma same_pushControl: "sameRegistry e (setLeg a (pushControl c) e)"
  by (rule same_setLeg) (simp add: pushControl_def lview_def legBusy_def)

lemma same_queuePathRTTProbe: "sameRegistry e (snd (queuePathRTTProbe pick a now e))"
proof -
  have "sameRegistry e (setLeg a (pushControl c) (e\<lparr>se_pathRTTCache := p\<rparr>))" for c p
    using same_pushControl [of "e\<lparr>se_pathRTTCache := p\<rparr>" a c] by (simp add: sameRegistry_def)
  moreover have "sameRegistry e (e\<lparr>se_pathRTTCache := p\<rparr>)" for p by (simp add: sameRegistry_def)
  ultimately show ?thesis by (auto simp: queuePathRTTProbe_def Let_def split: option.splits prod.splits sum.splits)
qed

lemma same_notifyPeerActivate: "sameRegistry e (notifyPeerActivate e)"
proof -
  have one: "sameRegistry e (notifyLegActivate a e)" for a and e :: StreamEngine
    unfolding notifyLegActivate_def
    by (auto intro!: same_setLeg simp: pushControl_def lview_def legBusy_def)
  have "sameRegistry e (fold notifyLegActivate xs e)" for xs
    by (induction xs arbitrary: e) (auto intro: sameRegistry_trans one)
  then show ?thesis by (simp add: notifyPeerActivate_def)
qed

lemma same_activate: "sameRegistry e (activate e)"
proof -
  let ?e1 = "kickSpaceSource (e\<lparr>se_active := True\<rparr>)"
  have "sameRegistry e ?e1" by (simp add: sameRegistry_def kickSpaceSource_def)
  then have "sameRegistry e (notifyPeerActivate ?e1)" by (rule sameRegistry_trans [OF _ same_notifyPeerActivate])
  then show ?thesis by (auto simp: activate_def Let_def sameRegistry_def kickSpaceSource_def)
qed

lemma same_kicks [simp]:
  "sameRegistry e (kickRetry e') = sameRegistry e e'" "sameRegistry e (kickSpaceSource e') = sameRegistry e e'"
  "sameRegistry e (engineForceAck e') = sameRegistry e e'"
  by (simp_all add: sameRegistry_def kickRetry_def kickSpaceSource_def engineForceAck_def kickAck_def)

lemma same_announceLeg: "sameRegistry e (announceLeg pick a now e)"
proof -
  define e1 where "e1 = (if sl_pathRTTEnabled (sleg e a) then snd (queuePathRTTProbe pick a now e) else e)"
  have "sameRegistry e e1" by (simp add: e1_def same_queuePathRTTProbe)
  then have "sameRegistry e (engineForceAck (kickSpaceSource (kickRetry
      (e1\<lparr>se_recoveryEpoch := r, se_startup := s\<rparr>))))" for r s by simp
  then show ?thesis unfolding announceLeg_def Let_def e1_def [symmetric]
    by (simp add: sameRegistry_trans [OF _ same_notifyPeerActivate])
qed

lemma setLeg_frame [simp]:
  "se_legs (setLeg a g e) = se_legs e" "se_retiring (setLeg a g e) = se_retiring e" "se_done (setLeg a g e) = se_done e"
  "se_reapers (setLeg a g e) = se_reapers e" "length (se_legHeap (setLeg a g e)) = length (se_legHeap e)"
  "se_legGeneration (setLeg a g e) = se_legGeneration e" "se_maxActiveLegs (setLeg a g e) = se_maxActiveLegs e"
  "se_cfg (setLeg a g e) = se_cfg e" "se_txLedger (setLeg a g e) = se_txLedger e" "se_active (setLeg a g e) = se_active e"
  "se_pathRTTCache (setLeg a g e) = se_pathRTTCache e" "se_finalizing (setLeg a g e) = se_finalizing e"
  "se_closing (setLeg a g e) = se_closing e" "se_configError (setLeg a g e) = se_configError e"
  "b \<noteq> a \<Longrightarrow> sleg (setLeg a g e) b = sleg e b" "a < length (se_legHeap e) \<Longrightarrow> sleg (setLeg a g e) a = g (sleg e a)"
  by (simp_all add: setLeg_def)

text \<open>A change of one leg that keeps its id and generation, does not reopen it and does not start workers.\<close>

lemma legs_inv_setLeg:
  assumes "legs_inv e"
    and "sl_id (g (sleg e a)) = sl_id (sleg e a)" and "sl_generation (g (sleg e a)) = sl_generation (sleg e a)"
    and "legBusy (g (sleg e a)) \<Longrightarrow> legBusy (sleg e a)" and "sl_closed (sleg e a) \<Longrightarrow> sl_closed (g (sleg e a))"
    and "sl_closed (g (sleg e a)) \<Longrightarrow> sl_closed (sleg e a) \<or> mget (se_legs e) (sl_id (sleg e a)) \<noteq> Some a \<or> se_done e"
  shows "legs_inv (setLeg a g e)"
proof (cases "a < length (se_legHeap e)")
  case True
  note D = legs_invD [OF assms(1)]
  have v: "sl_id (sleg (setLeg a g e) b) = sl_id (sleg e b)" "sl_generation (sleg (setLeg a g e) b) = sl_generation (sleg e b)"
    "legBusy (sleg (setLeg a g e) b) \<Longrightarrow> legBusy (sleg e b)" "sl_closed (sleg e b) \<Longrightarrow> sl_closed (sleg (setLeg a g e) b)"
    "sl_closed (sleg (setLeg a g e) b) \<Longrightarrow> sl_closed (sleg e b) \<or> b = a \<and> (mget (se_legs e) (sl_id (sleg e a)) \<noteq> Some a \<or> se_done e)" for b
    using assms(2-6) True by (cases "b = a"; auto)+
  have "sl_closed (sleg (setLeg a g e) b) \<longrightarrow> se_done e" if "mget (se_legs e) i = Some b" for i b
    using v(5) [of b] D(4) [OF that] that by auto
  then show ?thesis
    unfolding legs_inv_def setLeg_frame v using D v(3,4) by (intro conjI allI impI) auto
qed (use assms(1) in \<open>simp add: setLeg_def list_update_beyond\<close>)

lemma closeStreamLeg_fields [simp]:
  "sl_id (closeStreamLeg err l) = sl_id l" "sl_generation (closeStreamLeg err l) = sl_generation l"
  "legBusy (closeStreamLeg err l) = legBusy l" "sl_closed (closeStreamLeg err l)"
  "sl_pathBinding (closeStreamLeg err l) = sl_pathBinding l" "sl_pathRTTEnabled (closeStreamLeg err l) = sl_pathRTTEnabled l"
  by (simp_all add: closeStreamLeg_def legBusy_def)

lemma less_succ:
  fixes x :: u64
  assumes "x \<noteq> -1"
  shows "x < x + 1"
proof -
  have "1 + x \<noteq> 0" using assms by (metis add_eq_0_iff)
  from unatSuc [OF this] show ?thesis by (simp add: word_less_nat_alt add.commute)
qed

lemma legs_inv_registerLeg:
  assumes "legs_inv e" and "mget (se_legs e) (sl_id l) = None" and "mget (se_retiring e) (sl_id l) = None"
    and "unat (sl_id l) < se_maxActiveLegs e" and "sl_generation l = se_legGeneration e ! unat (sl_id l) + 1"
    and "se_legGeneration e ! unat (sl_id l) \<noteq> -1" and "\<not> sl_closed l"
  shows "legs_inv (registerLeg l now e)"
proof -
  note D = legs_invD [OF assms(1)]
  let ?e = "registerLeg l now e" and ?n = "length (se_legHeap e)" and ?i = "sl_id l"
  have f: "se_legHeap ?e = se_legHeap e @ [l]" "mget (se_legs ?e) j = (if j = ?i then Some ?n else mget (se_legs e) j)"
    "se_retiring ?e = se_retiring e" "se_reapers ?e = se_reapers e" "se_maxActiveLegs ?e = se_maxActiveLegs e" "se_done ?e = se_done e"
    "se_legGeneration ?e = (se_legGeneration e)[unat ?i := sl_generation l]" for j
    by (simp_all add: registerLeg_def Let_def update_conv')
  have wf: "mwf (se_legs ?e)" using D(1) by (simp add: registerLeg_def Let_def)
  have up: "se_legGeneration e ! unat ?i < sl_generation l"
    unfolding assms(5) by (rule less_succ [OF assms(6)])
  have old: "sleg ?e b = sleg e b" if "b < ?n" for b using that by (simp add: f nth_append)
  have gen: "se_legGeneration ?e ! unat j = (if j = ?i then sl_generation l else se_legGeneration e ! unat j)"
    if "unat j < se_maxActiveLegs e" for j
    using that assms(4) D(3) by (auto simp: f nth_list_update word_unat_eq_iff)
  have legs: "a < length (se_legHeap ?e) \<and> sl_id (sleg ?e a) = j \<and> mget (se_retiring ?e) j = None
      \<and> sl_generation (sleg ?e a) = se_legGeneration ?e ! unat j \<and> (sl_closed (sleg ?e a) \<longrightarrow> se_done ?e)"
    if "mget (se_legs ?e) j = Some a" for j a
  proof (cases "j = ?i")
    case True
    then show ?thesis using that assms(3,4,7) gen by (auto simp: f nth_append)
  next
    case False
    then have m: "mget (se_legs e) j = Some a" using that by (simp add: f)
    note L = D(4) [OF m]
    then have "unat j < se_maxActiveLegs e" using D(6) by blast
    then show ?thesis using L False gen old [of a] by (simp add: f)
  qed
  have all: "unat (sl_id (sleg ?e a)) < se_maxActiveLegs ?e \<and> sl_generation (sleg ?e a) \<le> se_legGeneration ?e ! unat (sl_id (sleg ?e a))
      \<and> (legBusy (sleg ?e a) \<longrightarrow> mget (se_legs ?e) (sl_id (sleg ?e a)) = Some a \<or> mget (se_retiring ?e) (sl_id (sleg ?e a)) = Some a)"
    if "a < length (se_legHeap ?e)" for a
  proof (cases "a = ?n")
    case True
    then show ?thesis using assms(4) gen by (simp add: f)
  next
    case False
    then have a: "a < ?n" using that by (simp add: f)
    show ?thesis using D(6) [OF a] up gen [of "sl_id (sleg e a)"] assms(2) old [OF a] by (auto simp: f(2,3,5))
  qed
  have order: "sl_generation (sleg ?e a) < sl_generation (sleg ?e b)"
    if "a < b" "b < length (se_legHeap ?e)" "sl_id (sleg ?e a) = sl_id (sleg ?e b)" for a b
  proof (cases "b = ?n")
    case True
    then have a: "a < ?n" "sl_id (sleg e a) = ?i" "sleg ?e b = l" using that by (auto simp: f nth_append)
    then show ?thesis using D(6) [OF a(1)] up old [OF a(1)] by (auto intro: le_less_trans)
  next
    case False
    then show ?thesis using that D(7) [of a b] old [of a] old [of b] by (simp add: f(1))
  qed
  have ret: "a < length (se_legHeap ?e) \<and> sl_id (sleg ?e a) = j \<and> sl_closed (sleg ?e a) \<and> a \<in> set (se_reapers ?e)"
    if "mget (se_retiring ?e) j = Some a" for j a
    using D(5) [OF that [unfolded f(3)]] old [of a] by (auto simp: f)
  show ?thesis
    unfolding legs_inv_def using wf D(2,3) legs all order ret by (simp add: f(3,5,7))
qed

lemma same_attachPathRTT: "attachPathRTT i auth g now e = (r, e1) \<Longrightarrow> sameRegistry e e1 \<and> se_cfg e1 = se_cfg e"
  by (auto simp: attachPathRTT_def Let_def split: option.splits prod.splits if_splits)

lemma same_attachDrain: "attachDrain auth e = (r, e1) \<Longrightarrow> sameRegistry e e1"
  by (auto simp: attachDrain_def split: if_splits)

subsection \<open>The components inside the engine\<close>

text \<open>A step of the engine is, on its ledger, a run of ledger operations and, on its probe cache, a run of
  cache operations.\<close>

definition cacheRun :: "streamRTTProbeCache option \<Rightarrow> streamRTTProbeCache option \<Rightarrow> bool" where
  "cacheRun p q = (case p of None \<Rightarrow> q = None | Some c \<Rightarrow> (\<exists>c'. q = Some c' \<and> rtt_step\<^sup>*\<^sup>* c c'))"

definition projects :: "StreamEngine \<Rightarrow> StreamEngine \<Rightarrow> bool" where
  "projects e e' \<longleftrightarrow> cacheRun (se_pathRTTCache e) (se_pathRTTCache e') \<and> ledger_step\<^sup>*\<^sup>* (se_txLedger e) (se_txLedger e')"

lemma cacheRun_refl [simp]: "cacheRun p p"
  by (cases p) (simp_all add: cacheRun_def)

lemma cacheRun_trans: "cacheRun p q \<Longrightarrow> cacheRun q r \<Longrightarrow> cacheRun p r"
  by (cases p) (auto simp: cacheRun_def intro: rtranclp_trans)

lemma cacheRun_step: "rtt_step c c' \<Longrightarrow> cacheRun (Some c) (Some c')"
  by (simp add: cacheRun_def r_into_rtranclp)

lemma cacheRun_map: "(\<And>c. rtt_step c (f c)) \<Longrightarrow> cacheRun p (map_option f p)"
  by (cases p) (auto simp: cacheRun_def)

lemma projects_refl [simp]: "projects e e"
  by (simp add: projects_def)

lemma projects_trans [trans]: "projects e e' \<Longrightarrow> projects e' e'' \<Longrightarrow> projects e e''"
  unfolding projects_def using cacheRun_trans rtranclp_trans [of ledger_step] by blast

text \<open>Operations that touch neither.\<close>

definition inert :: "StreamEngine \<Rightarrow> StreamEngine \<Rightarrow> bool" where
  "inert e e' \<longleftrightarrow> se_pathRTTCache e' = se_pathRTTCache e \<and> se_txLedger e' = se_txLedger e"

lemma inert_projects: "inert e e' \<Longrightarrow> projects e e'"
  by (simp add: inert_def projects_def)

lemma inert_setLeg [simp]: "inert e (setLeg a g e') = inert e e'"
  by (simp add: inert_def)

lemma projects_setLeg [simp]: "projects e (setLeg a g e') = projects e e'"
  by (simp add: projects_def)

lemma inert_notifyPeerActivate: "inert e (notifyPeerActivate e)"
proof -
  have one: "inert e' (notifyLegActivate a e')" for a e'
    unfolding notifyLegActivate_def by (auto simp: inert_def)
  have "inert e (fold notifyLegActivate xs e)" for xs
    by (induction xs arbitrary: e) (simp_all add: inert_def one [unfolded inert_def])
  then show ?thesis by (simp add: notifyPeerActivate_def inert_def)
qed

lemma inert_activate: "inert e (activate e)"
  using inert_notifyPeerActivate [of "kickSpaceSource (e\<lparr>se_active := True\<rparr>)"]
  by (simp add: activate_def Let_def inert_def kickSpaceSource_def)

lemma inert_kicks [simp]:
  "inert e (kickRetry e') = inert e e'" "inert e (kickSpaceSource e') = inert e e'" "inert e (engineForceAck e') = inert e e'"
  by (simp_all add: inert_def kickRetry_def kickSpaceSource_def engineForceAck_def kickAck_def)

lemma projects_queuePathRTTProbe: "projects e (snd (queuePathRTTProbe pick a now e))"
proof (cases "se_pathRTTCache e")
  case (Some c)
  obtain r c1 where S: "startProbeAt (sl_pathIdentity (sleg e a)) now c = (r, c1)" by (metis surj_pair)
  have s1: "rtt_step c c1" using rtt_step.startProbeAt [of c "sl_pathIdentity (sleg e a)" now] S by simp
  have "cacheRun (Some c) (Some c1)" by (rule cacheRun_step [OF s1])
  moreover have "cacheRun (Some c) (Some (snd (cancelProbe i t c1)))" for i t
    by (rule cacheRun_trans [OF cacheRun_step [OF s1] cacheRun_step [OF rtt_step.cancelProbe]])
  ultimately show ?thesis using Some S
    by (auto simp: queuePathRTTProbe_def Let_def projects_def split: sum.splits prod.splits)
qed (simp add: queuePathRTTProbe_def)

lemma projects_announceLeg: "projects e (announceLeg pick a now e)"
proof -
  define e1 where "e1 = (if sl_pathRTTEnabled (sleg e a) then snd (queuePathRTTProbe pick a now e) else e)"
  have "projects e e1" by (simp add: e1_def projects_queuePathRTTProbe)
  moreover have "inert e1 (announceLeg pick a now e)"
    unfolding announceLeg_def Let_def e1_def [symmetric]
    using inert_notifyPeerActivate [of "engineForceAck (kickSpaceSource (kickRetry
       (e1\<lparr>se_recoveryEpoch := se_recoveryEpoch e1 + 1,
           se_startup := map_option (\<lambda>g. startupNotify (Some (sl_id (sleg e a))) (tele (markStartupAttached (sl_id (sleg e a)) now) g)) (se_startup e1)\<rparr>)))"]
    by (simp add: inert_def kickRetry_def kickSpaceSource_def engineForceAck_def kickAck_def)
  ultimately show ?thesis using projects_trans inert_projects by blast
qed

lemma projects_attachPathRTT:
  assumes "attachPathRTT i auth g now e = (r, e1)" and "se_pathRTTCache e \<noteq> None"
  shows "projects e e1"
proof -
  obtain c where c: "se_pathRTTCache e = Some c" using assms(2) by blast
  have b: "cacheRun (Some c) (Some c1)" if "bindLeg bd auth c = (er, c1)" for bd er c1
    using cacheRun_step [OF rtt_step.bindLeg [of c bd auth]] that by simp
  moreover have "cacheRun (Some c) (Some (snd (recordHandshakeSample bd' ident auth now c1)))" if "bindLeg bd auth c = (er, c1)"
    for bd er c1 bd' ident
    by (rule cacheRun_trans [OF b [OF that] cacheRun_step [OF rtt_step.recordHandshakeSample]])
  ultimately show ?thesis using assms(1) c unfolding attachPathRTT_def Let_def
    by (auto simp: projects_def split: option.splits prod.splits if_splits)
qed

lemma inert_attachDrain: "attachDrain auth e = (r, e1) \<Longrightarrow> inert e e1"
  by (auto simp: attachDrain_def inert_def split: if_splits)

text \<open>What an attach does to the registry: nothing, or it registers one new leg.\<close>

lemma attachLeg_cases:
  assumes "attachLeg pick i auth mbps now e = (r, e')"
  obtains (unchanged) "sameRegistry e e'" "\<not> (\<exists>a. r = AttachedLeg a)" "projects e e'"
  | (attached) e2 l where "sameRegistry e e2" "e' = announceLeg pick (length (se_legHeap e2)) now (registerLeg l now e2)"
      "r = AttachedLeg (length (se_legHeap e2))" "sl_id l = i" "sl_generation l = se_legGeneration e ! unat i + 1"
      "se_legGeneration e ! unat i \<noteq> -1" "\<not> sl_closed l" "\<not> sl_draining l" "unat i < se_maxActiveLegs e" "mget (se_legs e) i = None"
      "mget (se_retiring e) i = None" "\<not> se_done e" "\<not> se_finalizing e" "se_configError e = []" "projects e e2"
proof -
  let ?rtt = "case auth of Some a \<Rightarrow> PathRTTEnabled a | None \<Rightarrow> False"
  let ?drain = "case auth of Some a \<Rightarrow> CoordinatedDrainEnabled a | None \<Rightarrow> False"
  let ?g = "se_legGeneration e ! unat i + 1"
  let ?guard = "se_configError e \<noteq> [] \<or> unat i \<ge> se_maxActiveLegs e \<or> se_finalizing e \<or> se_done e \<or> mget (se_legs e) i \<noteq> None
    \<or> mget (se_retiring e) i \<noteq> None \<or> se_legGeneration e ! unat i = -1 \<or> (auth \<noteq> None \<and> \<not> ?rtt \<and> \<not> ?drain)
    \<or> (?rtt \<and> (\<not> cfg_ExperimentalPathAware (se_cfg e) \<or> se_pathRTTCache e = None))"
  obtain p e1 where P: "(if ?rtt then attachPathRTT i (the auth) ?g now e else (Inr (noBinding, noIdentity), e)) = (p, e1)"
    by (metis surj_pair)
  obtain d e2 where Q: "(if ?drain then attachDrain (the auth) e1 else (None, e1)) = (d, e2)" by (metis surj_pair)
  have s1: "sameRegistry e e1" using P same_attachPathRTT by (auto split: if_splits)
  have s2: "sameRegistry e1 e2" using Q same_attachDrain by (auto split: if_splits)
  have p1: "\<not> ?guard \<Longrightarrow> projects e e1" using P projects_attachPathRTT by (auto split: if_splits)
  have p2: "projects e1 e2" using Q inert_projects inert_attachDrain by (auto split: if_splits)
  show ?thesis
  proof (cases ?guard)
    case True
    then have "e' = e \<and> \<not> (\<exists>a. r = AttachedLeg a)"
      using assms unfolding attachLeg_def Let_def by (elim disjE; auto split: if_splits option.splits)
    then show ?thesis using unchanged by simp
  next
    case False
    have eq: "attachLeg pick i auth mbps now e = (case (p, e1) of
         (Inl err, e1) \<Rightarrow> (AttachFailed err, e1)
       | (Inr path, e1) \<Rightarrow>
           (case (if ?drain then attachDrain (the auth) e1 else (None, e1)) of
              (Some err, e2) \<Rightarrow> (AttachFailed err, e2)
            | (None, e2) \<Rightarrow> let a = length (se_legHeap e2)
                in (AttachedLeg a, announceLeg pick a now (registerLeg (newLeg i ?g path ?rtt ?drain auth mbps e2) now e2))))"
      unfolding attachLeg_def Let_def P [symmetric] using False by (simp only: simp_thms if_False not_not option.case de_Morgan_disj)
    show ?thesis
    proof (cases p)
      case (Inl err)
      then have "r = AttachFailed err \<and> e' = e1" using assms eq by simp
      then show ?thesis using unchanged s1 p1 [OF False] by simp
    next
      case (Inr path)
      show ?thesis
      proof (cases d)
        case (Some err)
        then have "r = AttachFailed err \<and> e' = e2" using assms eq Inr Q by simp
        then show ?thesis using unchanged sameRegistry_trans [OF s1 s2] projects_trans [OF p1 [OF False] p2] by simp
      next
        case None
        then have "r = AttachedLeg (length (se_legHeap e2))"
          "e' = announceLeg pick (length (se_legHeap e2)) now (registerLeg (newLeg i ?g path ?rtt ?drain auth mbps e2) now e2)"
          using assms eq Inr Q by (simp_all add: Let_def)
        then show ?thesis using attached [OF sameRegistry_trans [OF s1 s2]] projects_trans [OF p1 [OF False] p2] False
          by (simp add: newLeg_def)
      qed
    qed
  qed
qed

lemma legs_inv_attachLeg:
  assumes "legs_inv e"
  shows "legs_inv (snd (attachLeg pick i auth mbps now e))"
proof -
  obtain r e' where A: "attachLeg pick i auth mbps now e = (r, e')" by (metis surj_pair)
  from A show ?thesis
  proof (cases rule: attachLeg_cases)
    case unchanged
    then show ?thesis using legs_inv_same [OF assms] A by simp
  next
    case (attached e2 l)
    have "legs_inv (registerLeg l now e2)"
      by (rule legs_inv_registerLeg [OF legs_inv_same [OF assms attached(1)]])
        (use attached in \<open>auto simp: sameRegistry_def\<close>)
    then show ?thesis using legs_inv_same [OF _ same_announceLeg] A attached(2) by simp
  qed
qed

lemma same_invalidatePath [simp]: "sameRegistry e (invalidatePath a e)"
  by (simp add: invalidatePath_def)

lemma invalidatePath_fields [simp]:
  "se_legHeap (invalidatePath a e) = se_legHeap e" "se_legs (invalidatePath a e) = se_legs e"
  "se_txLedger (invalidatePath a e) = se_txLedger e" "se_retiring (invalidatePath a e) = se_retiring e"
  "se_cfg (invalidatePath a e) = se_cfg e"
  by (simp_all add: invalidatePath_def)

text \<open>A registered leg that is closed moves to the retiring ones.\<close>

lemma legs_inv_retiring:
  assumes "legs_inv e" and "mget (se_legs e) (sl_id (sleg e a)) = Some a"
  shows "legs_inv (moveToRetiring a (setLeg a (closeStreamLeg err) e))"
proof -
  note D = legs_invD [OF assms(1)]
  define i where "i = sl_id (sleg e a)"
  define e' where "e' = moveToRetiring a (setLeg a (closeStreamLeg err) e)"
  have reg: "mget (se_legs e) i = Some a" using assms(2) by (simp add: i_def)
  note A = D(4) [OF reg]
  have v: "sl_id (sleg e' b) = sl_id (sleg e b)" "sl_generation (sleg e' b) = sl_generation (sleg e b)"
    "legBusy (sleg e' b) = legBusy (sleg e b)" "sl_closed (sleg e' b) \<longleftrightarrow> b = a \<or> sl_closed (sleg e b)" for b
    using A by (cases "b = a"; simp add: e'_def moveToRetiring_def Let_def)+
  have f: "mget (se_legs e') j = (if j = i then None else mget (se_legs e) j)"
    "mget (se_retiring e') j = (if j = i then Some a else mget (se_retiring e) j)"
    "se_reapers e' = a # se_reapers e" "length (se_legHeap e') = length (se_legHeap e)"
    "se_maxActiveLegs e' = se_maxActiveLegs e" "se_done e' = se_done e" "se_legGeneration e' = se_legGeneration e" for j
    using A by (simp_all add: e'_def i_def moveToRetiring_def Let_def update_conv')
  have wf: "mwf (se_legs e')" "mwf (se_retiring e')" using D(1,2) A by (simp_all add: e'_def moveToRetiring_def Let_def)
  have busy: "mget (se_legs e') j = Some b \<or> mget (se_retiring e') j = Some b"
    if "mget (se_legs e) j = Some b \<or> mget (se_retiring e) j = Some b" for j b
    using that reg A by (cases "j = i") (auto simp: f)
  have legs: "b < length (se_legHeap e) \<and> sl_id (sleg e b) = j \<and> mget (se_retiring e') j = None
      \<and> sl_generation (sleg e b) = se_legGeneration e ! unat j \<and> (sl_closed (sleg e' b) \<longrightarrow> se_done e)"
    if "mget (se_legs e') j = Some b" for j b
  proof -
    have j: "j \<noteq> i" "mget (se_legs e) j = Some b" using that by (auto simp: f split: if_splits)
    then have "b \<noteq> a" using D(4) A by blast
    then show ?thesis using D(4) [OF j(2)] j(1) by (simp add: f v)
  qed
  have ret: "b < length (se_legHeap e) \<and> sl_id (sleg e b) = j \<and> sl_closed (sleg e' b) \<and> b \<in> set (se_reapers e')"
    if "mget (se_retiring e') j = Some b" for j b
    using that A D(5) [of j b] by (cases "j = i") (simp_all add: f v)
  have "legs_inv e'"
    unfolding legs_inv_def f(4-7) v(1-3)
    by (intro conjI allI impI) (use wf D(3,6,7) busy legs ret in blast)+
  then show ?thesis by (simp add: e'_def)
qed

lemma legs_inv_handleStreamLegFailure:
  assumes "legs_inv e"
  shows "legs_inv (handleStreamLegFailure a err e)"
proof -
  define e0 where "e0 = invalidatePath a e"
  define e1 where "e1 = setLeg a (closeStreamLeg err) e0"
  define e2 where "e2 = moveToRetiring a e1"
  let ?i = "sl_id (sleg e a)"
  have e0: "legs_inv e0" "se_legHeap e0 = se_legHeap e" "se_legs e0 = se_legs e"
    using legs_inv_same [OF assms] by (simp_all add: e0_def)
  show ?thesis
  proof (cases "mget (se_legs e1) ?i = Some a")
    case False
    then have "legs_inv e1" unfolding e1_def
      by (intro legs_inv_setLeg [OF e0(1)]) (simp_all add: e0 e1_def)
    with False show ?thesis by (simp add: handleStreamLegFailure_def Let_def e1_def [symmetric] e0_def [symmetric])
  next
    case True
    then have i2: "legs_inv e2" unfolding e2_def e1_def by (intro legs_inv_retiring [OF e0(1)]) (simp add: e1_def e0)
    define e3 where "e3 = e2\<lparr>se_txLedger := InvalidateLeg ?i (se_txLedger e2),
                          se_reassign := (if cfg_decoupled (se_cfg e2) then se_reassign e2 @ [?i] else se_reassign e2)\<rparr>"
    have s3: "sameRegistry e2 e3" by (simp add: e3_def)
    then have s4: "sameRegistry e2 (if ?i = 0 \<and> \<not> se_active e3 then activate e3 else e3)"
      using sameRegistry_trans [OF s3 same_activate] by simp
    have "sameRegistry e2 (handleStreamLegFailure a err e)"
      unfolding handleStreamLegFailure_def Let_def e0_def [symmetric] e1_def [symmetric] e2_def [symmetric] e3_def [symmetric]
      using True s3 s4 by simp
    then show ?thesis by (rule legs_inv_same [OF i2])
  qed
qed

lemma legs_inv_retireStreamLeg:
  assumes "legs_inv e" and "\<not> legBusy (sleg e a)" and "a < length (se_legHeap e)"
  shows "legs_inv (retireStreamLeg a e)"
proof -
  note D = legs_invD [OF assms(1)]
  let ?i = "sl_id (sleg e a)"
  define e1 where "e1 = (if mget (se_retiring e) ?i = Some a then e\<lparr>se_retiring := mdel ?i (se_retiring e)\<rparr> else e)
     \<lparr>se_reapers := removeAll a (se_reapers e)\<rparr>"
  have f: "se_legHeap e1 = se_legHeap e" "se_legs e1 = se_legs e" "se_legGeneration e1 = se_legGeneration e"
    "se_maxActiveLegs e1 = se_maxActiveLegs e" "se_done e1 = se_done e" "se_reapers e1 = removeAll a (se_reapers e)"
    "mget (se_retiring e1) j = (if j = ?i \<and> mget (se_retiring e) ?i = Some a then None else mget (se_retiring e) j)" for j
    by (simp_all add: e1_def)
  have wf: "mwf (se_retiring e1)" using D(2) by (simp add: e1_def)
  have ret: "b < length (se_legHeap e) \<and> sl_id (sleg e b) = j \<and> sl_closed (sleg e b) \<and> b \<in> set (se_reapers e1)"
    if "mget (se_retiring e1) j = Some b" for j b
  proof -
    have "mget (se_retiring e) j = Some b" "\<not> (j = ?i \<and> mget (se_retiring e) ?i = Some a)"
      using that by (auto simp: f split: if_splits)
    then have "b \<noteq> a" "mget (se_retiring e) j = Some b" using D(5) [of j b] by auto
    then show ?thesis using D(5) [of j b] by (simp add: f)
  qed
  have busy: "mget (se_retiring e1) j = Some b" if "mget (se_retiring e) j = Some b" "b \<noteq> a" for j b
    using that by (auto simp: f)
  have none: "mget (se_retiring e1) j = None" if "mget (se_retiring e) j = None" for j using that by (simp add: f)
  have known: "legBusy (sleg e b) \<longrightarrow> mget (se_legs e) (sl_id (sleg e b)) = Some b \<or> mget (se_retiring e1) (sl_id (sleg e b)) = Some b"
    if "b < length (se_legHeap e)" for b
    using D(6) [OF that] busy assms(2) by blast
  have "legs_inv e1"
    unfolding legs_inv_def f(1-5)
  proof (intro conjI)
    show "\<forall>i b. mget (se_legs e) i = Some b \<longrightarrow> b < length (se_legHeap e) \<and> sl_id (sleg e b) = i
        \<and> mget (se_retiring e1) i = None \<and> sl_generation (sleg e b) = se_legGeneration e ! unat i
        \<and> (sl_closed (sleg e b) \<longrightarrow> se_done e)" using D(4) none by simp
    show "\<forall>b < length (se_legHeap e). unat (sl_id (sleg e b)) < se_maxActiveLegs e
        \<and> sl_generation (sleg e b) \<le> se_legGeneration e ! unat (sl_id (sleg e b))
        \<and> (legBusy (sleg e b) \<longrightarrow> mget (se_legs e) (sl_id (sleg e b)) = Some b
             \<or> mget (se_retiring e1) (sl_id (sleg e b)) = Some b)" using D(6) known by simp
  qed (use wf D(1,3,7) ret in simp_all)
  then have "legs_inv (setLeg a (\<lambda>l. l\<lparr>sl_retired := True\<rparr>) e1)"
    by (rule legs_inv_same) (rule same_setLeg, simp add: lview_def legBusy_def)
  then show ?thesis
    by (rule legs_inv_same) (simp add: retireStreamLeg_def Let_def e1_def sameRegistry_def setLeg_def kickRetry_def)
qed

text \<open>Closing the registered legs of an engine that is done.\<close>

lemma legs_inv_closeAll:
  assumes "legs_inv e" and "se_done e"
  shows "legs_inv (fold (\<lambda>(_, a). setLeg a (closeStreamLeg err)) xs e)"
  using assms
proof (induction xs arbitrary: e)
  case (Cons x xs)
  have "legs_inv (setLeg (snd x) (closeStreamLeg err) e)" by (rule legs_inv_setLeg) (use Cons.prems in simp_all)
  then show ?case using Cons by (simp add: case_prod_beta)
qed simp

lemma legs_inv_done: "legs_inv e \<Longrightarrow> legs_inv (e\<lparr>se_done := True\<rparr>)"
  unfolding legs_inv_def by simp

lemma legs_inv_failWithAppClose:
  assumes "legs_inv e"
  shows "legs_inv (failWithAppClose err closeApp e)"
proof -
  define e1 where "e1 = (releaseCapacityProvider e)\<lparr>se_pathRTTCache := map_option close_cache (se_pathRTTCache (releaseCapacityProvider e))\<rparr>"
  have s: "sameRegistry e e1" by (simp add: e1_def releaseCapacityProvider_def)
  then have e1: "legs_inv e1" by (rule legs_inv_same [OF assms])
  define e2 where "e2 = e1\<lparr>se_startup := map_option markSessionClosed (se_startup e1), se_finalizing := True,
      se_closeErr := Some (case err of Some x \<Rightarrow> x | None \<Rightarrow> ErrStreamClosed), se_done := True,
      se_appClosed := (se_appClosed e1 \<or> closeApp), se_pipeClosed := True\<rparr>"
  have "sameRegistry (e1\<lparr>se_done := True\<rparr>) e2" by (simp add: e2_def sameRegistry_def)
  then have "legs_inv e2" by (rule legs_inv_same [OF legs_inv_done [OF e1]])
  then have "legs_inv (fold (\<lambda>(_, a). setLeg a (closeStreamLeg er)) xs e2)" for er and xs :: "(u8 \<times> nat) list"
    by (rule legs_inv_closeAll) (simp add: e2_def)
  with e1 show ?thesis unfolding failWithAppClose_def Let_def e1_def [symmetric] e2_def [symmetric] by simp
qed

lemma legs_inv_shutdown:
  assumes "legs_inv e"
  shows "legs_inv (engineFail err e)" "legs_inv (engineClose e)" "legs_inv (finishGracefulClose err e)"
    "legs_inv (snd (beginFinalizing e))" "legs_inv (failIfNoStreamLegRecovers epoch e)"
proof -
  have "legs_inv (releaseCapacityProvider (e\<lparr>se_closing := True\<rparr>))" "legs_inv (e\<lparr>se_timers := t\<rparr>)" for t
    by (rule legs_inv_same [OF assms]; simp add: releaseCapacityProvider_def)+
  then show "legs_inv (engineFail err e)" "legs_inv (engineClose e)" "legs_inv (finishGracefulClose err e)"
    "legs_inv (failIfNoStreamLegRecovers epoch e)"
    using assms by (simp_all add: engineFail_def engineClose_def finishGracefulClose_def failIfNoStreamLegRecovers_def Let_def
        legs_inv_failWithAppClose)
  show "legs_inv (snd (beginFinalizing e))" by (rule legs_inv_same [OF assms]) (simp add: beginFinalizing_def)
qed

lemma projects_attachLeg: "projects e (snd (attachLeg pick i auth mbps now e))"
proof -
  obtain r e' where A: "attachLeg pick i auth mbps now e = (r, e')" by (metis surj_pair)
  from A show ?thesis
  proof (cases rule: attachLeg_cases)
    case unchanged
    then show ?thesis using A by simp
  next
    case (attached e2 l)
    have "inert e2 (registerLeg l now e2)" by (simp add: registerLeg_def Let_def inert_def)
    then have "projects e (registerLeg l now e2)" using projects_trans [OF attached(15)] inert_projects by blast
    then show ?thesis using projects_trans [OF _ projects_announceLeg] A attached(2) by simp
  qed
qed

lemma projects_invalidatePath: "projects e (invalidatePath a e)"
  by (simp add: invalidatePath_def projects_def cacheRun_map rtt_step.invalidateLeg)

lemma projects_handleStreamLegFailure: "projects e (handleStreamLegFailure a err e)"
proof -
  define e1 where "e1 = setLeg a (closeStreamLeg err) (invalidatePath a e)"
  define e2 where "e2 = moveToRetiring a e1"
  let ?i = "sl_id (sleg e a)"
  define e3 where "e3 = e2\<lparr>se_txLedger := InvalidateLeg ?i (se_txLedger e2),
      se_reassign := (if cfg_decoupled (se_cfg e2) then se_reassign e2 @ [?i] else se_reassign e2)\<rparr>"
  have p1: "projects e e1" using projects_invalidatePath by (simp add: e1_def projects_def)
  have "inert e1 e2" by (simp add: e2_def moveToRetiring_def Let_def inert_def)
  moreover have "ledger_step (se_txLedger e2) (InvalidateLeg ?i (se_txLedger e2))"
    by (rule ledger_step.local [OF local_step.InvalidateLeg])
  then have "projects e2 e3" by (simp add: e3_def projects_def)
  ultimately have p3: "projects e e3" using p1 inert_projects projects_trans by meson
  have "inert e3 (if ?i = 0 \<and> \<not> se_active e3 then activate e3 else e3)" using inert_activate by (simp add: inert_def)
  then have "handleStreamLegFailure a err e = e1 \<or> inert e3 (handleStreamLegFailure a err e)"
    unfolding handleStreamLegFailure_def Let_def e1_def [symmetric] e2_def [symmetric] e3_def [symmetric]
    by (simp add: inert_def kickRetry_def kickSpaceSource_def engineForceAck_def kickAck_def)
  then show ?thesis using p1 projects_trans [OF p3] inert_projects by auto
qed

lemma projects_failWithAppClose: "projects e (failWithAppClose err closeApp e)"
proof -
  have "inert e' (fold (\<lambda>(_, a). setLeg a (closeStreamLeg er)) xs e')" for e' er and xs :: "(u8 \<times> nat) list"
    by (induction xs arbitrary: e') (auto simp: inert_def case_prod_beta)
  then have "se_pathRTTCache (failWithAppClose err closeApp e) = map_option close_cache (se_pathRTTCache e)
      \<and> se_txLedger (failWithAppClose err closeApp e) = se_txLedger e"
    unfolding failWithAppClose_def Let_def by (simp add: inert_def releaseCapacityProvider_def)
  then show ?thesis by (simp add: projects_def cacheRun_map rtt_step.close)
qed

lemma projects_shutdown:
  "projects e (engineFail err e)" "projects e (engineClose e)" "projects e (finishGracefulClose err e)"
  "projects e (snd (beginFinalizing e))" "projects e (failIfNoStreamLegRecovers epoch e)"
proof -
  have "inert e (releaseCapacityProvider (e\<lparr>se_closing := True\<rparr>))" "inert e (e\<lparr>se_timers := t\<rparr>)" "inert e (snd (beginFinalizing e))" for t
    by (simp_all add: inert_def releaseCapacityProvider_def beginFinalizing_def)
  then show "projects e (engineFail err e)" "projects e (engineClose e)" "projects e (finishGracefulClose err e)"
    "projects e (snd (beginFinalizing e))" "projects e (failIfNoStreamLegRecovers epoch e)"
    using projects_failWithAppClose projects_trans [OF inert_projects projects_failWithAppClose]
    by (simp_all add: engineFail_def engineClose_def finishGracefulClose_def failIfNoStreamLegRecovers_def Let_def inert_projects)
qed

section \<open>Runs of the registry\<close>

text \<open>What the rest of the engine does to the state between the modelled operations: a worker of a closed
  carrier or of a finished engine returns, queues move, the control queue is written out, a barrier is
  raised or lowered, the ledger makes a step of its own.\<close>

inductive legs_step :: "StreamEngine \<Rightarrow> StreamEngine \<Rightarrow> bool" where
  attach: "legs_step e (snd (attachLeg pick i auth mbps now e))"
| failure: "legs_step e (handleStreamLegFailure a err e)"
| replace: "legs_step e (snd (ReplaceStreamLeg i err e))"
| retire: "a \<in> set (se_reapers e) \<Longrightarrow> a < length (se_legHeap e) \<Longrightarrow> \<not> legBusy (sleg e a) \<Longrightarrow> legs_step e (retireStreamLeg a e)"
| stopped: "se_done e \<or> sl_closed (sleg e a) \<Longrightarrow>
     legs_step e (setLeg a (\<lambda>l. l\<lparr>sl_writing := sl_writing l \<and> w, sl_reading := sl_reading l \<and> r\<rparr>) e)"
| tick: "legs_step e (pathRTTProbeTick pick a now e)"
| rtt: "legs_step e (snd (handlePathRTTFrame a wire now e))"
| prior: "legs_step e (snd (SetLegBandwidthPrior i mbps e))"
| activate: "legs_step e (activate e)"
| notified: "legs_step e (notifyPeerActivate e)"
| fail: "legs_step e (engineFail err e)"
| close: "legs_step e (engineClose e)"
| finalize: "legs_step e (snd (beginFinalizing e))"
| finish: "legs_step e (finishGracefulClose err e)"
| timer: "epoch \<in> set (se_timers e) \<Longrightarrow> legs_step e (failIfNoStreamLegRecovers epoch e)"
| queues: "legs_step e (setLeg a (\<lambda>l. l\<lparr>sl_send := m, sl_rescue := n, sl_debugWriterState := st, sl_control := drop k (sl_control l)\<rparr>) e)"
| barrier: "legs_step e (setLeg a (\<lambda>l. l\<lparr>sl_draining := b\<rparr>) e)"
| closing: "legs_step e (e\<lparr>se_closing := True\<rparr>)"
| ledger: "ledger_step (se_txLedger e) l \<Longrightarrow> legs_step e (e\<lparr>se_txLedger := l\<rparr>)"

lemma same_handlePathRTTFrame: "sameRegistry e (snd (handlePathRTTFrame a wire now e))"
proof -
  have "sameRegistry e (setLeg a (pushControl ctl) (e\<lparr>se_pathRTTCache := c\<rparr>))" for c ctl
    by (rule sameRegistry_trans [OF _ same_pushControl]) simp
  then show ?thesis unfolding handlePathRTTFrame_def Let_def by (simp split: option.split sum.split prod.split)
qed

lemma legs_step_inv:
  assumes "legs_step e e'" and "legs_inv e"
  shows "legs_inv e'"
  using assms(1)
proof cases
  case (replace i err)
  then show ?thesis using assms(2) by (auto simp: ReplaceStreamLeg_def legs_inv_handleStreamLegFailure split: option.splits)
next
  case (stopped a w r)
  show ?thesis unfolding stopped(1) by (rule legs_inv_setLeg [OF assms(2)]) (auto simp: legBusy_def)
next
  case (tick pick a now)
  have "legs_inv (setLeg a (\<lambda>l. l\<lparr>sl_probing := False\<rparr>) e)" by (rule legs_inv_setLeg [OF assms(2)]) (auto simp: legBusy_def)
  moreover have "sameRegistry e (snd (queuePathRTTProbe pick a now (e\<lparr>se_pathRTTCache := c\<rparr>)))" for c
    by (rule sameRegistry_trans [OF _ same_queuePathRTTProbe]) simp
  ultimately show ?thesis using tick assms(2) legs_inv_same by (auto simp: pathRTTProbeTick_def)
next
  case (rtt a wire now)
  show ?thesis unfolding rtt by (rule legs_inv_same [OF assms(2) same_handlePathRTTFrame])
next
  case (prior i mbps)
  have "sameRegistry e e'" unfolding prior SetLegBandwidthPrior_def
    by (auto split: option.split intro!: same_setLeg simp: lview_def legBusy_def)
  then show ?thesis by (rule legs_inv_same [OF assms(2)])
next
  case (queues a m n st k)
  then show ?thesis using legs_inv_same [OF assms(2) same_setLeg] by (simp add: lview_def legBusy_def)
next
  case (barrier a b)
  show ?thesis unfolding barrier by (rule legs_inv_setLeg [OF assms(2)]) (auto simp: legBusy_def)
qed (use assms(2) legs_inv_same same_activate same_notifyPeerActivate in
      \<open>auto simp: legs_inv_attachLeg legs_inv_handleStreamLegFailure legs_inv_retireStreamLeg legs_inv_shutdown\<close>)

lemma legs_inv_new: "legs_inv (NewStreamEngine cfg n startup now)"
proof -
  have act: "legs_inv e \<Longrightarrow> legs_inv (if b then activate e else e)" for e b
    using legs_inv_same same_activate by (cases b) auto
  show ?thesis unfolding NewStreamEngine_def Let_def case_prod_beta by (rule act) (simp add: legs_inv_def mwf_def)
qed

interpretation slr: carrier_registry legs_inv legs_step "\<lambda>e. mget (se_legs e)" "\<lambda>e. mget (se_retiring e)"
  "\<lambda>e a. sl_id (sleg e a)" "\<lambda>e a. a < length (se_legHeap e) \<and> legBusy (sleg e a)"
proof
  fix e e' :: StreamEngine and i :: u8 and a :: nat
  assume inv: "legs_inv e"
  show "legs_step e e' \<Longrightarrow> legs_inv e'" using legs_step_inv inv by blast
  show "mget (se_legs e) i = Some a \<Longrightarrow> sl_id (sleg e a) = i \<and> mget (se_retiring e) i = None"
    using legs_invD(4) [OF inv] by blast
  show "a < length (se_legHeap e) \<and> legBusy (sleg e a) \<Longrightarrow>
      mget (se_legs e) (sl_id (sleg e a)) = Some a \<or> mget (se_retiring e) (sl_id (sleg e a)) = Some a"
    using legs_invD(6) [OF inv] by blast
qed

lemma legs_step_projects:
  assumes "legs_step e e'"
  shows "projects e e'"
  using assms
proof cases
  case (replace i err)
  then show ?thesis by (auto simp: ReplaceStreamLeg_def projects_handleStreamLegFailure split: option.splits)
next
  case (tick pick a now)
  have "projects e (e\<lparr>se_pathRTTCache := map_option (\<lambda>c. snd (expirePending now c)) (se_pathRTTCache e)\<rparr>)"
    by (simp add: projects_def cacheRun_map rtt_step.expirePending)
  then show ?thesis unfolding tick pathRTTProbeTick_def
    using projects_trans [OF _ projects_queuePathRTTProbe] by (simp add: inert_projects)
next
  case (rtt a wire now)
  have "cacheRun (Some c) (Some (snd (acceptProbe b d wire c c)))" "cacheRun (Some c) (Some (snd (acceptEchoAt i wire now c c)))"
    for c b d i by (rule cacheRun_step [OF rtt_step.acceptProbe], simp, rule cacheRun_step [OF rtt_step.acceptEchoAt], simp)
  then show ?thesis unfolding rtt handlePathRTTFrame_def Let_def
    by (auto simp: projects_def split: option.split sum.split prod.split) (metis snd_conv)+
next
  case (retire a)
  then show ?thesis by (intro inert_projects) (simp add: retireStreamLeg_def Let_def inert_def kickRetry_def)
next
  case (prior i mbps)
  then show ?thesis by (auto simp: SetLegBandwidthPrior_def inert_projects split: option.split)
next
  case (ledger l)
  then show ?thesis by (simp add: projects_def)
qed (auto simp: projects_attachLeg projects_handleStreamLegFailure projects_shutdown
      intro: inert_projects inert_activate inert_notifyPeerActivate simp: inert_def intro!: inert_projects)

subsection \<open>What a carrier keeps\<close>

text \<open>A carrier keeps its identity, a closed carrier stays closed, and one that left the registry never
  comes back.\<close>

definition legs_mono :: "StreamEngine \<Rightarrow> StreamEngine \<Rightarrow> bool" where
  "legs_mono e e' \<longleftrightarrow> length (se_legHeap e) \<le> length (se_legHeap e') \<and> se_cfg e' = se_cfg e \<and> (se_done e \<longrightarrow> se_done e')
     \<and> (\<forall>a < length (se_legHeap e). sl_id (sleg e' a) = sl_id (sleg e a) \<and> sl_generation (sleg e' a) = sl_generation (sleg e a)
          \<and> sl_drainEnabled (sleg e' a) = sl_drainEnabled (sleg e a) \<and> sl_drainBinding (sleg e' a) = sl_drainBinding (sleg e a)
          \<and> (sl_closed (sleg e a) \<longrightarrow> sl_closed (sleg e' a)))
     \<and> (\<forall>i a. mget (se_legs e') i = Some a
          \<longrightarrow> mget (se_legs e) i = Some a \<or> length (se_legHeap e) \<le> a \<and> a < length (se_legHeap e'))"

lemma legs_monoI:
  assumes "length (se_legHeap e) \<le> length (se_legHeap e')" and "se_cfg e' = se_cfg e" and "se_done e \<Longrightarrow> se_done e'"
    and "\<And>a. a < length (se_legHeap e) \<Longrightarrow> sl_id (sleg e' a) = sl_id (sleg e a) \<and> sl_generation (sleg e' a) = sl_generation (sleg e a)
          \<and> sl_drainEnabled (sleg e' a) = sl_drainEnabled (sleg e a) \<and> sl_drainBinding (sleg e' a) = sl_drainBinding (sleg e a)
          \<and> (sl_closed (sleg e a) \<longrightarrow> sl_closed (sleg e' a))"
    and "\<And>i a. mget (se_legs e') i = Some a
          \<Longrightarrow> mget (se_legs e) i = Some a \<or> length (se_legHeap e) \<le> a \<and> a < length (se_legHeap e')"
  shows "legs_mono e e'"
  unfolding legs_mono_def using assms by blast

lemma legs_mono_refl [simp]: "legs_mono e e"
  by (simp add: legs_mono_def)

lemma legs_mono_trans [trans]:
  assumes "legs_mono e e'" and "legs_mono e' e''"
  shows "legs_mono e e''"
proof (rule legs_monoI)
  have l: "length (se_legHeap e) \<le> length (se_legHeap e')" using assms(1) by (simp add: legs_mono_def)
  then show "length (se_legHeap e) \<le> length (se_legHeap e'')" "se_cfg e'' = se_cfg e"
    and "se_done e \<Longrightarrow> se_done e''" using assms by (simp_all add: legs_mono_def)
  fix a assume a: "a < length (se_legHeap e)"
  then have "a < length (se_legHeap e')" using l by simp
  then show "sl_id (sleg e'' a) = sl_id (sleg e a) \<and> sl_generation (sleg e'' a) = sl_generation (sleg e a)
      \<and> sl_drainEnabled (sleg e'' a) = sl_drainEnabled (sleg e a) \<and> sl_drainBinding (sleg e'' a) = sl_drainBinding (sleg e a)
      \<and> (sl_closed (sleg e a) \<longrightarrow> sl_closed (sleg e'' a))" using a assms by (simp add: legs_mono_def)
next
  fix i a assume "mget (se_legs e'') i = Some a"
  then consider "mget (se_legs e') i = Some a" | "length (se_legHeap e') \<le> a" "a < length (se_legHeap e'')"
    using assms(2) unfolding legs_mono_def by blast
  then show "mget (se_legs e) i = Some a \<or> length (se_legHeap e) \<le> a \<and> a < length (se_legHeap e'')"
  proof cases
    case 1
    then have "mget (se_legs e) i = Some a \<or> length (se_legHeap e) \<le> a \<and> a < length (se_legHeap e')"
      using assms(1) unfolding legs_mono_def by blast
    then show ?thesis using assms(2) by (auto simp: legs_mono_def)
  next
    case 2
    then show ?thesis using assms(1) by (simp add: legs_mono_def)
  qed
qed

lemma same_mono:
  assumes "sameRegistry e e'"
  shows "legs_mono e e'"
proof (rule legs_monoI)
  have v: "map lview (se_legHeap e') = map lview (se_legHeap e)" using assms by (simp add: sameRegistry_def)
  then show "length (se_legHeap e) \<le> length (se_legHeap e')" using map_eq_imp_length_eq by fastforce
  fix a assume a: "a < length (se_legHeap e)"
  show "sl_id (sleg e' a) = sl_id (sleg e a) \<and> sl_generation (sleg e' a) = sl_generation (sleg e a)
      \<and> sl_drainEnabled (sleg e' a) = sl_drainEnabled (sleg e a) \<and> sl_drainBinding (sleg e' a) = sl_drainBinding (sleg e a)
      \<and> (sl_closed (sleg e a) \<longrightarrow> sl_closed (sleg e' a))" using lview_nth [OF v a] by simp
qed (use assms in \<open>auto simp: sameRegistry_def\<close>)

lemma mono_setLeg:
  assumes "\<And>l. sl_id (g l) = sl_id l \<and> sl_generation (g l) = sl_generation l \<and> sl_drainEnabled (g l) = sl_drainEnabled l
    \<and> sl_drainBinding (g l) = sl_drainBinding l \<and> (sl_closed l \<longrightarrow> sl_closed (g l))"
  shows "legs_mono e (setLeg a g e)"
proof (rule legs_monoI)
  fix b assume "b < length (se_legHeap e)"
  then show "sl_id (sleg (setLeg a g e) b) = sl_id (sleg e b) \<and> sl_generation (sleg (setLeg a g e) b) = sl_generation (sleg e b)
      \<and> sl_drainEnabled (sleg (setLeg a g e) b) = sl_drainEnabled (sleg e b)
      \<and> sl_drainBinding (sleg (setLeg a g e) b) = sl_drainBinding (sleg e b)
      \<and> (sl_closed (sleg e b) \<longrightarrow> sl_closed (sleg (setLeg a g e) b))"
    using assms by (cases "b = a") auto
qed simp_all

lemma mono_closeStreamLeg: "legs_mono e (setLeg a (closeStreamLeg err) e)"
  by (rule mono_setLeg) (simp add: closeStreamLeg_def)

lemma mono_moveToRetiring: "legs_mono e (moveToRetiring a e)"
  by (rule legs_monoI) (auto simp: moveToRetiring_def Let_def delete_conv' split: if_splits)

lemma mono_registerLeg: "legs_mono e (registerLeg l now e)"
  by (rule legs_monoI) (auto simp: registerLeg_def Let_def nth_append update_conv' split: if_splits)

lemma mono_attachLeg: "legs_mono e (snd (attachLeg pick i auth mbps now e))"
proof -
  obtain r e' where A: "attachLeg pick i auth mbps now e = (r, e')" by (metis surj_pair)
  from A show ?thesis
  proof (cases rule: attachLeg_cases)
    case (attached e2 l)
    have "legs_mono e2 (announceLeg pick (length (se_legHeap e2)) now (registerLeg l now e2))"
      by (rule legs_mono_trans [OF mono_registerLeg same_mono [OF same_announceLeg]])
    then show ?thesis using legs_mono_trans [OF same_mono [OF attached(1)]] attached(2) A by simp
  qed (simp add: A same_mono)
qed

lemma mono_handleStreamLegFailure: "legs_mono e (handleStreamLegFailure a err e)"
proof -
  define e1 where "e1 = setLeg a (closeStreamLeg err) (invalidatePath a e)"
  define e2 where "e2 = moveToRetiring a e1"
  define e3 where "e3 = e2\<lparr>se_txLedger := InvalidateLeg (sl_id (sleg e a)) (se_txLedger e2),
      se_reassign := (if cfg_decoupled (se_cfg e2) then se_reassign e2 @ [sl_id (sleg e a)] else se_reassign e2)\<rparr>"
  have m1: "legs_mono e e1" unfolding e1_def by (rule legs_mono_trans [OF same_mono mono_closeStreamLeg]) simp
  have m2: "legs_mono e e2" unfolding e2_def by (rule legs_mono_trans [OF m1 mono_moveToRetiring])
  have s3: "sameRegistry e2 e3" by (simp add: e3_def)
  have "sameRegistry e2 (if sl_id (sleg e a) = 0 \<and> \<not> se_active e3 then activate e3 else e3)"
    using s3 sameRegistry_trans [OF s3 same_activate] by simp
  then have "handleStreamLegFailure a err e = e1 \<or> sameRegistry e2 (handleStreamLegFailure a err e)"
    unfolding handleStreamLegFailure_def Let_def e1_def [symmetric] e2_def [symmetric] e3_def [symmetric] using s3 by simp
  then show ?thesis using m1 legs_mono_trans [OF m2 same_mono] by auto
qed

lemma mono_ReplaceStreamLeg: "legs_mono e (snd (ReplaceStreamLeg i err e))"
  by (simp add: ReplaceStreamLeg_def mono_handleStreamLegFailure split: option.split)

lemma mono_retireStreamLeg: "legs_mono e (retireStreamLeg a e)"
proof -
  let ?e1 = "if mget (se_retiring e) (sl_id (sleg e a)) = Some a then e\<lparr>se_retiring := mdel (sl_id (sleg e a)) (se_retiring e)\<rparr> else e"
  have "legs_mono e (?e1\<lparr>se_reapers := removeAll a (se_reapers ?e1)\<rparr>)" by (rule legs_monoI) (auto split: if_splits)
  moreover have "legs_mono e' (setLeg a (\<lambda>l. l\<lparr>sl_retired := True\<rparr>) e')" for e' by (rule mono_setLeg) simp
  moreover have "legs_mono e' (kickRetry e')" for e' by (rule same_mono) (simp add: kickRetry_def)
  ultimately show ?thesis unfolding retireStreamLeg_def Let_def by (meson legs_mono_trans)
qed

lemma mono_failWithAppClose: "legs_mono e (failWithAppClose err closeApp e)"
proof -
  have fold: "legs_mono e' (fold (\<lambda>(_, a). setLeg a (closeStreamLeg er)) xs e')" for e' er and xs :: "(u8 \<times> nat) list"
  proof (induction xs arbitrary: e')
    case (Cons x xs)
    then show ?case using legs_mono_trans [OF mono_closeStreamLeg Cons] by (simp add: case_prod_beta)
  qed simp
  have "legs_mono e e'" if "se_legHeap e' = se_legHeap e" "se_legs e' = se_legs e" "se_cfg e' = se_cfg e" "se_done e \<longrightarrow> se_done e'" for e'
    by (rule legs_monoI) (simp_all add: that)
  then show ?thesis unfolding failWithAppClose_def Let_def releaseCapacityProvider_def
    by (auto intro!: legs_mono_trans [OF _ fold])
qed

lemma mono_shutdown:
  "legs_mono e (engineFail err e)" "legs_mono e (engineClose e)" "legs_mono e (finishGracefulClose err e)"
  "legs_mono e (snd (beginFinalizing e))" "legs_mono e (failIfNoStreamLegRecovers epoch e)"
proof -
  have t: "legs_mono e (e\<lparr>se_timers := t\<rparr>)" "legs_mono e (releaseCapacityProvider (e\<lparr>se_closing := True\<rparr>))" for t
    by (rule same_mono, simp add: releaseCapacityProvider_def)+
  show "legs_mono e (engineFail err e)" "legs_mono e (engineClose e)" "legs_mono e (finishGracefulClose err e)"
    "legs_mono e (failIfNoStreamLegRecovers epoch e)"
    using legs_mono_trans [OF t(1) mono_failWithAppClose] legs_mono_trans [OF t(2) mono_failWithAppClose] t
    by (simp_all add: engineFail_def engineClose_def finishGracefulClose_def failIfNoStreamLegRecovers_def Let_def mono_failWithAppClose)
  show "legs_mono e (snd (beginFinalizing e))" by (rule same_mono) (simp add: beginFinalizing_def)
qed

lemma legs_step_mono:
  assumes "legs_step e e'"
  shows "legs_mono e e'"
  using assms
proof cases
  case (tick pick a now)
  have "legs_mono e (setLeg a (\<lambda>l. l\<lparr>sl_probing := False\<rparr>) e)" by (rule mono_setLeg) simp
  moreover have "sameRegistry e (snd (queuePathRTTProbe pick a now (e\<lparr>se_pathRTTCache := c\<rparr>)))" for c
    by (rule sameRegistry_trans [OF _ same_queuePathRTTProbe]) simp
  ultimately show ?thesis using tick same_mono by (auto simp: pathRTTProbeTick_def)
next
  case (rtt a wire now)
  have "sameRegistry e (setLeg a (pushControl ctl) (e\<lparr>se_pathRTTCache := c\<rparr>))" for c ctl
    by (rule sameRegistry_trans [OF _ same_pushControl]) simp
  then have "sameRegistry e e'" unfolding rtt handlePathRTTFrame_def Let_def
    by (simp split: option.split sum.split prod.split)
  then show ?thesis by (rule same_mono)
next
  case (prior i mbps)
  have "sameRegistry e e'" unfolding prior SetLegBandwidthPrior_def
    by (auto split: option.split intro!: same_setLeg simp: lview_def legBusy_def)
  then show ?thesis by (rule same_mono)
qed (auto intro: mono_attachLeg mono_handleStreamLegFailure mono_ReplaceStreamLeg mono_retireStreamLeg mono_shutdown mono_setLeg
      same_mono same_activate same_notifyPeerActivate)

section \<open>Lemmas on a failing leg\<close>

lemma pathFeedback_invalidated:
  assumes "rtt_inv c" and "binding_of ident = b"
  shows "pathFeedbackAt ident now (snd (invalidateLeg b c)) = None"
proof -
  let ?leg = "unat (pi_LegID ident)"
  have leg: "unat (pb_LegID b) = ?leg" using assms(2) by (auto simp: binding_of_def)
  show ?thesis
  proof (cases "?leg < c_maxLegs c")
    case True
    have ok: "c_activeView c ! ?leg = (if c_active c ! ?leg then Some (c_binding c ! ?leg) else None)"
      "c_active c ! ?leg \<longrightarrow> \<not> c_closed c" "?leg < length (c_activeView c)"
      using rtt_invD(3) [OF assms(1) True] rtt_invD(1) [OF assms(1)] True by (auto simp: leg_ok_def sized_def)
    show ?thesis
    proof (cases "c_active c ! ?leg \<and> c_binding c ! ?leg = b")
      case True
      then have "c_activeView (snd (invalidateLeg b c)) ! ?leg = None"
        using ok \<open>?leg < c_maxLegs c\<close> by (simp add: invalidateLeg_def Let_def leg clearLegLocked_def)
      then show ?thesis by (simp add: pathFeedbackAt_def Let_def)
    next
      case False
      then have "snd (invalidateLeg b c) = c" "c_activeView c ! ?leg \<noteq> Some (binding_of ident)"
        using ok assms(2) by (auto simp: invalidateLeg_def Let_def leg)
      then show ?thesis by (simp add: pathFeedbackAt_def Let_def)
    qed
  qed (simp add: pathFeedbackAt_def invalidateLeg_def Let_def leg)
qed

lemma inert_fields: "inert e e' \<Longrightarrow> se_pathRTTCache e' = se_pathRTTCache e \<and> se_txLedger e' = se_txLedger e"
  by (simp add: inert_def)

lemma same_fieldsD:
  "sameRegistry e e' \<Longrightarrow> se_legs e' = se_legs e \<and> se_retiring e' = se_retiring e \<and> se_done e' = se_done e"
  "sameRegistry e e' \<Longrightarrow> a < length (se_legHeap e) \<Longrightarrow> sl_closed (sleg e' a) = sl_closed (sleg e a)"
  unfolding sameRegistry_def by (auto dest: lview_nth)

lemma activate_epoch [simp]: "se_recoveryEpoch (activate e) = se_recoveryEpoch e" "se_timers (activate e) = se_timers e"
proof -
  have one: "se_recoveryEpoch (notifyLegActivate a e') = se_recoveryEpoch e' \<and> se_timers (notifyLegActivate a e') = se_timers e'" for a e'
    by (simp add: notifyLegActivate_def setLeg_def)
  have "se_recoveryEpoch (fold notifyLegActivate xs e') = se_recoveryEpoch e' \<and> se_timers (fold notifyLegActivate xs e') = se_timers e'" for xs e'
    by (induction xs arbitrary: e') (simp_all add: one)
  then show "se_recoveryEpoch (activate e) = se_recoveryEpoch e" "se_timers (activate e) = se_timers e"
    by (simp_all add: activate_def Let_def notifyPeerActivate_def kickSpaceSource_def)
qed

text \<open>The effects of a failure of a registered carrier, one by one.\<close>

lemma handleStreamLegFailure_registered:
  fixes err :: "smp3_error option"
  assumes "legs_inv e" and "mget (se_legs e) i = Some a"
  defines "e' \<equiv> handleStreamLegFailure a err e"
  shows "se_legs e' = mdel i (se_legs e)" "se_retiring e' = mput i a (se_retiring e)" "sl_closed (sleg e' a)"
    "se_txLedger e' = InvalidateLeg i (se_txLedger e)"
    "se_pathRTTCache e' = se_pathRTTCache (invalidatePath a e)"
    "\<not> se_done e \<Longrightarrow> \<not> se_finalizing e \<Longrightarrow> \<not> se_closing e \<or> HasOutstanding (InvalidateLeg i (se_txLedger e)) \<Longrightarrow>
       se_retryCh e' \<and> se_ackForce e' \<and> se_ackWake e' \<and> (se_legs e' = [] \<longrightarrow> se_recoveryEpoch e' \<in> set (se_timers e'))"
proof -
  have A: "a < length (se_legHeap e)" "sl_id (sleg e a) = i" using legs_invD(4) [OF assms(1,2)] by auto
  define e1 where "e1 = setLeg a (closeStreamLeg err) (invalidatePath a e)"
  define e2 where "e2 = moveToRetiring a e1"
  define e3 where "e3 = e2\<lparr>se_txLedger := InvalidateLeg i (se_txLedger e2),
      se_reassign := (if cfg_decoupled (se_cfg e2) then se_reassign e2 @ [i] else se_reassign e2)\<rparr>"
  define e4 where "e4 = (if i = 0 \<and> \<not> se_active e3 then activate e3 else e3)"
  have e1: "se_legs e1 = se_legs e" "sl_closed (sleg e1 a)" "sl_id (sleg e1 a) = i" "length (se_legHeap e1) = length (se_legHeap e)"
    "se_retiring e1 = se_retiring e" "se_done e1 = se_done e" "se_finalizing e1 = se_finalizing e" "se_closing e1 = se_closing e"
    "se_txLedger e1 = se_txLedger e" "se_pathRTTCache e1 = se_pathRTTCache (invalidatePath a e)"
    using A by (simp_all add: e1_def) (simp_all add: invalidatePath_def)
  have e3: "se_legs e3 = mdel i (se_legs e)" "se_retiring e3 = mput i a (se_retiring e)" "sl_closed (sleg e3 a)"
    "se_txLedger e3 = InvalidateLeg i (se_txLedger e)" "se_pathRTTCache e3 = se_pathRTTCache (invalidatePath a e)"
    "length (se_legHeap e3) = length (se_legHeap e)" "se_done e3 = se_done e" "se_finalizing e3 = se_finalizing e"
    "se_closing e3 = se_closing e" "se_legs e2 = mdel i (se_legs e)"
    by (simp_all add: e3_def e2_def moveToRetiring_def Let_def e1)
  have s4: "sameRegistry e3 e4" "inert e3 e4" "se_recoveryEpoch e4 = se_recoveryEpoch e3"
    by (simp_all add: e4_def same_activate inert_activate, simp add: inert_def)
  have "se_legs e4 = mdel i (se_legs e)" "se_retiring e4 = mput i a (se_retiring e)" "sl_closed (sleg e4 a)"
    "se_txLedger e4 = InvalidateLeg i (se_txLedger e)" "se_pathRTTCache e4 = se_pathRTTCache (invalidatePath a e)"
    using same_fieldsD(1) [OF s4(1)] same_fieldsD(2) [OF s4(1), of a] inert_fields [OF s4(2)] e3 A(1) by simp_all
  note e4 = this
  define e6 where "e6 = engineForceAck (kickSpaceSource (kickRetry (e4\<lparr>se_legDown := (i, err) # se_legDown e4\<rparr>)))"
  have e6: "se_legs e6 = mdel i (se_legs e)" "se_retiring e6 = mput i a (se_retiring e)" "sl_closed (sleg e6 a)"
    "se_txLedger e6 = InvalidateLeg i (se_txLedger e)" "se_pathRTTCache e6 = se_pathRTTCache (invalidatePath a e)"
    "se_retryCh e6" "se_ackForce e6" "se_ackWake e6"
    using e4 by (simp_all add: e6_def engineForceAck_def kickSpaceSource_def kickRetry_def kickAck_def)
  let ?quiet = "se_done e \<or> se_finalizing e \<or> se_closing e \<and> \<not> HasOutstanding (InvalidateLeg i (se_txLedger e))"
  have e': "e' = (if ?quiet then e3 else if mdel i (se_legs e) = []
      then e6\<lparr>se_recoveryEpoch := se_recoveryEpoch e6 + 1, se_timers := (se_recoveryEpoch e6 + 1) # se_timers e6\<rparr> else e6)"
    unfolding e'_def handleStreamLegFailure_def Let_def A(2) e1_def [symmetric] e2_def [symmetric] e3_def [symmetric]
      e4_def [symmetric] e6_def [symmetric]
    using assms(2) by (simp add: e1(1) e3 HasOutstandingEngine_def)
  show "se_legs e' = mdel i (se_legs e)" "se_retiring e' = mput i a (se_retiring e)" "sl_closed (sleg e' a)"
    "se_txLedger e' = InvalidateLeg i (se_txLedger e)" "se_pathRTTCache e' = se_pathRTTCache (invalidatePath a e)"
    using e3 e6 by (simp_all add: e')
  show "se_retryCh e' \<and> se_ackForce e' \<and> se_ackWake e' \<and> (se_legs e' = [] \<longrightarrow> se_recoveryEpoch e' \<in> set (se_timers e'))"
    if "\<not> se_done e" "\<not> se_finalizing e" "\<not> se_closing e \<or> HasOutstanding (InvalidateLeg i (se_txLedger e))"
    using that e6 by (auto simp: e')
qed

lemma reachable_legs_inv: "legs_step\<^sup>*\<^sup>* (NewStreamEngine cfg n startup now) e \<Longrightarrow> legs_inv e"
  using slr.run_inv legs_inv_new by blast

lemma run_projects: "legs_step\<^sup>*\<^sup>* e e' \<Longrightarrow> projects e e'"
  by (induction rule: rtranclp_induct) (auto intro: projects_trans legs_step_projects)

lemma new_components:
  "se_txLedger (NewStreamEngine cfg n startup now) = newStreamTXLedger (int (fst (normalizeMaxActiveStreamLegs n)))"
  "se_pathRTTCache (NewStreamEngine cfg n startup now) =
     (if cfg_ExperimentalPathAware cfg \<and> (cfg_PathRole cfg = StreamPathRoleClient \<or> cfg_PathRole cfg = StreamPathRoleServer)
      then Some (newStreamRTTProbeCacheForLegs (int (fst (normalizeMaxActiveStreamLegs n)))) else None)"
proof -
  have "se_txLedger (if b then activate e else e) = se_txLedger e"
    "se_pathRTTCache (if b then activate e else e) = se_pathRTTCache e" for b e
    using inert_activate [of e] by (simp_all add: inert_def)
  note act = this
  show "se_txLedger (NewStreamEngine cfg n startup now) = newStreamTXLedger (int (fst (normalizeMaxActiveStreamLegs n)))"
    "se_pathRTTCache (NewStreamEngine cfg n startup now) =
     (if cfg_ExperimentalPathAware cfg \<and> (cfg_PathRole cfg = StreamPathRoleClient \<or> cfg_PathRole cfg = StreamPathRoleServer)
      then Some (newStreamRTTProbeCacheForLegs (int (fst (normalizeMaxActiveStreamLegs n)))) else None)"
    unfolding NewStreamEngine_def Let_def case_prod_beta act by simp_all
qed

section \<open>Properties\<close>

text \<open>An engine with one attached carrier, for the witnesses.\<close>

definition exampleLegConfig :: LegConfig where
  "exampleLegConfig = \<lparr>cfg_PathRole = StreamPathRoleClient, cfg_ExperimentalPathAware = True, cfg_NotifyPeerOnActivate = False,
     cfg_BandwidthMbps = [], cfg_decoupled = False, cfg_boundedRescue = False\<rparr>"

definition exampleEngine0 :: StreamEngine where
  "exampleEngine0 = NewStreamEngine exampleLegConfig 2 exampleStartup False"

definition exampleEngine :: StreamEngine where
  "exampleEngine = snd (AttachStreamLeg True 1 5 exampleEngine0)"

lemma exampleEngine_reachable: "legs_step\<^sup>*\<^sup>* (NewStreamEngine exampleLegConfig 2 exampleStartup False) exampleEngine"
  unfolding exampleEngine_def AttachStreamLeg_def exampleEngine0_def by (rule r_into_rtranclp, rule legs_step.attach)

lemma exampleEngine0_fields:
  "se_configError exampleEngine0 = []" "se_maxActiveLegs exampleEngine0 = 2" "\<not> se_finalizing exampleEngine0"
  "\<not> se_done exampleEngine0" "se_legs exampleEngine0 = []" "se_retiring exampleEngine0 = []"
  "se_legGeneration exampleEngine0 = [0, 0]" "se_legHeap exampleEngine0 = []" "se_cfg exampleEngine0 = exampleLegConfig"
  "\<not> se_active exampleEngine0" "\<not> se_closing exampleEngine0"
  by (simp_all add: exampleEngine0_def NewStreamEngine_def Let_def normalizeMaxActiveStreamLegs_def MaxStreamLegIDCount_def
      exampleLegConfig_def exampleStartup_def numeral_2_eq_2)

lemma exampleEngine_fields:
  "se_legs exampleEngine = [(1, 0)]" "length (se_legHeap exampleEngine) = 1" "legBusy (sleg exampleEngine 0)"
  "sl_id (sleg exampleEngine 0) = 1" "\<not> se_done exampleEngine" "\<not> se_finalizing exampleEngine" "\<not> se_closing exampleEngine"
  "se_maxActiveLegs exampleEngine = 2"
  by (simp_all add: exampleEngine_def AttachStreamLeg_def attachLeg_def exampleEngine0_fields registerLeg_def newLeg_def
      announceLeg_def engineForceAck_def kickAck_def kickSpaceSource_def kickRetry_def legBusy_def exampleLegConfig_def Let_def)








section \<open>An attach that fails late\<close>

text \<open>\<open>attachLeg\<close> binds the RTT cache and fixes the path session before it checks the drain session, and
  does not undo them when that check fails. A leg offered for a foreign session is refused, but after it
  the leg of the engine's own session, which would have been attached before, is refused as well.\<close>

definition drainAuthA :: StreamPathAuth where
  "drainAuthA = noAuth\<lparr>sessionID := replicate 16 1, capabilities := 2, drainBinding := replicate 16 1, authenticated := True\<rparr>"

definition bothAuth :: "byte \<Rightarrow> StreamPathAuth" where
  "bothAuth s = noAuth\<lparr>sessionID := replicate 16 s, legID := 1, capabilities := 3, drainBinding := replicate 16 1, authenticated := True\<rparr>"

definition exampleDrainEngine :: StreamEngine where
  "exampleDrainEngine = snd (attachLeg True 0 (Some drainAuthA) 0 5 exampleEngine0)"

lemma exampleDrainEngine_fields:
  "se_configError exampleDrainEngine = []" "se_maxActiveLegs exampleDrainEngine = 2" "\<not> se_finalizing exampleDrainEngine"
  "\<not> se_done exampleDrainEngine" "se_legs exampleDrainEngine = [(0, 0)]" "se_retiring exampleDrainEngine = []"
  "se_legGeneration exampleDrainEngine = [1, 0]" "se_cfg exampleDrainEngine = exampleLegConfig"
  "\<not> se_pathSessionSet exampleDrainEngine" "se_drainSessionSet exampleDrainEngine"
  "se_drainSessionID exampleDrainEngine = replicate 16 1"
  "se_pathRTTCache exampleDrainEngine = Some (newStreamRTTProbeCacheForLegs 2)"
proof -
  have new: "\<not> se_pathSessionSet exampleEngine0" "\<not> se_drainSessionSet exampleEngine0"
    "se_pathRTTCache exampleEngine0 = Some (newStreamRTTProbeCacheForLegs 2)"
    by (simp_all add: exampleEngine0_def NewStreamEngine_def Let_def normalizeMaxActiveStreamLegs_def MaxStreamLegIDCount_def
        exampleLegConfig_def exampleStartup_def)
  show "se_configError exampleDrainEngine = []" "se_maxActiveLegs exampleDrainEngine = 2" "\<not> se_finalizing exampleDrainEngine"
    "\<not> se_done exampleDrainEngine" "se_legs exampleDrainEngine = [(0, 0)]" "se_retiring exampleDrainEngine = []"
    "se_legGeneration exampleDrainEngine = [1, 0]" "se_cfg exampleDrainEngine = exampleLegConfig"
    "\<not> se_pathSessionSet exampleDrainEngine" "se_drainSessionSet exampleDrainEngine"
    "se_drainSessionID exampleDrainEngine = replicate 16 1"
    "se_pathRTTCache exampleDrainEngine = Some (newStreamRTTProbeCacheForLegs 2)"
    by (simp_all add: exampleDrainEngine_def attachLeg_def exampleEngine0_fields new attachDrain_def registerLeg_def newLeg_def
        announceLeg_def engineForceAck_def kickAck_def kickSpaceSource_def kickRetry_def exampleLegConfig_def Let_def
        drainAuthA_def noAuth_def PathRTTEnabled_def CoordinatedDrainEnabled_def del: replicate.simps)
qed

lemma carrierID_nonempty: "carrierID s i g \<noteq> []"
  by (simp add: carrierID_def)

lemmas attach_evaluation = attachLeg_def exampleDrainEngine_fields attachPathRTT_def attachDrain_def bothAuth_def noAuth_def
  exampleLegConfig_def PathRTTEnabled_def CoordinatedDrainEnabled_def pathDirections_def validFor_def bindLeg_def
  validateStreamPathBinding_def newStreamRTTProbeCacheForLegs_def carrierID_nonempty Let_def

lemma foreign_attach:
  "\<exists>cache. attachLeg True 1 (Some (bothAuth 2)) 0 6 exampleDrainEngine
    = (AttachFailed ErrStreamDrainMessage,
       exampleDrainEngine\<lparr>se_pathSessionID := replicate 16 2, se_pathSessionSet := True, se_pathRTTCache := Some cache\<rparr>)"
  apply (simp add: attach_evaluation del: replicate.simps)
  apply (rule exI, rule refl)
  done

lemma failed_attach_blocks_session:
  "fst (attachLeg True 1 (Some (bothAuth 2)) 0 6 exampleDrainEngine) = AttachFailed ErrStreamDrainMessage
    \<and> fst (attachLeg True 1 (Some (bothAuth 1)) 0 7 (snd (attachLeg True 1 (Some (bothAuth 2)) 0 6 exampleDrainEngine)))
      = AttachFailed ErrStreamPathMessage
    \<and> fst (attachLeg True 1 (Some (bothAuth 1)) 0 7 exampleDrainEngine) = AttachedLeg (length (se_legHeap exampleDrainEngine))"
proof -
  obtain cache where f: "attachLeg True 1 (Some (bothAuth 2)) 0 6 exampleDrainEngine
    = (AttachFailed ErrStreamDrainMessage,
       exampleDrainEngine\<lparr>se_pathSessionID := replicate 16 2, se_pathSessionSet := True, se_pathRTTCache := Some cache\<rparr>)"
    using foreign_attach by blast
  show ?thesis
    unfolding f by (simp add: attach_evaluation)
qed

end
