(* ===== verification/Coordinated_Drain.thy ===== *)
theory Coordinated_Drain
  imports Stream_Legs
begin

text \<open>
  The coordinated drain of a carrier (\<open>core/stream_coordinated_drain.go\<close>): both ends stop scheduling
  on a leg, wait until its records are acknowledged, and agree to retire it by an authenticated
  exchange over the surviving carriers: Intent, Quiesced, Ready, Commit, CommitAck, or Abort. The
  caller of \<open>DrainLeg\<close> and the goroutine \<open>runRemoteDrain\<close> are small-step programs over the state their
  critical sections share; the handler of incoming control frames and the rest of the engine run in
  between. The observer of drain events only reports and is left out.
\<close>

section \<open>State\<close>

definition streamDrainControlRetryInterval :: duration where "streamDrainControlRetryInterval = 200 * Millisecond"

record streamDrainOperation =
  dr_target :: nat
  dr_operationID :: bytes
  dr_targetBinding :: bytes
  dr_counter :: u64
  dr_originRole :: StreamPathRole
  dr_peerGeneration :: u64
  dr_peerAckedNext :: u64
  dr_peerOutstandingFrames :: u32
  dr_peerOutstandingBytes :: u64
  dr_initiator :: bool
  dr_peerQuiesced :: bool
  dr_localReady :: bool
  dr_readySent :: bool
  dr_peerReady :: bool
  dr_commitSent :: bool
  dr_commitRequested :: bool
  dr_commitAck :: bool
  dr_terminalErr :: "smp3_error option"
  dr_finished :: bool
  dr_changed :: bool
  dr_lastControlSent :: gotime

text \<open>Where the goroutine of an operation stands. \<open>PcSend\<close> and \<open>PcSent\<close> surround \<open>sendDrainMessage\<close>,
  \<open>PcComplete\<close> and \<open>PcRetireFailed\<close> are inside \<open>completeAcknowledgedDrain\<close> with the place to continue at
  when it is not done, \<open>PcSelect\<close> waits with the \<open>commitAck\<close> and \<open>commitSent\<close> it has read, the
  \<open>PcAbort\<close> ones are the sections of \<open>abortDrain\<close>, and \<open>PcRemote\<close> ones belong to \<open>runRemoteDrain\<close>.\<close>

datatype drain_pc =
    PcSend StreamDrainMessageKind | PcSent StreamDrainMessageKind "smp3_error option"
  | PcTop | PcFlags | PcComplete drain_pc | PcRetireFailed drain_pc | PcReady | PcCommit | PcWait
  | PcSelect bool bool
  | PcAbort smp3_error bool | PcAbortSend smp3_error bool | PcAborting smp3_error bool
  | PcRemoteRound | PcRemoteSend StreamDrainMessageKind bool | PcRemoteRetire
  | PcReturned "smp3_error option"

record drain_run =
  rn_pc :: drain_pc
  rn_lastKind :: StreamDrainMessageKind
  rn_lastSent :: gotime

text \<open>The engine with its drain state. Operations are objects named by their address, one goroutine
  each; \<open>d_sent\<close> lists the control messages that were handed to the queue of a carrier.\<close>

record DrainEngine =
  d_eng :: StreamEngine
  d_ops :: "streamDrainOperation list"
  d_runs :: "drain_run list"
  d_drainOps :: "(u8, nat) gomap"
  d_highWater :: "(u8 \<times> StreamPathRole, u64) gomap"
  d_counter :: u64
  d_pendingDepth :: "int list"
  d_feederHeld :: "int list"
  d_sent :: "bytes list"

abbreviation dop :: "DrainEngine \<Rightarrow> nat \<Rightarrow> streamDrainOperation" where "dop d o' \<equiv> d_ops d ! o'"
abbreviation dleg :: "DrainEngine \<Rightarrow> nat \<Rightarrow> streamLeg" where "dleg d t \<equiv> se_legHeap (d_eng d) ! t"

definition setOp :: "nat \<Rightarrow> (streamDrainOperation \<Rightarrow> streamDrainOperation) \<Rightarrow> DrainEngine \<Rightarrow> DrainEngine" where
  "setOp o' g d = d\<lparr>d_ops := (d_ops d)[o' := g (d_ops d ! o')]\<rparr>"

definition setPc :: "nat \<Rightarrow> drain_pc \<Rightarrow> DrainEngine \<Rightarrow> DrainEngine" where
  "setPc o' pc d = d\<lparr>d_runs := (d_runs d)[o' := (d_runs d ! o')\<lparr>rn_pc := pc\<rparr>]\<rparr>"

text \<open>\<open>c.getLeg(target.id) == target\<close>.\<close>

definition bound_to :: "nat \<Rightarrow> DrainEngine \<Rightarrow> bool" where
  "bound_to t d \<longleftrightarrow> getLeg (sl_id (dleg d t)) (d_eng d) = Some t"

definition drainSignal :: "streamDrainOperation \<Rightarrow> streamDrainOperation" where
  "drainSignal op = op\<lparr>dr_changed := True\<rparr>"

definition hasDrainControlLeg :: "u8 \<Rightarrow> StreamEngine \<Rightarrow> bool" where
  "hasDrainControlLeg excluding e =
     list_ex (\<lambda>(i, a). i \<noteq> excluding \<and> sl_drainEnabled (sleg e a) \<and> \<not> sl_draining (sleg e a) \<and> \<not> sl_closed (sleg e a)) (se_legs e)"

definition drainReady :: "nat \<Rightarrow> DrainEngine \<Rightarrow> bool" where
  "drainReady t d =
     (let l = dleg d t; i = unat (sl_id l)
      in if sl_closed l \<or> \<not> bound_to t d \<or> \<not> sl_draining l then False
         else if sl_send l \<noteq> 0 \<or> sl_rescue l \<noteq> 0 \<or> sl_debugWriterState l = 2
              \<or> outstandingForLeg (sl_id l) (se_txLedger (d_eng d)) \<noteq> 0 then False
         else if i < length (d_pendingDepth d) \<and> d_pendingDepth d ! i \<noteq> 0 then False
         else if i < length (d_feederHeld d) \<and> d_feederHeld d ! i \<noteq> 0 then False
         else True)"

section \<open>Sending control messages\<close>

definition makeDrainMessage :: "streamDrainOperation \<Rightarrow> StreamDrainMessageKind \<Rightarrow> gotime \<Rightarrow> StreamEngine \<Rightarrow> StreamDrainMessage" where
  "makeDrainMessage op kind now e =
     (let l = sleg e (dr_target op)
      in \<lparr>dm_Kind = kind, dm_SenderRole = cfg_PathRole (se_cfg e), dm_SessionID = se_drainSessionID e,
          dm_TargetLeg = sl_id l, dm_Generation = sl_generation l, dm_TargetBinding = dr_targetBinding op,
          dm_OperationID = dr_operationID op, dm_Counter = dr_counter op,
          dm_AckedNext = sn_AckedNext (fst (Snapshot now (se_txLedger e))),
          dm_OutstandingFrames = of_nat (outstandingForLeg (sl_id l) (se_txLedger e)),
          dm_OutstandingBytes = outstandingBytesForLeg (sl_id l) (se_txLedger e)\<rparr>)"

definition drainCarriers :: "streamDrainOperation \<Rightarrow> StreamEngine \<Rightarrow> nat list" where
  "drainCarriers op e =
     sort_key (\<lambda>a. sl_id (sleg e a))
       (map snd (filter (\<lambda>(i, a). i \<noteq> sl_id (sleg e (dr_target op)) \<and> sl_drainEnabled (sleg e a)
          \<and> \<not> sl_draining (sleg e a) \<and> \<not> sl_closed (sleg e a)) (se_legs e)))"

text \<open>How the wait for a queued message ends: the writer reports, the carrier closes, the context or the
  engine ends. \<open>io_pick\<close> says which case a \<open>select\<close> takes when the queue of a closed carrier has room.\<close>

datatype send_reply = ReplyWritten | ReplyFailed smp3_error | ReplyCarrierDone | ReplyCtxDone smp3_error | ReplyEngineDone

record drain_io =
  io_now :: gotime
  io_pick :: "nat \<Rightarrow> bool"
  io_reply :: "nat \<Rightarrow> send_reply"

definition queueDrainControl :: "nat \<Rightarrow> bytes \<Rightarrow> DrainEngine \<Rightarrow> DrainEngine" where
  "queueDrainControl a wire d =
     d\<lparr>d_eng := setLeg a (pushControl \<lparr>lc_typ = StreamFrameDrain, lc_value = 0, lc_data = wire\<rparr>) (d_eng d),
       d_sent := d_sent d @ [wire]\<rparr>"

fun sendDrainLoop ::
  "drain_io \<Rightarrow> StreamDrainMessage \<Rightarrow> nat list \<Rightarrow> smp3_error list \<Rightarrow> DrainEngine \<Rightarrow> smp3_error option \<times> DrainEngine" where
  "sendDrainLoop io m [] causes d =
     (Some (if causes = [] then ErrStreamDrainUnsupported else DrainSendErr (dm_Kind m) causes), d)"
| "sendDrainLoop io m (a # as) causes d =
     (let l = dleg d a
      in case EncodeDrainMessage (sl_drainAuth l) m of
           Inl err \<Rightarrow> sendDrainLoop io m as (causes @ [err]) d
         | Inr wire \<Rightarrow>
             if controlRoom l \<and> (\<not> sl_closed l \<or> io_pick io a)
             then let d1 = queueDrainControl a wire d
                  in case io_reply io a of
                       ReplyWritten \<Rightarrow> (None, d1)
                     | ReplyFailed err \<Rightarrow> sendDrainLoop io m as (causes @ [err]) d1
                     | ReplyCarrierDone \<Rightarrow> sendDrainLoop io m as (causes @ [ErrStreamDrainCarrierChanged]) d1
                     | ReplyCtxDone err \<Rightarrow> (Some err, d1)
                     | ReplyEngineDone \<Rightarrow> (Some ErrStreamClosed, d1)
             else sendDrainLoop io m as (causes @ [if sl_closed l then ErrStreamDrainCarrierChanged
                    else StreamErr ''surviving carrier control queue is full'']) d)"

definition sendDrainMessage ::
  "drain_io \<Rightarrow> streamDrainOperation \<Rightarrow> StreamDrainMessageKind \<Rightarrow> DrainEngine \<Rightarrow> smp3_error option \<times> DrainEngine" where
  "sendDrainMessage io op kind d =
     sendDrainLoop io (makeDrainMessage op kind (io_now io) (d_eng d)) (drainCarriers op (d_eng d)) [] d"

section \<open>Ending an operation\<close>

text \<open>\<open>drainOperationError\<close>, as the operation is at address \<open>o'\<close>.\<close>

definition registeredOp :: "nat \<Rightarrow> DrainEngine \<Rightarrow> bool" where
  "registeredOp o' d \<longleftrightarrow> mget (d_drainOps d) (sl_id (dleg d (dr_target (dop d o')))) = Some o'"

definition drainOperationError :: "nat \<Rightarrow> DrainEngine \<Rightarrow> smp3_error option" where
  "drainOperationError o' d =
     (if \<not> registeredOp o' d \<and> dr_terminalErr (dop d o') = None \<and> dr_finished (dop d o')
      then Some ErrStreamDrainCarrierChanged else dr_terminalErr (dop d o'))"

text \<open>What \<open>finishDrain\<close> and the last section of \<open>abortDrain\<close> have in common.\<close>

definition closeOperation :: "nat \<Rightarrow> smp3_error option \<Rightarrow> bool \<Rightarrow> DrainEngine \<Rightarrow> DrainEngine" where
  "closeOperation o' err restore d =
     (let t = dr_target (dop d o');
          d1 = (if restore \<and> bound_to t d \<and> \<not> sl_closed (dleg d t)
                then d\<lparr>d_eng := setLeg t (\<lambda>l. l\<lparr>sl_draining := False\<rparr>) (d_eng d)\<rparr> else d);
          d2 = setOp o' (\<lambda>op. op\<lparr>dr_terminalErr := err, dr_finished := True\<rparr>) d1;
          d3 = (if registeredOp o' d2 then d2\<lparr>d_drainOps := mdel (sl_id (dleg d2 t)) (d_drainOps d2)\<rparr> else d2)
      in setOp o' drainSignal d3)"

definition finishDrain :: "nat \<Rightarrow> smp3_error option \<Rightarrow> bool \<Rightarrow> DrainEngine \<Rightarrow> DrainEngine" where
  "finishDrain o' err restore d = closeOperation o' err restore d"

definition forceDrainRecovery :: "nat \<Rightarrow> smp3_error \<Rightarrow> DrainEngine \<Rightarrow> DrainEngine" where
  "forceDrainRecovery o' cause d =
     (let t = dr_target (dop d o');
          d1 = (if bound_to t d \<and> \<not> sl_closed (dleg d t)
                then d\<lparr>d_eng := snd (ReplaceStreamLeg (sl_id (dleg d t)) (Some (DrainUncertainErr cause)) (d_eng d))\<rparr> else d)
      in finishDrain o' (Some cause) False d1)"

text \<open>\<open>retireDrainedLeg\<close>: the carrier leaves the registry without touching the ledger.\<close>

definition retireDrainedLeg :: "gotime \<Rightarrow> nat \<Rightarrow> DrainEngine \<Rightarrow> bool \<times> DrainEngine" where
  "retireDrainedLeg now t d =
     (if \<not> drainReady t d then (False, d)
      else let e1 = moveToRetiring t (d_eng d);
               e2 = invalidatePath t e1;
               e3 = e2\<lparr>se_capacityResets := se_capacityResets e2 @ [(sl_id (sleg e2 t), now)]\<rparr>
           in (True, d\<lparr>d_eng := setLeg t (closeStreamLeg None) e3\<rparr>))"

text \<open>\<open>abortDrain\<close>: the first section, the Abort message of an initiator, and the last section.\<close>

definition abortBegin :: "nat \<Rightarrow> smp3_error \<Rightarrow> bool \<Rightarrow> DrainEngine \<Rightarrow> DrainEngine" where
  "abortBegin o' err restore d =
     (let op = dop d o'
      in if dr_commitSent op \<or> dr_commitRequested op then setPc o' (PcReturned (Some err)) (forceDrainRecovery o' err d)
         else if dr_initiator op \<and> \<not> dr_finished op then setPc o' (PcAbortSend err restore) d
         else setPc o' (PcAborting err restore) d)"

definition abortNotify :: "drain_io \<Rightarrow> nat \<Rightarrow> smp3_error \<Rightarrow> bool \<Rightarrow> DrainEngine \<Rightarrow> DrainEngine" where
  "abortNotify io o' err restore d =
     setPc o' (PcAborting err restore) (snd (sendDrainMessage io (dop d o') StreamDrainAbort d))"

definition abortEnd :: "nat \<Rightarrow> smp3_error \<Rightarrow> bool \<Rightarrow> DrainEngine \<Rightarrow> DrainEngine" where
  "abortEnd o' err restore d =
     setPc o' (PcReturned (Some err))
       (if dr_commitSent (dop d o') \<or> dr_commitRequested (dop d o') then forceDrainRecovery o' err d
        else closeOperation o' (Some err) restore d)"

text \<open>The goroutine that waits for the workers of a retired carrier.\<close>

definition reapDrainedLeg :: "nat \<Rightarrow> StreamEngine \<Rightarrow> StreamEngine" where
  "reapDrainedLeg t e = kickSpaceSource (retireStreamLeg t e)"

section \<open>The initiator\<close>

definition newDrainRun :: "drain_pc \<Rightarrow> drain_run" where
  "newDrainRun pc = \<lparr>rn_pc = pc, rn_lastKind = 0, rn_lastSent = 0\<rparr>"

definition newOperation :: "nat \<Rightarrow> bytes \<Rightarrow> bytes \<Rightarrow> u64 \<Rightarrow> StreamPathRole \<Rightarrow> streamDrainOperation" where
  "newOperation t operationID binding counter origin =
     \<lparr>dr_target = t, dr_operationID = operationID, dr_targetBinding = binding, dr_counter = counter, dr_originRole = origin,
      dr_peerGeneration = 0, dr_peerAckedNext = 0, dr_peerOutstandingFrames = 0, dr_peerOutstandingBytes = 0,
      dr_initiator = False, dr_peerQuiesced = False, dr_localReady = False, dr_readySent = False, dr_peerReady = False,
      dr_commitSent = False, dr_commitRequested = False, dr_commitAck = False, dr_terminalErr = None, dr_finished = False,
      dr_changed = False, dr_lastControlSent = 0\<rparr>"

text \<open>Raising the barrier and registering an operation, with its goroutine.\<close>

definition startOperation :: "streamDrainOperation \<Rightarrow> drain_pc \<Rightarrow> DrainEngine \<Rightarrow> DrainEngine" where
  "startOperation op pc d =
     (let t = dr_target op
      in d\<lparr>d_eng := setLeg t (\<lambda>l. l\<lparr>sl_draining := True\<rparr>) (d_eng d),
           d_drainOps := mput (sl_id (dleg d t)) (length (d_ops d)) (d_drainOps d),
           d_ops := d_ops d @ [op], d_runs := d_runs d @ [newDrainRun pc]\<rparr>)"

text \<open>The checks of \<open>coordinatedDrainLeg\<close> before it draws an operation id: \<open>Inl\<close> is what it returns.\<close>

definition drainPrecheck :: "LegID \<Rightarrow> DrainEngine \<Rightarrow> smp3_error option + nat" where
  "drainPrecheck i d =
     (if unat i \<ge> se_maxActiveLegs (d_eng d) then Inl (Some ErrStreamLegNotFound)
      else case getLeg i (d_eng d) of
             None \<Rightarrow> Inl None
           | Some t \<Rightarrow>
               if sl_closed (dleg d t) then Inl None
               else if legCount (d_eng d) \<le> 1 then Inl (Some ErrStreamLastLeg)
               else if \<not> sl_drainEnabled (dleg d t) \<or> \<not> hasDrainControlLeg (sl_id (dleg d t)) (d_eng d)
               then Inl (Some ErrStreamDrainUnsupported)
               else Inr t)"

text \<open>The section under \<open>drainMu\<close> that starts the operation.\<close>

definition drainBegin :: "bytes \<Rightarrow> gotime \<Rightarrow> nat \<Rightarrow> DrainEngine \<Rightarrow> smp3_error option \<times> DrainEngine" where
  "drainBegin opID now t d =
     (if int (legCount (d_eng d)) - int (length (d_drainOps d)) \<le> 1 then (Some ErrStreamLastLeg, d)
      else if mget (d_drainOps d) (sl_id (dleg d t)) \<noteq> None then (Some ErrStreamDrainConflict, d)
      else if sl_closed (dleg d t) \<or> \<not> bound_to t d then (Some ErrStreamDrainCarrierChanged, d)
      else let d1 = d\<lparr>d_counter := d_counter d + 1\<rparr>;
               op = (newOperation t opID (sl_drainBinding (dleg d t)) (d_counter d1) (cfg_PathRole (se_cfg (d_eng d))))
                      \<lparr>dr_initiator := True, dr_lastControlSent := now\<rparr>
           in (None, startOperation op (PcSend StreamDrainIntent) d1))"

definition coordinatedDrainLeg :: "LegID \<Rightarrow> bytes \<Rightarrow> gotime \<Rightarrow> DrainEngine \<Rightarrow> (smp3_error option + nat) \<times> DrainEngine" where
  "coordinatedDrainLeg i opID now d =
     (case drainPrecheck i d of
        Inl r \<Rightarrow> (Inl r, d)
      | Inr t \<Rightarrow> (case drainBegin opID now t d of
                   (Some err, d1) \<Rightarrow> (Inl (Some err), d1)
                 | (None, d1) \<Rightarrow> (Inr (length (d_ops d)), d1)))"

text \<open>What follows each of its three messages.\<close>

definition afterDrainSend :: "gotime \<Rightarrow> nat \<Rightarrow> StreamDrainMessageKind \<Rightarrow> smp3_error option \<Rightarrow> DrainEngine \<Rightarrow> DrainEngine" where
  "afterDrainSend now o' kind r d =
     (case r of
        Some err \<Rightarrow> (if kind = StreamDrainCommit
                     then setPc o' (PcReturned (Some ErrStreamDrainCommitUncertain)) (forceDrainRecovery o' err d)
                     else setPc o' (PcAbort err True) d)
      | None \<Rightarrow> (if kind = StreamDrainIntent then setPc o' PcTop d
                 else if kind = StreamDrainReady
                 then setPc o' PcWait (if registeredOp o' d
                        then setOp o' (\<lambda>op. op\<lparr>dr_readySent := True, dr_lastControlSent := now\<rparr>) d else d)
                 else setPc o' PcWait d))"

text \<open>\<open>completeAcknowledgedDrain\<close>, with \<open>k\<close> the place to go on at when it is not done.\<close>

definition settledAndGone :: "nat \<Rightarrow> DrainEngine \<Rightarrow> bool" where
  "settledAndGone t d \<longleftrightarrow> sl_closed (dleg d t) \<and> \<not> bound_to t d \<and> outstandingForLeg (sl_id (dleg d t)) (se_txLedger (d_eng d)) = 0"

definition completeAcknowledgedDrain :: "gotime \<Rightarrow> nat \<Rightarrow> drain_pc \<Rightarrow> DrainEngine \<Rightarrow> DrainEngine" where
  "completeAcknowledgedDrain now o' k d =
     (let t = dr_target (dop d o')
      in if bound_to t d \<and> \<not> sl_closed (dleg d t)
         then (case retireDrainedLeg now t d of
                 (True, d1) \<Rightarrow> setPc o' (PcReturned None) (finishDrain o' None False d1)
               | (False, d1) \<Rightarrow> setPc o' (PcRetireFailed k) d1)
         else if settledAndGone t d then setPc o' (PcReturned None) (finishDrain o' None False d)
         else setPc o' k d)"

definition retireFailed :: "nat \<Rightarrow> drain_pc \<Rightarrow> DrainEngine \<Rightarrow> DrainEngine" where
  "retireFailed o' k d =
     (let t = dr_target (dop d o')
      in if sl_closed (dleg d t)
         then (if settledAndGone t d then setPc o' (PcReturned None) (finishDrain o' None False d) else setPc o' k d)
         else setPc o' (PcReturned (Some ErrStreamDrainCarrierChanged)) (forceDrainRecovery o' ErrStreamDrainCarrierChanged d))"

text \<open>The settled-leg part of the loop: note the local readiness, then send Ready, or try to commit.\<close>

definition readyRound :: "gotime \<Rightarrow> nat \<Rightarrow> DrainEngine \<Rightarrow> DrainEngine" where
  "readyRound now o' d =
     (if \<not> drainReady (dr_target (dop d o')) d then setPc o' PcWait d
      else let d1 = (if registeredOp o' d \<and> \<not> dr_localReady (dop d o')
                     then setOp o' (\<lambda>op. drainSignal (op\<lparr>dr_localReady := True\<rparr>)) d else d);
               op = dop d1 o'; ready = dr_localReady op \<and> dr_peerQuiesced op
           in if ready \<and> (\<not> dr_readySent op
                 \<or> \<not> dr_peerReady op \<and> Sub now (dr_lastControlSent op) \<ge> streamDrainControlRetryInterval)
              then setPc o' (PcSend StreamDrainReady) d1
              else if ready \<and> dr_readySent op \<and> dr_peerReady op \<and> \<not> dr_commitSent op then setPc o' PcCommit d1
              else setPc o' PcWait d1)"

definition commitRound :: "gotime \<Rightarrow> nat \<Rightarrow> DrainEngine \<Rightarrow> DrainEngine" where
  "commitRound now o' d =
     (let op = dop d o'
      in if registeredOp o' d \<and> dr_terminalErr op = None \<and> dr_readySent op \<and> dr_localReady op \<and> dr_peerQuiesced op
            \<and> dr_peerReady op \<and> \<not> dr_commitSent op
         then setPc o' (PcSend StreamDrainCommit) (setOp o' (\<lambda>op. op\<lparr>dr_commitSent := True, dr_lastControlSent := now\<rparr>) d)
         else setPc o' PcTop d)"

text \<open>One step of the caller of \<open>DrainLeg\<close>, up to its \<open>select\<close>.\<close>

definition initiatorStep :: "drain_io \<Rightarrow> nat \<Rightarrow> DrainEngine \<Rightarrow> DrainEngine" where
  "initiatorStep io o' d =
     (let op = dop d o'; t = dr_target op
      in case rn_pc (d_runs d ! o') of
           PcSend kind \<Rightarrow> (case sendDrainMessage io op kind d of (r, d1) \<Rightarrow> setPc o' (PcSent kind r) d1)
         | PcSent kind r \<Rightarrow> afterDrainSend (io_now io) o' kind r d
         | PcTop \<Rightarrow> (case drainOperationError o' d of
                       Some err \<Rightarrow> setPc o' (PcAbort err True) d
                     | None \<Rightarrow> setPc o' PcFlags d)
         | PcFlags \<Rightarrow> (if dr_commitAck op then setPc o' (PcComplete PcReady) d
                       else if \<not> dr_commitSent op \<and> (sl_closed (dleg d t) \<or> \<not> bound_to t d)
                       then setPc o' (PcAbort ErrStreamDrainCarrierChanged False) d
                       else setPc o' PcReady d)
         | PcComplete k \<Rightarrow> completeAcknowledgedDrain (io_now io) o' k d
         | PcRetireFailed k \<Rightarrow> retireFailed o' k d
         | PcReady \<Rightarrow> readyRound (io_now io) o' d
         | PcCommit \<Rightarrow> commitRound (io_now io) o' d
         | PcWait \<Rightarrow> (if dr_commitAck op then setPc o' (PcComplete (PcSelect True (dr_commitSent op))) d
                      else setPc o' (PcSelect False (dr_commitSent op)) d)
         | PcAbort err restore \<Rightarrow> abortBegin o' err restore d
         | PcAbortSend err restore \<Rightarrow> abortNotify io o' err restore d
         | PcAborting err restore \<Rightarrow> abortEnd o' err restore d
         | _ \<Rightarrow> d)"

text \<open>Its \<open>select\<close>.\<close>

datatype drain_event = EvChanged | EvTick | EvCtxDone smp3_error | EvTimeout | EvTargetDone | EvEngineDone

definition initiatorSelect :: "drain_event \<Rightarrow> nat \<Rightarrow> DrainEngine \<Rightarrow> DrainEngine" where
  "initiatorSelect ev o' d =
     (case rn_pc (d_runs d ! o') of
        PcSelect commitAck commitSent \<Rightarrow>
          (let op = dop d o'; t = dr_target op;
               expired = (\<lambda>err. if commitSent
                  then setPc o' (PcReturned (Some ErrStreamDrainCommitUncertain)) (forceDrainRecovery o' err d)
                  else setPc o' (PcAbort err True) d)
           in case ev of
                EvChanged \<Rightarrow> (if dr_changed op then setPc o' PcTop (setOp o' (\<lambda>op. op\<lparr>dr_changed := False\<rparr>) d) else d)
              | EvTick \<Rightarrow> setPc o' PcTop d
              | EvCtxDone err \<Rightarrow> expired err
              | EvTimeout \<Rightarrow> expired ErrDeadlineExceeded
              | EvTargetDone \<Rightarrow> (if \<not> commitAck \<and> \<not> commitSent \<and> sl_closed (dleg d t)
                                  then (if dr_commitSent op \<or> dr_commitAck op then setPc o' PcTop d
                                        else setPc o' (PcAbort ErrStreamDrainCarrierChanged False) d)
                                  else d)
              | EvEngineDone \<Rightarrow> (if se_done (d_eng d) then setPc o' (PcAbort ErrStreamClosed False) d else d))
      | _ \<Rightarrow> d)"

section \<open>The responder\<close>

definition remoteRound :: "nat \<Rightarrow> DrainEngine \<Rightarrow> DrainEngine" where
  "remoteRound o' d =
     (let t = dr_target (dop d o')
      in if sl_closed (dleg d t) \<or> \<not> bound_to t d
         then setPc o' (PcReturned (Some ErrStreamDrainCarrierChanged)) (finishDrain o' (Some ErrStreamDrainCarrierChanged) False d)
         else let op = dop d o'; commitRequested = dr_commitRequested op; peerReady = dr_peerReady op;
                  settled = drainReady t d; ready = dr_localReady op \<or> settled;
                  d1 = (if settled then setOp o' (\<lambda>op. op\<lparr>dr_localReady := True\<rparr>) d else d);
                  kind = (if commitRequested \<and> ready then StreamDrainCommitAck
                          else if ready then StreamDrainReady else StreamDrainQuiesced)
              in setPc o' (PcRemoteSend kind (commitRequested \<and> ready \<and> peerReady)) d1)"

text \<open>The message of the round, when it is new or due again; a failed send is tried again later.\<close>

definition remoteSend :: "drain_io \<Rightarrow> nat \<Rightarrow> StreamDrainMessageKind \<Rightarrow> bool \<Rightarrow> DrainEngine \<Rightarrow> DrainEngine" where
  "remoteSend io o' kind committing d =
     (let run = d_runs d ! o';
          d1 = (if kind \<noteq> rn_lastKind run \<or> Sub (io_now io) (rn_lastSent run) \<ge> streamDrainControlRetryInterval
                then (case sendDrainMessage io (dop d o') kind d of
                        (Some err, d2) \<Rightarrow> d2
                      | (None, d2) \<Rightarrow> d2\<lparr>d_runs := (d_runs d2)[o' := run\<lparr>rn_lastKind := kind, rn_lastSent := io_now io\<rparr>]\<rparr>)
                else d)
      in setPc o' (if committing then PcRemoteRetire else PcSelect False False) d1)"

definition remoteRetire :: "gotime \<Rightarrow> nat \<Rightarrow> DrainEngine \<Rightarrow> DrainEngine" where
  "remoteRetire now o' d =
     (case retireDrainedLeg now (dr_target (dop d o')) d of
        (True, d1) \<Rightarrow> setPc o' (PcReturned None) (finishDrain o' None False d1)
      | (False, d1) \<Rightarrow> setPc o' (PcReturned (Some ErrStreamDrainCarrierChanged)) (forceDrainRecovery o' ErrStreamDrainCarrierChanged d1))"

definition remoteStep :: "drain_io \<Rightarrow> nat \<Rightarrow> DrainEngine \<Rightarrow> DrainEngine" where
  "remoteStep io o' d =
     (case rn_pc (d_runs d ! o') of
        PcTop \<Rightarrow> (case drainOperationError o' d of
                    Some err \<Rightarrow> setPc o' (PcAbort err True) d
                  | None \<Rightarrow> setPc o' PcRemoteRound d)
      | PcRemoteRound \<Rightarrow> remoteRound o' d
      | PcRemoteSend kind committing \<Rightarrow> remoteSend io o' kind committing d
      | PcRemoteRetire \<Rightarrow> remoteRetire (io_now io) o' d
      | PcAbort err restore \<Rightarrow> abortBegin o' err restore d
      | PcAborting err restore \<Rightarrow> abortEnd o' err restore d
      | _ \<Rightarrow> d)"

definition remoteSelect :: "drain_io \<Rightarrow> drain_event \<Rightarrow> nat \<Rightarrow> DrainEngine \<Rightarrow> DrainEngine" where
  "remoteSelect io ev o' d =
     (case rn_pc (d_runs d ! o') of
        PcSelect _ _ \<Rightarrow>
          (let op = dop d o'; t = dr_target op
           in case ev of
                EvChanged \<Rightarrow> (if dr_changed op then setPc o' PcTop (setOp o' (\<lambda>op. op\<lparr>dr_changed := False\<rparr>) d) else d)
              | EvTick \<Rightarrow> setPc o' PcTop d
              | EvTimeout \<Rightarrow> setPc o' (PcAbort ErrDeadlineExceeded True) (snd (sendDrainMessage io op StreamDrainAbort d))
              | EvTargetDone \<Rightarrow> (if sl_closed (dleg d t)
                    then setPc o' (PcReturned (Some ErrStreamDrainCarrierChanged)) (finishDrain o' (Some ErrStreamDrainCarrierChanged) False d)
                    else d)
              | EvEngineDone \<Rightarrow> (if se_done (d_eng d)
                    then setPc o' (PcReturned (Some ErrStreamClosed)) (finishDrain o' (Some ErrStreamClosed) False d) else d)
              | EvCtxDone err \<Rightarrow> d)
      | _ \<Rightarrow> d)"

section \<open>Incoming control frames\<close>

definition remoteOperation :: "nat \<Rightarrow> StreamDrainMessage \<Rightarrow> streamDrainOperation" where
  "remoteOperation t m = (newOperation t (dm_OperationID m) (dm_TargetBinding m) (dm_Counter m) (dm_SenderRole m))
     \<lparr>dr_peerGeneration := dm_Generation m\<rparr>"

definition noteCounter :: "nat \<Rightarrow> StreamDrainMessage \<Rightarrow> DrainEngine \<Rightarrow> DrainEngine" where
  "noteCounter t m d = d\<lparr>d_highWater := mput (sl_id (dleg d t), dm_SenderRole m) (dm_Counter m) (d_highWater d)\<rparr>"

definition acceptDrainIntent :: "drain_io \<Rightarrow> nat \<Rightarrow> StreamDrainMessage \<Rightarrow> DrainEngine \<Rightarrow> smp3_error option \<times> DrainEngine" where
  "acceptDrainIntent io t m d =
     (let i = sl_id (dleg d t)
      in case mget (d_drainOps d) i of
           Some o' \<Rightarrow>
             if dr_operationID (dop d o') = dm_OperationID m \<and> dr_counter (dop d o') = dm_Counter m
                \<and> dr_targetBinding (dop d o') = dm_TargetBinding m
             then (None, setOp o' drainSignal d)
             else sendDrainMessage io (remoteOperation t m) StreamDrainAbort
                    (noteCounter t m (setOp o' (\<lambda>op. drainSignal (op\<lparr>dr_terminalErr := Some ErrStreamDrainConflict\<rparr>)) d))
         | None \<Rightarrow>
             if dm_Counter m \<le> (case mget (d_highWater d) (i, dm_SenderRole m) of Some h \<Rightarrow> h | None \<Rightarrow> 0) then (None, d)
             else if sl_closed (dleg d t) \<or> \<not> bound_to t d \<or> int (legCount (d_eng d)) - int (length (d_drainOps d)) \<le> 1
             then sendDrainMessage io (remoteOperation t m) StreamDrainAbort (noteCounter t m d)
             else (None, startOperation ((remoteOperation t m)\<lparr>dr_peerQuiesced := True\<rparr>) PcTop (noteCounter t m d)))"

text \<open>The part of the handler that changes the addressed operation.\<close>

definition applyDrainMessage :: "StreamDrainMessage \<Rightarrow> streamDrainOperation \<Rightarrow> smp3_error option \<times> streamDrainOperation" where
  "applyDrainMessage m op0 =
     (let op = op0\<lparr>dr_peerGeneration := (if dr_peerGeneration op0 = 0 then dm_Generation m else dr_peerGeneration op0),
                  dr_peerAckedNext := dm_AckedNext m, dr_peerOutstandingFrames := dm_OutstandingFrames m,
                  dr_peerOutstandingBytes := dm_OutstandingBytes m\<rparr>;
          settled = (dm_OutstandingFrames m = 0 \<and> dm_OutstandingBytes m = 0);
          refused = drainSignal (op\<lparr>dr_terminalErr := Some ErrStreamDrainMessage\<rparr>)
      in if dm_Kind m = StreamDrainQuiesced then (None, drainSignal (op\<lparr>dr_peerQuiesced := True\<rparr>))
         else if dm_Kind m = StreamDrainReady then
           (None, if settled then drainSignal (op\<lparr>dr_peerQuiesced := True, dr_peerReady := True\<rparr>) else refused)
         else if dm_Kind m = StreamDrainCommit then
           (None, if settled \<and> \<not> dr_initiator op \<and> dr_localReady op \<and> dr_peerReady op
                  then drainSignal (op\<lparr>dr_commitRequested := True\<rparr>) else refused)
         else if dm_Kind m = StreamDrainCommitAck then
           (None, if dr_initiator op \<and> dr_commitSent op \<and> settled
                  then drainSignal (op\<lparr>dr_commitAck := True\<rparr>) else refused)
         else if dm_Kind m = StreamDrainAbort then
           (None, drainSignal (op\<lparr>dr_terminalErr := Some (StreamErr ''peer aborted coordinated drain'')\<rparr>))
         else (Some ErrStreamDrainMessage, op))"

text \<open>The message is for the operation and its target is in a state to hear it.\<close>

definition drainAddressed :: "StreamDrainMessage \<Rightarrow> nat \<Rightarrow> DrainEngine \<Rightarrow> bool" where
  "drainAddressed m o' d =
     (let op = dop d o'; t = dr_target op; l = dleg d t; i = dm_TargetLeg m; cur = getLeg i (d_eng d)
      in sl_id l = i \<and> sl_drainEnabled l \<and> dr_operationID op = dm_OperationID m \<and> dr_counter op = dm_Counter m
         \<and> dr_targetBinding op = dm_TargetBinding m \<and> sl_drainBinding l = dm_TargetBinding m
         \<and> (dr_peerGeneration op = 0 \<or> dr_peerGeneration op = dm_Generation m)
         \<and> (cur = None \<or> cur = Some t)
         \<and> (cur = Some t \<or> dm_Kind m = StreamDrainCommitAck \<and> sl_closed l)
         \<and> (dr_peerGeneration op = 0 \<longrightarrow> cur = Some t \<and> \<not> sl_closed l \<and> dm_Kind m \<noteq> StreamDrainCommitAck))"

definition handleDrainControlFrame :: "drain_io \<Rightarrow> nat \<Rightarrow> bytes \<Rightarrow> DrainEngine \<Rightarrow> smp3_error option \<times> DrainEngine" where
  "handleDrainControlFrame io a wire d =
     (let role = cfg_PathRole (se_cfg (d_eng d))
      in if \<not> sl_drainEnabled (dleg d a) then (Some ErrStreamDrainNegotiation, d)
         else if role \<noteq> StreamPathRoleClient \<and> role \<noteq> StreamPathRoleServer then (Some ErrStreamPathRole, d)
         else case DecodeDrainMessage (sl_drainAuth (dleg d a)) wire
                (if role = StreamPathRoleClient then StreamPathRoleServer else StreamPathRoleClient) of
                Inl err \<Rightarrow> (Some err, d)
              | Inr m \<Rightarrow>
                  if dm_TargetLeg m = sl_id (dleg d a) then (None, d)
                  else if dm_Kind m = StreamDrainIntent then
                    (case getLeg (dm_TargetLeg m) (d_eng d) of
                       None \<Rightarrow> (None, d)
                     | Some t \<Rightarrow> if \<not> sl_drainEnabled (dleg d t) \<or> sl_drainBinding (dleg d t) \<noteq> dm_TargetBinding m then (None, d)
                                 else acceptDrainIntent io t m d)
                  else case mget (d_drainOps d) (dm_TargetLeg m) of
                         None \<Rightarrow> (None, d)
                       | Some o' \<Rightarrow>
                           if \<not> drainAddressed m o' d then (None, d)
                           else case applyDrainMessage m (dop d o') of (r, op) \<Rightarrow> (r, setOp o' (\<lambda>_. op) d))"

section \<open>Runs\<close>

text \<open>One endpoint, with \<open>N\<close> the control messages its peer has sent so far. The engine makes its own steps,
  which never write the barrier of a carrier and keep the array types of Go; the goroutines of the
  operations, the callers of \<open>DrainLeg\<close> and the readers of the carriers interleave freely.\<close>

definition arrays :: "StreamEngine \<Rightarrow> bool" where
  "arrays e \<longleftrightarrow> length (se_drainSessionID e) = 16 \<and> (\<forall>a < length (se_legHeap e). length (sl_drainBinding (sleg e a)) = 16)"

definition sameBarriers :: "StreamEngine \<Rightarrow> StreamEngine \<Rightarrow> bool" where
  "sameBarriers e e' \<longleftrightarrow> (\<forall>a < length (se_legHeap e). sl_draining (sleg e' a) = sl_draining (sleg e a))"

inductive drain_step :: "bytes set \<Rightarrow> DrainEngine \<Rightarrow> DrainEngine \<Rightarrow> bool" for N where
  engine: "legs_step (d_eng d) e' \<Longrightarrow> sameBarriers (d_eng d) e' \<Longrightarrow> arrays e' \<Longrightarrow> drain_step N d (d\<lparr>d_eng := e'\<rparr>)"
| reap: "t \<in> set (se_reapers (d_eng d)) \<Longrightarrow> t < length (se_legHeap (d_eng d)) \<Longrightarrow> \<not> legBusy (dleg d t)
     \<Longrightarrow> drain_step N d (d\<lparr>d_eng := reapDrainedLeg t (d_eng d)\<rparr>)"
| feeders: "drain_step N d (d\<lparr>d_pendingDepth := p, d_feederHeld := q\<rparr>)"
| start: "length opID = 16 \<Longrightarrow> t < length (se_legHeap (d_eng d)) \<Longrightarrow> drain_step N d (snd (drainBegin opID now t d))"
| initiator: "o' < length (d_ops d) \<Longrightarrow> dr_initiator (dop d o') \<Longrightarrow> drain_step N d (initiatorStep io o' d)"
| initiatorWoken: "o' < length (d_ops d) \<Longrightarrow> dr_initiator (dop d o') \<Longrightarrow> drain_step N d (initiatorSelect ev o' d)"
| remote: "o' < length (d_ops d) \<Longrightarrow> \<not> dr_initiator (dop d o') \<Longrightarrow> drain_step N d (remoteStep io o' d)"
| remoteWoken: "o' < length (d_ops d) \<Longrightarrow> \<not> dr_initiator (dop d o') \<Longrightarrow> drain_step N d (remoteSelect io ev o' d)"
| receive: "a < length (se_legHeap (d_eng d)) \<Longrightarrow> wire \<in> N \<Longrightarrow> drain_step N d (snd (handleDrainControlFrame io a wire d))"

definition newDrainEngine :: "StreamEngine \<Rightarrow> DrainEngine" where
  "newDrainEngine e = \<lparr>d_eng = e, d_ops = [], d_runs = [], d_drainOps = [], d_highWater = [], d_counter = 0,
     d_pendingDepth = replicate (se_maxActiveLegs e) 0, d_feederHeld = replicate (se_maxActiveLegs e) 0, d_sent = []\<rparr>"

text \<open>Two endpoints over carriers that may lose, repeat and reorder.\<close>

inductive pair_step :: "DrainEngine \<times> DrainEngine \<Rightarrow> DrainEngine \<times> DrainEngine \<Rightarrow> bool" where
  here: "drain_step (set (d_sent y)) x x' \<Longrightarrow> pair_step (x, y) (x', y)"
| there: "drain_step (set (d_sent x)) y y' \<Longrightarrow> pair_step (x, y) (x, y')"

section \<open>The agreement invariant\<close>

text \<open>A message is about an operation.\<close>

definition about :: "streamDrainOperation \<Rightarrow> StreamDrainMessage \<Rightarrow> bool" where
  "about op m \<longleftrightarrow> dm_OperationID m = dr_operationID op \<and> dm_Counter m = dr_counter op \<and> dm_TargetBinding m = dr_targetBinding op"

definition heard :: "bytes set \<Rightarrow> StreamDrainMessageKind \<Rightarrow> streamDrainOperation \<Rightarrow> bool" where
  "heard N k op \<longleftrightarrow> (\<exists>w \<in> N. about op (drainFields w) \<and> dm_Kind (drainFields w) = k)"

definition op_ok :: "bytes set \<Rightarrow> streamDrainOperation \<Rightarrow> bool" where
  "op_ok N op \<longleftrightarrow> length (dr_operationID op) = 16 \<and> length (dr_targetBinding op) = 16
     \<and> (dr_commitSent op \<longrightarrow> dr_initiator op \<and> dr_localReady op \<and> dr_peerReady op)
     \<and> (dr_commitRequested op \<longrightarrow> \<not> dr_initiator op \<and> dr_localReady op \<and> dr_peerReady op \<and> heard N StreamDrainCommit op)
     \<and> (dr_commitAck op \<longrightarrow> dr_initiator op \<and> dr_commitSent op \<and> heard N StreamDrainCommitAck op)
     \<and> (dr_peerReady op \<longrightarrow> heard N StreamDrainReady op)"

fun pc_ok :: "streamDrainOperation \<Rightarrow> drain_pc \<Rightarrow> bool" where
  "pc_ok op (PcSend k) = (k = StreamDrainIntent \<or> k = StreamDrainReady \<and> dr_localReady op \<or> k = StreamDrainCommit \<and> dr_commitSent op)"
| "pc_ok op (PcComplete k) = (dr_commitAck op \<and> (k = PcReady \<or> (\<exists>s. k = PcSelect True s)))"
| "pc_ok op (PcRetireFailed k) = (dr_commitAck op \<and> (k = PcReady \<or> (\<exists>s. k = PcSelect True s)))"
| "pc_ok op (PcRemoteSend k c) = (\<not> dr_initiator op \<and> (k = StreamDrainQuiesced \<or> k = StreamDrainReady \<and> dr_localReady op
      \<or> k = StreamDrainCommitAck \<and> dr_commitRequested op) \<and> (c \<longrightarrow> dr_commitRequested op))"
| "pc_ok op PcRemoteRetire = (\<not> dr_initiator op \<and> dr_commitRequested op)"
| "pc_ok op (PcReturned None) = (if dr_initiator op then dr_commitAck op else dr_commitRequested op)"
| "pc_ok op _ = True"

definition wire_ok :: "streamDrainOperation list \<Rightarrow> StreamDrainMessage \<Rightarrow> bool" where
  "wire_ok ops m \<longleftrightarrow>
     (dm_Kind m = StreamDrainReady \<longrightarrow> (\<exists>op \<in> set ops. about op m \<and> dr_localReady op))
     \<and> (dm_Kind m = StreamDrainCommit \<longrightarrow> (\<exists>op \<in> set ops. about op m \<and> dr_commitSent op))
     \<and> (dm_Kind m = StreamDrainCommitAck \<longrightarrow> (\<exists>op \<in> set ops. about op m \<and> dr_commitRequested op))"

definition legs_in :: "StreamEngine \<Rightarrow> bool" where
  "legs_in e \<longleftrightarrow> (\<forall>i t. mget (se_legs e) i = Some t \<longrightarrow> t < length (se_legHeap e))"

definition drain_ok :: "bytes set \<Rightarrow> DrainEngine \<Rightarrow> bool" where
  "drain_ok N d \<longleftrightarrow> arrays (d_eng d) \<and> legs_in (d_eng d) \<and> length (d_runs d) = length (d_ops d)
     \<and> (\<forall>o' < length (d_ops d). op_ok N (dop d o') \<and> pc_ok (dop d o') (rn_pc (d_runs d ! o')))
     \<and> (\<forall>w \<in> set (d_sent d). wire_ok (d_ops d) (drainFields w))"

text \<open>What an operation never loses.\<close>

definition op_mono :: "streamDrainOperation \<Rightarrow> streamDrainOperation \<Rightarrow> bool" where
  "op_mono op op' \<longleftrightarrow> dr_target op' = dr_target op \<and> dr_operationID op' = dr_operationID op \<and> dr_counter op' = dr_counter op
     \<and> dr_targetBinding op' = dr_targetBinding op \<and> dr_initiator op' = dr_initiator op
     \<and> (dr_localReady op \<longrightarrow> dr_localReady op') \<and> (dr_peerReady op \<longrightarrow> dr_peerReady op')
     \<and> (dr_commitSent op \<longrightarrow> dr_commitSent op') \<and> (dr_commitRequested op \<longrightarrow> dr_commitRequested op')
     \<and> (dr_commitAck op \<longrightarrow> dr_commitAck op')"

section \<open>Lemmas\<close>

subsection \<open>Frames\<close>

lemma op_mono_refl [simp]: "op_mono op op"
  by (simp add: op_mono_def)

lemma setOp_frame [simp]:
  "d_eng (setOp o' g d) = d_eng d" "d_runs (setOp o' g d) = d_runs d" "d_sent (setOp o' g d) = d_sent d"
  "d_drainOps (setOp o' g d) = d_drainOps d" "d_ops (setOp o' g d) = (d_ops d)[o' := g (dop d o')]"
  "d_highWater (setOp o' g d) = d_highWater d" "d_counter (setOp o' g d) = d_counter d"
  by (simp_all add: setOp_def)

lemma setPc_frame [simp]:
  "d_eng (setPc o' pc d) = d_eng d" "d_ops (setPc o' pc d) = d_ops d" "d_sent (setPc o' pc d) = d_sent d"
  "d_drainOps (setPc o' pc d) = d_drainOps d" "d_runs (setPc o' pc d) = (d_runs d)[o' := (d_runs d ! o')\<lparr>rn_pc := pc\<rparr>]"
  "d_highWater (setPc o' pc d) = d_highWater d" "d_counter (setPc o' pc d) = d_counter d"
  by (simp_all add: setPc_def)

text \<open>What the drain code asks of a change of the engine.\<close>

definition engine_keeps :: "StreamEngine \<Rightarrow> StreamEngine \<Rightarrow> bool" where
  "engine_keeps e e' \<longleftrightarrow> legs_mono e e' \<and> se_drainSessionID e' = se_drainSessionID e \<and> length (se_legHeap e') = length (se_legHeap e)"

lemma engine_keeps_refl [simp]: "engine_keeps e e"
  by (simp add: engine_keeps_def)

lemma engine_keeps_trans [trans]: "engine_keeps e e' \<Longrightarrow> engine_keeps e' e'' \<Longrightarrow> engine_keeps e e''"
  unfolding engine_keeps_def using legs_mono_trans by auto

lemma arrays_keeps: "engine_keeps e e' \<Longrightarrow> arrays e \<Longrightarrow> arrays e'"
  unfolding engine_keeps_def arrays_def legs_mono_def by auto

lemma legs_in_mono: "legs_mono e e' \<Longrightarrow> legs_in e \<Longrightarrow> legs_in e'"
  unfolding legs_mono_def legs_in_def by (meson less_le_trans)

lemma legs_in_keeps: "engine_keeps e e' \<Longrightarrow> legs_in e \<Longrightarrow> legs_in e'"
  unfolding engine_keeps_def using legs_in_mono by blast

lemma setLeg_session [simp]: "se_drainSessionID (setLeg a g e) = se_drainSessionID e"
  by (simp add: setLeg_def)

lemma keeps_setLeg:
  assumes "\<And>l. sl_id (g l) = sl_id l \<and> sl_generation (g l) = sl_generation l \<and> sl_drainEnabled (g l) = sl_drainEnabled l
    \<and> sl_drainBinding (g l) = sl_drainBinding l \<and> (sl_closed l \<longrightarrow> sl_closed (g l))"
  shows "engine_keeps e (setLeg a g e)"
  using mono_setLeg [OF assms] by (simp add: engine_keeps_def)

lemma barriers_setLeg:
  assumes "\<And>l. sl_draining (g l) = sl_draining l"
  shows "sameBarriers e (setLeg a g e)"
  unfolding sameBarriers_def
proof (intro allI impI)
  fix b assume "b < length (se_legHeap e)"
  then show "sl_draining (sleg (setLeg a g e) b) = sl_draining (sleg e b)" using assms by (cases "b = a") auto
qed

lemma activate_session [simp]: "se_drainSessionID (activate e) = se_drainSessionID e" "length (se_legHeap (activate e)) = length (se_legHeap e)"
proof -
  have "se_drainSessionID (notifyLegActivate a e') = se_drainSessionID e' \<and> length (se_legHeap (notifyLegActivate a e')) = length (se_legHeap e')" for a e'
    by (simp add: notifyLegActivate_def setLeg_def)
  then have "se_drainSessionID (fold notifyLegActivate xs e') = se_drainSessionID e'
      \<and> length (se_legHeap (fold notifyLegActivate xs e')) = length (se_legHeap e')" for xs e'
    by (induction xs arbitrary: e') simp_all
  then show "se_drainSessionID (activate e) = se_drainSessionID e" "length (se_legHeap (activate e)) = length (se_legHeap e)"
    by (simp_all add: activate_def Let_def notifyPeerActivate_def kickSpaceSource_def)
qed

lemma keeps_ReplaceStreamLeg: "engine_keeps e (snd (ReplaceStreamLeg i err e))"
proof -
  have "se_drainSessionID (handleStreamLegFailure a err e) = se_drainSessionID e
      \<and> length (se_legHeap (handleStreamLegFailure a err e)) = length (se_legHeap e)" for a
    unfolding handleStreamLegFailure_def Let_def
    by (simp add: moveToRetiring_def Let_def invalidatePath_def engineForceAck_def kickSpaceSource_def kickRetry_def kickAck_def)
  then show ?thesis
    using mono_ReplaceStreamLeg [of e i err] by (auto simp: engine_keeps_def ReplaceStreamLeg_def split: option.splits)
qed

lemma sendDrainLoop_frame:
  "\<exists>e' ws. snd (sendDrainLoop io m as causes d) = d\<lparr>d_eng := e', d_sent := d_sent d @ ws\<rparr>
     \<and> engine_keeps (d_eng d) e' \<and> sameBarriers (d_eng d) e' \<and> se_legs e' = se_legs (d_eng d) \<and> sameRegistry (d_eng d) e'
     \<and> (\<forall>w \<in> set ws. \<exists>a. EncodeDrainMessage a m = Inr w)"
proof (induction io m as causes d rule: sendDrainLoop.induct)
  case (1 io m causes d)
  show ?case by (rule exI [of _ "d_eng d"], rule exI [of _ "[]"]) (simp add: sameBarriers_def)
next
  case (2 io m a as causes d)
  show ?case
  proof (cases "EncodeDrainMessage (sl_drainAuth (dleg d a)) m")
    case (Inl err)
    with 2(1) [OF refl Inl] show ?thesis by simp
  next
    case (Inr wire)
    define d1 where "d1 = queueDrainControl a wire d"
    let ?ok = "\<lambda>d'. \<exists>e' ws. d' = d\<lparr>d_eng := e', d_sent := d_sent d @ ws\<rparr>
       \<and> engine_keeps (d_eng d) e' \<and> sameBarriers (d_eng d) e' \<and> se_legs e' = se_legs (d_eng d) \<and> sameRegistry (d_eng d) e'
       \<and> (\<forall>w \<in> set ws. \<exists>a. EncodeDrainMessage a m = Inr w)"
    let ?c = "\<lparr>lc_typ = StreamFrameDrain, lc_value = 0, lc_data = wire\<rparr>"
    let ?e1 = "setLeg a (pushControl ?c) (d_eng d)"
    have k1: "engine_keeps (d_eng d) ?e1" by (rule keeps_setLeg) (simp add: pushControl_def)
    have b1: "sameBarriers (d_eng d) ?e1" by (rule barriers_setLeg) (simp add: pushControl_def)
    have s1: "sameRegistry (d_eng d) ?e1" by (rule same_pushControl)
    have d1: "d1 = d\<lparr>d_eng := ?e1, d_sent := d_sent d @ [wire]\<rparr>" by (simp add: d1_def queueDrainControl_def)
    have ok1: "?ok d1" unfolding d1 using k1 b1 s1 Inr by (intro exI [of _ ?e1] exI [of _ "[wire]"]) auto
    have lift: "?ok d'" if "\<exists>e' ws. d' = d1\<lparr>d_eng := e', d_sent := d_sent d1 @ ws\<rparr>
       \<and> engine_keeps (d_eng d1) e' \<and> sameBarriers (d_eng d1) e' \<and> se_legs e' = se_legs (d_eng d1) \<and> sameRegistry (d_eng d1) e'
       \<and> (\<forall>w \<in> set ws. \<exists>a. EncodeDrainMessage a m = Inr w)" for d'
    proof -
      from that obtain e' ws where W: "d' = d1\<lparr>d_eng := e', d_sent := d_sent d1 @ ws\<rparr>" "engine_keeps ?e1 e'"
        "sameBarriers ?e1 e'" "se_legs e' = se_legs ?e1" "sameRegistry ?e1 e'" "\<forall>w \<in> set ws. \<exists>a. EncodeDrainMessage a m = Inr w"
        by (auto simp: d1)
      have "sameBarriers (d_eng d) e'" using b1 W(3) by (simp add: sameBarriers_def)
      then show ?thesis using W engine_keeps_trans [OF k1 W(2)] sameRegistry_trans [OF s1 W(5)] Inr
        by (intro exI [of _ e'] exI [of _ "wire # ws"]) (auto simp: d1)
    qed
    show ?thesis
    proof (cases "controlRoom (dleg d a) \<and> (\<not> sl_closed (dleg d a) \<or> io_pick io a)")
      case True
      show ?thesis
        using ok1 lift [OF 2(2) [OF refl Inr True d1_def]] lift [OF 2(3) [OF refl Inr True d1_def]] Inr True
        by (cases "io_reply io a") (simp_all add: Let_def d1_def [symmetric])
    next
      case False
      have "sendDrainLoop io m (a # as) causes d = sendDrainLoop io m as (causes @ [if sl_closed (dleg d a)
          then ErrStreamDrainCarrierChanged else StreamErr ''surviving carrier control queue is full'']) d"
        by (simp only: sendDrainLoop.simps Let_def Inr sum.case if_not_P [OF False])
      then show ?thesis by (simp only: 2(4) [OF refl Inr False])
    qed
  qed
qed

lemma wf_makeDrainMessage:
  assumes "arrays e" and "length (dr_operationID op) = 16" and "length (dr_targetBinding op) = 16"
  shows "wf_drain (makeDrainMessage op kind now e)"
  using assms by (simp add: wf_drain_def makeDrainMessage_def Let_def arrays_def)

lemma makeDrainMessage_fields [simp]:
  "dm_Kind (makeDrainMessage op kind now e) = kind" "about op' (makeDrainMessage op kind now e) \<longleftrightarrow>
     dr_operationID op = dr_operationID op' \<and> dr_counter op = dr_counter op' \<and> dr_targetBinding op = dr_targetBinding op'"
  by (simp_all add: makeDrainMessage_def Let_def about_def)

text \<open>What a send leaves: the drain state but for the messages, which are all about the operation.\<close>

lemma sendDrainMessage_frame:
  assumes "sendDrainMessage io op kind d = (r, d')" and "arrays (d_eng d)"
    and "length (dr_operationID op) = 16" and "length (dr_targetBinding op) = 16"
  obtains e' ws where "d' = d\<lparr>d_eng := e', d_sent := d_sent d @ ws\<rparr>" "engine_keeps (d_eng d) e'" "sameBarriers (d_eng d) e'"
    "sameRegistry (d_eng d) e'" "\<And>w. w \<in> set ws \<Longrightarrow> dm_Kind (drainFields w) = kind \<and> about op (drainFields w)"
proof -
  let ?m = "makeDrainMessage op kind (io_now io) (d_eng d)"
  obtain e' ws where W: "d' = d\<lparr>d_eng := e', d_sent := d_sent d @ ws\<rparr>" "engine_keeps (d_eng d) e'" "sameBarriers (d_eng d) e'"
    "sameRegistry (d_eng d) e'" "\<forall>w \<in> set ws. \<exists>a. EncodeDrainMessage a ?m = Inr w"
    using sendDrainLoop_frame [of io ?m "drainCarriers op (d_eng d)" "[]" d] assms(1) unfolding sendDrainMessage_def by auto
  have "drainFields w = ?m" if "w \<in> set ws" for w
    using W(5) that drainFields_prefix [OF wf_makeDrainMessage [OF assms(2-4)]] by (force simp: EncodeDrainMessage_def split: if_splits)
  then show thesis using that W by simp
qed

lemma closeOperation_view:
  assumes "o' < length (d_ops d)"
  shows "d_ops (closeOperation o' err restore d)
      = (d_ops d)[o' := (dop d o')\<lparr>dr_terminalErr := err, dr_finished := True, dr_changed := True\<rparr>]"
    "d_runs (closeOperation o' err restore d) = d_runs d" "d_sent (closeOperation o' err restore d) = d_sent d"
    "engine_keeps (d_eng d) (d_eng (closeOperation o' err restore d))"
proof -
  have "engine_keeps e (setLeg t (\<lambda>l. l\<lparr>sl_draining := False\<rparr>) e)" for e t by (rule keeps_setLeg) simp
  then show "d_ops (closeOperation o' err restore d)
      = (d_ops d)[o' := (dop d o')\<lparr>dr_terminalErr := err, dr_finished := True, dr_changed := True\<rparr>]"
    "d_runs (closeOperation o' err restore d) = d_runs d" "d_sent (closeOperation o' err restore d) = d_sent d"
    "engine_keeps (d_eng d) (d_eng (closeOperation o' err restore d))"
    using assms by (simp_all add: closeOperation_def Let_def drainSignal_def)
qed

lemma forceDrainRecovery_view:
  assumes "o' < length (d_ops d)"
  shows "d_ops (forceDrainRecovery o' cause d)
      = (d_ops d)[o' := (dop d o')\<lparr>dr_terminalErr := Some cause, dr_finished := True, dr_changed := True\<rparr>]"
    "d_runs (forceDrainRecovery o' cause d) = d_runs d" "d_sent (forceDrainRecovery o' cause d) = d_sent d"
    "engine_keeps (d_eng d) (d_eng (forceDrainRecovery o' cause d))"
proof -
  let ?d1 = "if bound_to (dr_target (dop d o')) d \<and> \<not> sl_closed (dleg d (dr_target (dop d o')))
    then d\<lparr>d_eng := snd (ReplaceStreamLeg (sl_id (dleg d (dr_target (dop d o')))) (Some (DrainUncertainErr cause)) (d_eng d))\<rparr> else d"
  have d1: "d_ops ?d1 = d_ops d" "d_runs ?d1 = d_runs d" "d_sent ?d1 = d_sent d" "engine_keeps (d_eng d) (d_eng ?d1)"
    by (simp_all add: keeps_ReplaceStreamLeg)
  have F: "forceDrainRecovery o' cause d = closeOperation o' (Some cause) False ?d1"
    by (simp add: forceDrainRecovery_def finishDrain_def Let_def)
  have o: "o' < length (d_ops ?d1)" using assms by (simp only: d1)
  show "d_ops (forceDrainRecovery o' cause d)
      = (d_ops d)[o' := (dop d o')\<lparr>dr_terminalErr := Some cause, dr_finished := True, dr_changed := True\<rparr>]"
    "d_runs (forceDrainRecovery o' cause d) = d_runs d" "d_sent (forceDrainRecovery o' cause d) = d_sent d"
    unfolding F closeOperation_view(1-3) [OF o] d1 by simp_all
  show "engine_keeps (d_eng d) (d_eng (forceDrainRecovery o' cause d))"
    unfolding F by (rule engine_keeps_trans [OF d1(4) closeOperation_view(4) [OF o]])
qed

lemma keeps_moveToRetiring: "engine_keeps e (moveToRetiring t e)"
  using mono_moveToRetiring by (simp add: engine_keeps_def moveToRetiring_def Let_def)

lemma retireDrainedLeg_view:
  assumes "retireDrainedLeg now t d = (r, d1)"
  shows "d_ops d1 = d_ops d" "d_runs d1 = d_runs d" "d_sent d1 = d_sent d" "engine_keeps (d_eng d) (d_eng d1)"
proof -
  have k: "engine_keeps e (setLeg t (closeStreamLeg None) (invalidatePath t (moveToRetiring t e)\<lparr>se_capacityResets := c\<rparr>))" for e c
  proof -
    have "engine_keeps (moveToRetiring t e) (invalidatePath t (moveToRetiring t e)\<lparr>se_capacityResets := c\<rparr>)"
      by (auto simp: engine_keeps_def invalidatePath_def intro!: same_mono)
    moreover have "engine_keeps e' (setLeg t (closeStreamLeg None) e')" for e' by (rule keeps_setLeg) (simp add: closeStreamLeg_def)
    ultimately show ?thesis using keeps_moveToRetiring engine_keeps_trans by blast
  qed
  show "d_ops d1 = d_ops d" "d_runs d1 = d_runs d" "d_sent d1 = d_sent d" "engine_keeps (d_eng d) (d_eng d1)"
    using assms k by (auto simp: retireDrainedLeg_def Let_def split: if_splits)
qed

subsection \<open>Steps of one operation\<close>

lemma wire_ok_mono:
  assumes "wire_ok ops m" and "op_mono (ops ! o') op" and "o' < length ops"
  shows "wire_ok (ops[o' := op]) m"
proof -
  have *: "\<exists>q \<in> set (ops[o' := op]). about q m \<and> P q"
    if e: "\<exists>q \<in> set ops. about q m \<and> P q" and P: "P (ops ! o') \<Longrightarrow> P op" for P
  proof -
    obtain j where j: "j < length ops" "about (ops ! j) m" "P (ops ! j)" using e by (auto simp: in_set_conv_nth)
    have "about (ops[o' := op] ! j) m \<and> P (ops[o' := op] ! j)"
      using j P assms(2,3) by (cases "j = o'") (auto simp: op_mono_def about_def)
    then show ?thesis using j(1) by (metis length_list_update nth_mem)
  qed
  show ?thesis using assms(1,2) *[of dr_localReady] *[of dr_commitSent] *[of dr_commitRequested]
    unfolding wire_ok_def op_mono_def by blast
qed

text \<open>A step of the operation \<open>o'\<close>: it changes its own object and place, and sends messages it may send.\<close>

definition op_step :: "bytes set \<Rightarrow> nat \<Rightarrow> DrainEngine \<Rightarrow> DrainEngine \<Rightarrow> bool" where
  "op_step N o' d d' \<longleftrightarrow> (\<exists>op run ws. d_ops d' = (d_ops d)[o' := op] \<and> d_runs d' = (d_runs d)[o' := run] \<and> d_sent d' = d_sent d @ ws
     \<and> op_mono (dop d o') op \<and> op_ok N op \<and> pc_ok op (rn_pc run) \<and> engine_keeps (d_eng d) (d_eng d')
     \<and> (\<forall>w \<in> set ws. about (dop d o') (drainFields w) \<and> pc_ok (dop d o') (PcSend (dm_Kind (drainFields w)))
          \<or> about (dop d o') (drainFields w) \<and> pc_ok (dop d o') (PcRemoteSend (dm_Kind (drainFields w)) False)
          \<or> dm_Kind (drainFields w) = StreamDrainAbort))"

lemma op_step_ok:
  assumes "op_step N o' d d'" and "drain_ok N d" and "o' < length (d_ops d)"
  shows "drain_ok N d'" "set (d_sent d) \<subseteq> set (d_sent d')"
proof -
  from assms(1) obtain op run ws where S: "d_ops d' = (d_ops d)[o' := op]" "d_runs d' = (d_runs d)[o' := run]"
    "d_sent d' = d_sent d @ ws" "op_mono (dop d o') op" "op_ok N op" "pc_ok op (rn_pc run)" "engine_keeps (d_eng d) (d_eng d')"
    and W: "\<forall>w \<in> set ws. about (dop d o') (drainFields w) \<and> pc_ok (dop d o') (PcSend (dm_Kind (drainFields w)))
          \<or> about (dop d o') (drainFields w) \<and> pc_ok (dop d o') (PcRemoteSend (dm_Kind (drainFields w)) False)
          \<or> dm_Kind (drainFields w) = StreamDrainAbort"
    unfolding op_step_def by blast
  have D: "arrays (d_eng d)" "length (d_runs d) = length (d_ops d)" "legs_in (d_eng d)"
    "\<And>j. j < length (d_ops d) \<Longrightarrow> op_ok N (dop d j) \<and> pc_ok (dop d j) (rn_pc (d_runs d ! j))"
    "\<And>w. w \<in> set (d_sent d) \<Longrightarrow> wire_ok (d_ops d) (drainFields w)" using assms(2) by (auto simp: drain_ok_def)
  have "wire_ok (d_ops d) (drainFields w)" if "w \<in> set ws" for w
    using W that assms(3) nth_mem by (fastforce simp: wire_ok_def)
  then have "\<forall>w \<in> set (d_sent d'). wire_ok (d_ops d') (drainFields w)"
    using D(5) wire_ok_mono [OF _ S(4) assms(3)] by (auto simp: S(1,3))
  moreover have "op_ok N (dop d' j) \<and> pc_ok (dop d' j) (rn_pc (d_runs d' ! j))" if "j < length (d_ops d')" for j
    using that S(5,6) D(2,4) by (cases "j = o'") (auto simp: S(1,2))
  ultimately show "drain_ok N d'" using arrays_keeps [OF S(7) D(1)] legs_in_keeps [OF S(7) D(3)] D(2) by (simp add: drain_ok_def S(1,2))
  show "set (d_sent d) \<subseteq> set (d_sent d')" by (auto simp: S(3))
qed

text \<open>The ways in which the goroutines make such a step.\<close>

lemma step_pc:
  assumes "drain_ok N d" and "o' < length (d_ops d)" and "pc_ok (dop d o') pc"
  shows "op_step N o' d (setPc o' pc d)"
  unfolding op_step_def using assms
  by (intro exI [of _ "dop d o'"] exI [of _ "(d_runs d ! o')\<lparr>rn_pc := pc\<rparr>"] exI [of _ "[]"]) (simp add: drain_ok_def)

lemma step_op:
  assumes "o' < length (d_ops d)" and "op_mono (dop d o') (g (dop d o'))" and "op_ok N (g (dop d o'))" and "pc_ok (g (dop d o')) pc"
  shows "op_step N o' d (setPc o' pc (setOp o' g d))"
  unfolding op_step_def using assms
  by (intro exI [of _ "g (dop d o')"] exI [of _ "(d_runs d ! o')\<lparr>rn_pc := pc\<rparr>"] exI [of _ "[]"]) simp

lemma step_send:
  assumes "drain_ok N d" and "o' < length (d_ops d)" and "sendDrainMessage io (dop d o') kind d = (r, d1)"
    and "pc_ok (dop d o') (PcSend kind) \<or> pc_ok (dop d o') (PcRemoteSend kind False) \<or> kind = StreamDrainAbort"
    and "pc_ok (dop d o') (rn_pc run)"
  shows "op_step N o' d (d1\<lparr>d_runs := (d_runs d)[o' := run]\<rparr>)"
proof -
  have ok: "op_ok N (dop d o')" "arrays (d_eng d)" using assms(1,2) by (auto simp: drain_ok_def)
  then have l: "length (dr_operationID (dop d o')) = 16" "length (dr_targetBinding (dop d o')) = 16" by (auto simp: op_ok_def)
  obtain e' ws where "d1 = d\<lparr>d_eng := e', d_sent := d_sent d @ ws\<rparr>" "engine_keeps (d_eng d) e'"
    "\<And>w. w \<in> set ws \<Longrightarrow> dm_Kind (drainFields w) = kind \<and> about (dop d o') (drainFields w)"
    by (rule sendDrainMessage_frame [OF assms(3) ok(2) l]) blast
  then show ?thesis unfolding op_step_def using assms(4,5) ok(1)
    by (intro exI [of _ "dop d o'"] exI [of _ run] exI [of _ ws]) auto
qed

lemma op_ok_closed [simp]:
  "op_ok N (op\<lparr>dr_terminalErr := err, dr_finished := f, dr_changed := c\<rparr>) = op_ok N op"
  "op_mono op (op\<lparr>dr_terminalErr := err, dr_finished := f, dr_changed := c\<rparr>)"
  by (simp_all add: op_ok_def op_mono_def heard_def about_def)

lemma step_finish:
  assumes "drain_ok N d" and "o' < length (d_ops d)" and "d_ops d1 = d_ops d" and "d_runs d1 = d_runs d" and "d_sent d1 = d_sent d"
    and "engine_keeps (d_eng d) (d_eng d1)" and "pc_ok (dop d o') (PcReturned r)"
  shows "op_step N o' d (setPc o' (PcReturned r) (closeOperation o' err restore d1))"
proof -
  have o1: "o' < length (d_ops d1)" using assms(2,3) by simp
  let ?op = "(dop d o')\<lparr>dr_terminalErr := err, dr_finished := True, dr_changed := True\<rparr>"
  have "pc_ok ?op (PcReturned r)" using assms(7) by (cases r) simp_all
  moreover have "op_ok N (dop d o')" using assms(1,2) by (simp add: drain_ok_def)
  ultimately show ?thesis
    unfolding op_step_def using closeOperation_view [OF o1, of err restore] engine_keeps_trans [OF assms(6)] assms(3-5)
    by (intro exI [of _ ?op] exI [of _ "(d_runs d ! o')\<lparr>rn_pc := PcReturned r\<rparr>"] exI [of _ "[]"]) simp
qed

lemma step_recover:
  assumes "drain_ok N d" and "o' < length (d_ops d)" and "d_ops d1 = d_ops d" and "d_runs d1 = d_runs d" and "d_sent d1 = d_sent d"
    and "engine_keeps (d_eng d) (d_eng d1)"
  shows "op_step N o' d (setPc o' (PcReturned (Some err')) (forceDrainRecovery o' err d1))"
proof -
  have o1: "o' < length (d_ops d1)" using assms(2,3) by simp
  let ?op = "(dop d o')\<lparr>dr_terminalErr := Some err, dr_finished := True, dr_changed := True\<rparr>"
  have "op_ok N (dop d o')" using assms(1,2) by (simp add: drain_ok_def)
  then show ?thesis
    unfolding op_step_def using forceDrainRecovery_view [OF o1, of err] engine_keeps_trans [OF assms(6)] assms(3-5)
    by (intro exI [of _ ?op] exI [of _ "(d_runs d ! o')\<lparr>rn_pc := PcReturned (Some err')\<rparr>"] exI [of _ "[]"]) simp
qed

lemma setPc_after: "setPc o' pc d1 = d1\<lparr>d_runs := (d_runs d1)[o' := (d_runs d1 ! o')\<lparr>rn_pc := pc\<rparr>]\<rparr>"
  by (simp add: setPc_def)

lemma step_send_pc:
  assumes "drain_ok N d" and "o' < length (d_ops d)" and "sendDrainMessage io (dop d o') kind d = (r, d1)"
    and "pc_ok (dop d o') (PcSend kind) \<or> pc_ok (dop d o') (PcRemoteSend kind False) \<or> kind = StreamDrainAbort"
    and "pc_ok (dop d o') pc"
  shows "op_step N o' d (setPc o' pc d1)"
proof -
  have ok: "op_ok N (dop d o')" "arrays (d_eng d)" using assms(1,2) by (auto simp: drain_ok_def)
  then have l: "length (dr_operationID (dop d o')) = 16" "length (dr_targetBinding (dop d o')) = 16" by (auto simp: op_ok_def)
  have "d_runs d1 = d_runs d" by (rule sendDrainMessage_frame [OF assms(3) ok(2) l]) simp
  then show ?thesis using step_send [OF assms(1-4), of "(d_runs d ! o')\<lparr>rn_pc := pc\<rparr>"] assms(5) by (simp add: setPc_after)
qed

lemmas own_steps = step_pc step_op step_finish step_recover step_send_pc

lemma abort_steps:
  assumes "drain_ok N d" and "o' < length (d_ops d)"
  shows "op_step N o' d (abortBegin o' err restore d)" "op_step N o' d (abortNotify io o' err restore d)"
    "op_step N o' d (abortEnd o' err restore d)"
proof -
  note R = step_recover [OF assms refl refl refl engine_keeps_refl] and F = step_finish [OF assms refl refl refl engine_keeps_refl]
  show "op_step N o' d (abortBegin o' err restore d)"
    unfolding abortBegin_def Let_def using R step_pc [OF assms] by auto
  show "op_step N o' d (abortNotify io o' err restore d)" unfolding abortNotify_def
    by (rule step_send_pc [OF assms surjective_pairing]) simp_all
  show "op_step N o' d (abortEnd o' err restore d)"
    unfolding abortEnd_def using R F [of "Some err"] by auto
qed

lemma op_ok_notes:
  "op_ok N op \<Longrightarrow> op_ok N (op\<lparr>dr_readySent := b, dr_lastControlSent := t\<rparr>)"
  "op_ok N op \<Longrightarrow> op_ok N (op\<lparr>dr_localReady := True\<rparr>)" "op_ok N op \<Longrightarrow> op_ok N (op\<lparr>dr_changed := b\<rparr>)"
  "op_ok N op \<Longrightarrow> dr_initiator op \<Longrightarrow> dr_localReady op \<Longrightarrow> dr_peerReady op
     \<Longrightarrow> op_ok N (op\<lparr>dr_commitSent := True, dr_lastControlSent := t\<rparr>)"
  by (auto simp: op_ok_def heard_def about_def)

lemma completion_steps:
  assumes "drain_ok N d" and "o' < length (d_ops d)" and "dr_initiator (dop d o')" and "dr_commitAck (dop d o')"
    and "k = PcReady \<or> (\<exists>s. k = PcSelect True s)"
  shows "op_step N o' d (completeAcknowledgedDrain now o' k d)" "op_step N o' d (retireFailed o' k d)"
proof -
  note R = step_recover [OF assms(1,2) refl refl refl engine_keeps_refl]
    and F = step_finish [OF assms(1,2) refl refl refl engine_keeps_refl]
  have k: "pc_ok (dop d o') k" "pc_ok (dop d o') (PcRetireFailed k)" "pc_ok (dop d o') (PcReturned None)" using assms(3-5) by auto
  obtain b d1 where r: "retireDrainedLeg now (dr_target (dop d o')) d = (b, d1)" by (metis surj_pair)
  have d1: "\<not> b \<Longrightarrow> d1 = d" using r by (auto simp: retireDrainedLeg_def Let_def split: if_splits)
  have "op_step N o' d (setPc o' (PcReturned None) (closeOperation o' None False d1))"
    by (rule step_finish [OF assms(1,2) retireDrainedLeg_view [OF r] k(3)])
  then show "op_step N o' d (completeAcknowledgedDrain now o' k d)"
    unfolding completeAcknowledgedDrain_def Let_def finishDrain_def r
    using F [OF k(3)] step_pc [OF assms(1,2) k(1)] step_pc [OF assms(1,2) k(2)] d1 by (cases b) auto
  show "op_step N o' d (retireFailed o' k d)"
    unfolding retireFailed_def Let_def finishDrain_def using F [OF k(3)] R step_pc [OF assms(1,2) k(1)] by auto
qed

lemma round_steps:
  assumes "drain_ok N d" and "o' < length (d_ops d)" and "dr_initiator (dop d o')"
  shows "op_step N o' d (readyRound now o' d)" "op_step N o' d (commitRound now o' d)"
    "op_step N o' d (afterDrainSend now o' kind r d)"
proof -
  have ok: "op_ok N (dop d o')" using assms(1,2) by (simp add: drain_ok_def)
  note pc = step_pc [OF assms(1,2)] and R = step_recover [OF assms(1,2) refl refl refl engine_keeps_refl]
  let ?l = "\<lambda>op. drainSignal (op\<lparr>dr_localReady := True\<rparr>)"
  have l: "op_mono (dop d o') (?l (dop d o'))" "op_ok N (?l (dop d o'))"
    using op_ok_notes(2,3) [of N] ok by (auto simp: op_mono_def drainSignal_def)
  have lr: "op_step N o' d (setPc o' pc (setOp o' ?l d))" if "pc_ok (?l (dop d o')) pc" for pc
    by (rule step_op [OF assms(2)]) (use l that in simp_all)
  show "op_step N o' d (readyRound now o' d)"
    unfolding readyRound_def Let_def using pc lr assms(2) by (auto simp: drainSignal_def)
  show "op_step N o' d (commitRound now o' d)"
    unfolding commitRound_def Let_def using pc ok assms(3)
    by (auto intro!: step_op [OF assms(2)] op_ok_notes(4) simp: op_mono_def)
  show "op_step N o' d (afterDrainSend now o' kind r d)"
    unfolding afterDrainSend_def using pc R ok
    by (auto intro!: step_op [OF assms(2)] op_ok_notes(1) simp: op_mono_def split: option.split)
qed

lemma initiatorStep_ok:
  assumes "drain_ok N d" and "o' < length (d_ops d)" and "dr_initiator (dop d o')"
  shows "initiatorStep io o' d = d \<or> op_step N o' d (initiatorStep io o' d)"
proof -
  note pc = step_pc [OF assms(1,2)] and A = abort_steps [OF assms(1,2)] and C = completion_steps [OF assms] and Q = round_steps [OF assms]
  have run: "pc_ok (dop d o') (rn_pc (d_runs d ! o'))" using assms(1,2) by (simp add: drain_ok_def)
  show ?thesis
  proof (cases "rn_pc (d_runs d ! o')")
    case (PcSend kind)
    obtain r d1 where s: "sendDrainMessage io (dop d o') kind d = (r, d1)" by (metis surj_pair)
    have "op_step N o' d (setPc o' (PcSent kind r) d1)" by (rule step_send_pc [OF assms(1,2) s]) (use run PcSend in auto)
    then show ?thesis by (simp add: initiatorStep_def PcSend s)
  next
    case (PcSent kind r)
    then show ?thesis using Q(3) by (simp add: initiatorStep_def)
  qed (use pc A C Q run in \<open>auto simp: initiatorStep_def Let_def split: option.split\<close>)
qed

lemma initiatorSelect_ok:
  assumes "drain_ok N d" and "o' < length (d_ops d)"
  shows "initiatorSelect ev o' d = d \<or> op_step N o' d (initiatorSelect ev o' d)"
proof -
  have ok: "op_ok N (dop d o')" using assms by (simp add: drain_ok_def)
  note pc = step_pc [OF assms] and R = step_recover [OF assms refl refl refl engine_keeps_refl]
  have ch: "op_step N o' d (setPc o' PcTop (setOp o' (\<lambda>op. op\<lparr>dr_changed := False\<rparr>) d))"
    by (rule step_op [OF assms(2)]) (simp_all add: op_mono_def op_ok_notes(3) [OF ok])
  show ?thesis
    by (cases "rn_pc (d_runs d ! o')"; cases ev) (use pc R ch in \<open>simp_all add: initiatorSelect_def Let_def\<close>)
qed

lemma remoteSend_ok:
  assumes "drain_ok N d" and "o' < length (d_ops d)" and "pc_ok (dop d o') (PcRemoteSend kind committing)"
  shows "op_step N o' d (remoteSend io o' kind committing d)"
proof -
  let ?pc = "if committing then PcRemoteRetire else PcSelect False False"
  have next_pc: "pc_ok (dop d o') ?pc" and k: "pc_ok (dop d o') (PcRemoteSend kind False)" using assms(3) by auto
  obtain r d1 where s: "sendDrainMessage io (dop d o') kind d = (r, d1)" by (metis surj_pair)
  have ok: "op_ok N (dop d o')" "arrays (d_eng d)" using assms(1,2) by (auto simp: drain_ok_def)
  then have l: "length (dr_operationID (dop d o')) = 16" "length (dr_targetBinding (dop d o')) = 16" by (auto simp: op_ok_def)
  have d1: "d_runs d1 = d_runs d" by (rule sendDrainMessage_frame [OF s ok(2) l]) simp
  have o: "o' < length (d_runs d)" using assms(1,2) by (simp add: drain_ok_def)
  have "op_step N o' d (d1\<lparr>d_runs := (d_runs d)[o' := run]\<rparr>)" if "rn_pc run = ?pc" for run
    by (rule step_send [OF assms(1,2) s]) (use k next_pc that in auto)
  note sent = this
  have "op_step N o' d (setPc o' ?pc (case r of Some err \<Rightarrow> d1
      | None \<Rightarrow> d1\<lparr>d_runs := (d_runs d1)[o' := (d_runs d ! o')\<lparr>rn_lastKind := kind, rn_lastSent := io_now io\<rparr>]\<rparr>))"
    using sent [of "(d_runs d ! o')\<lparr>rn_pc := ?pc\<rparr>"]
      sent [of "(d_runs d ! o')\<lparr>rn_lastKind := kind, rn_lastSent := io_now io, rn_pc := ?pc\<rparr>"] o
    by (cases r) (simp_all add: setPc_def d1)
  then show ?thesis
    unfolding remoteSend_def Let_def s using step_pc [OF assms(1,2) next_pc] by (cases r) simp_all
qed

lemma remoteStep_ok:
  assumes "drain_ok N d" and "o' < length (d_ops d)" and "\<not> dr_initiator (dop d o')"
  shows "remoteStep io o' d = d \<or> op_step N o' d (remoteStep io o' d)"
proof -
  have ok: "op_ok N (dop d o')" "pc_ok (dop d o') (rn_pc (d_runs d ! o'))" using assms(1,2) by (simp_all add: drain_ok_def)
  note pc = step_pc [OF assms(1,2)] and A = abort_steps [OF assms(1,2)]
    and F = step_finish [OF assms(1,2) refl refl refl engine_keeps_refl, folded finishDrain_def]
  let ?l = "\<lambda>op. op\<lparr>dr_localReady := True\<rparr>"
  have lr: "op_step N o' d (setPc o' pc (setOp o' ?l d))" if "pc_ok (?l (dop d o')) pc" for pc
    by (rule step_op [OF assms(2)]) (use that op_ok_notes(2) [OF ok(1)] in \<open>simp_all add: op_mono_def\<close>)
  show ?thesis
  proof (cases "rn_pc (d_runs d ! o')")
    case PcRemoteRound
    have "op_step N o' d (remoteRound o' d)"
      unfolding remoteRound_def Let_def using F [of "Some ErrStreamDrainCarrierChanged"] lr pc assms(3) by auto
    then show ?thesis by (simp add: remoteStep_def PcRemoteRound)
  next
    case (PcRemoteSend kind committing)
    then show ?thesis using remoteSend_ok [OF assms(1,2)] ok(2) by (simp add: remoteStep_def)
  next
    case PcRemoteRetire
    obtain b d1 where r: "retireDrainedLeg (io_now io) (dr_target (dop d o')) d = (b, d1)" by (metis surj_pair)
    have "op_step N o' d (setPc o' (PcReturned None) (closeOperation o' None False d1))"
      by (rule step_finish [OF assms(1,2) retireDrainedLeg_view [OF r]]) (use ok(2) PcRemoteRetire in simp)
    moreover have "op_step N o' d (setPc o' (PcReturned (Some ErrStreamDrainCarrierChanged)) (forceDrainRecovery o' ErrStreamDrainCarrierChanged d1))"
      by (rule step_recover [OF assms(1,2) retireDrainedLeg_view [OF r]])
    ultimately show ?thesis by (cases b) (simp_all add: remoteStep_def PcRemoteRetire remoteRetire_def r finishDrain_def)
  qed (use pc A in \<open>auto simp: remoteStep_def split: option.split\<close>)
qed

lemma remoteSelect_ok:
  assumes "drain_ok N d" and "o' < length (d_ops d)"
  shows "remoteSelect io ev o' d = d \<or> op_step N o' d (remoteSelect io ev o' d)"
proof -
  have ok: "op_ok N (dop d o')" using assms by (simp add: drain_ok_def)
  note pc = step_pc [OF assms] and F = step_finish [OF assms refl refl refl engine_keeps_refl, folded finishDrain_def]
  have ch: "op_step N o' d (setPc o' PcTop (setOp o' (\<lambda>op. op\<lparr>dr_changed := False\<rparr>) d))"
    by (rule step_op [OF assms(2)]) (simp_all add: op_mono_def op_ok_notes(3) [OF ok])
  have ab: "op_step N o' d (setPc o' (PcAbort err True) (snd (sendDrainMessage io (dop d o') StreamDrainAbort d)))" for err
    by (rule step_send_pc [OF assms surjective_pairing]) simp_all
  have fin: "op_step N o' d (setPc o' (PcReturned (Some err)) (finishDrain o' (Some err) False d))" for err
    by (rule F) simp
  show ?thesis
    by (cases "rn_pc (d_runs d ! o')"; cases ev) (use pc fin ch ab in \<open>simp_all add: remoteSelect_def Let_def\<close>)
qed

subsection \<open>Steps of an endpoint\<close>

lemma newOperation_fields [simp]:
  "dr_target (newOperation t i b c r) = t" "dr_operationID (newOperation t i b c r) = i" "dr_targetBinding (newOperation t i b c r) = b"
  "dr_counter (newOperation t i b c r) = c" "\<not> dr_peerReady (newOperation t i b c r)" "\<not> dr_localReady (newOperation t i b c r)"
  "\<not> dr_commitSent (newOperation t i b c r)" "\<not> dr_commitRequested (newOperation t i b c r)" "\<not> dr_commitAck (newOperation t i b c r)"
  "\<not> dr_initiator (newOperation t i b c r)" "\<not> dr_finished (newOperation t i b c r)" "dr_terminalErr (newOperation t i b c r) = None"
  by (simp_all add: newOperation_def)

lemma wire_ok_append: "wire_ok ops m \<Longrightarrow> wire_ok (ops @ [op]) m"
  unfolding wire_ok_def by auto

lemma startOperation_ok:
  assumes "drain_ok N d" and "op_ok N op" and "pc_ok op pc"
  shows "drain_ok N (startOperation op pc d)" "set (d_sent d) \<subseteq> set (d_sent (startOperation op pc d))"
proof -
  have "engine_keeps (d_eng d) (setLeg t (\<lambda>l. l\<lparr>sl_draining := True\<rparr>) (d_eng d))" for t by (rule keeps_setLeg) simp
  then have "arrays (setLeg (dr_target op) (\<lambda>l. l\<lparr>sl_draining := True\<rparr>) (d_eng d))"
    "legs_in (setLeg (dr_target op) (\<lambda>l. l\<lparr>sl_draining := True\<rparr>) (d_eng d))"
    using arrays_keeps legs_in_keeps assms(1) unfolding drain_ok_def by blast+
  then show "drain_ok N (startOperation op pc d)"
    using assms unfolding drain_ok_def startOperation_def Let_def newDrainRun_def by (auto simp: nth_append wire_ok_append)
  show "set (d_sent d) \<subseteq> set (d_sent (startOperation op pc d))" by (simp add: startOperation_def Let_def)
qed

lemma decoded_heard:
  assumes "DecodeDrainMessage a wire role = Inr m" and "wire \<in> N"
  shows "\<exists>w \<in> N. drainFields w = m" "wf_drain m"
proof -
  have d: "m = drainFields wire" "length wire = 129"
    using assms(1) unfolding DecodeDrainMessage_alt by (auto split: if_splits)
  then show "\<exists>w \<in> N. drainFields w = m" using assms(2) by blast
  show "wf_drain m" using d(2) unfolding d(1) by (simp add: wf_drain_def drainFields_def)
qed

lemma pc_ok_mono: "pc_ok op pc \<Longrightarrow> op_mono op op' \<Longrightarrow> pc_ok op' pc"
  by (cases "(op, pc)" rule: pc_ok.cases) (simp_all add: op_mono_def, auto)

text \<open>What the message of each kind does to an operation it is about.\<close>

lemma heard_updates:
  assumes "op_ok N op"
  shows "op_ok N (op\<lparr>dr_peerGeneration := g, dr_peerAckedNext := n, dr_peerOutstandingFrames := f, dr_peerOutstandingBytes := b\<rparr>)"
    "op_ok N (drainSignal (op\<lparr>dr_peerQuiesced := True\<rparr>))" "op_ok N (drainSignal (op\<lparr>dr_terminalErr := err\<rparr>))"
    "heard N StreamDrainReady op \<Longrightarrow> op_ok N (drainSignal (op\<lparr>dr_peerQuiesced := True, dr_peerReady := True\<rparr>))"
    "heard N StreamDrainCommit op \<Longrightarrow> \<not> dr_initiator op \<Longrightarrow> dr_localReady op \<Longrightarrow> dr_peerReady op
       \<Longrightarrow> op_ok N (drainSignal (op\<lparr>dr_commitRequested := True\<rparr>))"
    "heard N StreamDrainCommitAck op \<Longrightarrow> dr_initiator op \<Longrightarrow> dr_commitSent op \<Longrightarrow> op_ok N (drainSignal (op\<lparr>dr_commitAck := True\<rparr>))"
  using assms by (simp_all add: op_ok_def heard_def about_def drainSignal_def)

lemma applyDrainMessage_ok:
  assumes "op_ok N op" and "\<exists>w \<in> N. drainFields w = m" and "about op m"
  shows "op_ok N (snd (applyDrainMessage m op))" "op_mono op (snd (applyDrainMessage m op))"
proof -
  define op1 where "op1 = op\<lparr>dr_peerGeneration := (if dr_peerGeneration op = 0 then dm_Generation m else dr_peerGeneration op),
      dr_peerAckedNext := dm_AckedNext m, dr_peerOutstandingFrames := dm_OutstandingFrames m,
      dr_peerOutstandingBytes := dm_OutstandingBytes m\<rparr>"
  have h: "heard N (dm_Kind m) op1" using assms(2,3) by (auto simp: heard_def about_def op1_def)
  have ok: "op_ok N op1" unfolding op1_def by (rule heard_updates(1) [OF assms(1)])
  have m1: "op_mono op op1" by (simp add: op1_def op_mono_def)
  note U = heard_updates [OF ok]
  show "op_ok N (snd (applyDrainMessage m op))"
    unfolding applyDrainMessage_def Let_def op1_def [symmetric] using h ok U by (auto split: if_split)
  have "op_mono op (drainSignal (op1\<lparr>dr_peerQuiesced := True\<rparr>))" "op_mono op (drainSignal (op1\<lparr>dr_terminalErr := err\<rparr>))"
    "op_mono op (drainSignal (op1\<lparr>dr_peerQuiesced := True, dr_peerReady := True\<rparr>))"
    "op_mono op (drainSignal (op1\<lparr>dr_commitRequested := True\<rparr>))" "op_mono op (drainSignal (op1\<lparr>dr_commitAck := True\<rparr>))" for err
    using m1 by (simp_all add: op_mono_def drainSignal_def)
  then show "op_mono op (snd (applyDrainMessage m op))"
    unfolding applyDrainMessage_def Let_def op1_def [symmetric] using m1 by (auto split: if_split)
qed

lemma abort_message_ok:
  assumes "drain_ok N d" and "length (dr_operationID op) = 16" and "length (dr_targetBinding op) = 16"
  shows "drain_ok N (snd (sendDrainMessage io op StreamDrainAbort d))"
    "set (d_sent d) \<subseteq> set (d_sent (snd (sendDrainMessage io op StreamDrainAbort d)))"
proof -
  have a: "arrays (d_eng d)" using assms(1) by (simp add: drain_ok_def)
  obtain e' ws where W: "snd (sendDrainMessage io op StreamDrainAbort d) = d\<lparr>d_eng := e', d_sent := d_sent d @ ws\<rparr>"
    "engine_keeps (d_eng d) e'" "\<And>w. w \<in> set ws \<Longrightarrow> dm_Kind (drainFields w) = StreamDrainAbort"
    by (rule sendDrainMessage_frame [OF surjective_pairing a assms(2,3)]) blast
  have "wire_ok ops (drainFields w)" if "w \<in> set ws" for w ops using W(3) [OF that] by (simp add: wire_ok_def)
  then show "drain_ok N (snd (sendDrainMessage io op StreamDrainAbort d))"
    unfolding W(1) using assms(1) arrays_keeps [OF W(2) a] legs_in_keeps [OF W(2)] by (auto simp: drain_ok_def)
  show "set (d_sent d) \<subseteq> set (d_sent (snd (sendDrainMessage io op StreamDrainAbort d)))" unfolding W(1) by simp
qed

lemma setOp_ok:
  assumes "drain_ok N d" and "op_ok N (g (dop d o'))" and "op_mono (dop d o') (g (dop d o'))"
  shows "drain_ok N (setOp o' g d)"
proof (cases "o' < length (d_ops d)")
  case True
  have p: "pc_ok (dop d o') (rn_pc (d_runs d ! o'))" using assms(1) True by (simp add: drain_ok_def)
  have "op_step N o' d (setOp o' g d)"
    unfolding op_step_def using assms(2,3) pc_ok_mono [OF p assms(3)]
    by (intro exI [of _ "g (dop d o')"] exI [of _ "d_runs d ! o'"] exI [of _ "[]"]) simp
  then show ?thesis using op_step_ok assms(1) True by blast
qed (use assms(1) in \<open>simp add: setOp_def list_update_beyond drain_ok_def\<close>)

lemma acceptDrainIntent_cases:
  obtains (same) "snd (acceptDrainIntent io t m d) = d"
  | (again) o' where "mget (d_drainOps d) (sl_id (dleg d t)) = Some o'" "snd (acceptDrainIntent io t m d) = setOp o' drainSignal d"
  | (conflict) o' where "mget (d_drainOps d) (sl_id (dleg d t)) = Some o'"
      "snd (acceptDrainIntent io t m d) = snd (sendDrainMessage io (remoteOperation t m) StreamDrainAbort
         (noteCounter t m (setOp o' (\<lambda>op. drainSignal (op\<lparr>dr_terminalErr := Some ErrStreamDrainConflict\<rparr>)) d)))"
  | (refused) "snd (acceptDrainIntent io t m d) = snd (sendDrainMessage io (remoteOperation t m) StreamDrainAbort (noteCounter t m d))"
  | (started) "mget (d_drainOps d) (sl_id (dleg d t)) = None" "\<not> sl_closed (dleg d t)" "bound_to t d"
      "int (legCount (d_eng d)) - int (length (d_drainOps d)) > 1"
      "snd (acceptDrainIntent io t m d) = startOperation ((remoteOperation t m)\<lparr>dr_peerQuiesced := True\<rparr>) PcTop (noteCounter t m d)"
proof (cases "mget (d_drainOps d) (sl_id (dleg d t))")
  case (Some o')
  let ?dup = "dr_operationID (dop d o') = dm_OperationID m \<and> dr_counter (dop d o') = dm_Counter m
    \<and> dr_targetBinding (dop d o') = dm_TargetBinding m"
  show ?thesis
  proof (cases ?dup)
    case True
    show ?thesis by (rule again [OF Some]) (simp only: acceptDrainIntent_def Let_def Some option.case if_P [OF True] snd_conv)
  next
    case False
    show ?thesis by (rule conflict [OF Some]) (simp only: acceptDrainIntent_def Let_def Some option.case if_not_P [OF False])
  qed
next
  case None
  let ?old = "dm_Counter m \<le> (case mget (d_highWater d) (sl_id (dleg d t), dm_SenderRole m) of Some h \<Rightarrow> h | None \<Rightarrow> 0)"
  let ?no = "sl_closed (dleg d t) \<or> \<not> bound_to t d \<or> int (legCount (d_eng d)) - int (length (d_drainOps d)) \<le> 1"
  consider "?old" | "\<not> ?old" "?no" | "\<not> ?old" "\<not> ?no" by blast
  then show ?thesis
  proof cases
    case 1
    show ?thesis by (rule same) (simp only: acceptDrainIntent_def Let_def None option.case(1) if_P [OF 1] snd_conv)
  next
    case 2
    show ?thesis by (rule refused) (simp only: acceptDrainIntent_def Let_def None option.case(1) if_not_P [OF 2(1)] if_P [OF 2(2)])
  next
    case 3
    show ?thesis by (rule started [OF None])
      (use 3(2) in simp, use 3(2) in simp, use 3(2) in simp,
       simp only: acceptDrainIntent_def Let_def None option.case(1) if_not_P [OF 3(1)] if_not_P [OF 3(2)] snd_conv)
  qed
qed

text \<open>Registered operations are objects of the heap.\<close>

definition ops_wf :: "DrainEngine \<Rightarrow> bool" where
  "ops_wf d \<longleftrightarrow> (\<forall>i o'. mget (d_drainOps d) i = Some o' \<longrightarrow> o' < length (d_ops d))"

lemma noteCounter_ok [simp]: "drain_ok N (noteCounter t m d) = drain_ok N d" "d_sent (noteCounter t m d) = d_sent d"
  by (simp_all add: drain_ok_def noteCounter_def)

lemma acceptDrainIntent_ok:
  assumes "drain_ok N d" and "ops_wf d" and "wf_drain m"
  shows "drain_ok N (snd (acceptDrainIntent io t m d)) \<and> set (d_sent d) \<subseteq> set (d_sent (snd (acceptDrainIntent io t m d)))"
proof -
  let ?op = "remoteOperation t m"
  have l: "length (dr_operationID ?op) = 16" "length (dr_targetBinding ?op) = 16"
    using assms(3) by (simp_all add: remoteOperation_def wf_drain_def)
  have new: "op_ok N (?op\<lparr>dr_peerQuiesced := True\<rparr>)" using l by (simp add: op_ok_def remoteOperation_def)
  have ok: "op_ok N (dop d o')" if "mget (d_drainOps d) i = Some o'" for i o'
    using assms(1,2) that by (auto simp: drain_ok_def ops_wf_def)
  show ?thesis
  proof (cases rule: acceptDrainIntent_cases [of io t m d])
    case (again o')
    have "drain_ok N (setOp o' drainSignal d)"
      by (rule setOp_ok [OF assms(1)]) (use op_ok_notes(3) [OF ok [OF again(1)]] in \<open>simp_all add: op_mono_def drainSignal_def\<close>)
    then show ?thesis by (simp add: again(2))
  next
    case (conflict o')
    have "drain_ok N (setOp o' (\<lambda>op. drainSignal (op\<lparr>dr_terminalErr := Some ErrStreamDrainConflict\<rparr>)) d)"
      by (rule setOp_ok [OF assms(1)]) (use heard_updates(3) [OF ok [OF conflict(1)]] in \<open>simp_all add: op_mono_def drainSignal_def\<close>)
    then show ?thesis unfolding conflict(2) using abort_message_ok [OF _ l] by (metis noteCounter_ok setOp_frame(3))
  next
    case refused
    then show ?thesis using abort_message_ok [OF _ l] assms(1) by (metis noteCounter_ok)
  next
    case started
    have "drain_ok N (noteCounter t m d)" using assms(1) by simp
    then show ?thesis unfolding started(5) using startOperation_ok [OF _ new, of "noteCounter t m d" PcTop] by simp
  qed (simp add: assms(1))
qed

subsection \<open>The registry of operations\<close>

fun returned :: "drain_pc \<Rightarrow> bool" where
  "returned (PcReturned r) = True"
| "returned _ = False"

definition committed :: "streamDrainOperation \<Rightarrow> bool" where
  "committed op \<longleftrightarrow> dr_commitSent op \<or> dr_commitRequested op"

text \<open>The target of an operation is one the engine still uses.\<close>

definition serving :: "nat \<Rightarrow> DrainEngine \<Rightarrow> bool" where
  "serving t d \<longleftrightarrow> bound_to t d \<and> \<not> sl_closed (dleg d t) \<and> \<not> se_done (d_eng d)"

text \<open>An operation is registered for the leg it drains until its goroutine returns; while it is, its target
  has the barrier up as long as it serves; and a committed operation does not end before its target
  has stopped serving.\<close>

definition reg_inv :: "DrainEngine \<Rightarrow> bool" where
  "reg_inv d \<longleftrightarrow> mwf (d_drainOps d) \<and> length (d_runs d) = length (d_ops d)
     \<and> (\<forall>i o'. mget (d_drainOps d) i = Some o' \<longrightarrow> o' < length (d_ops d) \<and> sl_id (dleg d (dr_target (dop d o'))) = i
          \<and> \<not> dr_finished (dop d o'))
     \<and> (\<forall>o' < length (d_ops d). dr_target (dop d o') < length (se_legHeap (d_eng d))
          \<and> (dr_finished (dop d o') \<longleftrightarrow> returned (rn_pc (d_runs d ! o')))
          \<and> (\<not> dr_finished (dop d o') \<longrightarrow> registeredOp o' d)
          \<and> (serving (dr_target (dop d o')) d \<longrightarrow> (\<not> dr_finished (dop d o') \<longrightarrow> sl_draining (dleg d (dr_target (dop d o'))))
               \<and> (committed (dop d o') \<longrightarrow> \<not> dr_finished (dop d o'))))"

lemma reg_invD:
  assumes "reg_inv d"
  shows "mwf (d_drainOps d)" "length (d_runs d) = length (d_ops d)"
    "mget (d_drainOps d) i = Some o' \<Longrightarrow> o' < length (d_ops d) \<and> sl_id (dleg d (dr_target (dop d o'))) = i \<and> \<not> dr_finished (dop d o')"
    "o' < length (d_ops d) \<Longrightarrow> dr_target (dop d o') < length (se_legHeap (d_eng d))
       \<and> (dr_finished (dop d o') \<longleftrightarrow> returned (rn_pc (d_runs d ! o'))) \<and> (\<not> dr_finished (dop d o') \<longrightarrow> registeredOp o' d)"
    "o' < length (d_ops d) \<Longrightarrow> serving (dr_target (dop d o')) d \<Longrightarrow> \<not> dr_finished (dop d o')
       \<Longrightarrow> sl_draining (dleg d (dr_target (dop d o')))"
    "o' < length (d_ops d) \<Longrightarrow> serving (dr_target (dop d o')) d \<Longrightarrow> committed (dop d o') \<Longrightarrow> \<not> dr_finished (dop d o')"
  using assms unfolding reg_inv_def by blast+

lemma serving_mono:
  assumes "legs_mono (d_eng d) (d_eng d')" and "t < length (se_legHeap (d_eng d))" and "serving t d'"
  shows "serving t d" "sl_id (dleg d' t) = sl_id (dleg d t)"
proof -
  show "sl_id (dleg d' t) = sl_id (dleg d t)" using assms(1,2) by (simp add: legs_mono_def)
  moreover have "mget (se_legs (d_eng d')) i = Some t \<Longrightarrow> mget (se_legs (d_eng d)) i = Some t" for i
    using assms(1,2) unfolding legs_mono_def by (meson leD)
  moreover have "sl_closed (dleg d t) \<longrightarrow> sl_closed (dleg d' t)" "se_done (d_eng d) \<longrightarrow> se_done (d_eng d')"
    using assms(1,2) by (simp_all add: legs_mono_def)
  ultimately show "serving t d" using assms(3) by (auto simp: serving_def bound_to_def getLeg_def)
qed

text \<open>Engine steps, and steps of an operation that goes on or ends.\<close>

lemma reg_engine:
  assumes "reg_inv d" and "legs_mono (d_eng d) (d_eng d')" and "sameBarriers (d_eng d) (d_eng d')"
    and "d_ops d' = d_ops d" and "d_runs d' = d_runs d" and "d_drainOps d' = d_drainOps d"
  shows "reg_inv d'"
proof -
  note D = reg_invD [OF assms(1)]
  have id: "sl_id (dleg d' t) = sl_id (dleg d t)" if "t < length (se_legHeap (d_eng d))" for t
    using that assms(2) by (simp add: legs_mono_def)
  have len: "length (se_legHeap (d_eng d)) \<le> length (se_legHeap (d_eng d'))" using assms(2) by (simp add: legs_mono_def)
  have b: "sl_draining (dleg d' t) = sl_draining (dleg d t)" if "t < length (se_legHeap (d_eng d))" for t
    using that assms(3) by (simp add: sameBarriers_def)
  show ?thesis unfolding reg_inv_def assms(4-6) registeredOp_def
  proof (intro conjI allI impI)
    fix o' assume o: "o' < length (d_ops d)"
    note T = D(4) [OF o]
    show "dr_target (dop d o') < length (se_legHeap (d_eng d'))" using T len by simp
    show "dr_finished (dop d o') \<longleftrightarrow> returned (rn_pc (d_runs d ! o'))" using T by simp
    show "mget (d_drainOps d) (sl_id (dleg d' (dr_target (dop d o')))) = Some o'" if "\<not> dr_finished (dop d o')"
      using T that id by (simp add: registeredOp_def)
    assume s: "serving (dr_target (dop d o')) d'"
    have s0: "serving (dr_target (dop d o')) d" using serving_mono(1) [OF assms(2) _ s] T by simp
    show "sl_draining (dleg d' (dr_target (dop d o')))" if "\<not> dr_finished (dop d o')" using D(5) [OF o s0 that] b T by simp
    show "\<not> dr_finished (dop d o')" if "committed (dop d o')" using D(6) [OF o s0 that] .
  next
    fix i o' assume m: "mget (d_drainOps d) i = Some o'"
    note M = D(3) [OF m]
    then show "o' < length (d_ops d)" "\<not> dr_finished (dop d o')" by simp_all
    show "sl_id (dleg d' (dr_target (dop d o'))) = i" using M id D(4) [of o'] by simp
  qed (use D(1,2) in simp_all)
qed

lemma reg_goes_on:
  assumes "reg_inv d" and "o' < length (d_ops d)" and "dr_target op = dr_target (dop d o')" and "dr_finished op = dr_finished (dop d o')"
    and "returned (rn_pc run) = returned (rn_pc (d_runs d ! o'))" and "committed op \<Longrightarrow> committed (dop d o') \<or> \<not> dr_finished (dop d o')"
    and "d_ops d' = (d_ops d)[o' := op]" and "d_runs d' = (d_runs d)[o' := run]" and "d_drainOps d' = d_drainOps d" and "d_eng d' = d_eng d"
  shows "reg_inv d'"
proof -
  note D = reg_invD [OF assms(1)]
  have v: "dr_target (dop d' j) = dr_target (dop d j)" "dr_finished (dop d' j) = dr_finished (dop d j)"
    "returned (rn_pc (d_runs d' ! j)) = returned (rn_pc (d_runs d ! j))"
    "committed (dop d' j) \<Longrightarrow> committed (dop d j) \<or> \<not> dr_finished (dop d j)" for j
    using assms(2-8) D(2) by (cases "j = o'"; simp)+
  have l: "length (d_ops d') = length (d_ops d)" "length (d_runs d') = length (d_runs d)" by (simp_all add: assms(7,8))
  have "serving t d' = serving t d" for t by (simp add: serving_def bound_to_def assms(10))
  moreover have "registeredOp j d' = registeredOp j d" for j by (simp add: registeredOp_def v assms(9,10))
  ultimately show ?thesis
    unfolding reg_inv_def l v(1-3) assms(9,10) using D v(4) by blast
qed

lemma reg_ends:
  assumes "reg_inv d" and "o' < length (d_ops d)" and "\<not> dr_finished (dop d o')" and "t = dr_target (dop d o')"
    and "dr_target op = t" and "dr_finished op" and "returned (rn_pc run)"
    and "legs_mono (d_eng d) (d_eng d')"
    and "\<And>a. a < length (se_legHeap (d_eng d)) \<Longrightarrow> a \<noteq> t \<Longrightarrow> sl_draining (dleg d' a) = sl_draining (dleg d a)"
    and "committed op \<Longrightarrow> \<not> serving t d'"
    and "d_ops d' = (d_ops d)[o' := op]" and "d_runs d' = (d_runs d)[o' := run]"
    and "d_drainOps d' = mdel (sl_id (dleg d t)) (d_drainOps d)"
  shows "reg_inv d'"
proof -
  note D = reg_invD [OF assms(1)]
  have T: "t < length (se_legHeap (d_eng d))" "mget (d_drainOps d) (sl_id (dleg d t)) = Some o'"
    using D(4) [OF assms(2)] assms(3,4) by (auto simp: registeredOp_def)
  have id: "sl_id (dleg d' a) = sl_id (dleg d a)" if "a < length (se_legHeap (d_eng d))" for a
    using that assms(8) by (simp add: legs_mono_def)
  have len: "length (se_legHeap (d_eng d)) \<le> length (se_legHeap (d_eng d'))" using assms(8) by (simp add: legs_mono_def)
  have other: "dop d' j = dop d j" "d_runs d' ! j = d_runs d ! j" if "j \<noteq> o'" for j using that by (simp_all add: assms(11,12))
  have me: "dop d' o' = op" "d_runs d' ! o' = run" using assms(2) D(2) by (simp_all add: assms(11,12))
  show ?thesis unfolding reg_inv_def
  proof (intro conjI allI impI)
    show "mwf (d_drainOps d')" "length (d_runs d') = length (d_ops d')" using D(1,2) by (simp_all add: assms(11-13))
  next
    fix i j assume "mget (d_drainOps d') i = Some j"
    then have ij: "mget (d_drainOps d) i = Some j" "i \<noteq> sl_id (dleg d t)" by (auto simp: assms(13) delete_conv' split: if_splits)
    note M = D(3) [OF ij(1)]
    have jo: "j \<noteq> o'" using M ij(2) assms(4) by auto
    show "j < length (d_ops d')" "\<not> dr_finished (dop d' j)" using M other(1) [OF jo] by (simp_all add: assms(11))
    show "sl_id (dleg d' (dr_target (dop d' j))) = i" using M id D(4) [of j] by (simp add: other(1) [OF jo])
  next
    fix j assume j: "j < length (d_ops d')"
    then have j0: "j < length (d_ops d)" by (simp add: assms(11))
    show "dr_target (dop d' j) < length (se_legHeap (d_eng d'))"
      using D(4) [OF j0] len T assms(5) me other(1) [of j] by (cases "j = o'") simp_all
    show "dr_finished (dop d' j) = returned (rn_pc (d_runs d' ! j))"
      using D(4) [OF j0] assms(6,7) me other [of j] by (cases "j = o'") simp_all
    show "registeredOp j d'" if nf: "\<not> dr_finished (dop d' j)"
    proof -
      have jo: "j \<noteq> o'" using nf me assms(6) by auto
      then have r: "mget (d_drainOps d) (sl_id (dleg d (dr_target (dop d j)))) = Some j"
        using D(4) [OF j0] nf other(1) by (simp add: registeredOp_def)
      then have "sl_id (dleg d (dr_target (dop d j))) \<noteq> sl_id (dleg d t)" using T(2) jo by auto
      then show ?thesis using r D(4) [OF j0] id by (simp add: registeredOp_def other(1) [OF jo] assms(13) delete_conv')
    qed
    assume s: "serving (dr_target (dop d' j)) d'"
    show "sl_draining (dleg d' (dr_target (dop d' j)))" if nf: "\<not> dr_finished (dop d' j)"
    proof -
      have jo: "j \<noteq> o'" using nf me assms(6) by auto
      have tj: "dr_target (dop d j) < length (se_legHeap (d_eng d))" using D(4) [OF j0] by simp
      have r: "mget (d_drainOps d) (sl_id (dleg d (dr_target (dop d j)))) = Some j"
        using D(4) [OF j0] nf other(1) [OF jo] by (simp add: registeredOp_def)
      then have "dr_target (dop d j) \<noteq> t" using T(2) jo by auto
      then show ?thesis using D(5) [OF j0] serving_mono(1) [OF assms(8) tj] s nf assms(9) [OF tj] by (simp add: other(1) [OF jo])
    qed
    show "\<not> dr_finished (dop d' j)" if c: "committed (dop d' j)"
    proof (cases "j = o'")
      case True
      then show ?thesis using c s assms(5,10) by (simp add: me)
    next
      case False
      then show ?thesis using D(6) [OF j0] serving_mono(1) [OF assms(8)] D(4) [OF j0] s c by (simp add: other(1))
    qed
  qed
qed

lemma barriers_trans: "sameBarriers e e' \<Longrightarrow> sameBarriers e' e'' \<Longrightarrow> length (se_legHeap e') = length (se_legHeap e) \<Longrightarrow> sameBarriers e e''"
  by (simp add: sameBarriers_def)

lemma barriers_same: "sameRegistry e e' \<Longrightarrow> sameBarriers e e'"
  unfolding sameBarriers_def sameRegistry_def by (auto dest: lview_nth(7))

lemma failure_view:
  assumes "a < length (se_legHeap e)"
  shows "sl_closed (sleg (handleStreamLegFailure a err e) a)" "sameBarriers e (handleStreamLegFailure a err e)"
proof -
  define e1 where "e1 = setLeg a (closeStreamLeg err) (invalidatePath a e)"
  define e2 where "e2 = moveToRetiring a e1"
  define e3 where "e3 = e2\<lparr>se_txLedger := InvalidateLeg (sl_id (sleg e a)) (se_txLedger e2),
      se_reassign := (if cfg_decoupled (se_cfg e2) then se_reassign e2 @ [sl_id (sleg e a)] else se_reassign e2)\<rparr>"
  have h: "se_legHeap e2 = se_legHeap e1" by (simp add: e2_def moveToRetiring_def Let_def)
  have c1: "sl_closed (sleg e1 a)" using assms by (simp add: e1_def)
  have l: "length (se_legHeap e1) = length (se_legHeap e)" by (simp add: e1_def)
  have b1: "sameBarriers e e1" unfolding e1_def
    by (rule barriers_trans [OF barriers_same barriers_setLeg]) (simp_all add: closeStreamLeg_def)
  have s3: "sameRegistry e2 e3" by (simp add: e3_def)
  have "sameRegistry e2 (if sl_id (sleg e a) = 0 \<and> \<not> se_active e3 then activate e3 else e3)"
    using s3 sameRegistry_trans [OF s3 same_activate] by simp
  then have r: "handleStreamLegFailure a err e = e1 \<or> sameRegistry e2 (handleStreamLegFailure a err e)"
    unfolding handleStreamLegFailure_def Let_def e1_def [symmetric] e2_def [symmetric] e3_def [symmetric] using s3 by simp
  then show "sl_closed (sleg (handleStreamLegFailure a err e) a)"
    using c1 same_fieldsD(2) [of e2 _ a] assms l h by auto
  have "sameBarriers e e2" using b1 h by (simp add: sameBarriers_def)
  then show "sameBarriers e (handleStreamLegFailure a err e)"
    using r b1 barriers_trans [OF _ barriers_same] l h by auto
qed

lemma reg_pc:
  assumes "reg_inv d" and "o' < length (d_ops d)" and "\<not> dr_finished (dop d o')" and "\<not> returned pc"
  shows "reg_inv (setPc o' pc d)"
  by (rule reg_goes_on [OF assms(1,2), of "dop d o'" "(d_runs d ! o')\<lparr>rn_pc := pc\<rparr>"])
    (use assms reg_invD(4) [OF assms(1,2)] in auto)

lemma reg_op:
  assumes "reg_inv d" and "o' < length (d_ops d)" and "\<not> dr_finished (dop d o')"
    and "dr_target (g (dop d o')) = dr_target (dop d o')" and "dr_finished (g (dop d o')) = dr_finished (dop d o')"
  shows "reg_inv (setOp o' g d)"
  by (rule reg_goes_on [OF assms(1,2), of "g (dop d o')" "d_runs d ! o'"]) (use assms in auto)

lemma reg_send:
  assumes "reg_inv d" and "arrays (d_eng d)" and "length (dr_operationID op) = 16" and "length (dr_targetBinding op) = 16"
    and "sendDrainMessage io op kind d = (r, d')"
  shows "reg_inv d'" "d_ops d' = d_ops d" "d_runs d' = d_runs d"
proof -
  obtain e' ws where W: "d' = d\<lparr>d_eng := e', d_sent := d_sent d @ ws\<rparr>" "engine_keeps (d_eng d) e'" "sameBarriers (d_eng d) e'"
    by (rule sendDrainMessage_frame [OF assms(5,2,3,4)]) blast
  show "reg_inv d'" by (rule reg_engine [OF assms(1)]) (use W in \<open>auto simp: engine_keeps_def\<close>)
  show "d_ops d' = d_ops d" "d_runs d' = d_runs d" by (simp_all add: W(1))
qed

text \<open>The end of an operation whose target, if it is committed, has stopped serving.\<close>

lemma reg_close:
  assumes "reg_inv d" and "o' < length (d_ops d)" and "\<not> dr_finished (dop d o')"
    and "committed (dop d o') \<Longrightarrow> \<not> restore \<and> \<not> serving (dr_target (dop d o')) d"
  shows "reg_inv (setPc o' (PcReturned r) (closeOperation o' err restore d))"
proof -
  define t where "t = dr_target (dop d o')"
  define d' where "d' = setPc o' (PcReturned r) (closeOperation o' err restore d)"
  define e1 where "e1 = (if restore \<and> bound_to t d \<and> \<not> sl_closed (dleg d t)
    then setLeg t (\<lambda>l. l\<lparr>sl_draining := False\<rparr>) (d_eng d) else d_eng d)"
  have T: "t < length (se_legHeap (d_eng d))" "mget (d_drainOps d) (sl_id (dleg d t)) = Some o'"
    using reg_invD(4) [OF assms(1,2)] assms(3) by (auto simp: t_def registeredOp_def)
  have id: "sl_id (sleg e1 t) = sl_id (dleg d t)" using T by (simp add: e1_def)
  have v: "d_eng d' = e1" "d_drainOps d' = mdel (sl_id (dleg d t)) (d_drainOps d)"
    using T id assms(2) unfolding d'_def closeOperation_def Let_def t_def [symmetric] e1_def
    by (auto simp: registeredOp_def t_def [symmetric])
  have m: "legs_mono (d_eng d) e1" unfolding e1_def using mono_setLeg [of "\<lambda>l. l\<lparr>sl_draining := False\<rparr>" "d_eng d" t] by simp
  have "\<not> serving t d'" if "committed (dop d o')"
  proof -
    have "\<not> restore" "\<not> serving t d" using assms(4) [OF that] by (simp_all add: t_def)
    then show ?thesis using v(1) by (simp add: serving_def bound_to_def e1_def)
  qed
  moreover have "committed ((dop d o')\<lparr>dr_terminalErr := err, dr_finished := True, dr_changed := True\<rparr>) = committed (dop d o')"
    by (simp add: committed_def)
  moreover have "sl_draining (dleg d' a) = sl_draining (dleg d a)" if "a \<noteq> t" for a using that by (simp add: v(1) e1_def)
  ultimately have "reg_inv d'"
    using closeOperation_view [OF assms(2), of err restore] m v T
    by (intro reg_ends [OF assms(1-3) t_def, of "(dop d o')\<lparr>dr_terminalErr := err, dr_finished := True, dr_changed := True\<rparr>"
          "(d_runs d ! o')\<lparr>rn_pc := PcReturned r\<rparr>"]) (simp_all add: d'_def t_def)
  then show ?thesis by (simp add: d'_def)
qed

lemma reg_recover:
  assumes "reg_inv d" and "o' < length (d_ops d)" and "\<not> dr_finished (dop d o')"
  shows "reg_inv (setPc o' (PcReturned r) (forceDrainRecovery o' cause d))"
proof -
  let ?t = "dr_target (dop d o')" and ?e = "snd (ReplaceStreamLeg (sl_id (dleg d (dr_target (dop d o')))) (Some (DrainUncertainErr cause)) (d_eng d))"
  define d1 where "d1 = (if bound_to ?t d \<and> \<not> sl_closed (dleg d ?t) then d\<lparr>d_eng := ?e\<rparr> else d)"
  have T: "?t < length (se_legHeap (d_eng d))" using reg_invD(4) [OF assms(1,2)] by simp
  have f: "d_ops d1 = d_ops d" "d_runs d1 = d_runs d" "d_drainOps d1 = d_drainOps d" by (simp_all add: d1_def)
  have e: "?e = handleStreamLegFailure ?t (Some (DrainUncertainErr cause)) (d_eng d)" if "bound_to ?t d"
    using that by (simp add: ReplaceStreamLeg_def bound_to_def)
  have m: "legs_mono (d_eng d) (d_eng d1)" "sameBarriers (d_eng d) (d_eng d1)"
    using mono_handleStreamLegFailure failure_view(2) [OF T] e by (auto simp: d1_def sameBarriers_def)
  have r1: "reg_inv d1" by (rule reg_engine [OF assms(1) m f])
  have "\<not> serving ?t d1"
  proof (cases "bound_to ?t d \<and> \<not> sl_closed (dleg d ?t)")
    case True
    then show ?thesis using failure_view(1) [OF T] e by (simp add: d1_def serving_def)
  qed (auto simp: d1_def serving_def)
  then have "reg_inv (setPc o' (PcReturned r) (closeOperation o' (Some cause) False d1))"
    by (intro reg_close [OF r1]) (use assms(2,3) f in simp_all)
  then show ?thesis by (simp add: forceDrainRecovery_def finishDrain_def Let_def d1_def)
qed

lemma reg_retire:
  assumes "reg_inv d" and "retireDrainedLeg now t d = (b, d1)" and "t < length (se_legHeap (d_eng d))"
  shows "reg_inv d1" "d_ops d1 = d_ops d" "b \<Longrightarrow> \<not> serving t d1" "\<not> b \<Longrightarrow> d1 = d"
proof -
  note V = retireDrainedLeg_view [OF assms(2)]
  show "d_ops d1 = d_ops d" by (rule V(1))
  define e3 where "e3 = (invalidatePath t (moveToRetiring t (d_eng d)))\<lparr>se_capacityResets :=
    se_capacityResets (invalidatePath t (moveToRetiring t (d_eng d))) @ [(sl_id (sleg (invalidatePath t (moveToRetiring t (d_eng d))) t), now)]\<rparr>"
  have h: "se_legHeap e3 = se_legHeap (d_eng d)" by (simp add: e3_def invalidatePath_def moveToRetiring_def Let_def)
  have d1: "d1 = (if b then d\<lparr>d_eng := setLeg t (closeStreamLeg None) e3\<rparr> else d)"
    using assms(2) unfolding retireDrainedLeg_def Let_def e3_def by (auto split: if_splits)
  have "sameBarriers (d_eng d) e3" by (simp add: sameBarriers_def h)
  then have "sameBarriers (d_eng d) (setLeg t (closeStreamLeg None) e3)"
    by (rule barriers_trans [OF _ barriers_setLeg]) (simp_all add: h closeStreamLeg_def)
  then have "sameBarriers (d_eng d) (d_eng d1)" by (simp add: d1 sameBarriers_def)
  then show "reg_inv d1" by (intro reg_engine [OF assms(1)]) (use V in \<open>auto simp: engine_keeps_def d1\<close>)
  show "\<not> serving t d1" if b using that assms(3) h by (simp add: d1 serving_def)
  show "d1 = d" if "\<not> b" using that by (simp add: d1)
qed

lemma op_lengths:
  assumes "drain_ok N d" and "o' < length (d_ops d)"
  shows "arrays (d_eng d)" "length (dr_operationID (dop d o')) = 16" "length (dr_targetBinding (dop d o')) = 16"
  using assms by (auto simp: drain_ok_def op_ok_def)

lemma reg_send_pc:
  assumes "reg_inv d" and "drain_ok N d" and "o' < length (d_ops d)" and "\<not> dr_finished (dop d o')"
    and "sendDrainMessage io (dop d o') kind d = (r, d1)" and "\<not> returned pc"
  shows "reg_inv (setPc o' pc d1)"
proof -
  note S = reg_send [OF assms(1) op_lengths [OF assms(2,3)] assms(5)]
  show ?thesis by (rule reg_pc [OF S(1)]) (use S(2) assms(3,4,6) in simp_all)
qed

lemma reg_abort:
  assumes "reg_inv d" and "drain_ok N d" and "o' < length (d_ops d)" and "\<not> dr_finished (dop d o')"
  shows "reg_inv (abortBegin o' err restore d)" "reg_inv (abortNotify io o' err restore d)" "reg_inv (abortEnd o' err restore d)"
proof -
  note pc = reg_pc [OF assms(1,3,4)] and R = reg_recover [OF assms(1,3,4)]
  show "reg_inv (abortBegin o' err restore d)" unfolding abortBegin_def Let_def using pc R by auto
  show "reg_inv (abortNotify io o' err restore d)" unfolding abortNotify_def
    by (rule reg_send_pc [OF assms surjective_pairing]) simp
  have "reg_inv (setPc o' (PcReturned (Some err)) (closeOperation o' (Some err) restore d))" if "\<not> committed (dop d o')"
    by (rule reg_close [OF assms(1,3,4)]) (use that in simp)
  then show "reg_inv (abortEnd o' err restore d)" unfolding abortEnd_def using R by (auto simp: committed_def)
qed

lemma reg_completion:
  assumes "reg_inv d" and "o' < length (d_ops d)" and "\<not> dr_finished (dop d o')" and "\<not> returned k"
  shows "reg_inv (completeAcknowledgedDrain now o' k d)" "reg_inv (retireFailed o' k d)"
proof -
  let ?t = "dr_target (dop d o')"
  note pc = reg_pc [OF assms(1,2,3)] and R = reg_recover [OF assms(1,2,3)]
  have T: "?t < length (se_legHeap (d_eng d))" using reg_invD(4) [OF assms(1,2)] by simp
  obtain b d1 where r: "retireDrainedLeg now ?t d = (b, d1)" by (metis surj_pair)
  note V = reg_retire [OF assms(1) r T]
  have gone: "reg_inv (setPc o' (PcReturned None) (closeOperation o' None False d))" if "settledAndGone ?t d"
    by (rule reg_close [OF assms(1-3)]) (use that in \<open>simp add: settledAndGone_def serving_def\<close>)
  have "reg_inv (setPc o' (PcReturned None) (closeOperation o' None False d1))" if b
    by (rule reg_close [OF V(1)]) (use V(2,3) that assms(2,3) in simp_all)
  then show "reg_inv (completeAcknowledgedDrain now o' k d)"
    unfolding completeAcknowledgedDrain_def Let_def finishDrain_def r using pc gone V(4) assms(4) by (cases b) auto
  show "reg_inv (retireFailed o' k d)"
    unfolding retireFailed_def Let_def finishDrain_def using gone R pc assms(4) by auto
qed

lemma reg_op_pc:
  assumes "reg_inv d" and "o' < length (d_ops d)" and "\<not> dr_finished (dop d o')"
    and "dr_target (g (dop d o')) = dr_target (dop d o')" and "dr_finished (g (dop d o')) = dr_finished (dop d o')" and "\<not> returned pc"
  shows "reg_inv (setPc o' pc (setOp o' g d))"
proof -
  have "reg_inv (setOp o' g d)" by (rule reg_op) (use assms in simp_all)
  then show ?thesis by (rule reg_pc) (use assms in simp_all)
qed

lemma reg_rounds:
  assumes "reg_inv d" and "o' < length (d_ops d)" and "\<not> dr_finished (dop d o')"
  shows "reg_inv (readyRound now o' d)" "reg_inv (commitRound now o' d)" "reg_inv (afterDrainSend now o' kind r d)"
proof -
  note pc = reg_pc [OF assms] and R = reg_recover [OF assms] and op = reg_op_pc [OF assms]
  show "reg_inv (readyRound now o' d)" unfolding readyRound_def Let_def using pc op by (auto simp: drainSignal_def)
  show "reg_inv (commitRound now o' d)" unfolding commitRound_def Let_def using pc op by auto
  show "reg_inv (afterDrainSend now o' kind r d)" unfolding afterDrainSend_def using pc op R by (auto split: option.split)
qed

lemma reg_initiator:
  assumes "reg_inv d" and "drain_ok N d" and "o' < length (d_ops d)"
  shows "reg_inv (initiatorStep io o' d)" "reg_inv (initiatorSelect ev o' d)"
proof -
  have fin: "dr_finished (dop d o') \<longleftrightarrow> returned (rn_pc (d_runs d ! o'))" and run: "pc_ok (dop d o') (rn_pc (d_runs d ! o'))"
    using reg_invD(4) [OF assms(1,3)] assms(2,3) by (auto simp: drain_ok_def)
  show "reg_inv (initiatorStep io o' d)"
  proof (cases "dr_finished (dop d o')")
    case True
    then obtain r where "rn_pc (d_runs d ! o') = PcReturned r" using fin by (cases "rn_pc (d_runs d ! o')") auto
    then show ?thesis using assms(1) by (simp add: initiatorStep_def)
  next
    case False
    note pc = reg_pc [OF assms(1,3) False] and A = reg_abort [OF assms False] and C = reg_completion [OF assms(1,3) False]
      and Q = reg_rounds [OF assms(1,3) False]
    show ?thesis
    proof (cases "rn_pc (d_runs d ! o')")
      case (PcSend kind)
      obtain r d1 where s: "sendDrainMessage io (dop d o') kind d = (r, d1)" by (metis surj_pair)
      have "reg_inv (setPc o' (PcSent kind r) d1)" by (rule reg_send_pc [OF assms False s]) simp
      then show ?thesis by (simp add: initiatorStep_def PcSend s)
    qed (use pc A C Q assms(1) run in \<open>auto simp: initiatorStep_def Let_def split: option.split\<close>)
  qed
  show "reg_inv (initiatorSelect ev o' d)"
  proof (cases "rn_pc (d_runs d ! o')")
    case (PcSelect c s)
    then have nf: "\<not> dr_finished (dop d o')" using fin by simp
    note pc = reg_pc [OF assms(1,3) nf] and R = reg_recover [OF assms(1,3) nf]
    have "reg_inv (setPc o' PcTop (setOp o' (\<lambda>op. op\<lparr>dr_changed := False\<rparr>) d))"
      by (rule reg_op_pc [OF assms(1,3) nf]) simp_all
    then show ?thesis by (cases ev) (use pc R assms(1) PcSelect in \<open>simp_all add: initiatorSelect_def Let_def\<close>)
  qed (simp_all add: initiatorSelect_def assms(1))
qed

lemma reg_remote:
  assumes "reg_inv d" and "drain_ok N d" and "o' < length (d_ops d)"
  shows "reg_inv (remoteStep io o' d)" "reg_inv (remoteSelect io ev o' d)"
proof -
  let ?t = "dr_target (dop d o')"
  have fin: "dr_finished (dop d o') \<longleftrightarrow> returned (rn_pc (d_runs d ! o'))" and T: "?t < length (se_legHeap (d_eng d))"
    using reg_invD(4) [OF assms(1,3)] by auto
  have close: "reg_inv (setPc o' (PcReturned r) (finishDrain o' err False d))" if "\<not> dr_finished (dop d o')" "\<not> serving ?t d" for r err
    unfolding finishDrain_def by (rule reg_close [OF assms(1,3) that(1)]) (use that in simp)
  show "reg_inv (remoteStep io o' d)"
  proof (cases "dr_finished (dop d o')")
    case True
    then obtain r where "rn_pc (d_runs d ! o') = PcReturned r" using fin by (cases "rn_pc (d_runs d ! o')") auto
    then show ?thesis using assms(1) by (simp add: remoteStep_def)
  next
    case False
    note pc = reg_pc [OF assms(1,3) False] and A = reg_abort [OF assms False]
    show ?thesis
    proof (cases "rn_pc (d_runs d ! o')")
      case PcRemoteRound
      have "reg_inv (remoteRound o' d)" unfolding remoteRound_def Let_def
        using close [OF False] pc reg_op_pc [OF assms(1,3) False] by (auto simp: serving_def)
      then show ?thesis by (simp add: remoteStep_def PcRemoteRound)
    next
      case (PcRemoteSend kind committing)
      let ?pc = "if committing then PcRemoteRetire else PcSelect False False"
      obtain r d1 where s: "sendDrainMessage io (dop d o') kind d = (r, d1)" by (metis surj_pair)
      note S = reg_send [OF assms(1) op_lengths [OF assms(2,3)] s]
      let ?run = "(d_runs d ! o')\<lparr>rn_lastKind := kind, rn_lastSent := io_now io\<rparr>"
      have 1: "reg_inv (setPc o' ?pc d1)" by (rule reg_pc [OF S(1)]) (use S(2) assms(3) False in simp_all)
      have "reg_inv (d1\<lparr>d_runs := (d_runs d1)[o' := ?run]\<rparr>)"
        by (rule reg_goes_on [OF S(1), of o' "dop d1 o'" ?run]) (use S assms(3) in simp_all)
      then have 2: "reg_inv (setPc o' ?pc (d1\<lparr>d_runs := (d_runs d1)[o' := ?run]\<rparr>))"
        by (rule reg_pc) (use S(2) assms(3) False in simp_all)
      have "reg_inv (remoteSend io o' kind committing d)"
        unfolding remoteSend_def Let_def s using 1 2 pc [of ?pc] by (cases r) simp_all
      then show ?thesis by (simp add: remoteStep_def PcRemoteSend)
    next
      case PcRemoteRetire
      obtain b d1 where r: "retireDrainedLeg (io_now io) ?t d = (b, d1)" by (metis surj_pair)
      note V = reg_retire [OF assms(1) r T]
      have 1: "reg_inv (setPc o' (PcReturned None) (closeOperation o' None False d1))" if b
        by (rule reg_close [OF V(1)]) (use V(2,3) that assms(3) False in simp_all)
      have 2: "reg_inv (setPc o' (PcReturned x) (forceDrainRecovery o' y d1))" for x y
        by (rule reg_recover [OF V(1)]) (use V(2) assms(3) False in simp_all)
      show ?thesis using 1 2 by (cases b) (simp_all add: remoteStep_def PcRemoteRetire remoteRetire_def r finishDrain_def)
    qed (use pc A assms(1) in \<open>auto simp: remoteStep_def split: option.split\<close>)
  qed
  show "reg_inv (remoteSelect io ev o' d)"
  proof (cases "rn_pc (d_runs d ! o')")
    case (PcSelect c s)
    then have nf: "\<not> dr_finished (dop d o')" using fin by simp
    have 1: "reg_inv (setPc o' PcTop (setOp o' (\<lambda>op. op\<lparr>dr_changed := False\<rparr>) d))"
      by (rule reg_op_pc [OF assms(1,3) nf]) simp_all
    have 2: "reg_inv (setPc o' (PcAbort err True) (snd (sendDrainMessage io (dop d o') StreamDrainAbort d)))" for err
      by (rule reg_send_pc [OF assms nf surjective_pairing]) simp
    show ?thesis by (cases ev) (use 1 2 reg_pc [OF assms(1,3) nf] close [OF nf] assms(1) PcSelect in
          \<open>simp_all add: remoteSelect_def Let_def serving_def\<close>)
  qed (simp_all add: remoteSelect_def assms(1))
qed

lemma reg_start:
  assumes "reg_inv d" and "t < length (se_legHeap (d_eng d))" and "dr_target op = t" and "mget (d_drainOps d) (sl_id (dleg d t)) = None"
    and "\<not> dr_finished op" and "\<not> returned pc"
  shows "reg_inv (startOperation op pc d)"
proof -
  define d' where "d' = startOperation op pc d"
  note D = reg_invD [OF assms(1)]
  let ?n = "length (d_ops d)" and ?e = "setLeg t (\<lambda>l. l\<lparr>sl_draining := True\<rparr>) (d_eng d)"
  have v: "d_eng d' = ?e" "d_ops d' = d_ops d @ [op]" "d_runs d' = d_runs d @ [newDrainRun pc]"
    "d_drainOps d' = mput (sl_id (dleg d t)) ?n (d_drainOps d)"
    by (simp_all add: d'_def startOperation_def Let_def assms(3))
  have m: "legs_mono (d_eng d) (d_eng d')" unfolding v by (rule mono_setLeg) simp
  have id: "sl_id (dleg d' a) = sl_id (dleg d a)" for a using assms(2) by (cases "a = t") (simp_all add: v(1))
  have br: "sl_draining (dleg d a) \<Longrightarrow> sl_draining (dleg d' a)" for a using assms(2) by (cases "a = t") (simp_all add: v(1))
  have g: "mget (d_drainOps d') i = (if i = sl_id (dleg d t) then Some ?n else mget (d_drainOps d) i)" for i
    by (simp add: v(4) update_conv')
  have old: "dop d' j = dop d j" "d_runs d' ! j = d_runs d ! j" if "j < ?n" for j using that D(2) by (simp_all add: v nth_append)
  have new: "dop d' ?n = op" "rn_pc (d_runs d' ! ?n) = pc" using D(2) by (simp_all add: v nth_append newDrainRun_def)
  show ?thesis unfolding d'_def [symmetric] reg_inv_def
  proof (intro conjI allI impI)
    show "mwf (d_drainOps d')" "length (d_runs d') = length (d_ops d')" using D(1,2) by (simp_all add: v)
  next
    fix i j assume "mget (d_drainOps d') i = Some j"
    then have "i = sl_id (dleg d t) \<and> j = ?n \<or> mget (d_drainOps d) i = Some j" by (auto simp: g split: if_splits)
    then have "j < length (d_ops d') \<and> sl_id (dleg d' (dr_target (dop d' j))) = i \<and> \<not> dr_finished (dop d' j)"
      using D(3) [of i j] old(1) [of j] new id assms(3,5) by (auto simp: v(2))
    then show "j < length (d_ops d')" "sl_id (dleg d' (dr_target (dop d' j))) = i" "\<not> dr_finished (dop d' j)" by auto
  next
    fix j assume "j < length (d_ops d')"
    then consider "j < ?n" | "j = ?n" by (fastforce simp: v(2))
    then have "dr_target (dop d' j) < length (se_legHeap (d_eng d')) \<and> (dr_finished (dop d' j) = returned (rn_pc (d_runs d' ! j)))
      \<and> (\<not> dr_finished (dop d' j) \<longrightarrow> registeredOp j d')
      \<and> (serving (dr_target (dop d' j)) d' \<longrightarrow> (\<not> dr_finished (dop d' j) \<longrightarrow> sl_draining (dleg d' (dr_target (dop d' j))))
           \<and> (committed (dop d' j) \<longrightarrow> \<not> dr_finished (dop d' j)))"
    proof cases
      case 1
      note T = D(4) [OF 1]
      have "serving (dr_target (dop d j)) d' \<Longrightarrow> serving (dr_target (dop d j)) d" using serving_mono(1) [OF m] T by blast
      then show ?thesis using T D(5,6) [OF 1] br assms(4) old [OF 1] id g by (auto simp: registeredOp_def v(1))
    next
      case 2
      then show ?thesis using new assms(2,3,5,6) id g by (simp add: registeredOp_def v(1))
    qed
    then show "dr_target (dop d' j) < length (se_legHeap (d_eng d'))" "dr_finished (dop d' j) = returned (rn_pc (d_runs d' ! j))"
      "\<not> dr_finished (dop d' j) \<Longrightarrow> registeredOp j d'"
      "serving (dr_target (dop d' j)) d' \<Longrightarrow> \<not> dr_finished (dop d' j) \<Longrightarrow> sl_draining (dleg d' (dr_target (dop d' j)))"
      "serving (dr_target (dop d' j)) d' \<Longrightarrow> committed (dop d' j) \<Longrightarrow> \<not> dr_finished (dop d' j)" by auto
  qed
qed

lemma noteCounter_frame [simp]:
  "reg_inv (noteCounter t m d) = reg_inv d" "d_eng (noteCounter t m d) = d_eng d" "d_drainOps (noteCounter t m d) = d_drainOps d"
  by (simp_all add: noteCounter_def reg_inv_def registeredOp_def serving_def bound_to_def)

lemma reg_wf: "reg_inv d \<Longrightarrow> ops_wf d"
  unfolding ops_wf_def using reg_invD(3) by blast

lemma reg_acceptDrainIntent:
  assumes "reg_inv d" and "drain_ok N d" and "wf_drain m" and "t < length (se_legHeap (d_eng d))"
  shows "reg_inv (snd (acceptDrainIntent io t m d))"
proof -
  have l: "length (dr_operationID (remoteOperation t m)) = 16" "length (dr_targetBinding (remoteOperation t m)) = 16"
    using assms(3) by (simp_all add: remoteOperation_def wf_drain_def)
  have a: "arrays (d_eng d)" using assms(2) by (simp add: drain_ok_def)
  show ?thesis
  proof (cases rule: acceptDrainIntent_cases [of io t m d])
    case (again o')
    note M = reg_invD(3) [OF assms(1) again(1)]
    show ?thesis unfolding again(2) by (rule reg_op) (use assms(1) M in \<open>simp_all add: drainSignal_def\<close>)
  next
    case (conflict o')
    note M = reg_invD(3) [OF assms(1) conflict(1)]
    let ?d = "setOp o' (\<lambda>op. drainSignal (op\<lparr>dr_terminalErr := Some ErrStreamDrainConflict\<rparr>)) d"
    have "reg_inv ?d" by (rule reg_op) (use assms(1) M in \<open>simp_all add: drainSignal_def\<close>)
    then have "reg_inv (noteCounter t m ?d)" by simp
    then show ?thesis unfolding conflict(2) by (rule reg_send(1) [OF _ _ l surjective_pairing]) (simp add: a)
  next
    case refused
    show ?thesis unfolding refused by (rule reg_send(1) [OF _ _ l surjective_pairing]) (simp_all add: a assms(1))
  next
    case started
    show ?thesis unfolding started(5)
      by (rule reg_start [where t = t]) (use assms(1,4) started(1) in \<open>simp_all add: remoteOperation_def\<close>)
  qed (simp add: assms(1))
qed

lemma receive_ok:
  fixes io :: drain_io and a :: nat
  assumes "reg_inv d" and "drain_ok N d" and "wire \<in> N"
  defines "d' \<equiv> snd (handleDrainControlFrame io a wire d)"
  shows "reg_inv d'" "drain_ok N d'" "set (d_sent d) \<subseteq> set (d_sent d')"
proof -
  let ?role = "if cfg_PathRole (se_cfg (d_eng d)) = StreamPathRoleClient then StreamPathRoleServer else StreamPathRoleClient"
  let ?msg = "DecodeDrainMessage (sl_drainAuth (dleg d a)) wire ?role"
  consider (same) "d' = d"
    | (intent) m t where "DecodeDrainMessage (sl_drainAuth (dleg d a)) wire ?role = Inr m" "getLeg (dm_TargetLeg m) (d_eng d) = Some t"
        "d' = snd (acceptDrainIntent io t m d)"
    | (update) m o' where "DecodeDrainMessage (sl_drainAuth (dleg d a)) wire ?role = Inr m" "mget (d_drainOps d) (dm_TargetLeg m) = Some o'"
        "drainAddressed m o' d" "d' = setOp o' (\<lambda>_. snd (applyDrainMessage m (dop d o'))) d"
  proof (cases "\<not> sl_drainEnabled (dleg d a) \<or> cfg_PathRole (se_cfg (d_eng d)) \<noteq> StreamPathRoleClient
      \<and> cfg_PathRole (se_cfg (d_eng d)) \<noteq> StreamPathRoleServer \<or> (\<exists>err. ?msg = Inl err)")
    case True
    then have "d' = d" unfolding d'_def handleDrainControlFrame_def Let_def by auto
    then show thesis by (rule same)
  next
    case False
    then obtain m where m: "?msg = Inr m" by (cases ?msg) auto
    have eq: "d' = snd (if dm_TargetLeg m = sl_id (dleg d a) then (None, d)
        else if dm_Kind m = StreamDrainIntent then
          (case getLeg (dm_TargetLeg m) (d_eng d) of
             None \<Rightarrow> (None, d)
           | Some t \<Rightarrow> if \<not> sl_drainEnabled (dleg d t) \<or> sl_drainBinding (dleg d t) \<noteq> dm_TargetBinding m then (None, d)
                       else acceptDrainIntent io t m d)
        else case mget (d_drainOps d) (dm_TargetLeg m) of
               None \<Rightarrow> (None, d)
             | Some o' \<Rightarrow> if \<not> drainAddressed m o' d then (None, d)
                 else case applyDrainMessage m (dop d o') of (r, op) \<Rightarrow> (r, setOp o' (\<lambda>_. op) d))"
      unfolding d'_def handleDrainControlFrame_def Let_def using False m by simp blast
    show thesis
    proof (cases "dm_Kind m = StreamDrainIntent")
      case True
      then show thesis using same intent [OF m] eq by (auto split: if_splits option.splits)
    next
      case False
      then show thesis using same update [OF m] eq by (auto split: if_splits option.splits prod.splits)
    qed
  qed
  then have "reg_inv d' \<and> drain_ok N d' \<and> set (d_sent d) \<subseteq> set (d_sent d')"
  proof cases
    case (intent m t)
    note H = decoded_heard [OF intent(1) assms(3)]
    have "t < length (se_legHeap (d_eng d))" using assms(2) intent(2) by (auto simp: drain_ok_def legs_in_def getLeg_def)
    then show ?thesis unfolding intent(3)
      using acceptDrainIntent_ok [OF assms(2) reg_wf [OF assms(1)] H(2)] reg_acceptDrainIntent [OF assms(1,2) H(2)] by blast
  next
    case (update m o')
    note H = decoded_heard [OF update(1) assms(3)] and M = reg_invD(3) [OF assms(1) update(2)]
    have ok: "op_ok N (dop d o')" using assms(2) M by (simp add: drain_ok_def)
    have ab: "about (dop d o') m" using update(3) by (simp add: drainAddressed_def Let_def about_def)
    note A = applyDrainMessage_ok [OF ok H(1) ab]
    have f: "dr_finished (snd (applyDrainMessage m (dop d o'))) = dr_finished (dop d o')"
      by (simp add: applyDrainMessage_def Let_def drainSignal_def)
    have "reg_inv d'" unfolding update(4) by (rule reg_op) (use assms(1) M A(2) f in \<open>simp_all add: op_mono_def\<close>)
    moreover have "drain_ok N d'" unfolding update(4) by (rule setOp_ok) (use assms(2) A in simp_all)
    ultimately show ?thesis by (simp add: update(4))
  qed (use assms(1,2) in simp)
  then show "reg_inv d'" "drain_ok N d'" "set (d_sent d) \<subseteq> set (d_sent d')" by auto
qed

lemma reap_mono: "legs_mono e (reapDrainedLeg t e)" "se_drainSessionID (reapDrainedLeg t e) = se_drainSessionID e"
  "length (se_legHeap (reapDrainedLeg t e)) = length (se_legHeap e)" "sameBarriers e (reapDrainedLeg t e)"
proof -
  have "legs_mono (retireStreamLeg t e) (reapDrainedLeg t e)" unfolding reapDrainedLeg_def
    by (rule same_mono) (simp add: kickSpaceSource_def)
  then show "legs_mono e (reapDrainedLeg t e)" using legs_mono_trans [OF mono_retireStreamLeg] by blast
  show "se_drainSessionID (reapDrainedLeg t e) = se_drainSessionID e" "length (se_legHeap (reapDrainedLeg t e)) = length (se_legHeap e)"
    by (simp_all add: reapDrainedLeg_def kickSpaceSource_def retireStreamLeg_def Let_def kickRetry_def)
  have "sameBarriers e (e\<lparr>se_retiring := r, se_reapers := q\<rparr>)" for r q by (simp add: sameBarriers_def)
  moreover have "sameBarriers e' (setLeg t (\<lambda>l. l\<lparr>sl_retired := True\<rparr>) e')" for e' by (rule barriers_setLeg) simp
  ultimately show "sameBarriers e (reapDrainedLeg t e)"
    by (auto simp: reapDrainedLeg_def kickSpaceSource_def retireStreamLeg_def Let_def kickRetry_def sameBarriers_def)
qed

lemma drainBegin_ok:
  assumes "reg_inv d" and "drain_ok N d" and "length opID = 16" and "t < length (se_legHeap (d_eng d))"
  shows "reg_inv (snd (drainBegin opID now t d)) \<and> drain_ok N (snd (drainBegin opID now t d))
    \<and> set (d_sent d) \<subseteq> set (d_sent (snd (drainBegin opID now t d)))"
proof (cases "fst (drainBegin opID now t d)")
  case (Some err)
  then have "snd (drainBegin opID now t d) = d" by (auto simp: drainBegin_def Let_def split: if_splits)
  then show ?thesis using assms by simp
next
  case None
  let ?d1 = "d\<lparr>d_counter := d_counter d + 1\<rparr>"
  let ?op = "(newOperation t opID (sl_drainBinding (dleg d t)) (d_counter d + 1) (cfg_PathRole (se_cfg (d_eng d))))
    \<lparr>dr_initiator := True, dr_lastControlSent := now\<rparr>"
  have b: "mget (d_drainOps d) (sl_id (dleg d t)) = None" "snd (drainBegin opID now t d) = startOperation ?op (PcSend StreamDrainIntent) ?d1"
    using None by (auto simp: drainBegin_def Let_def split: if_splits)
  have ok1: "drain_ok N ?d1" using assms(2) by (simp add: drain_ok_def)
  have reg1: "reg_inv ?d1" by (rule reg_engine [OF assms(1)]) (simp_all add: sameBarriers_def)
  have op: "op_ok N ?op" using assms(2-4) by (simp add: op_ok_def drain_ok_def arrays_def)
  have "reg_inv (startOperation ?op (PcSend StreamDrainIntent) ?d1)"
    by (rule reg_start [where t = t]) (use reg1 assms(4) b(1) in simp_all)
  then show ?thesis unfolding b(2) using startOperation_ok [OF ok1 op, of "PcSend StreamDrainIntent"] by simp
qed

lemma drain_step_ok:
  assumes "drain_step N d d'" and "reg_inv d" and "drain_ok N d"
  shows "reg_inv d' \<and> drain_ok N d' \<and> set (d_sent d) \<subseteq> set (d_sent d')"
  using assms(1)
proof cases
  case (engine e')
  have m: "legs_mono (d_eng d) e'" by (rule legs_step_mono [OF engine(2)])
  have "reg_inv d'" by (rule reg_engine [OF assms(2)]) (use m engine in simp_all)
  then show ?thesis using assms(3) legs_in_mono [OF m] engine by (auto simp: drain_ok_def)
next
  case (reap t)
  have k: "engine_keeps (d_eng d) (reapDrainedLeg t (d_eng d))" using reap_mono by (simp add: engine_keeps_def)
  have "reg_inv d'" by (rule reg_engine [OF assms(2)]) (use reap_mono reap in simp_all)
  then show ?thesis using assms(3) arrays_keeps [OF k] legs_in_keeps [OF k] reap by (auto simp: drain_ok_def)
next
  case (feeders p q)
  have "reg_inv d'" by (rule reg_engine [OF assms(2)]) (simp_all add: feeders sameBarriers_def)
  then show ?thesis using assms(3) feeders by (simp add: drain_ok_def)
next
  case (start opID t now)
  then show ?thesis using drainBegin_ok [OF assms(2,3)] by blast
next
  case (initiator o' io)
  then show ?thesis using initiatorStep_ok [OF assms(3)] reg_initiator(1) [OF assms(2,3)] op_step_ok [OF _ assms(3)] assms(3) by (metis order_refl)
next
  case (initiatorWoken o' ev)
  then show ?thesis using initiatorSelect_ok [OF assms(3)] reg_initiator(2) [OF assms(2,3)] op_step_ok [OF _ assms(3)] assms(3) by (metis order_refl)
next
  case (remote o' io)
  then show ?thesis using remoteStep_ok [OF assms(3)] reg_remote(1) [OF assms(2,3)] op_step_ok [OF _ assms(3)] assms(3) by (metis order_refl)
next
  case (remoteWoken o' io ev)
  then show ?thesis using remoteSelect_ok [OF assms(3)] reg_remote(2) [OF assms(2,3)] op_step_ok [OF _ assms(3)] assms(3) by (metis order_refl)
next
  case (receive a wire io)
  then show ?thesis using receive_ok [OF assms(2,3)] by blast
qed

subsection \<open>The two endpoints\<close>

lemma drain_ok_more: "drain_ok N d \<Longrightarrow> N \<subseteq> M \<Longrightarrow> drain_ok M d"
  unfolding drain_ok_def op_ok_def heard_def by blast

definition pair_ok :: "DrainEngine \<times> DrainEngine \<Rightarrow> bool" where
  "pair_ok p \<longleftrightarrow> reg_inv (fst p) \<and> reg_inv (snd p) \<and> drain_ok (set (d_sent (snd p))) (fst p) \<and> drain_ok (set (d_sent (fst p))) (snd p)"

interpretation drl: invariant_run pair_ok pair_step
proof
  fix p q assume "pair_step p q" and "pair_ok p"
  then show "pair_ok q"
  proof cases
    case (here y x x')
    then show ?thesis using \<open>pair_ok p\<close> drain_step_ok [OF here(3)] drain_ok_more by (auto simp: pair_ok_def)
  next
    case (there x y y')
    then show ?thesis using \<open>pair_ok p\<close> drain_step_ok [OF there(3)] drain_ok_more by (auto simp: pair_ok_def)
  qed
qed

lemma new_engine_fields [simp]:
  "se_legs (NewStreamEngine cfg n startup now) = []" "se_legHeap (NewStreamEngine cfg n startup now) = []"
  "se_drainSessionID (NewStreamEngine cfg n startup now) = replicate 16 0"
proof -
  have "se_legs (if b then activate e else e) = se_legs e" "length (se_legHeap (if b then activate e else e)) = length (se_legHeap e)"
    "se_drainSessionID (if b then activate e else e) = se_drainSessionID e" for b e
    using same_activate [of e] by (simp_all add: sameRegistry_def)
  note act = this
  show "se_legs (NewStreamEngine cfg n startup now) = []" "se_drainSessionID (NewStreamEngine cfg n startup now) = replicate 16 0"
    unfolding NewStreamEngine_def Let_def case_prod_beta act by simp_all
  have "length (se_legHeap (NewStreamEngine cfg n startup now)) = 0" unfolding NewStreamEngine_def Let_def case_prod_beta act by simp
  then show "se_legHeap (NewStreamEngine cfg n startup now) = []" by simp
qed

lemma pair_reachable:
  assumes "pair_step\<^sup>*\<^sup>* (newDrainEngine (NewStreamEngine cfg n startup now), newDrainEngine (NewStreamEngine cfg' n' startup' now')) (x, y)"
  shows "pair_ok (x, y)"
proof -
  have "reg_inv (newDrainEngine (NewStreamEngine c m s b))" "drain_ok N (newDrainEngine (NewStreamEngine c m s b))" for c m s b N
    by (simp_all add: reg_inv_def drain_ok_def newDrainEngine_def arrays_def legs_in_def)
  then show ?thesis using drl.run_inv [OF assms] by (simp add: pair_ok_def)
qed

text \<open>An operation at one end answers to one at the other.\<close>

lemma answered:
  assumes "drain_ok (set (d_sent y)) x" and "drain_ok (set (d_sent x)) y" and "o' < length (d_ops x)" and "heard (set (d_sent y)) k (dop x o')"
    and "k = StreamDrainCommit \<and> P = dr_commitSent \<or> k = StreamDrainCommitAck \<and> P = dr_commitRequested"
  obtains q where "q < length (d_ops y)" "op_ok (set (d_sent x)) (dop y q)" "P (dop y q)" "dr_operationID (dop y q) = dr_operationID (dop x o')"
    "dr_counter (dop y q) = dr_counter (dop x o')" "dr_targetBinding (dop y q) = dr_targetBinding (dop x o')"
proof -
  from assms(4) obtain w where w: "w \<in> set (d_sent y)" "about (dop x o') (drainFields w)" "dm_Kind (drainFields w) = k"
    by (auto simp: heard_def)
  then have "wire_ok (d_ops y) (drainFields w)" using assms(2) by (simp add: drain_ok_def)
  then obtain op where op: "op \<in> set (d_ops y)" "about op (drainFields w)" "P op" using w(3) assms(5) by (auto simp: wire_ok_def)
  then obtain q where q: "q < length (d_ops y)" "op = dop y q" by (auto simp: in_set_conv_nth)
  then show thesis using that [of q] op w(2) assms(2) by (auto simp: about_def drain_ok_def)
qed

subsection \<open>Starting and retiring\<close>

lemma fold_count: "fold (\<lambda>r c. if P r then c + 1 else c) xs n = n + length (filter P xs)" for n :: nat
  by (induction xs arbitrary: n) simp_all

lemma outstandingForLeg_0: "outstandingForLeg leg l = 0 \<longleftrightarrow> (\<forall>r \<in> set (outstanding_recs l). \<not> dependsOn leg r)"
  by (simp add: outstandingForLeg_def fold_count filter_empty_conv)

text \<open>More legs than operations: some leg has none.\<close>

lemma spare_key:
  fixes m :: "('k, 'v) gomap" and m' :: "('k, 'w) gomap"
  assumes "mwf m" and "length m' < length m"
  shows "\<exists>k v. mget m k = Some v \<and> mget m' k = None"
proof (rule ccontr)
  assume no: "\<nexists>k v. mget m k = Some v \<and> mget m' k = None"
  have none: "\<exists>w. mget m' k = Some w" if "mget m k = Some v" for k v
    using no that by (cases "mget m' k") blast+
  have "set (map fst m) \<subseteq> set (map fst m')"
  proof
    fix k assume "k \<in> set (map fst m)"
    then obtain v where "(k, v) \<in> set m" by auto
    then have "mget m k = Some v" by (rule in_mget [OF assms(1)])
    then obtain w where "mget m' k = Some w" using none by blast
    then have "(k, w) \<in> set m'" by (rule mget_in)
    then show "k \<in> set (map fst m')" by force
  qed
  then have "card (set (map fst m)) \<le> card (set (map fst m'))" by (rule card_mono [rotated]) simp
  then have "card (set (map fst m)) \<le> length m'" using card_length [of "map fst m'"] by simp
  moreover have "card (set (map fst m)) = length m" using assms(1) distinct_card [of "map fst m"] by (simp add: mwf_def)
  ultimately show False using assms(2) by simp
qed

lemma conflicting_intent_sets_high_water:
  assumes "mget (d_drainOps d) (sl_id (dleg d t)) = Some o'" and "dr_operationID (dop d o') \<noteq> dm_OperationID m"
  shows "mget (d_highWater (snd (acceptDrainIntent io t m d))) (sl_id (dleg d t), dm_SenderRole m) = Some (dm_Counter m)"
proof -
  let ?d = "noteCounter t m (setOp o' (\<lambda>op. drainSignal (op\<lparr>dr_terminalErr := Some ErrStreamDrainConflict\<rparr>)) d)"
  have "snd (acceptDrainIntent io t m d) = snd (sendDrainMessage io (remoteOperation t m) StreamDrainAbort ?d)"
    using assms by (simp add: acceptDrainIntent_def Let_def)
  moreover have "d_highWater (snd (sendDrainMessage io op k d0)) = d_highWater d0" for op k d0
    using sendDrainLoop_frame [of io "makeDrainMessage op k (io_now io) (d_eng d0)" "drainCarriers op (d_eng d0)" "[]" d0]
    unfolding sendDrainMessage_def by auto
  ultimately show ?thesis by (simp add: noteCounter_def update_conv')
qed

section \<open>Properties\<close>

subsection \<open>Two engines in the middle of a drain\<close>

definition drainAuthB :: StreamPathAuth where
  "drainAuthB = drainAuthA\<lparr>legID := 1, drainBinding := replicate 16 2\<rparr>"

definition exampleDrainLegs :: StreamEngine where
  "exampleDrainLegs = snd (attachLeg True 1 (Some drainAuthB) 0 6 exampleDrainEngine)"

definition exampleDraining :: DrainEngine where
  "exampleDraining = snd (drainBegin (replicate 16 9) 7 0 (newDrainEngine exampleDrainLegs))"

lemma exampleDrainEngine_heap:
  "se_legHeap exampleDrainEngine = [newLeg 0 1 (noBinding, noIdentity) False True (Some drainAuthA) 0 exampleEngine0]"
proof -
  have new: "\<not> se_pathSessionSet exampleEngine0" "\<not> se_drainSessionSet exampleEngine0"
    by (simp_all add: exampleEngine0_def NewStreamEngine_def Let_def normalizeMaxActiveStreamLegs_def MaxStreamLegIDCount_def
        exampleLegConfig_def exampleStartup_def)
  show ?thesis
    by (simp add: exampleDrainEngine_def attachLeg_def exampleEngine0_fields new attachDrain_def registerLeg_def newLeg_def
        announceLeg_def engineForceAck_def kickAck_def kickSpaceSource_def kickRetry_def exampleLegConfig_def Let_def
        drainAuthA_def noAuth_def PathRTTEnabled_def CoordinatedDrainEnabled_def del: replicate.simps)
qed

lemma exampleDrainLegs_fields:
  "se_legs exampleDrainLegs = [(0, 0), (1, 1)]" "length (se_legHeap exampleDrainLegs) = 2"
  "sl_id (sleg exampleDrainLegs 0) = 0" "\<not> sl_closed (sleg exampleDrainLegs 0)" "sl_drainEnabled (sleg exampleDrainLegs 0)"
  "length (sl_drainBinding (sleg exampleDrainLegs 0)) = 16" "length (sl_drainBinding (sleg exampleDrainLegs (Suc 0))) = 16"
  "\<not> sl_draining (sleg exampleDrainLegs 0)" "length (se_drainSessionID exampleDrainLegs) = 16"
  "\<not> se_done exampleDrainLegs"
  by (simp_all add: exampleDrainLegs_def attachLeg_def exampleDrainEngine_fields exampleDrainEngine_heap attachDrain_def registerLeg_def
      newLeg_def announceLeg_def engineForceAck_def kickAck_def kickSpaceSource_def kickRetry_def exampleLegConfig_def Let_def
      drainAuthB_def drainAuthA_def noAuth_def PathRTTEnabled_def CoordinatedDrainEnabled_def del: replicate.simps)

lemma arrays2: "length (se_legHeap e) = 2 \<Longrightarrow> length (sl_drainBinding (sleg e 0)) = 16
    \<Longrightarrow> length (sl_drainBinding (sleg e (Suc 0))) = 16 \<Longrightarrow> length (se_drainSessionID e) = 16 \<Longrightarrow> arrays e"
  by (auto simp: arrays_def less_Suc_eq numeral_2_eq_2)

lemma exampleDraining_fields:
  "length (d_ops exampleDraining) = 1" "dr_target (dop exampleDraining 0) = 0" "serving 0 exampleDraining"
  "rn_pc (d_runs exampleDraining ! 0) = PcSend StreamDrainIntent" "dr_initiator (dop exampleDraining 0)"
  using exampleDrainLegs_fields
  by (simp_all add: exampleDraining_def drainBegin_def newDrainEngine_def legCount_def bound_to_def getLeg_def Let_def startOperation_def
      newDrainRun_def serving_def newOperation_def del: replicate.simps)

lemma exampleDraining_reachable:
  "pair_step\<^sup>*\<^sup>* (newDrainEngine (NewStreamEngine exampleLegConfig 2 exampleStartup False),
      newDrainEngine (NewStreamEngine exampleLegConfig 2 exampleStartup False))
    (exampleDraining, newDrainEngine (NewStreamEngine exampleLegConfig 2 exampleStartup False))"
proof -
  let ?y = "newDrainEngine (NewStreamEngine exampleLegConfig 2 exampleStartup False)"
  have n: "newDrainEngine e = (newDrainEngine e')\<lparr>d_eng := e\<rparr>" if "se_maxActiveLegs e = se_maxActiveLegs e'" for e e'
    using that by (simp add: newDrainEngine_def)
  have a1: "arrays exampleDrainEngine"
    using exampleDrainEngine_fields by (simp add: arrays_def exampleDrainEngine_heap newLeg_def drainAuthA_def)
  have a2: "arrays exampleDrainLegs" by (rule arrays2) (simp_all add: exampleDrainLegs_fields)
  have "drain_step {} (newDrainEngine exampleEngine0) ((newDrainEngine exampleEngine0)\<lparr>d_eng := exampleDrainEngine\<rparr>)"
    by (rule drain_step.engine [OF _ _ a1])
      (simp_all add: newDrainEngine_def exampleDrainEngine_def legs_step.attach sameBarriers_def exampleEngine0_fields)
  then have 1: "drain_step {} (newDrainEngine exampleEngine0) (newDrainEngine exampleDrainEngine)"
    using n [of exampleDrainEngine exampleEngine0] by (simp add: exampleEngine0_fields exampleDrainEngine_fields)
  have m2: "se_maxActiveLegs exampleDrainLegs = 2"
    by (simp add: exampleDrainLegs_def attachLeg_def exampleDrainEngine_fields attachDrain_def registerLeg_def
      newLeg_def announceLeg_def engineForceAck_def kickAck_def kickSpaceSource_def kickRetry_def exampleLegConfig_def Let_def
      drainAuthB_def drainAuthA_def noAuth_def PathRTTEnabled_def CoordinatedDrainEnabled_def del: replicate.simps)
  have "drain_step {} (newDrainEngine exampleDrainEngine) ((newDrainEngine exampleDrainEngine)\<lparr>d_eng := exampleDrainLegs\<rparr>)"
    by (rule drain_step.engine [OF _ _ a2])
      (simp_all add: newDrainEngine_def exampleDrainLegs_def legs_step.attach sameBarriers_def exampleDrainEngine_heap newLeg_def
        exampleDrainLegs_fields(8) [unfolded exampleDrainLegs_def])
  then have 2: "drain_step {} (newDrainEngine exampleDrainEngine) (newDrainEngine exampleDrainLegs)"
    using n [of exampleDrainLegs exampleDrainEngine] by (simp add: m2 exampleDrainEngine_fields)
  have 3: "drain_step {} (newDrainEngine exampleDrainLegs) exampleDraining"
    unfolding exampleDraining_def by (rule drain_step.start) (simp_all add: newDrainEngine_def exampleDrainLegs_fields)
  have "d_sent ?y = []" by (simp add: newDrainEngine_def)
  then have "pair_step (newDrainEngine exampleEngine0, ?y) (newDrainEngine exampleDrainEngine, ?y)"
    "pair_step (newDrainEngine exampleDrainEngine, ?y) (newDrainEngine exampleDrainLegs, ?y)"
    "pair_step (newDrainEngine exampleDrainLegs, ?y) (exampleDraining, ?y)"
    using 1 2 3 by (auto intro: pair_step.here)
  then show ?thesis unfolding exampleEngine0_def by (meson converse_rtranclp_into_rtranclp r_into_rtranclp)
qed





text \<open>C40: Retiring a drained carrier strands nothing. When \<open>retireDrainedLeg\<close> succeeds, the barrier was up, the
  queues of the carrier were empty and no outstanding record of the ledger depended on it; the carrier is
  closed and moved from the registry to the retiring ones, and the ledger and every other registration are as before.\<close>

theorem drained_leg_strands_nothing:
  assumes "retireDrainedLeg now t d = (True, d')" and "t < length (se_legHeap (d_eng d))"
  shows "let i = sl_id (dleg d t)
    in sl_draining (dleg d t) \<and> sl_send (dleg d t) = 0 \<and> sl_rescue (dleg d t) = 0
       \<and> (\<forall>r \<in> set (outstanding_recs (se_txLedger (d_eng d))). \<not> dependsOn i r)
       \<and> sl_closed (dleg d' t) \<and> mget (se_retiring (d_eng d')) i = Some t \<and> t \<in> set (se_reapers (d_eng d'))
       \<and> (\<forall>j. mget (se_legs (d_eng d')) j = (if j = i then None else mget (se_legs (d_eng d)) j))
       \<and> se_txLedger (d_eng d') = se_txLedger (d_eng d)"
proof -
  have r: "drainReady t d" using assms(1) by (auto simp: retireDrainedLeg_def Let_def split: if_splits)
  then have q: "sl_draining (dleg d t)" "sl_send (dleg d t) = 0" "sl_rescue (dleg d t) = 0"
    "outstandingForLeg (sl_id (dleg d t)) (se_txLedger (d_eng d)) = 0" by (auto simp: drainReady_def Let_def split: if_splits)
  define e3 where "e3 = (invalidatePath t (moveToRetiring t (d_eng d)))\<lparr>se_capacityResets :=
    se_capacityResets (invalidatePath t (moveToRetiring t (d_eng d))) @ [(sl_id (sleg (invalidatePath t (moveToRetiring t (d_eng d))) t), now)]\<rparr>"
  have e: "se_legs e3 = mdel (sl_id (dleg d t)) (se_legs (d_eng d))" "se_retiring e3 = mput (sl_id (dleg d t)) t (se_retiring (d_eng d))"
    "se_reapers e3 = t # se_reapers (d_eng d)" "se_txLedger e3 = se_txLedger (d_eng d)" "length (se_legHeap e3) = length (se_legHeap (d_eng d))"
    by (simp_all add: e3_def invalidatePath_def moveToRetiring_def Let_def)
  have "d_eng d' = setLeg t (closeStreamLeg None) e3"
    using assms(1) r unfolding retireDrainedLeg_def Let_def e3_def by auto
  then show ?thesis using q assms(2) e by (simp add: Let_def outstandingForLeg_0 update_conv' delete_conv')
qed

theorem drained_leg_strands_nothing_witness:
  "\<exists>d'. retireDrainedLeg 8 0 exampleDraining = (True, d') \<and> sl_closed (dleg d' 0) \<and> mget (se_legs (d_eng d')) 1 = Some 1"
proof -
  have "outstanding (se_txLedger exampleDrainLegs) = []"
    by (simp add: exampleDrainLegs_def exampleDrainEngine_def exampleEngine0_def NewStreamEngine_def Let_def normalizeMaxActiveStreamLegs_def
      MaxStreamLegIDCount_def attachLeg_def attachDrain_def registerLeg_def newStreamTXLedger_def
      newLeg_def announceLeg_def engineForceAck_def kickAck_def kickSpaceSource_def kickRetry_def exampleLegConfig_def exampleStartup_def
      drainAuthB_def drainAuthA_def noAuth_def PathRTTEnabled_def CoordinatedDrainEnabled_def del: replicate.simps)
  then have l: "outstandingForLeg i (se_txLedger exampleDrainLegs) = 0" for i by (simp add: outstandingForLeg_def)
  have q: "sl_send (sleg exampleDrainLegs 0) = 0" "sl_rescue (sleg exampleDrainLegs 0) = 0" "sl_debugWriterState (sleg exampleDrainLegs 0) = 0"
    "se_maxActiveLegs exampleDrainLegs = 2"
    by (simp_all add: exampleDrainLegs_def attachLeg_def exampleDrainEngine_fields exampleDrainEngine_heap attachDrain_def registerLeg_def
      newLeg_def announceLeg_def engineForceAck_def kickAck_def kickSpaceSource_def kickRetry_def exampleLegConfig_def Let_def
      drainAuthB_def drainAuthA_def noAuth_def PathRTTEnabled_def CoordinatedDrainEnabled_def del: replicate.simps)
  have "drainReady 0 exampleDraining"
    using exampleDrainLegs_fields l q
    by (simp add: drainReady_def exampleDraining_def drainBegin_def newDrainEngine_def legCount_def bound_to_def getLeg_def Let_def
      startOperation_def del: replicate.simps)
  then obtain d' where r: "retireDrainedLeg 8 0 exampleDraining = (True, d')" by (auto simp: retireDrainedLeg_def Let_def)
  have "0 < length (se_legHeap (d_eng exampleDraining))"
    using exampleDrainLegs_fields(2) by (auto simp: exampleDraining_def drainBegin_def newDrainEngine_def Let_def startOperation_def setLeg_def)
  then have "sl_closed (dleg d' 0) \<and> (\<forall>j. mget (se_legs (d_eng d')) j =
      (if j = sl_id (dleg exampleDraining 0) then None else mget (se_legs (d_eng exampleDraining)) j))"
    using drained_leg_strands_nothing [OF r] by (simp add: Let_def)
  moreover have "sl_id (dleg exampleDraining 0) = 0" "se_legs (d_eng exampleDraining) = [(0, 0), (1, 1)]"
    using exampleDrainLegs_fields by (simp_all add: exampleDraining_def drainBegin_def newDrainEngine_def legCount_def bound_to_def getLeg_def
        Let_def startOperation_def del: replicate.simps)
  ultimately show ?thesis using r by simp
qed

text \<open>A drain never takes the last way out. \<open>DrainLeg\<close> either refuses and changes nothing, or raises the
  barrier of the registered carrier of the leg, registers its operation for it, and leaves another
  registered carrier for which no drain runs.\<close>

theorem drain_start_outcome:
  assumes "mwf (se_legs (d_eng d))" and "legs_in (d_eng d)" and "coordinatedDrainLeg i opID now d = (r, d')"
  shows "(\<exists>err. r = Inl err \<and> d' = d)
    \<or> (\<exists>t. r = Inr (length (d_ops d)) \<and> getLeg i (d_eng d) = Some t \<and> sl_draining (dleg d' t) \<and> t \<notin> set (availableStreamLegs (d_eng d'))
         \<and> dr_target (dop d' (length (d_ops d))) = t \<and> mget (d_drainOps d') (sl_id (dleg d t)) = Some (length (d_ops d))
         \<and> (\<exists>j t'. mget (se_legs (d_eng d')) j = Some t' \<and> mget (d_drainOps d') j = None))"
proof (cases r)
  case (Inl err)
  then show ?thesis using assms(3)
    by (auto simp: coordinatedDrainLeg_def drainBegin_def Let_def split: sum.splits prod.splits option.splits if_splits)
next
  case (Inr q)
  then obtain t where p: "drainPrecheck i d = Inr t" and b: "drainBegin opID now t d = (None, d')" and q: "q = length (d_ops d)"
    using assms(3) by (auto simp: coordinatedDrainLeg_def split: sum.splits prod.splits option.splits)
  have g: "getLeg i (d_eng d) = Some t" using p by (auto simp: drainPrecheck_def split: if_splits option.splits)
  then have t: "t < length (se_legHeap (d_eng d))" using assms(2) by (auto simp: legs_in_def getLeg_def)
  let ?op = "(newOperation t opID (sl_drainBinding (dleg d t)) (d_counter d + 1) (cfg_PathRole (se_cfg (d_eng d))))
    \<lparr>dr_initiator := True, dr_lastControlSent := now\<rparr>"
  have c: "int (legCount (d_eng d)) - int (length (d_drainOps d)) > 1" "mget (d_drainOps d) (sl_id (dleg d t)) = None"
    "d' = startOperation ?op (PcSend StreamDrainIntent) (d\<lparr>d_counter := d_counter d + 1\<rparr>)"
    using b by (auto simp: drainBegin_def Let_def split: if_splits)
  have v: "d_eng d' = setLeg t (\<lambda>l. l\<lparr>sl_draining := True\<rparr>) (d_eng d)" "d_ops d' = d_ops d @ [?op]"
    "d_drainOps d' = mput (sl_id (dleg d t)) (length (d_ops d)) (d_drainOps d)"
    by (simp_all add: c(3) startOperation_def Let_def)
  have "length (d_drainOps d') < length (se_legs (d_eng d))"
    using c(1) length_update_new [OF c(2), of "length (d_ops d)"] by (simp add: v(3) legCount_def)
  from spare_key [OF assms(1) this] have "\<exists>j t'. mget (se_legs (d_eng d')) j = Some t' \<and> mget (d_drainOps d') j = None"
    by (simp add: v(1))
  moreover have "sl_draining (dleg d' t)" using t by (simp add: v(1))
  ultimately show ?thesis using g q Inr by (auto simp: v(2,3) availableStreamLegs_def update_conv')
qed

theorem drain_start_outcome_witness:
  "\<exists>d'. coordinatedDrainLeg 0 (replicate 16 9) 7 (newDrainEngine exampleDrainLegs) = (Inr 0, d') \<and> sl_draining (dleg d' 0)
     \<and> (\<exists>j t'. mget (se_legs (d_eng d')) j = Some t' \<and> mget (d_drainOps d') j = None)"
proof -
  let ?d = "newDrainEngine exampleDrainLegs"
  have e: "se_maxActiveLegs exampleDrainLegs = 2" "sl_drainEnabled (sleg exampleDrainLegs 1)" "\<not> sl_draining (sleg exampleDrainLegs 1)"
    "\<not> sl_closed (sleg exampleDrainLegs 1)"
    by (simp_all add: exampleDrainLegs_def attachLeg_def exampleDrainEngine_fields exampleDrainEngine_heap attachDrain_def registerLeg_def
      newLeg_def announceLeg_def engineForceAck_def kickAck_def kickSpaceSource_def kickRetry_def exampleLegConfig_def Let_def
      drainAuthB_def drainAuthA_def noAuth_def PathRTTEnabled_def CoordinatedDrainEnabled_def del: replicate.simps)
  obtain r d' where r: "coordinatedDrainLeg 0 (replicate 16 9) 7 ?d = (r, d')" by (metis surj_pair)
  have "mwf (se_legs (d_eng ?d))" "legs_in (d_eng ?d)"
    using exampleDrainLegs_fields(1,2) by (auto simp: newDrainEngine_def mwf_def legs_in_def split: if_splits)
  note T = drain_start_outcome [OF this r]
  have "r = Inr 0" using r exampleDrainLegs_fields e
    by (simp add: coordinatedDrainLeg_def drainPrecheck_def drainBegin_def newDrainEngine_def hasDrainControlLeg_def legCount_def getLeg_def
        bound_to_def Let_def split: prod.splits option.splits if_splits del: replicate.simps)
  then show ?thesis using T r exampleDrainLegs_fields(1) by (auto simp: newDrainEngine_def getLeg_def)
qed

end
