(* ===== verification/Event_Heap.thy ===== *)
theory Event_Heap
  imports Prelude "HOL-Library.Multiset"
begin

text \<open>
  The binary heap of package \<open>container/heap\<close>, as \<open>rescueByteEventHeap\<close> of
  \<open>core/stream_bounded_rescue.go\<close> uses it: a slice ordered by a key, \<open>Push\<close> appending and sifting up,
  \<open>Pop\<close> swapping the root to the end and sifting down.
\<close>

section \<open>The heap operations\<close>

definition heapSwap :: "nat \<Rightarrow> nat \<Rightarrow> 'a list \<Rightarrow> 'a list" where
  "heapSwap i j xs = xs[i := xs ! j, j := xs ! i]"

definition parent :: "nat \<Rightarrow> nat" where
  "parent j = (j - 1) div 2"

lemma parent_less [simp]: "0 < j \<Longrightarrow> parent j < j"
  by (simp add: parent_def)

lemma parent_bound [simp]: "0 < j \<Longrightarrow> j < n \<Longrightarrow> parent j < n"
  using parent_less [of j] by linarith

lemma parent_eq: "0 < c \<Longrightarrow> parent c = i \<longleftrightarrow> c = 2 * i + 1 \<or> c = 2 * i + 2"
  unfolding parent_def by presburger

function heapUp :: "('a \<Rightarrow> int) \<Rightarrow> nat \<Rightarrow> 'a list \<Rightarrow> 'a list" where
  "heapUp f j xs =
     (if j = 0 \<or> \<not> f (xs ! j) < f (xs ! parent j) then xs
      else heapUp f (parent j) (heapSwap (parent j) j xs))"
  by pat_completeness auto
termination
  by (relation "measure (\<lambda>(f, j, xs). j)") auto

text \<open>The child sifting down looks at: the right one if it is there and strictly less.\<close>

definition lesserChild :: "('a \<Rightarrow> int) \<Rightarrow> nat \<Rightarrow> nat \<Rightarrow> 'a list \<Rightarrow> nat" where
  "lesserChild f i n xs =
     (let j1 = 2 * i + 1; j2 = j1 + 1 in if j2 < n \<and> f (xs ! j2) < f (xs ! j1) then j2 else j1)"

lemma lesserChild_props:
  "i < lesserChild f i n xs" "2 * i + 1 < n \<Longrightarrow> lesserChild f i n xs < n" "parent (lesserChild f i n xs) = i"
  by (auto simp: lesserChild_def Let_def parent_def)

function heapDown :: "('a \<Rightarrow> int) \<Rightarrow> nat \<Rightarrow> nat \<Rightarrow> 'a list \<Rightarrow> 'a list" where
  "heapDown f i n xs =
     (let j = lesserChild f i n xs
      in if 2 * i + 1 \<ge> n \<or> \<not> f (xs ! j) < f (xs ! i) then xs
         else heapDown f j n (heapSwap i j xs))"
  by pat_completeness auto
termination
  by (relation "measure (\<lambda>(f, i, n, xs). n - i)") (auto intro!: diff_less_mono2 simp: lesserChild_props)

declare heapUp.simps [simp del] heapDown.simps [simp del]

definition heapPush :: "('a \<Rightarrow> int) \<Rightarrow> 'a \<Rightarrow> 'a list \<Rightarrow> 'a list" where
  "heapPush f x xs = heapUp f (length xs) (xs @ [x])"

definition heapPop :: "('a \<Rightarrow> int) \<Rightarrow> 'a list \<Rightarrow> 'a \<times> 'a list" where
  "heapPop f xs =
     (let n = length xs - 1; ys = heapDown f 0 n (heapSwap 0 n xs)
      in (ys ! n, take n ys))"

section \<open>Order\<close>

definition isHeap :: "('a \<Rightarrow> int) \<Rightarrow> nat \<Rightarrow> 'a list \<Rightarrow> bool" where
  "isHeap f n xs \<longleftrightarrow> (\<forall>i. 0 < i \<and> i < n \<longrightarrow> f (xs ! parent i) \<le> f (xs ! i))"

lemma length_heapSwap [simp]: "length (heapSwap i j xs) = length xs"
  by (simp add: heapSwap_def)

lemma nth_heapSwap:
  "i < length xs \<Longrightarrow> j < length xs \<Longrightarrow> heapSwap i j xs ! k = (if k = j then xs ! i else if k = i then xs ! j else xs ! k)"
  by (auto simp: heapSwap_def nth_list_update)

lemma mset_heapSwap: "i < length xs \<Longrightarrow> j < length xs \<Longrightarrow> mset (heapSwap i j xs) = mset xs"
  unfolding heapSwap_def by (rule mset_swap)

lemma heapUp_mset: "j < length xs \<Longrightarrow> mset (heapUp f j xs) = mset xs \<and> length (heapUp f j xs) = length xs"
proof (induction f j xs rule: heapUp.induct)
  case (1 f j xs)
  show ?case
  proof (cases "j = 0 \<or> \<not> f (xs ! j) < f (xs ! parent j)")
    case True
    then show ?thesis by (subst (1 2) heapUp.simps) simp
  next
    case False
    then have p: "parent j < length xs" using 1(2) by simp
    then show ?thesis using 1(1) [OF False] False mset_heapSwap [OF p 1(2)] by (subst (1 2) heapUp.simps) simp
  qed
qed

text \<open>Sifting up: the order holds but for the edge above \<open>j\<close>, and the children of \<open>j\<close> are not below its parent.\<close>

lemma heapUp_heap:
  assumes "j < length xs"
    and "\<And>i. 0 < i \<Longrightarrow> i < length xs \<Longrightarrow> i \<noteq> j \<Longrightarrow> f (xs ! parent i) \<le> f (xs ! i)"
    and "\<And>c. 0 < c \<Longrightarrow> c < length xs \<Longrightarrow> parent c = j \<Longrightarrow> 0 < j \<Longrightarrow> f (xs ! parent j) \<le> f (xs ! c)"
  shows "isHeap f (length xs) (heapUp f j xs)"
  using assms
proof (induction f j xs rule: heapUp.induct)
  case (1 f j xs)
  show ?case
  proof (cases "j = 0 \<or> \<not> f (xs ! j) < f (xs ! parent j)")
    case True
    have "f (xs ! parent i) \<le> f (xs ! i)" if "0 < i" "i < length xs" for i
      using True 1(3) that by (cases "i = j") auto
    then show ?thesis using True by (subst heapUp.simps) (simp add: isHeap_def)
  next
    case False
    let ?p = "parent j"
    let ?ys = "heapSwap ?p j xs"
    have j: "0 < j" "?p < j" "?p < length xs" using False 1(2) by auto
    note n = nth_heapSwap [OF j(3) 1(2)]
    have "f (?ys ! parent i) \<le> f (?ys ! i)" if i: "0 < i" "i < length ?ys" "i \<noteq> ?p" for i
    proof (cases "i = j")
      case True
      then show ?thesis using False j by (simp add: n)
    next
      case ij: False
      show ?thesis
      proof (cases "parent i = j")
        case True
        then show ?thesis using 1(4) [OF i(1) _ True j(1)] i ij by (simp add: n)
      next
        case nj: False
        show ?thesis
        proof (cases "parent i = ?p")
          case True
          then have "f (xs ! ?p) \<le> f (xs ! i)" using 1(3) [of i] i ij by simp
          then show ?thesis using True False ij i(3) j by (simp add: n)
        next
          case False
          then show ?thesis using 1(3) [of i] i ij nj by (simp add: n)
        qed
      qed
    qed
    moreover have "f (?ys ! parent ?p) \<le> f (?ys ! c)" if c: "0 < c" "c < length ?ys" "parent c = ?p" "0 < ?p" for c
    proof -
      have pp: "parent ?p \<noteq> j" "parent ?p \<noteq> ?p" using c(4) j parent_less [OF c(4)] by auto
      have up: "f (xs ! parent ?p) \<le> f (xs ! ?p)" using 1(3) [of ?p] c(4) j by simp
      show ?thesis
      proof (cases "c = j")
        case True
        then show ?thesis using up pp by (simp add: n)
      next
        case False
        have "c \<noteq> ?p" using c(3) parent_less [OF c(4)] by auto
        then have "f (xs ! ?p) \<le> f (xs ! c)" using 1(3) [of c] c False by simp
        then show ?thesis using up pp False \<open>c \<noteq> ?p\<close> by (simp add: n)
      qed
    qed
    ultimately have "isHeap f (length ?ys) (heapUp f ?p ?ys)" using 1(1) [OF False] j(3) by simp
    then show ?thesis using False by (subst heapUp.simps) simp
  qed
qed

lemma heapDown_mset:
  "n \<le> length xs \<Longrightarrow> i < n \<or> n = 0 \<Longrightarrow>
     mset (heapDown f i n xs) = mset xs \<and> length (heapDown f i n xs) = length xs \<and>
     (\<forall>k\<ge>n. heapDown f i n xs ! k = xs ! k)"
proof (induction f i n xs rule: heapDown.induct)
  case (1 f i n xs)
  let ?j = "lesserChild f i n xs"
  show ?case
  proof (cases "2 * i + 1 \<ge> n \<or> \<not> f (xs ! ?j) < f (xs ! i)")
    case True
    then have "heapDown f i n xs = xs" by (subst heapDown.simps) (simp only: Let_def if_True)
    then show ?thesis by simp
  next
    case False
    let ?ys = "heapSwap i ?j xs"
    have eq: "heapDown f i n xs = heapDown f ?j n ?ys"
      using False by (subst heapDown.simps) (simp only: Let_def if_False)
    have j: "?j < n" "i < length xs" "?j < length xs" "i < n"
      using False 1(2,3) lesserChild_props(1,2) [where f = f and i = i and n = n and xs = xs] by simp_all
    have "mset (heapDown f ?j n ?ys) = mset ?ys \<and> length (heapDown f ?j n ?ys) = length ?ys \<and>
        (\<forall>k\<ge>n. heapDown f ?j n ?ys ! k = ?ys ! k)"
      using False j 1(2) by (intro 1(1)) simp_all
    then show ?thesis
      unfolding eq using mset_heapSwap [OF j(2,3)] nth_heapSwap [OF j(2,3)] j by simp
  qed
qed

lemma heapDown_root_mset:
  assumes "n \<le> length xs"
  shows "mset (heapDown f 0 n xs) = mset xs" "length (heapDown f 0 n xs) = length xs" "heapDown f 0 n xs ! n = xs ! n"
  using heapDown_mset [OF assms, of 0 f] by (cases n; simp)+

text \<open>Sifting down: the order holds but for the edges below \<open>i\<close>, whose children are not below the parent of \<open>i\<close>.\<close>

lemma heapDown_heap:
  assumes "n \<le> length xs" and "i < n"
    and "\<And>k. 0 < k \<Longrightarrow> k < n \<Longrightarrow> parent k \<noteq> i \<Longrightarrow> f (xs ! parent k) \<le> f (xs ! k)"
    and "\<And>c. 0 < c \<Longrightarrow> c < n \<Longrightarrow> parent c = i \<Longrightarrow> 0 < i \<Longrightarrow> f (xs ! parent i) \<le> f (xs ! c)"
  shows "isHeap f n (heapDown f i n xs)"
  using assms
proof (induction f i n xs rule: heapDown.induct)
  case (1 f i n xs)
  define j where "j = lesserChild f i n xs"
  have least: "f (xs ! j) \<le> f (xs ! c)" if "0 < c" "c < n" "parent c = i" for c
    using that unfolding parent_eq [OF that(1)] j_def lesserChild_def Let_def by auto
  show ?case
  proof (cases "2 * i + 1 \<ge> n \<or> \<not> f (xs ! j) < f (xs ! i)")
    case True
    then have eq: "heapDown f i n xs = xs" by (subst heapDown.simps) (simp only: Let_def j_def if_True)
    have "f (xs ! parent k) \<le> f (xs ! k)" if k: "0 < k" "k < n" for k
    proof (cases "parent k = i")
      case pk: True
      then have "2 * i + 1 < n" using k parent_eq [OF k(1), of i] by auto
      then show ?thesis using True least [OF k pk] pk by auto
    qed (rule 1(4) [OF k])
    then show ?thesis unfolding eq isHeap_def by blast
  next
    case False
    let ?ys = "heapSwap i j xs"
    have eq: "heapDown f i n xs = heapDown f j n ?ys"
      using False by (subst heapDown.simps) (simp only: Let_def j_def if_False)
    have j: "j < n" "i < j" "parent j = i" "0 < j" using False lesserChild_props [where f = f and i = i and n = n and xs = xs] by (auto simp: j_def)
    have len: "i < length xs" "j < length xs" using j 1(2,3) by simp_all
    note n = nth_heapSwap [OF len]
    have A: "f (?ys ! parent k) \<le> f (?ys ! k)" if k: "0 < k" "k < n" "parent k \<noteq> j" for k
    proof (cases "parent k = i")
      case True
      then show ?thesis using least [OF k(1,2) True] False j parent_less [OF k(1)] by (auto simp: n)
    next
      case pk: False
      then have kj: "k \<noteq> j" using j by auto
      show ?thesis
      proof (cases "k = i")
        case True
        then show ?thesis using 1(5) [of j] j k pk by (simp add: n)
      qed (use 1(4) [OF k(1,2) pk] pk kj k(3) in \<open>simp add: n\<close>)
    qed
    have B: "f (?ys ! parent j) \<le> f (?ys ! c)" if c: "0 < c" "c < n" "parent c = j" for c
    proof -
      have "c \<noteq> i" "c \<noteq> j" using c j parent_less [OF c(1)] by auto
      then show ?thesis using 1(4) [OF c(1,2)] c(3) j by (simp add: n)
    qed
    have "isHeap f n (heapDown f j n ?ys)"
      using 1(1) [OF j_def False] A B j 1(2) by simp
    then show ?thesis unfolding eq .
  qed
qed

section \<open>Push and pop against multisets\<close>

lemma heap_root_least:
  "isHeap f n xs \<Longrightarrow> i < n \<Longrightarrow> f (xs ! 0) \<le> f (xs ! i)"
proof (induction i rule: less_induct)
  case (less i)
  show ?case
  proof (cases "i = 0")
    case False
    then have "f (xs ! 0) \<le> f (xs ! parent i)" using less by simp
    also have "\<dots> \<le> f (xs ! i)" using less(2,3) False by (simp add: isHeap_def)
    finally show ?thesis .
  qed simp
qed

lemma heapPush_heap:
  "isHeap f (length xs) xs \<Longrightarrow> isHeap f (length (heapPush f x xs)) (heapPush f x xs)"
  using heapUp_heap [of "length xs" "xs @ [x]" f] heapUp_mset [of "length xs" "xs @ [x]" f]
  by (auto simp: heapPush_def isHeap_def nth_append parent_eq)

lemma heapPush_mset: "mset (heapPush f x xs) = add_mset x (mset xs)"
  using heapUp_mset [of "length xs" "xs @ [x]" f] by (simp add: heapPush_def)

lemma heapPop_sound:
  assumes h: "isHeap f (length xs) xs" and ne: "xs \<noteq> []" and pop: "heapPop f xs = (x, ys)"
  shows "x = xs ! 0" "mset xs = add_mset x (mset ys)" "isHeap f (length ys) ys" "length ys = length xs - 1"
proof -
  define n where "n = length xs - 1"
  define zs where "zs = heapDown f 0 n (heapSwap 0 n xs)"
  have n: "n < length xs" "0 < length xs" using ne by (simp_all add: n_def)
  note sw = nth_heapSwap [OF n(2,1)]
  have x: "x = zs ! n" and ys: "ys = take n zs" using pop by (simp_all add: heapPop_def Let_def zs_def n_def)
  have zs: "mset zs = mset xs" "length zs = length xs" "zs ! n = xs ! 0"
    using heapDown_root_mset [of n "heapSwap 0 n xs" f] mset_heapSwap [OF n(2,1)] n by (simp_all add: zs_def sw)
  show "x = xs ! 0" using x zs by simp
  have "zs = ys @ [x]" using take_Suc_conv_app_nth [of n zs] zs n x ys by (simp add: n_def)
  then show "mset xs = add_mset x (mset ys)" using zs(1) [symmetric] by simp
  show len: "length ys = length xs - 1" using ys zs by (simp add: n_def)
  have "isHeap f n zs"
  proof (cases "n = 0")
    case False
    have "f (heapSwap 0 n xs ! parent k) \<le> f (heapSwap 0 n xs ! k)" if k: "0 < k" "k < n" "parent k \<noteq> 0" for k
    proof -
      have "parent k \<noteq> n" using parent_bound [OF k(1,2)] by (rule less_imp_neq)
      then show ?thesis using h k n by (simp add: sw isHeap_def)
    qed
    then show ?thesis unfolding zs_def using n False by (intro heapDown_heap) simp_all
  qed (simp add: isHeap_def)
  then show "isHeap f (length ys) ys" using len zs n by (simp add: ys isHeap_def n_def)
qed

lemma heapPop_length: "xs \<noteq> [] \<Longrightarrow> length (snd (heapPop f xs)) = length xs - 1"
  using heapDown_root_mset(2) [of "length xs - 1" "heapSwap 0 (length xs - 1) xs" f] by (simp add: heapPop_def Let_def)

section \<open>The priority queue the byte window relies on\<close>

locale timed_queue =
  fixes key :: "'a \<Rightarrow> int" and good :: "'q \<Rightarrow> bool" and items :: "'q \<Rightarrow> 'a multiset"
    and insq :: "'a \<Rightarrow> 'q \<Rightarrow> 'q" and top :: "'q \<Rightarrow> 'a" and rest :: "'q \<Rightarrow> 'q"
  assumes ins_items: "items (insq x q) = add_mset x (items q)"
    and ins_good: "good q \<Longrightarrow> good (insq x q)"
    and rest_good: "good q \<Longrightarrow> items q \<noteq> {#} \<Longrightarrow> good (rest q)"
    and pop_items: "good q \<Longrightarrow> items q \<noteq> {#} \<Longrightarrow> items q = add_mset (top q) (items (rest q))"
    and top_least: "good q \<Longrightarrow> x \<in># items q \<Longrightarrow> key (top q) \<le> key x"
begin

text \<open>A queue whose head is after the cutoff holds nothing at or before it; otherwise popping the
  head takes one item at or before the cutoff and none after it.\<close>

lemma keep_all:
  assumes "good q" and "cutoff < key (top q)"
  shows "{#x \<in># items q. cutoff < key x#} = items q"
  unfolding filter_mset_eq_conv using top_least [OF assms(1)] assms(2) by force

lemma pop_one:
  assumes "good q" and "items q \<noteq> {#}" and "\<not> cutoff < key (top q)"
  shows "{#x \<in># items q. cutoff < key x#} = {#x \<in># items (rest q). cutoff < key x#}"
  using assms(3) by (subst pop_items [OF assms(1,2)]) simp

end

interpretation ehq: timed_queue f "\<lambda>xs. isHeap f (length xs) xs" mset "heapPush f" "\<lambda>xs. xs ! 0" "\<lambda>xs. snd (heapPop f xs)"
proof
  fix x :: 'a and q :: "'a list"
  show "mset (heapPush f x q) = add_mset x (mset q)" by (rule heapPush_mset)
  assume h: "isHeap f (length q) q"
  show "isHeap f (length (heapPush f x q)) (heapPush f x q)" by (rule heapPush_heap [OF h])
  show "f (q ! 0) \<le> f x" if "x \<in># mset q"
    using that heap_root_least [OF h] by (auto simp: in_set_conv_nth)
  assume "mset q \<noteq> {#}"
  then have q: "q \<noteq> []" by simp
  note pop = heapPop_sound [OF h q surjective_pairing]
  show "isHeap f (length (snd (heapPop f q))) (snd (heapPop f q))" by (rule pop(3))
  show "mset q = add_mset (q ! 0) (mset (snd (heapPop f q)))" using pop(1,2) by simp
qed

end
