(* ===== verification/Bounded_Rescue.thy ===== *)
theory Bounded_Rescue
  imports Types Event_Heap
begin

text \<open>
  The budget of bounded head-of-line rescue, \<open>core/stream_bounded_rescue.go\<close>: which retransmission
  counts as a rescue of a healthy carrier, and the rolling byte budget, the lifetime burst tokens and
  the one-write-per-record-and-epoch rule such a rescue is held to. The state is the struct
  \<open>streamBoundedRescueBudget\<close> with its statistics; the observer's events are not part of it (the hook
  only reads), but whether a hook is installed is, because \<open>Reserve\<close> then keeps acknowledgement links.
\<close>

section \<open>Classes and evidence\<close>

datatype StreamRescueClass =
    StreamRescueOriginalData | StreamRescueHealthyHOL | StreamRescueFailureRecovery
  | StreamRescueOtherCoreRetry | StreamRescueProbeData | StreamRescueDuplicateOrRejected

fun rescueClassString :: "StreamRescueClass \<Rightarrow> string" where
  "rescueClassString StreamRescueOriginalData = ''original_data''"
| "rescueClassString StreamRescueHealthyHOL = ''healthy_hol_rescue''"
| "rescueClassString StreamRescueFailureRecovery = ''failure_recovery_retransmission''"
| "rescueClassString StreamRescueOtherCoreRetry = ''other_core_retry''"
| "rescueClassString StreamRescueProbeData = ''probe_data''"
| "rescueClassString StreamRescueDuplicateOrRejected = ''duplicate_or_rejected''"

datatype StreamRescueCause =
    StreamRescueCauseNone | StreamRescueCauseFrontier | StreamRescueCauseRetryPlanner | StreamRescueCauseProbe

text \<open>\<open>OwnerLeg\<close> and \<open>RecordOwnerLeg\<close> are \<open>int16\<close>: the words are read with \<^term>\<open>sint\<close>.\<close>

record StreamRescueEvidence =
  Sequence :: u64
  AckedNext :: u64
  OwnerLeg :: u16
  RecordOwnerLeg :: u16
  TargetLeg :: u8
  TargetGeneration :: u64
  OriginGeneration :: u64
  OwnerGeneration :: u64
  RecoveryEpoch :: u64
  RecoveryEpochCurrent :: bool
  Cause :: StreamRescueCause
  IsData :: bool
  IsRescue :: bool
  ProbeData :: bool
  Outstanding :: bool
  OriginalWriteInTransit :: bool
  OriginalWriteLeg :: u8
  FrontierOverdue :: bool
  OriginalWriteObserved :: bool
  OwnerLive :: bool
  TargetAvailable :: bool
  TargetGenerationMatches :: bool
  OwnerRestricted :: bool
  OwnerInvalidated :: bool
  GenerationMatchesOrigin :: bool

definition ClassifyStreamRescue :: "StreamRescueEvidence \<Rightarrow> StreamRescueClass" where
  "ClassifyStreamRescue e =
     (if \<not> IsData e then StreamRescueOtherCoreRetry
      else if \<not> IsRescue e then StreamRescueOriginalData
      else if \<not> Outstanding e then StreamRescueDuplicateOrRejected
      else if OwnerInvalidated e \<and> 0 \<le> sint (OwnerLeg e) \<and> OwnerLeg e = RecordOwnerLeg e \<and> OriginGeneration e \<noteq> 0
        then StreamRescueFailureRecovery
      else
        let probeCandidate = ProbeData e \<or> Cause e = StreamRescueCauseProbe in
        if probeCandidate \<and> 0 \<le> sint (OwnerLeg e) \<and> OwnerLeg e = RecordOwnerLeg e \<and> OwnerLive e \<and>
           GenerationMatchesOrigin e \<and> RecoveryEpochCurrent e \<and> OriginGeneration e \<noteq> 0
          then StreamRescueProbeData
        else if probeCandidate then StreamRescueOtherCoreRetry
        else if Cause e = StreamRescueCauseFrontier \<and> FrontierOverdue e \<and> 0 \<le> sint (OwnerLeg e) \<and>
           RecordOwnerLeg e = OwnerLeg e \<and> OwnerLive e \<and> GenerationMatchesOrigin e \<and> RecoveryEpochCurrent e \<and>
           OriginGeneration e \<noteq> 0 \<and> RecoveryEpoch e \<noteq> 0 \<and> OriginalWriteObserved e
          then StreamRescueHealthyHOL
        else StreamRescueOtherCoreRetry)"

section \<open>Configuration and state\<close>

type_synonym boundedRescueFactorMode = u8

definition boundedRescueFactorFull :: boundedRescueFactorMode where [simp]: "boundedRescueFactorFull = 0"
definition boundedRescueFactorCOnly :: boundedRescueFactorMode where [simp]: "boundedRescueFactorCOnly = 1"
definition boundedRescueFactorCR :: boundedRescueFactorMode where [simp]: "boundedRescueFactorCR = 2"

definition factorModeString :: "boundedRescueFactorMode \<Rightarrow> string" where
  "factorModeString m =
     (if m = boundedRescueFactorCOnly then ''B1-C''
      else if m = boundedRescueFactorCR then ''B1-CR''
      else ''B1-F'')"

record StreamBoundedRescueConfig =
  c_Enabled :: bool
  BudgetBasisPoints :: u16
  c_BurstBytes :: u64
  factorMode :: boundedRescueFactorMode

record StreamBoundedRescueStats =
  st_Enabled :: bool
  st_ConfigError :: string
  st_Closed :: bool
  st_BudgetBasisPoints :: u16
  st_Window :: duration
  WindowOriginalBytes :: u64
  WindowCarrierAcceptedBytes :: u64
  WindowBaseQuotaBytes :: u64
  WindowBudgetDebtBytes :: u64
  ReservedBytes :: u64
  ReservedBaseBytes :: u64
  ReservedBurstBytes :: u64
  st_BurstBytes :: u64
  BurstCommittedBytes :: u64
  PolicyVariant :: string
  CandidateAckLinkDropped :: u64
  CandidateCount :: u64
  EligibleCount :: u64
  AdmittedCount :: u64
  PerRecordRejected :: u64
  BudgetRejected :: u64
  StaleOrAckedRejected :: u64
  UnclassifiedRejected :: u64
  FailureRecoveryExempted :: u64
  ProbeDataExempted :: u64
  CarrierAttemptBytes :: u64
  CarrierAcceptedBytes :: u64
  PartialAcceptedBytes :: u64
  ReleasedBytes :: u64
  DuplicateOriginalRecords :: u64
  ClosedOriginalRecords :: u64
  OverAcceptedBytes :: u64
  CommittedAttemptCount :: u64
  LifetimeRescueAttempts :: u64
  LifetimeMaxPerRecord :: u64
  CrossEpochRecordCount :: u64
  OutstandingReservations :: nat
  AcceptedByTargetLeg :: "u64 list"
  AttemptedByTargetLeg :: "u64 list"
  RejectedReasons :: "(string, u64) gomap"

definition emptyRescueStats :: StreamBoundedRescueStats where
  "emptyRescueStats =
     \<lparr>st_Enabled = False, st_ConfigError = [], st_Closed = False, st_BudgetBasisPoints = 0, st_Window = 0,
      WindowOriginalBytes = 0, WindowCarrierAcceptedBytes = 0, WindowBaseQuotaBytes = 0,
      WindowBudgetDebtBytes = 0, ReservedBytes = 0, ReservedBaseBytes = 0, ReservedBurstBytes = 0,
      st_BurstBytes = 0, BurstCommittedBytes = 0, PolicyVariant = [], CandidateAckLinkDropped = 0,
      CandidateCount = 0, EligibleCount = 0, AdmittedCount = 0, PerRecordRejected = 0, BudgetRejected = 0,
      StaleOrAckedRejected = 0, UnclassifiedRejected = 0, FailureRecoveryExempted = 0, ProbeDataExempted = 0,
      CarrierAttemptBytes = 0, CarrierAcceptedBytes = 0, PartialAcceptedBytes = 0, ReleasedBytes = 0,
      DuplicateOriginalRecords = 0, ClosedOriginalRecords = 0, OverAcceptedBytes = 0,
      CommittedAttemptCount = 0, LifetimeRescueAttempts = 0, LifetimeMaxPerRecord = 0,
      CrossEpochRecordCount = 0, OutstandingReservations = 0, AcceptedByTargetLeg = [0, 0],
      AttemptedByTargetLeg = [0, 0], RejectedReasons = []\<rparr>"

definition streamBoundedRescueWindow :: duration where "streamBoundedRescueWindow = 60 * Second"
definition streamBoundedRescueCandidateAckLinks :: nat where "streamBoundedRescueCandidateAckLinks = 64"

record rescueByteEvent =
  ev_at :: gotime
  ev_bytes :: u64
  ev_target :: u8

record rescueEpochKey =
  k_originGeneration :: u64
  k_epoch :: u64

record boundedRescueRecordState =
  acked :: bool
  candidateIDs :: "u64 list"
  pendingByEpoch :: "(rescueEpochKey, u64) gomap"
  usedByEpoch :: "(rescueEpochKey, unit) gomap"
  lifetimeAttempt :: u64
  lastResult :: string

record boundedRescueReservation =
  r_id :: u64
  r_candidateID :: u64
  r_seq :: u64
  r_key :: rescueEpochKey
  r_target :: u8
  r_bytes :: u64
  baseBytes :: u64
  burstBytes :: u64
  started :: bool
  r_evidence :: StreamRescueEvidence
  attemptID :: u64
  previousResult :: string
  perRecordAttempt :: u64
  classificationEligible :: bool
  perRecordEligible :: bool
  rollingBudgetEligible :: bool
  targetLegAvailable :: bool
  ackedAtDecision :: bool

record streamBoundedRescueBudget =
  b_config :: StreamBoundedRescueConfig
  chunkBytes :: u64
  eventHook :: bool
  b_closed :: bool
  b_sessionID :: SessionID
  b_ackedNext :: u64
  lastOriginal :: u64
  hasOriginal :: bool
  nextReservation :: u64
  nextAttempt :: u64
  nextCandidate :: u64
  originalEvents :: "rescueByteEvent list"
  acceptedEvents :: "rescueByteEvent list"
  windowOriginal :: u64
  windowAccepted :: u64
  acceptedByLeg :: "u64 list"
  baseReserved :: u64
  burstReserved :: u64
  burstCommitted :: u64
  reservations :: "(u64, boundedRescueReservation) gomap"
  rescueRecords :: "(u64, boundedRescueRecordState) gomap"
  b_stats :: StreamBoundedRescueStats

text \<open>The errors of the constructor and of \<open>Settle\<close>.\<close>

datatype rescue_error =
    RescueNotEnabled | RescueUnsupportedRatio u16 | RescueUnsupportedMode u8 | RescueBurstTooLarge u64 u64
  | RescueIdentityErr io_error
  | RescueReservationNotFound | RescueSettledBeforeWrite | RescueAcceptedBeforeWrite | RescueOverAccepted

definition validBoundedRescueBasisPoints :: "u16 \<Rightarrow> bool" where
  "validBoundedRescueBasisPoints bp \<longleftrightarrow> bp = 25 \<or> bp = 50 \<or> bp = 100 \<or> bp = 300 \<or> bp = 500 \<or> bp = 909"

text \<open>\<open>rnd\<close> is what \<open>crypto/rand\<close> answers for the session identity.\<close>

definition newStreamBoundedRescueBudget ::
  "StreamBoundedRescueConfig \<Rightarrow> u64 \<Rightarrow> bool \<Rightarrow> io_error + SessionID \<Rightarrow> rescue_error + streamBoundedRescueBudget" where
  "newStreamBoundedRescueBudget cfg chunk hook rnd =
     (if \<not> c_Enabled cfg then Inl RescueNotEnabled
      else if \<not> validBoundedRescueBasisPoints (BudgetBasisPoints cfg) then Inl (RescueUnsupportedRatio (BudgetBasisPoints cfg))
      else if factorMode cfg > boundedRescueFactorCR then Inl (RescueUnsupportedMode (factorMode cfg))
      else if chunk = 0 \<or> c_BurstBytes cfg > chunk then Inl (RescueBurstTooLarge (c_BurstBytes cfg) chunk)
      else case rnd of
          Inl err \<Rightarrow> Inl (RescueIdentityErr err)
        | Inr sid \<Rightarrow>
            Inr \<lparr>b_config = cfg, chunkBytes = chunk, eventHook = hook, b_closed = False, b_sessionID = sid,
                 b_ackedNext = 0, lastOriginal = 0, hasOriginal = False, nextReservation = 0, nextAttempt = 0,
                 nextCandidate = 0, originalEvents = [], acceptedEvents = [], windowOriginal = 0,
                 windowAccepted = 0, acceptedByLeg = [0, 0], baseReserved = 0, burstReserved = 0,
                 burstCommitted = 0, reservations = [], rescueRecords = [],
                 b_stats = emptyRescueStats\<lparr>st_Enabled := True, st_BudgetBasisPoints := BudgetBasisPoints cfg,
                   st_Window := streamBoundedRescueWindow, st_BurstBytes := c_BurstBytes cfg,
                   PolicyVariant := factorModeString (factorMode cfg)\<rparr>\<rparr>)"

section \<open>Arithmetic\<close>

definition boundedRescueRatio :: "u64 \<Rightarrow> u16 \<Rightarrow> u64" where
  "boundedRescueRatio bs basisPoints =
     (bs div 10000) * ucast basisPoints + ((bs mod 10000) * ucast basisPoints) div 10000"

definition saturatingAdd :: "u64 \<Rightarrow> u64 \<Rightarrow> u64" where
  "saturatingAdd a b = (if NOT 0 - a < b then NOT 0 else a + b)"

text \<open>A subtraction that stops at zero, the form of every decrement of the accounting.\<close>

definition lowerBy :: "u64 \<Rightarrow> u64 \<Rightarrow> u64" where
  "lowerBy x n = (if x \<ge> n then x - n else 0)"

section \<open>Pruning the window\<close>

fun pruneOriginal :: "gotime \<Rightarrow> rescueByteEvent list \<Rightarrow> u64 \<Rightarrow> rescueByteEvent list \<times> u64" where
  "pruneOriginal cutoff [] win = ([], win)"
| "pruneOriginal cutoff (event # events) win =
     (if ev_at event > cutoff then (event # events, win)
      else pruneOriginal cutoff events (lowerBy win (ev_bytes event)))"

definition lowerLeg :: "rescueByteEvent \<Rightarrow> u64 list \<Rightarrow> u64 list" where
  "lowerLeg event legs =
     (if ev_target event < 2
      then legs[unat (ev_target event) := lowerBy (legs ! unat (ev_target event)) (ev_bytes event)]
      else legs)"

function pruneAccepted ::
  "gotime \<Rightarrow> rescueByteEvent list \<Rightarrow> u64 \<Rightarrow> u64 list \<Rightarrow> rescueByteEvent list \<times> u64 \<times> u64 list" where
  "pruneAccepted cutoff events win legs =
     (if length events > 0 then
        (let event = events ! 0 in
         if ev_at event > cutoff then (events, win, legs)
         else pruneAccepted cutoff (snd (heapPop ev_at events)) (lowerBy win (ev_bytes event)) (lowerLeg event legs))
      else (events, win, legs))"
  by pat_completeness auto
termination
  by (relation "measure (\<lambda>(c, events, w, l). length events)") (auto simp: heapPop_length)

declare pruneAccepted.simps [simp del]

definition pruneLocked :: "gotime \<Rightarrow> streamBoundedRescueBudget \<Rightarrow> streamBoundedRescueBudget" where
  "pruneLocked now b =
     (let cutoff = now - streamBoundedRescueWindow in
      case pruneOriginal cutoff (originalEvents b) (windowOriginal b) of (oevs, owin) \<Rightarrow>
      case pruneAccepted cutoff (acceptedEvents b) (windowAccepted b) (acceptedByLeg b) of (aevs, awin, legs) \<Rightarrow>
        b\<lparr>originalEvents := oevs, windowOriginal := owin, acceptedEvents := aevs, windowAccepted := awin,
          acceptedByLeg := legs\<rparr>)"

section \<open>Recording original data\<close>

abbreviation bumpStat ::
  "((u64 \<Rightarrow> u64) \<Rightarrow> StreamBoundedRescueStats \<Rightarrow> StreamBoundedRescueStats) \<Rightarrow> u64 \<Rightarrow>
   streamBoundedRescueBudget \<Rightarrow> streamBoundedRescueBudget" where
  "bumpStat field n b \<equiv> b_stats_update (field (\<lambda>c. c + n)) b"

definition rejectReasonLocked :: "string \<Rightarrow> streamBoundedRescueBudget \<Rightarrow> streamBoundedRescueBudget" where
  "rejectReasonLocked reason b =
     b_stats_update (RejectedReasons_update
       (\<lambda>m. mput reason (1 + (case mget m reason of None \<Rightarrow> 0 | Some n \<Rightarrow> n)) m)) b"

definition freshRecordState :: boundedRescueRecordState where
  "freshRecordState =
     \<lparr>acked = False, candidateIDs = [], pendingByEpoch = [], usedByEpoch = [], lifetimeAttempt = 0, lastResult = []\<rparr>"

definition recordOriginalLocked ::
  "u64 \<Rightarrow> u64 \<Rightarrow> gotime \<Rightarrow> streamBoundedRescueBudget \<Rightarrow> bool \<times> streamBoundedRescueBudget" where
  "recordOriginalLocked seq bs at b =
     (if bs = 0 then (False, b)
      else if b_closed b then (False, bumpStat ClosedOriginalRecords_update 1 b)
      else if hasOriginal b \<and> seq \<le> lastOriginal b then (False, bumpStat DuplicateOriginalRecords_update 1 b)
      else
        let b1 = b\<lparr>lastOriginal := seq, hasOriginal := True,
                   originalEvents := originalEvents b @ [\<lparr>ev_at = at, ev_bytes = bs, ev_target = 0\<rparr>],
                   windowOriginal := windowOriginal b + bs\<rparr>;
            b2 = (if seq \<ge> b_ackedNext b1 \<and> mget (rescueRecords b1) seq = None
                  then b1\<lparr>rescueRecords := mput seq freshRecordState (rescueRecords b1)\<rparr> else b1)
        in (True, pruneLocked at b2))"

text \<open>The exported operations accept a nil budget.\<close>

fun RecordOriginal ::
  "streamBoundedRescueBudget option \<Rightarrow> u64 \<Rightarrow> u64 \<Rightarrow> gotime \<Rightarrow> bool \<times> streamBoundedRescueBudget option" where
  "RecordOriginal None seq bs at = (False, None)"
| "RecordOriginal (Some b) seq bs at = (case recordOriginalLocked seq bs at b of (ok, b') \<Rightarrow> (ok, Some b'))"

section \<open>Eligibility\<close>

record streamRescueEligibilitySnapshot =
  el_classification :: bool
  el_perRecord :: bool
  el_rollingBudget :: bool
  el_target :: bool
  el_acked :: bool
  el_used :: bool
  el_pending :: bool
  el_recordPresent :: bool

definition emptyEligibility :: streamRescueEligibilitySnapshot where
  "emptyEligibility =
     \<lparr>el_classification = False, el_perRecord = False, el_rollingBudget = False, el_target = False, el_acked = False,
      el_used = False, el_pending = False, el_recordPresent = False\<rparr>"

text \<open>The loops that add up the events after a cutoff.\<close>

definition windowSum :: "gotime \<Rightarrow> rescueByteEvent list \<Rightarrow> u64" where
  "windowSum cutoff events =
     foldl (\<lambda>acc event. if ev_at event > cutoff then saturatingAdd acc (ev_bytes event) else acc) 0 events"

definition rollingBudgetEligibleLocked :: "streamBoundedRescueBudget \<Rightarrow> u64 \<Rightarrow> gotime \<Rightarrow> bool" where
  "rollingBudgetEligibleLocked b payloadBytes at =
     (if payloadBytes = 0 then False
      else
        let cutoff = at - streamBoundedRescueWindow;
            wOriginal = windowSum cutoff (originalEvents b);
            wAccepted = windowSum cutoff (acceptedEvents b);
            baseQuota = boundedRescueRatio wOriginal (BudgetBasisPoints (b_config b));
            baseUsed = saturatingAdd wAccepted (baseReserved b);
            baseAvailable = (if baseQuota > baseUsed then baseQuota - baseUsed else 0);
            baseDebt = (if baseUsed > baseQuota then baseUsed - baseQuota else 0);
            burstUsed = saturatingAdd (burstCommitted b) (burstReserved b);
            burstAvailable = (if c_BurstBytes (b_config b) > burstUsed then c_BurstBytes (b_config b) - burstUsed else 0);
            burstAvailable' = (if baseDebt \<ge> burstAvailable then 0 else burstAvailable - baseDebt)
        in payloadBytes \<le> saturatingAdd baseAvailable burstAvailable')"

abbreviation evidenceKey :: "StreamRescueEvidence \<Rightarrow> rescueEpochKey" where
  "evidenceKey e \<equiv> \<lparr>k_originGeneration = OriginGeneration e, k_epoch = RecoveryEpoch e\<rparr>"

definition eligibilityLocked ::
  "streamBoundedRescueBudget \<Rightarrow> StreamRescueEvidence \<Rightarrow> u64 \<Rightarrow> gotime \<Rightarrow> StreamRescueClass \<Rightarrow> streamRescueEligibilitySnapshot" where
  "eligibilityLocked b e payloadBytes at class =
     (let rec = mget (rescueRecords b) (Sequence e);
          ackedNow = (Sequence e < b_ackedNext b \<or> (case rec of None \<Rightarrow> False | Some s \<Rightarrow> acked s));
          key = evidenceKey e;
          used = (case rec of None \<Rightarrow> False | Some s \<Rightarrow> mget (usedByEpoch s) key \<noteq> None);
          pending = (case rec of None \<Rightarrow> False | Some s \<Rightarrow> mget (pendingByEpoch s) key \<noteq> None)
      in \<lparr>el_classification =
            (class = StreamRescueHealthyHOL \<or> class = StreamRescueFailureRecovery \<or> class = StreamRescueProbeData),
          el_perRecord = (\<not> ackedNow \<and> (case rec of None \<Rightarrow> False | Some s \<Rightarrow> \<not> acked s) \<and> \<not> used \<and> \<not> pending \<and> payloadBytes > 0),
          el_rollingBudget = rollingBudgetEligibleLocked b payloadBytes at,
          el_target = TargetAvailable e, el_acked = ackedNow, el_used = used, el_pending = pending,
          el_recordPresent = (rec \<noteq> None)\<rparr>)"

section \<open>Reserving\<close>

record boundedRescueAdmission =
  ad_CandidateID :: u64
  ad_ReservationID :: u64
  ad_Class :: StreamRescueClass
  ad_Admitted :: bool
  ad_Exempt :: bool
  ad_Reason :: string

text \<open>What \<open>Reserve\<close> does before it decides: number the candidate, and with an observer installed take the
  eligibility snapshot and link the candidate to its record.\<close>

definition linkCandidate :: "u64 \<Rightarrow> u64 \<Rightarrow> streamBoundedRescueBudget \<Rightarrow> streamBoundedRescueBudget" where
  "linkCandidate seq candidateID b =
     (case mget (rescueRecords b) seq of
        None \<Rightarrow> b
      | Some s \<Rightarrow>
          if length (candidateIDs s) < streamBoundedRescueCandidateAckLinks
          then b\<lparr>rescueRecords := mput seq (s\<lparr>candidateIDs := candidateIDs s @ [candidateID]\<rparr>) (rescueRecords b)\<rparr>
          else bumpStat CandidateAckLinkDropped_update 1 b)"

definition observeCandidate ::
  "StreamRescueEvidence \<Rightarrow> u64 \<Rightarrow> gotime \<Rightarrow> StreamRescueClass \<Rightarrow> streamBoundedRescueBudget \<Rightarrow>
   streamRescueEligibilitySnapshot \<times> streamBoundedRescueBudget" where
  "observeCandidate e payloadBytes at class b =
     (let b1 = bumpStat CandidateCount_update 1 (b\<lparr>nextCandidate := nextCandidate b + 1\<rparr>)
      in if eventHook b1
         then (eligibilityLocked b1 e payloadBytes at class, linkCandidate (Sequence e) (nextCandidate b1) b1)
         else (emptyEligibility, b1))"

text \<open>The rolling-budget decision on the pruned state: the base and burst parts of an admitted payload.\<close>

definition reserveParts :: "streamBoundedRescueBudget \<Rightarrow> u64 \<Rightarrow> (u64 \<times> u64) option" where
  "reserveParts b payloadBytes =
     (if factorMode (b_config b) = boundedRescueFactorFull then
        let baseQuota = boundedRescueRatio (windowOriginal b) (BudgetBasisPoints (b_config b));
            baseUsed = saturatingAdd (windowAccepted b) (baseReserved b);
            baseAvailable = (if baseQuota > baseUsed then baseQuota - baseUsed else 0);
            baseDebt = (if baseUsed > baseQuota then baseUsed - baseQuota else 0);
            burstUsed = saturatingAdd (burstCommitted b) (burstReserved b);
            burstAvailable = (if c_BurstBytes (b_config b) > burstUsed then c_BurstBytes (b_config b) - burstUsed else 0);
            burstAvailable' = (if baseDebt \<ge> burstAvailable then 0 else burstAvailable - baseDebt);
            available = saturatingAdd baseAvailable burstAvailable'
        in if payloadBytes > available then None
           else let basePart = (if payloadBytes > baseAvailable then baseAvailable else payloadBytes)
                in Some (basePart, payloadBytes - basePart)
      else Some (payloadBytes, 0))"

definition grantReservation ::
  "StreamRescueEvidence \<Rightarrow> u64 \<Rightarrow> u64 \<Rightarrow> streamRescueEligibilitySnapshot \<Rightarrow> boundedRescueRecordState \<Rightarrow> u64 \<times> u64 \<Rightarrow>
   streamBoundedRescueBudget \<Rightarrow> streamBoundedRescueBudget" where
  "grantReservation e payloadBytes candidateID el rec parts b =
     (let i = nextReservation b + 1;
          key = evidenceKey e;
          reservation = \<lparr>r_id = i, r_candidateID = candidateID, r_seq = Sequence e, r_key = key, r_target = TargetLeg e,
            r_bytes = payloadBytes, baseBytes = fst parts, burstBytes = snd parts, started = False, r_evidence = e,
            attemptID = 0, previousResult = lastResult rec, perRecordAttempt = lifetimeAttempt rec + 1,
            classificationEligible = el_classification el, perRecordEligible = el_perRecord el,
            rollingBudgetEligible = el_rollingBudget el, targetLegAvailable = el_target el, ackedAtDecision = el_acked el\<rparr>
      in b\<lparr>nextReservation := i, reservations := mput i reservation (reservations b),
           rescueRecords := mput (Sequence e) (rec\<lparr>pendingByEpoch := mput key i (pendingByEpoch rec)\<rparr>) (rescueRecords b),
           baseReserved := baseReserved b + fst parts, burstReserved := burstReserved b + snd parts,
           b_stats := (b_stats b)\<lparr>AdmittedCount := AdmittedCount (b_stats b) + 1,
             ReservedBytes := ReservedBytes (b_stats b) + payloadBytes,
             ReservedBaseBytes := ReservedBaseBytes (b_stats b) + fst parts,
             ReservedBurstBytes := ReservedBurstBytes (b_stats b) + snd parts\<rparr>\<rparr>)"

definition reserveLocked ::
  "StreamRescueEvidence \<Rightarrow> u64 \<Rightarrow> gotime \<Rightarrow> streamBoundedRescueBudget \<Rightarrow> boundedRescueAdmission \<times> streamBoundedRescueBudget" where
  "reserveLocked e payloadBytes at b0 =
     (let class = ClassifyStreamRescue e; (el, b) = observeCandidate e payloadBytes at class b0;
          decision = \<lparr>ad_CandidateID = nextCandidate b, ad_ReservationID = 0, ad_Class = class, ad_Admitted = False,
                      ad_Exempt = False, ad_Reason = []\<rparr>;
          reject = (\<lambda>reason s. (decision\<lparr>ad_Reason := reason\<rparr>, rejectReasonLocked reason s));
          exempt = (\<lambda>reason s. (decision\<lparr>ad_Exempt := True, ad_Admitted := True, ad_Reason := reason\<rparr>, s))
      in if b_closed b then reject ''session_closed'' b
         else if class = StreamRescueFailureRecovery
           then exempt ''positive_owner_invalidation'' (bumpStat FailureRecoveryExempted_update 1 b)
         else if class = StreamRescueProbeData then exempt ''recovery_probe_data'' (bumpStat ProbeDataExempted_update 1 b)
         else if class \<noteq> StreamRescueHealthyHOL
           then reject ''classification_not_healthy_hol'' (bumpStat UnclassifiedRejected_update 1 b)
         else
           let b = bumpStat EligibleCount_update 1 b in
           if Sequence e < b_ackedNext b then reject ''already_acked'' (bumpStat StaleOrAckedRejected_update 1 b)
           else case mget (rescueRecords b) (Sequence e) of
               None \<Rightarrow> reject ''missing_or_acked_original'' (bumpStat StaleOrAckedRejected_update 1 b)
             | Some rec \<Rightarrow>
                 if acked rec then reject ''missing_or_acked_original'' (bumpStat StaleOrAckedRejected_update 1 b)
                 else if factorMode (b_config b) \<noteq> boundedRescueFactorCOnly \<and> mget (usedByEpoch rec) (evidenceKey e) \<noteq> None
                   then reject ''per_record_epoch_limit'' (bumpStat PerRecordRejected_update 1 b)
                 else if mget (pendingByEpoch rec) (evidenceKey e) \<noteq> None
                   then reject ''per_record_epoch_reservation_pending''
                     (if factorMode (b_config b) \<noteq> boundedRescueFactorCOnly then bumpStat PerRecordRejected_update 1 b else b)
                 else if payloadBytes = 0 then reject ''empty_payload'' b
                 else
                   let b = pruneLocked at b in
                   (case reserveParts b payloadBytes of
                      None \<Rightarrow> reject ''rolling_budget_exhausted'' (bumpStat BudgetRejected_update 1 b)
                    | Some parts \<Rightarrow>
                        (decision\<lparr>ad_ReservationID := nextReservation b + 1, ad_Admitted := True,
                           ad_Reason := (if factorMode (b_config b) \<noteq> boundedRescueFactorFull
                             then ''experimental_variant_admitted_without_rolling_budget'' else ''budget_reserved'')\<rparr>,
                         grantReservation e payloadBytes (ad_CandidateID decision) el rec parts b)))"

fun Reserve ::
  "streamBoundedRescueBudget option \<Rightarrow> StreamRescueEvidence \<Rightarrow> u64 \<Rightarrow> gotime \<Rightarrow>
   boundedRescueAdmission \<times> streamBoundedRescueBudget option" where
  "Reserve None e payloadBytes at =
     (\<lparr>ad_CandidateID = 0, ad_ReservationID = 0, ad_Class = ClassifyStreamRescue e, ad_Admitted = False, ad_Exempt = False,
       ad_Reason = ''budget_disabled''\<rparr>, None)"
| "Reserve (Some b) e payloadBytes at = (case reserveLocked e payloadBytes at b of (d, b') \<Rightarrow> (d, Some b'))"

section \<open>Releasing\<close>

definition releaseAccountingLocked :: "boundedRescueReservation \<Rightarrow> streamBoundedRescueBudget \<Rightarrow> streamBoundedRescueBudget" where
  "releaseAccountingLocked r b =
     b\<lparr>baseReserved := lowerBy (baseReserved b) (baseBytes r), burstReserved := lowerBy (burstReserved b) (burstBytes r)\<rparr>"

definition maybeDeleteRecordLocked :: "u64 \<Rightarrow> boundedRescueRecordState \<Rightarrow> streamBoundedRescueBudget \<Rightarrow> streamBoundedRescueBudget" where
  "maybeDeleteRecordLocked seq state b =
     (if acked state \<and> length (pendingByEpoch state) = 0 then b\<lparr>rescueRecords := mdel seq (rescueRecords b)\<rparr> else b)"

text \<open>The steps by which a reservation leaves the table, shared by releasing, reclassifying and settling:
  give back the accounting, delete the reservation, and clear the record's pending entry if it names it.
  \<open>touch\<close> is what the caller writes to the record first.\<close>

definition clearPending :: "boundedRescueReservation \<Rightarrow> boundedRescueRecordState \<Rightarrow> boundedRescueRecordState" where
  "clearPending r state =
     (if mget (pendingByEpoch state) (r_key r) = Some (r_id r)
      then state\<lparr>pendingByEpoch := mdel (r_key r) (pendingByEpoch state)\<rparr> else state)"

definition dropReservation ::
  "(boundedRescueRecordState \<Rightarrow> boundedRescueRecordState) \<Rightarrow> boundedRescueReservation \<Rightarrow>
   streamBoundedRescueBudget \<Rightarrow> streamBoundedRescueBudget" where
  "dropReservation touch r b =
     (let b1 = releaseAccountingLocked r b; b2 = b1\<lparr>reservations := mdel (r_id r) (reservations b1)\<rparr>
      in case mget (rescueRecords b2) (r_seq r) of
           None \<Rightarrow> b2
         | Some state \<Rightarrow>
             let state' = clearPending r (touch state)
             in maybeDeleteRecordLocked (r_seq r) state' (b2\<lparr>rescueRecords := mput (r_seq r) state' (rescueRecords b2)\<rparr>))"

definition releaseLocked :: "boundedRescueReservation \<Rightarrow> string \<Rightarrow> streamBoundedRescueBudget \<Rightarrow> streamBoundedRescueBudget" where
  "releaseLocked r reason b =
     (if mget (reservations b) (r_id r) \<noteq> Some r then b
      else rejectReasonLocked (''released:'' @ reason)
             (bumpStat ReleasedBytes_update (r_bytes r) (dropReservation (\<lambda>s. s) r b)))"

definition releaseRescueLocked :: "u64 \<Rightarrow> string \<Rightarrow> streamBoundedRescueBudget \<Rightarrow> bool \<times> streamBoundedRescueBudget" where
  "releaseRescueLocked i reason b =
     (if i = 0 then (True, b)
      else case mget (reservations b) i of
          None \<Rightarrow> (False, b)
        | Some r \<Rightarrow> if started r then (False, b) else (True, releaseLocked r reason b))"

fun Release :: "streamBoundedRescueBudget option \<Rightarrow> u64 \<Rightarrow> string \<Rightarrow> bool \<times> streamBoundedRescueBudget option" where
  "Release None i reason = (True, None)"
| "Release (Some b) i reason = (case releaseRescueLocked i reason b of (ok, b') \<Rightarrow> (ok, Some b'))"

section \<open>The write boundary\<close>

definition startWrite ::
  "boundedRescueReservation \<Rightarrow> boundedRescueRecordState \<Rightarrow> streamBoundedRescueBudget \<Rightarrow> streamBoundedRescueBudget" where
  "startWrite r rec b =
     (let rec' = rec\<lparr>usedByEpoch := mput (r_key r) () (usedByEpoch rec), lifetimeAttempt := lifetimeAttempt rec + 1\<rparr>;
          r' = r\<lparr>started := True, attemptID := nextAttempt b + 1, perRecordAttempt := lifetimeAttempt rec'\<rparr>;
          s = b_stats b
      in b\<lparr>nextAttempt := nextAttempt b + 1, reservations := mput (r_id r) r' (reservations b),
           rescueRecords := mput (r_seq r) rec' (rescueRecords b),
           b_stats := s\<lparr>CommittedAttemptCount := CommittedAttemptCount s + 1,
             LifetimeRescueAttempts := LifetimeRescueAttempts s + 1,
             LifetimeMaxPerRecord := (if lifetimeAttempt rec' > LifetimeMaxPerRecord s then lifetimeAttempt rec' else LifetimeMaxPerRecord s),
             CrossEpochRecordCount := (if length (usedByEpoch rec') > 1 then CrossEpochRecordCount s + 1 else CrossEpochRecordCount s),
             CarrierAttemptBytes := CarrierAttemptBytes s + r_bytes r,
             AttemptedByTargetLeg := (if r_target r < 2
               then (AttemptedByTargetLeg s)[unat (r_target r) := AttemptedByTargetLeg s ! unat (r_target r) + r_bytes r]
               else AttemptedByTargetLeg s)\<rparr>\<rparr>)"

definition beginWriteDeferred :: "u64 \<Rightarrow> streamBoundedRescueBudget \<Rightarrow> bool \<times> streamBoundedRescueBudget" where
  "beginWriteDeferred i b =
     (if i = 0 then (False, b)
      else case mget (reservations b) i of
          None \<Rightarrow> (False, b)
        | Some r \<Rightarrow>
            if b_closed b \<and> \<not> started r then (False, releaseLocked r ''session_closed_before_carrier_write'' b)
            else if started r then (False, b)
            else if r_seq r < b_ackedNext b then (False, releaseLocked r ''acked_before_carrier_write'' b)
            else case mget (rescueRecords b) (r_seq r) of
                None \<Rightarrow> (False, releaseLocked r ''acked_before_carrier_write'' b)
              | Some rec \<Rightarrow>
                  if acked rec then (False, releaseLocked r ''acked_before_carrier_write'' b)
                  else if mget (usedByEpoch rec) (r_key r) \<noteq> None \<and> factorMode (b_config b) \<noteq> boundedRescueFactorCOnly
                    then (False, releaseLocked r ''per_record_epoch_already_committed'' b)
                  else (True, startWrite r rec b))"

fun BeginWrite :: "streamBoundedRescueBudget option \<Rightarrow> u64 \<Rightarrow> bool \<times> streamBoundedRescueBudget option" where
  "BeginWrite None i = (False, None)"
| "BeginWrite (Some b) i = (case beginWriteDeferred i b of (ok, b') \<Rightarrow> (ok, Some b'))"

fun reservationEvidence :: "streamBoundedRescueBudget option \<Rightarrow> u64 \<Rightarrow> StreamRescueEvidence option" where
  "reservationEvidence None i = None"
| "reservationEvidence (Some b) i =
     (if i = 0 then None
      else case mget (reservations b) i of
          None \<Rightarrow> None
        | Some r \<Rightarrow> if started r then None else Some (r_evidence r))"

definition revalidateLocked ::
  "u64 \<Rightarrow> StreamRescueEvidence \<Rightarrow> streamBoundedRescueBudget \<Rightarrow> (StreamRescueClass \<times> u64 \<times> bool) \<times> streamBoundedRescueBudget" where
  "revalidateLocked i current b =
     (if i = 0 then ((StreamRescueOtherCoreRetry, 0, False), b)
      else case mget (reservations b) i of
          None \<Rightarrow> ((StreamRescueDuplicateOrRejected, 0, False), b)
        | Some r \<Rightarrow>
            if started r then ((StreamRescueDuplicateOrRejected, 0, False), b)
            else if b_closed b
              then ((StreamRescueDuplicateOrRejected, 0, False), releaseLocked r ''invalid_before_carrier_write'' b)
            else
              let class = ClassifyStreamRescue current in
              if class = StreamRescueFailureRecovery \<or> class = StreamRescueProbeData
                then ((class, 0, True),
                  bumpStat ReleasedBytes_update (r_bytes r) (dropReservation (\<lambda>s. s) r
                    (if class = StreamRescueFailureRecovery then bumpStat FailureRecoveryExempted_update 1 b
                     else bumpStat ProbeDataExempted_update 1 b)))
              else if class = StreamRescueHealthyHOL \<and> Sequence current = Sequence (r_evidence r) \<and>
                  OwnerLeg current = OwnerLeg (r_evidence r) \<and> RecordOwnerLeg current = RecordOwnerLeg (r_evidence r) \<and>
                  TargetLeg current = r_target r \<and> OriginGeneration current = k_originGeneration (r_key r) \<and>
                  RecoveryEpoch current = k_epoch (r_key r)
                then ((class, i, True), b)
              else ((class, 0, False), releaseLocked r ''stale_or_reclassified_before_carrier_write'' b))"

fun RevalidateBeforeWrite ::
  "streamBoundedRescueBudget option \<Rightarrow> u64 \<Rightarrow> StreamRescueEvidence \<Rightarrow>
   (StreamRescueClass \<times> u64 \<times> bool) \<times> streamBoundedRescueBudget option" where
  "RevalidateBeforeWrite None i current = ((StreamRescueOtherCoreRetry, 0, False), None)"
| "RevalidateBeforeWrite (Some b) i current = (case revalidateLocked i current b of (res, b') \<Rightarrow> (res, Some b'))"

section \<open>Settling\<close>

definition chargeAccepted :: "boundedRescueReservation \<Rightarrow> u64 \<Rightarrow> gotime \<Rightarrow> streamBoundedRescueBudget \<Rightarrow> streamBoundedRescueBudget" where
  "chargeAccepted r acceptedBytes at b =
     (if acceptedBytes > 0 then
        let baseAccepted = (if acceptedBytes > baseBytes r then baseBytes r else acceptedBytes);
            burstAccepted = (if acceptedBytes > baseAccepted then acceptedBytes - baseAccepted else 0);
            s = b_stats b
        in b\<lparr>acceptedEvents := heapPush ev_at \<lparr>ev_at = at, ev_bytes = acceptedBytes, ev_target = r_target r\<rparr> (acceptedEvents b),
             windowAccepted := windowAccepted b + acceptedBytes,
             acceptedByLeg := (if r_target r < 2
               then (acceptedByLeg b)[unat (r_target r) := acceptedByLeg b ! unat (r_target r) + acceptedBytes]
               else acceptedByLeg b),
             burstCommitted := burstCommitted b + burstAccepted,
             b_stats := s\<lparr>CarrierAcceptedBytes := CarrierAcceptedBytes s + acceptedBytes,
               PartialAcceptedBytes := (if acceptedBytes < r_bytes r then PartialAcceptedBytes s + acceptedBytes else PartialAcceptedBytes s)\<rparr>\<rparr>
      else b)"

definition settleResult :: "boundedRescueReservation \<Rightarrow> u64 \<Rightarrow> bool \<Rightarrow> string" where
  "settleResult r acceptedBytes writeErr =
     (if writeErr then ''carrier_write_error''
      else if acceptedBytes < r_bytes r then ''partial_carrier_acceptance''
      else ''carrier_write_accepted'')"

definition settleLocked ::
  "u64 \<Rightarrow> u64 \<Rightarrow> bool \<Rightarrow> gotime \<Rightarrow> streamBoundedRescueBudget \<Rightarrow> rescue_error option \<times> streamBoundedRescueBudget" where
  "settleLocked i acceptedBytes0 writeErr at b =
     (if i = 0 then (None, b)
      else case mget (reservations b) i of
          None \<Rightarrow> (Some RescueReservationNotFound, b)
        | Some r \<Rightarrow>
            if \<not> started r then (Some RescueSettledBeforeWrite, b)
            else
              let overAccepted = acceptedBytes0 > r_bytes r;
                  b1 = (if overAccepted
                        then b_stats_update (OverAcceptedBytes_update (\<lambda>n. saturatingAdd n (acceptedBytes0 - r_bytes r))) b else b);
                  acceptedBytes = (if overAccepted then r_bytes r else acceptedBytes0)
              in if \<not> started r \<and> acceptedBytes \<noteq> 0 then (Some RescueAcceptedBeforeWrite, b1)
                 else
                   let b2 = chargeAccepted r acceptedBytes at b1;
                       b3 = dropReservation (\<lambda>s. s\<lparr>lastResult := settleResult r acceptedBytes writeErr\<rparr>) r b2;
                       b4 = pruneLocked at (bumpStat ReleasedBytes_update (r_bytes r - acceptedBytes) b3)
                   in (if overAccepted then Some RescueOverAccepted else None, b4))"

fun Settle ::
  "streamBoundedRescueBudget option \<Rightarrow> u64 \<Rightarrow> u64 \<Rightarrow> bool \<Rightarrow> gotime \<Rightarrow> rescue_error option \<times> streamBoundedRescueBudget option" where
  "Settle None i acceptedBytes writeErr at = (None, None)"
| "Settle (Some b) i acceptedBytes writeErr at = (case settleLocked i acceptedBytes writeErr at b of (err, b') \<Rightarrow> (err, Some b'))"

section \<open>Acknowledgement, close and snapshot\<close>

fun ackRecords :: "u64 \<Rightarrow> (u64, boundedRescueRecordState) gomap \<Rightarrow> (u64, boundedRescueRecordState) gomap" where
  "ackRecords n [] = []"
| "ackRecords n ((seq, rec) # rest) =
     (if seq < n then
        (let rec' = rec\<lparr>acked := True, candidateIDs := []\<rparr>
         in if length (pendingByEpoch rec') = 0 then ackRecords n rest else (seq, rec') # ackRecords n rest)
      else (seq, rec) # ackRecords n rest)"

definition ackThroughLocked :: "u64 \<Rightarrow> streamBoundedRescueBudget \<Rightarrow> streamBoundedRescueBudget" where
  "ackThroughLocked nxt b =
     (let n = (if nxt > b_ackedNext b then nxt else b_ackedNext b)
      in b\<lparr>b_ackedNext := n, rescueRecords := ackRecords n (rescueRecords b)\<rparr>)"

definition AckThrough :: "streamBoundedRescueBudget option \<Rightarrow> u64 \<Rightarrow> streamBoundedRescueBudget option" where
  "AckThrough b nxt = map_option (ackThroughLocked nxt) b"

definition closeRescueLocked :: "streamBoundedRescueBudget \<Rightarrow> streamBoundedRescueBudget" where
  "closeRescueLocked b = b\<lparr>b_closed := True, b_stats := (b_stats b)\<lparr>st_Closed := True\<rparr>\<rparr>"

definition CloseRescue :: "streamBoundedRescueBudget option \<Rightarrow> streamBoundedRescueBudget option" where
  "CloseRescue b = map_option closeRescueLocked b"

definition snapshotLocked :: "gotime \<Rightarrow> streamBoundedRescueBudget \<Rightarrow> StreamBoundedRescueStats \<times> streamBoundedRescueBudget" where
  "snapshotLocked at b0 =
     (let b = pruneLocked at b0;
          quota = boundedRescueRatio (windowOriginal b) (BudgetBasisPoints (b_config b));
          baseUsed = saturatingAdd (windowAccepted b) (baseReserved b);
          out = (b_stats b)\<lparr>st_Enabled := True, st_Closed := b_closed b, st_Window := streamBoundedRescueWindow,
            st_BudgetBasisPoints := BudgetBasisPoints (b_config b), PolicyVariant := factorModeString (factorMode (b_config b)),
            WindowOriginalBytes := windowOriginal b, WindowCarrierAcceptedBytes := windowAccepted b,
            WindowBaseQuotaBytes := quota,
            WindowBudgetDebtBytes := (if baseUsed > quota then baseUsed - quota else WindowBudgetDebtBytes (b_stats b)),
            ReservedBaseBytes := baseReserved b, ReservedBurstBytes := burstReserved b,
            ReservedBytes := saturatingAdd (baseReserved b) (burstReserved b),
            st_BurstBytes := c_BurstBytes (b_config b), BurstCommittedBytes := burstCommitted b,
            OutstandingReservations := length (reservations b), AcceptedByTargetLeg := acceptedByLeg b\<rparr>
      in (out, b))"

fun SnapshotRescue :: "streamBoundedRescueBudget option \<Rightarrow> gotime \<Rightarrow> StreamBoundedRescueStats \<times> streamBoundedRescueBudget option" where
  "SnapshotRescue None at = (emptyRescueStats, None)"
| "SnapshotRescue (Some b) at = (case snapshotLocked at b of (out, b') \<Rightarrow> (out, Some b'))"

end
