(* ===== verification/Rescue_Budget.thy ===== *)
theory Rescue_Budget
  imports Bounded_Rescue
begin

text \<open>
  The guarantees of the rescue budget of \<open>Bounded_Rescue\<close>: exactness of its arithmetic, the invariant of
  its accounting, and what it promises over a whole session - the rolling budget, the lifetime burst
  tokens and one carrier write per record and epoch.
\<close>

section \<open>Arithmetic\<close>

lemma unat_max_u64: "unat (NOT 0 :: u64) = 2 ^ 64 - 1"
  by (simp add: unsigned_minus_1_eq_mask mask_eq_exp_minus_1)

lemma u64_less: "unat (x :: u64) < 2 ^ 64"
  using unsigned_less [of x, where 'a = nat] by simp

lemma unat_saturatingAdd: "unat (saturatingAdd a b) = min (unat a + unat b) (2 ^ 64 - 1)"
proof -
  note a = u64_less [of a] u64_less [of b]
  have "a \<le> NOT 0" by simp
  then have sub: "unat (NOT 0 - a) = 2 ^ 64 - 1 - unat a" using unat_max_u64 by (simp only: unat_sub)
  show ?thesis
  proof (cases "NOT 0 - a < b")
    case True
    then have "2 ^ 64 - 1 < unat a + unat b" using sub by (simp add: word_less_nat_alt)
    then show ?thesis using True unat_max_u64 by (simp add: saturatingAdd_def)
  next
    case False
    then have le: "unat a + unat b < 2 ^ 64" using sub a by (simp add: word_less_nat_alt)
    then show ?thesis using False by (simp add: saturatingAdd_def unat_word_ariths)
  qed
qed

lemma unat_lowerBy: "unat (lowerBy x n) = unat x - unat n"
  by (auto simp: lowerBy_def unat_sub word_le_nat_alt)

lemma unat_add_fits: "unat x + unat y < 2 ^ 64 \<Longrightarrow> unat (x + y :: u64) = unat x + unat y"
  by (simp add: unat_word_ariths)

lemma word_lt_succ: "x + 1 \<noteq> 0 \<Longrightarrow> x < x + (1 :: u64)"
proof -
  assume "x + 1 \<noteq> 0"
  then have "(unat x + 1) mod 2 ^ 64 \<noteq> 0" by (simp add: unat_word_ariths flip: unat_eq_0)
  then have "unat x + unat (1 :: u64) < 2 ^ 64" using u64_less [of x] by (cases "unat x + 1 = 2 ^ 64") simp_all
  then show ?thesis by (simp only: word_less_nat_alt unat_add_fits) simp
qed

lemma unat_mult_fits: "unat x * unat y < 2 ^ 64 \<Longrightarrow> unat (x * y :: u64) = unat x * unat y"
  by (simp add: unat_word_ariths)

lemma ratio_split: "(n::nat) * b div 10000 = (n div 10000) * b + (n mod 10000) * b div 10000"
proof -
  have "n * b = (n div 10000 * 10000 + n mod 10000) * b" by (simp only: div_mult_mod_eq)
  also have "\<dots> = (n div 10000 * b) * 10000 + n mod 10000 * b" by (simp only: distrib_right mult.assoc mult.commute [of 10000])
  finally show ?thesis by simp
qed

lemma ratio_le: "b \<le> 10000 \<Longrightarrow> n * b div 10000 \<le> (n::nat)"
  using div_le_mono [OF mult_le_mono2 [of b 10000 n], of 10000] by simp

lemma unat_boundedRescueRatio:
  assumes bp: "unat bp \<le> 10000"
  shows "unat (boundedRescueRatio n bp) = unat n * unat bp div 10000"
proof -
  define N B where "N = unat n" and "B = unat bp"
  have w: "unat (ucast bp :: u64) = B"
    using unsigned_less [of bp, where 'a = nat] by (simp add: unsigned_ucast_eq take_bit_nat_eq_self B_def)
  have lt: "N < 2 ^ 64" using u64_less [of n] by (simp only: N_def)
  note split = ratio_split [of N B]
  have le: "N * B div 10000 \<le> N" by (rule ratio_le) (use bp in \<open>simp only: B_def\<close>)
  have a: "unat (n div 10000) = N div 10000" "unat (n mod 10000) = N mod 10000"
    by (simp_all add: unat_div unat_mod N_def)
  have "N div 10000 * B < 2 ^ 64" using split le lt by linarith
  then have b: "unat (n div 10000 * ucast bp) = N div 10000 * B"
    using unat_mult_fits [of "n div 10000" "ucast bp"] by (simp only: w a)
  have "N mod 10000 * B \<le> 9999 * 10000" using bp by (intro mult_le_mono) (simp_all add: B_def)
  then have c: "unat (n mod 10000 * ucast bp) = N mod 10000 * B"
    using unat_mult_fits [of "n mod 10000" "ucast bp"] unfolding w a by simp
  then have "unat ((n mod 10000 * ucast bp) div 10000) = N mod 10000 * B div 10000"
    by (simp add: unat_div)
  then show ?thesis
    unfolding boundedRescueRatio_def using b split le lt by (subst unat_add_fits) (simp_all add: N_def B_def)
qed

section \<open>The byte windows\<close>

text \<open>The bytes of the events that satisfy \<open>P\<close>.\<close>

definition bytesOf :: "(rescueByteEvent \<Rightarrow> bool) \<Rightarrow> rescueByteEvent multiset \<Rightarrow> nat" where
  "bytesOf P M = (\<Sum>e\<in>#filter_mset P M. unat (ev_bytes e))"

lemma bytesOf_simps [simp]:
  "bytesOf P {#} = 0"
  "bytesOf P (add_mset e M) = (if P e then unat (ev_bytes e) else 0) + bytesOf P M"
  "bytesOf P (M + N) = bytesOf P M + bytesOf P N"
  by (simp_all add: bytesOf_def)

lemma bytesOf_filter: "bytesOf P (filter_mset Q M) = bytesOf (\<lambda>e. Q e \<and> P e) M"
  by (simp add: bytesOf_def filter_filter_mset)

abbreviation "allBytes \<equiv> bytesOf (\<lambda>_. True)"
abbreviation "legBytes i \<equiv> bytesOf (\<lambda>e. ev_target e = i)"

lemma bytesOf_le: "bytesOf P M \<le> allBytes M"
  by (induction M) auto

lemma windowSum_exact:
  "unat (windowSum c evs) = min (bytesOf (\<lambda>e. c < ev_at e) (mset evs)) (2 ^ 64 - 1)"
proof -
  have "unat (foldl (\<lambda>acc event. if ev_at event > c then saturatingAdd acc (ev_bytes event) else acc) a evs)
      = min (unat a + bytesOf (\<lambda>e. c < ev_at e) (mset evs)) (2 ^ 64 - 1)" for a
  proof (induction evs arbitrary: a)
    case Nil
    then show ?case using u64_less [of a] by simp
  next
    case (Cons e evs)
    show ?case by (auto simp: Cons unat_saturatingAdd min_def)
  qed
  from this [of 0] show ?thesis by (simp add: windowSum_def)
qed

definition original_ok :: "rescueByteEvent list \<Rightarrow> u64 \<Rightarrow> bool" where
  "original_ok evs win \<longleftrightarrow> sorted (map ev_at evs) \<and> unat win = allBytes (mset evs)"

definition accepted_ok :: "rescueByteEvent list \<Rightarrow> u64 \<Rightarrow> u64 list \<Rightarrow> bool" where
  "accepted_ok evs win legs \<longleftrightarrow>
     isHeap ev_at (length evs) evs \<and> unat win = allBytes (mset evs) \<and>
     length legs = 2 \<and> unat (legs ! 0) = legBytes 0 (mset evs) \<and> unat (legs ! 1) = legBytes 1 (mset evs)"

lemma pruneOriginal_sound:
  "original_ok evs win \<Longrightarrow> pruneOriginal c evs win = (evs', win') \<Longrightarrow>
     original_ok evs' win' \<and> evs' = filter (\<lambda>e. c < ev_at e) evs"
proof (induction c evs win arbitrary: evs' win' rule: pruneOriginal.induct)
  case (1 c win)
  then show ?case by simp
next
  case (2 c event events win)
  show ?case
  proof (cases "c < ev_at event")
    case True
    then have "\<forall>e\<in>set (event # events). c < ev_at e" using 2(2) by (auto simp: original_ok_def)
    then show ?thesis using 2(2,3) True by (auto simp: filter_id_conv)
  next
    case False
    moreover have "original_ok events (lowerBy win (ev_bytes event))"
      using 2(2) by (simp add: original_ok_def unat_lowerBy)
    ultimately show ?thesis using 2(1) 2(3) by auto
  qed
qed

lemma target_cases: "(t::u8) < 2 \<longleftrightarrow> t = 0 \<or> t = 1"
proof -
  have "t < 2 \<longleftrightarrow> unat t = 0 \<or> unat t = 1" by (auto simp: word_less_nat_alt)
  moreover have "unat t = 1 \<longleftrightarrow> t = 1" using word_unat_eq_iff [of t 1] by simp
  ultimately show ?thesis by (simp add: unat_eq_0)
qed

lemma accepted_ok_pop:
  assumes ok: "accepted_ok evs win legs" and ne: "evs \<noteq> []"
  shows "accepted_ok (snd (heapPop ev_at evs)) (lowerBy win (ev_bytes (evs ! 0))) (lowerLeg (evs ! 0) legs)"
proof -
  let ?r = "snd (heapPop ev_at evs)"
  have h: "isHeap ev_at (length evs) evs" and m: "mset evs \<noteq> {#}" using ok ne by (simp_all add: accepted_ok_def)
  have e: "mset evs = add_mset (evs ! 0) (mset ?r)" by (rule ehq.pop_items [OF h m])
  have g: "isHeap ev_at (length ?r) ?r" by (rule ehq.rest_good [OF h m])
  show ?thesis
    using ok g unfolding accepted_ok_def lowerLeg_def target_cases unat_lowerBy
    by (auto simp: e unat_lowerBy)
qed

lemma pruneAccepted_sound:
  "accepted_ok evs win legs \<Longrightarrow> pruneAccepted c evs win legs = (evs', win', legs') \<Longrightarrow>
     accepted_ok evs' win' legs' \<and> mset evs' = {#e \<in># mset evs. c < ev_at e#}"
proof (induction c evs win legs rule: pruneAccepted.induct)
  case (1 c evs win legs)
  have h: "isHeap ev_at (length evs) evs" using 1(2) by (simp add: accepted_ok_def)
  show ?case
  proof (cases "evs = [] \<or> c < ev_at (evs ! 0)")
    case True
    then have "pruneAccepted c evs win legs = (evs, win, legs)" by (subst pruneAccepted.simps) (auto simp: Let_def)
    then have "(evs', win', legs') = (evs, win, legs)" using 1(3) by simp
    then show ?thesis using 1(2) True ehq.keep_all [OF h, of c] by auto
  next
    case False
    then have ne: "evs \<noteq> []" "length evs > 0" "\<not> c < ev_at (evs ! 0)" by auto
    have "accepted_ok evs' win' legs' \<and> mset evs' = {#e \<in># mset (snd (heapPop ev_at evs)). c < ev_at e#}"
      using 1(1) [OF ne(2) refl ne(3) accepted_ok_pop [OF 1(2) ne(1)]] 1(3) ne by (simp add: pruneAccepted.simps [of c evs win legs] Let_def)
    then show ?thesis using ehq.pop_one [OF h _ ne(3)] ne by simp
  qed
qed

section \<open>The invariant\<close>

text \<open>Reservations: the counters are the sums over the table, an entry carries its own id and splits its bytes, and
  the burst tokens in use are within the configured ones. The last conjunct keeps the window counter from wrapping.\<close>

definition acct_inv :: "streamBoundedRescueBudget \<Rightarrow> bool" where
  "acct_inv b \<longleftrightarrow>
     mwf (reservations b) \<and>
     unat (baseReserved b) = msum (\<lambda>_ r. unat (baseBytes r)) (reservations b) \<and>
     unat (burstReserved b) = msum (\<lambda>_ r. unat (burstBytes r)) (reservations b) \<and>
     unat (burstCommitted b) + unat (burstReserved b) \<le> unat (c_BurstBytes (b_config b)) \<and>
     unat (windowAccepted b) + unat (baseReserved b) + unat (c_BurstBytes (b_config b)) < 2 ^ 64 + unat (burstCommitted b)"

definition entries_inv :: "streamBoundedRescueBudget \<Rightarrow> bool" where
  "entries_inv b \<longleftrightarrow>
     (\<forall>i r. mget (reservations b) i = Some r \<longrightarrow>
        r_id r = i \<and> i \<noteq> 0 \<and> i \<le> nextReservation b \<and> unat (baseBytes r) + unat (burstBytes r) = unat (r_bytes r))"

definition config_inv :: "streamBoundedRescueBudget \<Rightarrow> bool" where
  "config_inv b \<longleftrightarrow> unat (BudgetBasisPoints (b_config b)) \<le> 909 \<and> unat (c_BurstBytes (b_config b)) < 2 ^ 63"

definition window_inv :: "streamBoundedRescueBudget \<Rightarrow> bool" where
  "window_inv b \<longleftrightarrow>
     original_ok (originalEvents b) (windowOriginal b) \<and>
     accepted_ok (acceptedEvents b) (windowAccepted b) (acceptedByLeg b)"

text \<open>Records: acknowledged exactly below the frontier and then kept only for a pending reservation; pending entries
  and reservations name each other.\<close>

definition rec_ok :: "u64 \<Rightarrow> (u64, boundedRescueReservation) gomap \<Rightarrow> u64 \<Rightarrow> boundedRescueRecordState \<Rightarrow> bool" where
  "rec_ok n res seq s \<longleftrightarrow>
     (acked s \<longleftrightarrow> seq < n) \<and> (acked s \<longrightarrow> pendingByEpoch s \<noteq> []) \<and> mwf (pendingByEpoch s) \<and>
     (\<forall>key i. mget (pendingByEpoch s) key = Some i \<longrightarrow> (\<exists>r. mget res i = Some r \<and> r_seq r = seq \<and> r_key r = key))"

definition res_ok :: "(u64, boundedRescueRecordState) gomap \<Rightarrow> u64 \<Rightarrow> boundedRescueReservation \<Rightarrow> bool" where
  "res_ok recs i r \<longleftrightarrow>
     (\<exists>s. mget recs (r_seq r) = Some s \<and> mget (pendingByEpoch s) (r_key r) = Some i \<and>
          (started r \<longrightarrow> mget (usedByEpoch s) (r_key r) \<noteq> None))"

definition records_inv ::
  "u64 \<Rightarrow> (u64, boundedRescueReservation) gomap \<Rightarrow> (u64, boundedRescueRecordState) gomap \<Rightarrow> bool" where
  "records_inv n res recs \<longleftrightarrow>
     mwf recs \<and> (\<forall>seq s. mget recs seq = Some s \<longrightarrow> rec_ok n res seq s) \<and> (\<forall>i r. mget res i = Some r \<longrightarrow> res_ok recs i r)"

definition balance_inv :: "streamBoundedRescueBudget \<Rightarrow> bool" where
  "balance_inv b \<longleftrightarrow>
     ReservedBytes (b_stats b) =
       ReleasedBytes (b_stats b) + CarrierAcceptedBytes (b_stats b) + msum (\<lambda>_ r. r_bytes r) (reservations b)"

definition rescue_inv :: "streamBoundedRescueBudget \<Rightarrow> bool" where
  "rescue_inv b \<longleftrightarrow>
     config_inv b \<and> window_inv b \<and> acct_inv b \<and> entries_inv b \<and> balance_inv b \<and>
     records_inv (b_ackedNext b) (reservations b) (rescueRecords b)"

lemmas rescue_inv_defs = rescue_inv_def config_inv_def window_inv_def acct_inv_def entries_inv_def balance_inv_def

text \<open>Changes that no part of the invariant reads.\<close>

definition quiet :: "streamBoundedRescueBudget \<Rightarrow> streamBoundedRescueBudget \<Rightarrow> bool" where
  "quiet b b' \<longleftrightarrow>
     b_config b' = b_config b \<and> b_ackedNext b' = b_ackedNext b \<and> nextReservation b' = nextReservation b \<and>
     originalEvents b' = originalEvents b \<and> acceptedEvents b' = acceptedEvents b \<and>
     windowOriginal b' = windowOriginal b \<and> windowAccepted b' = windowAccepted b \<and> acceptedByLeg b' = acceptedByLeg b \<and>
     baseReserved b' = baseReserved b \<and> burstReserved b' = burstReserved b \<and> burstCommitted b' = burstCommitted b \<and>
     reservations b' = reservations b \<and> rescueRecords b' = rescueRecords b \<and>
     ReservedBytes (b_stats b') = ReservedBytes (b_stats b) \<and> ReleasedBytes (b_stats b') = ReleasedBytes (b_stats b) \<and>
     CarrierAcceptedBytes (b_stats b') = CarrierAcceptedBytes (b_stats b)"

lemma quiet_inv: "quiet b b' \<Longrightarrow> rescue_inv b \<Longrightarrow> rescue_inv b'"
  by (simp add: quiet_def rescue_inv_defs)

lemma quiet_refl [simp]: "quiet b b"
  by (simp add: quiet_def)

lemma quiet_trans: "quiet a b \<Longrightarrow> quiet b c \<Longrightarrow> quiet a c"
  by (simp add: quiet_def)

lemma quiet_reject [simp]: "quiet b (rejectReasonLocked reason b)"
  by (simp add: quiet_def rejectReasonLocked_def)

lemma quiet_parts: "quiet b b' \<Longrightarrow> reserveParts b' p = reserveParts b p"
  by (simp add: quiet_def reserveParts_def Let_def)

section \<open>Record transitions\<close>

lemma records_invI:
  assumes "mwf recs" and "\<And>seq s. mget recs seq = Some s \<Longrightarrow> rec_ok n res seq s"
    and "\<And>i r. mget res i = Some r \<Longrightarrow> res_ok recs i r"
  shows "records_inv n res recs"
  using assms by (simp add: records_inv_def)

lemma records_invD:
  assumes "records_inv n res recs"
  shows "mwf recs" and "mget recs seq = Some s \<Longrightarrow> rec_ok n res seq s" and "mget res i = Some r \<Longrightarrow> res_ok recs i r"
  using assms by (simp_all add: records_inv_def)

lemma rec_ok_mono:
  assumes "rec_ok n res q t"
    and "\<And>i r. mget res i = Some r \<Longrightarrow> mget (pendingByEpoch t) (r_key r) = Some i \<Longrightarrow> r_seq r = q \<Longrightarrow>
      \<exists>r'. mget res' i = Some r' \<and> r_seq r' = r_seq r \<and> r_key r' = r_key r"
  shows "rec_ok n res' q t"
  using assms(1) unfolding rec_ok_def by (metis assms(2))

text \<open>A record written in place of another (or of none) that keeps what the reservations read of it.\<close>

lemma records_put:
  assumes inv: "records_inv n res recs" and new: "rec_ok n res seq s'"
    and keep: "\<And>s key. mget recs seq = Some s \<Longrightarrow> mget (pendingByEpoch s') key = mget (pendingByEpoch s) key \<and>
      (mget (usedByEpoch s) key \<noteq> None \<longrightarrow> mget (usedByEpoch s') key \<noteq> None)"
  shows "records_inv n res (mput seq s' recs)"
proof (rule records_invI)
  show "mwf (mput seq s' recs)" using records_invD(1) [OF inv] by simp
  show "rec_ok n res q s" if "mget (mput seq s' recs) q = Some s" for q s
    using that new records_invD(2) [OF inv] by (auto split: if_splits)
  show "res_ok (mput seq s' recs) i r" if "mget res i = Some r" for i r
    using records_invD(3) [OF inv that] keep by (force simp: res_ok_def)
qed

lemma records_fresh:
  assumes "records_inv n res recs" and "mget recs seq = None" and "n \<le> seq"
  shows "records_inv n res (mput seq freshRecordState recs)"
  by (rule records_put [OF assms(1)]) (use assms in \<open>auto simp: freshRecordState_def rec_ok_def\<close>)

lemma records_link:
  assumes "records_inv n res recs" and "mget recs seq = Some s"
  shows "records_inv n res (mput seq (s\<lparr>candidateIDs := ids\<rparr>) recs)"
  by (rule records_put [OF assms(1)]) (use assms(2) records_invD(2) [OF assms] in \<open>auto simp: rec_ok_def\<close>)

lemma records_grant:
  assumes inv: "records_inv n res recs" and s: "mget recs seq = Some s" and k: "mget (pendingByEpoch s) key = None"
    and i: "mget res i = None" and r: "r_seq r = seq" "r_key r = key" "\<not> started r"
  shows "records_inv n (mput i r res) (mput seq (s\<lparr>pendingByEpoch := mput key i (pendingByEpoch s)\<rparr>) recs)"
    (is "records_inv n ?res (mput seq ?s recs)")
proof (rule records_invI)
  have fwd: "rec_ok n ?res q t" if "rec_ok n res q t" for q t
    by (rule rec_ok_mono [OF that]) (use i in auto)
  show "mwf (mput seq ?s recs)" using records_invD(1) [OF inv] by simp
  show "rec_ok n ?res q t" if t: "mget (mput seq ?s recs) q = Some t" for q t
  proof (cases "q = seq")
    case True
    then have "t = ?s" using t by simp
    moreover have "mput key i (pendingByEpoch s) \<noteq> []" by (cases "pendingByEpoch s") auto
    ultimately show ?thesis using fwd [OF records_invD(2) [OF inv s]] True r by (auto simp: rec_ok_def)
  qed (use t fwd records_invD(2) [OF inv] in simp)
  show "res_ok (mput seq ?s recs) j u" if u: "mget ?res j = Some u" for j u
  proof (cases "j = i")
    case True
    then show ?thesis using u r by (simp add: res_ok_def)
  next
    case False
    then have "res_ok recs j u" using u records_invD(3) [OF inv] by simp
    then show ?thesis using s k by (auto simp: res_ok_def)
  qed
qed

lemma records_start:
  assumes inv: "records_inv n res recs" and r: "mget res i = Some r" and s: "mget recs (r_seq r) = Some s"
    and r': "r_seq r' = r_seq r" "r_key r' = r_key r"
    and s': "acked s' = acked s" "pendingByEpoch s' = pendingByEpoch s" "usedByEpoch s' = mput (r_key r) () (usedByEpoch s)"
  shows "records_inv n (mput i r' res) (mput (r_seq r) s' recs)"
proof (rule records_invI)
  have fwd: "rec_ok n (mput i r' res) q t" if "rec_ok n res q t" for q t
    by (rule rec_ok_mono [OF that]) (use r r' in auto)
  show "mwf (mput (r_seq r) s' recs)" using records_invD(1) [OF inv] by simp
  have "rec_ok n res (r_seq r) s'" using records_invD(2) [OF inv s] s' by (simp add: rec_ok_def)
  then show "rec_ok n (mput i r' res) q t" if t: "mget (mput (r_seq r) s' recs) q = Some t" for q t
    using t fwd records_invD(2) [OF inv] by (auto split: if_splits)
  have old: "res_ok recs i r" by (rule records_invD(3) [OF inv r])
  show "res_ok (mput (r_seq r) s' recs) j u" if u: "mget (mput i r' res) j = Some u" for j u
  proof (cases "j = i")
    case True
    then show ?thesis using u old s r' s' by (auto simp: res_ok_def)
  next
    case False
    then have "res_ok recs j u" using u records_invD(3) [OF inv] by simp
    then show ?thesis using s s' by (auto simp: res_ok_def)
  qed
qed

lemma records_drop:
  assumes inv: "records_inv n res recs" and wf: "mwf res" and r: "mget res (r_id r) = Some r" and s: "mget recs (r_seq r) = Some s"
    and t: "acked t = acked s" "pendingByEpoch t = pendingByEpoch s" "usedByEpoch t = usedByEpoch s"
  shows "records_inv n (mdel (r_id r) res)
    (if acked t \<and> length (pendingByEpoch (clearPending r t)) = 0 then mdel (r_seq r) (mput (r_seq r) (clearPending r t) recs)
     else mput (r_seq r) (clearPending r t) recs)"
    (is "records_inv n ?res (if ?gone then _ else mput _ ?t _)")
proof -
  let ?recs = "if ?gone then mdel (r_seq r) (mput (r_seq r) ?t recs) else mput (r_seq r) ?t recs"
  have own: "mget (pendingByEpoch s) (r_key r) = Some (r_id r)" using records_invD(3) [OF inv r] s by (auto simp: res_ok_def)
  then have ct: "?t = t\<lparr>pendingByEpoch := mdel (r_key r) (pendingByEpoch s)\<rparr>" using t by (simp add: clearPending_def)
  note ok = records_invD(2) [OF inv s]
  have uniq: "mget (pendingByEpoch s) key = Some (r_id r) \<Longrightarrow> key = r_key r" for key
    using ok r by (fastforce simp: rec_ok_def)
  show ?thesis
  proof (rule records_invI)
    show "mwf ?recs" using records_invD(1) [OF inv] by simp
    show "rec_ok n ?res q u" if u: "mget ?recs q = Some u" for q u
    proof (cases "q = r_seq r")
      case True
      then have "\<not> ?gone" "u = ?t" using u by (auto split: if_splits)
      then show ?thesis using ok True t uniq unfolding ct by (auto simp: rec_ok_def)
    next
      case False
      then have q: "rec_ok n res q u" using u records_invD(2) [OF inv] by (auto split: if_splits)
      show ?thesis by (rule rec_ok_mono [OF q]) (use r False in auto)
    qed
    show "res_ok ?recs j v" if v: "mget ?res j = Some v" for j v
    proof -
      have j: "j \<noteq> r_id r" "mget res j = Some v" using v by (auto split: if_splits)
      then have v: "res_ok recs j v" using records_invD(3) [OF inv] by simp
      show ?thesis
      proof (cases "r_seq v = r_seq r")
        case True
        then have p: "mget (pendingByEpoch s) (r_key v) = Some j" "r_key v \<noteq> r_key r"
          using v s own j(1) by (auto simp: res_ok_def)
        then have "mget (pendingByEpoch ?t) (r_key v) = Some j" unfolding ct by simp
        moreover from this have "\<not> ?gone" by auto
        ultimately show ?thesis using v s True t by (auto simp: res_ok_def ct)
      qed (use v in \<open>auto simp: res_ok_def\<close>)
    qed
  qed
qed

lemma ackRecords_get:
  "mwf recs \<Longrightarrow> mget (ackRecords n recs) seq =
     (case mget recs seq of None \<Rightarrow> None
      | Some s \<Rightarrow> if seq < n then if pendingByEpoch s = [] then None else Some (s\<lparr>acked := True, candidateIDs := []\<rparr>) else Some s)"
proof (induction n recs rule: ackRecords.induct)
  case (2 n q s rest)
  have "mget rest q = None" using 2(4) by (simp add: mwf_def map_of_eq_None_iff)
  then show ?case using 2 by (auto simp: mwf_def Let_def)
qed simp

lemma ackRecords_keys: "fst ` set (ackRecords n recs) \<subseteq> fst ` set recs"
  by (induction n recs rule: ackRecords.induct) (auto simp: Let_def)

lemma ackRecords_wf: "mwf recs \<Longrightarrow> mwf (ackRecords n recs)"
proof (induction n recs rule: ackRecords.induct)
  case (2 n q s rest)
  then show ?case using ackRecords_keys [of n rest] by (auto simp: mwf_def Let_def)
qed simp

lemma records_ack:
  assumes inv: "records_inv n res recs" and le: "n \<le> n'"
  shows "records_inv n' res (ackRecords n' recs)"
proof (rule records_invI)
  note get = ackRecords_get [OF records_invD(1) [OF inv]]
  show "mwf (ackRecords n' recs)" by (rule ackRecords_wf [OF records_invD(1) [OF inv]])
  show "rec_ok n' res q s" if "mget (ackRecords n' recs) q = Some s" for q s
    using that le records_invD(2) [OF inv, of q] by (auto simp: get rec_ok_def split: option.splits if_splits)
  show "res_ok (ackRecords n' recs) i r" if "mget res i = Some r" for i r
    using records_invD(3) [OF inv that] by (auto simp: get res_ok_def)
qed

section \<open>The budget decision\<close>

text \<open>The room for a rescue, over unbounded numbers: what is left of the quota, and what is left of the burst tokens
  after the overdraft of the quota is taken from them.\<close>

definition rescueRoom :: "nat \<Rightarrow> nat \<Rightarrow> nat \<Rightarrow> nat \<Rightarrow> nat" where
  "rescueRoom quota used burst burstUsed = (quota - used) + (burst - burstUsed - (used - quota))"

lemma lowerBy_forms:
  "(if a > b then a - b else 0) = lowerBy a b" "(if d \<ge> x then 0 else x - d) = lowerBy x d"
  by (auto simp: lowerBy_def)

abbreviation quotaOf :: "streamBoundedRescueBudget \<Rightarrow> nat \<Rightarrow> nat" where
  "quotaOf b original \<equiv> original * unat (BudgetBasisPoints (b_config b)) div 10000"

lemma available_exact:
  assumes "unat w + unat base < 2 ^ 64" and "unat c + unat res < 2 ^ 64"
  shows "p \<le> saturatingAdd (lowerBy q (saturatingAdd w base))
           (lowerBy (lowerBy burst (saturatingAdd c res)) (lowerBy (saturatingAdd w base) q)) \<longleftrightarrow>
         unat p \<le> rescueRoom (unat q) (unat w + unat base) (unat burst) (unat c + unat res)"
  using assms u64_less [of p] by (simp add: word_le_nat_alt unat_saturatingAdd unat_lowerBy rescueRoom_def)

lemma reserveParts_None:
  assumes "unat (windowAccepted b) + unat (baseReserved b) < 2 ^ 64" and "unat (burstCommitted b) + unat (burstReserved b) < 2 ^ 64"
    and "unat (BudgetBasisPoints (b_config b)) \<le> 10000" and "factorMode (b_config b) = boundedRescueFactorFull"
  shows "reserveParts b p = None \<longleftrightarrow>
    rescueRoom (quotaOf b (unat (windowOriginal b))) (unat (windowAccepted b) + unat (baseReserved b))
      (unat (c_BurstBytes (b_config b))) (unat (burstCommitted b) + unat (burstReserved b)) < unat p"
proof -
  let ?q = "boundedRescueRatio (windowOriginal b) (BudgetBasisPoints (b_config b))"
  let ?u = "saturatingAdd (windowAccepted b) (baseReserved b)"
  have "reserveParts b p = None \<longleftrightarrow>
      \<not> p \<le> saturatingAdd (lowerBy ?q ?u)
        (lowerBy (lowerBy (c_BurstBytes (b_config b)) (saturatingAdd (burstCommitted b) (burstReserved b))) (lowerBy ?u ?q))"
    by (simp add: reserveParts_def Let_def lowerBy_forms not_le assms(4) [simplified])
  then show ?thesis by (simp only: available_exact [OF assms(1,2)] unat_boundedRescueRatio [OF assms(3)] not_le)
qed

lemma reserveParts_Some:
  assumes parts: "reserveParts b p = Some (x, y)" and full: "factorMode (b_config b) = boundedRescueFactorFull"
    and fits: "unat (windowAccepted b) + unat (baseReserved b) < 2 ^ 64" "unat (burstCommitted b) + unat (burstReserved b) < 2 ^ 64"
    and bp: "unat (BudgetBasisPoints (b_config b)) \<le> 10000"
  defines "Q \<equiv> quotaOf b (unat (windowOriginal b))" and "U \<equiv> unat (windowAccepted b) + unat (baseReserved b)"
  shows "unat x + unat y = unat p" and "unat x \<le> Q - U"
    and "unat y \<le> unat (c_BurstBytes (b_config b)) - (unat (burstCommitted b) + unat (burstReserved b)) - (U - Q)"
proof -
  let ?q = "boundedRescueRatio (windowOriginal b) (BudgetBasisPoints (b_config b))"
  let ?u = "saturatingAdd (windowAccepted b) (baseReserved b)"
  have q: "unat (lowerBy ?q ?u) = Q - U" using fits(1) by (simp add: unat_lowerBy unat_saturatingAdd unat_boundedRescueRatio bp Q_def U_def)
  have room: "unat p \<le> rescueRoom Q U (unat (c_BurstBytes (b_config b))) (unat (burstCommitted b) + unat (burstReserved b))"
    using reserveParts_None [OF fits bp full, of p] parts by (simp add: Q_def U_def not_less)
  have x: "x = (if p > lowerBy ?q ?u then lowerBy ?q ?u else p)" and y: "y = p - x"
    using parts full by (auto simp: reserveParts_def Let_def lowerBy_forms split: if_splits)
  have ux: "unat x = min (unat p) (Q - U)" using q by (simp add: x word_less_nat_alt)
  then have uy: "unat y = unat p - unat x" unfolding y by (intro unat_sub) (simp add: word_le_nat_alt)
  show "unat x + unat y = unat p" "unat x \<le> Q - U" using ux uy by simp_all
  show "unat y \<le> unat (c_BurstBytes (b_config b)) - (unat (burstCommitted b) + unat (burstReserved b)) - (U - Q)"
    using ux uy room unfolding rescueRoom_def by linarith
qed

lemma msum_update_same: "mget m k = Some v \<Longrightarrow> f k w = f k v \<Longrightarrow> msum f (mput k w m) = msum f m"
  by (induction m) (auto split: if_splits)

section \<open>Every operation keeps the invariant\<close>

lemma pruneLocked_fields [simp]:
  "b_config (pruneLocked at b) = b_config b" "b_ackedNext (pruneLocked at b) = b_ackedNext b"
  "nextReservation (pruneLocked at b) = nextReservation b" "baseReserved (pruneLocked at b) = baseReserved b"
  "burstReserved (pruneLocked at b) = burstReserved b" "burstCommitted (pruneLocked at b) = burstCommitted b"
  "reservations (pruneLocked at b) = reservations b" "rescueRecords (pruneLocked at b) = rescueRecords b"
  "b_stats (pruneLocked at b) = b_stats b" "b_closed (pruneLocked at b) = b_closed b"
  by (simp_all add: pruneLocked_def Let_def split: prod.splits)

lemma pruneLocked_window:
  fixes at :: gotime
  assumes "window_inv b"
  defines "c \<equiv> at - streamBoundedRescueWindow"
  shows "window_inv (pruneLocked at b)"
    and "originalEvents (pruneLocked at b) = filter (\<lambda>e. c < ev_at e) (originalEvents b)"
    and "mset (acceptedEvents (pruneLocked at b)) = {#e \<in># mset (acceptedEvents b). c < ev_at e#}"
proof -
  obtain oe ow where o: "pruneOriginal c (originalEvents b) (windowOriginal b) = (oe, ow)" by fastforce
  obtain ae aw l where a: "pruneAccepted c (acceptedEvents b) (windowAccepted b) (acceptedByLeg b) = (ae, aw, l)"
    using prod_cases3 by blast
  have ok: "original_ok (originalEvents b) (windowOriginal b)" "accepted_ok (acceptedEvents b) (windowAccepted b) (acceptedByLeg b)"
    using assms(1) by (simp_all add: window_inv_def)
  have p: "pruneLocked at b = b\<lparr>originalEvents := oe, windowOriginal := ow, acceptedEvents := ae, windowAccepted := aw, acceptedByLeg := l\<rparr>"
    using o a by (simp add: pruneLocked_def Let_def c_def)
  note so = pruneOriginal_sound [OF ok(1) o] and sa = pruneAccepted_sound [OF ok(2) a]
  show "window_inv (pruneLocked at b)" using so sa by (auto simp: p window_inv_def)
  show "originalEvents (pruneLocked at b) = filter (\<lambda>e. c < ev_at e) (originalEvents b)" using so by (simp add: p)
  show "mset (acceptedEvents (pruneLocked at b)) = {#e \<in># mset (acceptedEvents b). c < ev_at e#}" using sa by (simp add: p)
qed

lemma prune_windowAccepted:
  assumes "window_inv b"
  shows "unat (windowAccepted (pruneLocked at b)) = bytesOf (\<lambda>e. at - streamBoundedRescueWindow < ev_at e) (mset (acceptedEvents b))"
    and "unat (windowOriginal (pruneLocked at b)) = bytesOf (\<lambda>e. at - streamBoundedRescueWindow < ev_at e) (mset (originalEvents b))"
    and "unat (windowAccepted (pruneLocked at b)) \<le> unat (windowAccepted b)"
proof -
  note p = pruneLocked_window [OF assms]
  show a: "unat (windowAccepted (pruneLocked at b)) = bytesOf (\<lambda>e. at - streamBoundedRescueWindow < ev_at e) (mset (acceptedEvents b))"
    using p(1,3) [of at] by (simp add: window_inv_def accepted_ok_def bytesOf_filter)
  show "unat (windowOriginal (pruneLocked at b)) = bytesOf (\<lambda>e. at - streamBoundedRescueWindow < ev_at e) (mset (originalEvents b))"
    using p(1,2) [of at] by (simp add: window_inv_def original_ok_def bytesOf_filter)
  show "unat (windowAccepted (pruneLocked at b)) \<le> unat (windowAccepted b)"
    using a assms bytesOf_le by (simp add: window_inv_def accepted_ok_def)
qed

lemma inv_prune: "rescue_inv b \<Longrightarrow> rescue_inv (pruneLocked at b)"
  using pruneLocked_window(1) [of b at] prune_windowAccepted(3) [of b at]
  unfolding rescue_inv_def by (auto simp: config_inv_def acct_inv_def entries_inv_def balance_inv_def)

lemma used_fits:
  assumes "acct_inv b" and "config_inv b"
  shows "unat (windowAccepted b) + unat (baseReserved b) < 2 ^ 64" "unat (burstCommitted b) + unat (burstReserved b) < 2 ^ 64"
    "unat (BudgetBasisPoints (b_config b)) \<le> 10000"
  using assms by (simp_all add: acct_inv_def config_inv_def)

text \<open>A grant in the full mode leaves the counters within 64 bits; the other modes need room for the payload.\<close>

definition grantFits :: "streamBoundedRescueBudget \<Rightarrow> u64 \<Rightarrow> bool" where
  "grantFits b p \<longleftrightarrow>
     nextReservation b + 1 \<noteq> 0 \<and>
     (factorMode (b_config b) \<noteq> boundedRescueFactorFull \<longrightarrow>
        unat (windowAccepted b) + unat (baseReserved b) + unat p + unat (c_BurstBytes (b_config b)) < 2 ^ 64)"

lemma quota_bound: "bp \<le> 909 \<Longrightarrow> n < 2 ^ 64 \<Longrightarrow> n * bp div 10000 < (2::nat) ^ 63"
proof -
  assume "bp \<le> 909" "n < 2 ^ 64"
  then have "n * bp \<le> 2 ^ 64 * 909" by (intro mult_le_mono) simp_all
  then have "n * bp div 10000 \<le> 2 ^ 64 * 909 div 10000" by (rule div_le_mono)
  then show ?thesis by simp
qed

lemma parts_room:
  assumes inv: "acct_inv b" "config_inv b" and fits: "grantFits b p" and parts: "reserveParts b p = Some (x, y)"
  shows "unat x + unat y = unat p"
    and "unat (burstCommitted b) + unat (burstReserved b) + unat y \<le> unat (c_BurstBytes (b_config b))"
    and "unat (windowAccepted b) + unat (baseReserved b) + unat x + unat (c_BurstBytes (b_config b)) < 2 ^ 64 + unat (burstCommitted b)"
proof -
  note u = used_fits [OF inv]
  let ?Q = "quotaOf b (unat (windowOriginal b))"
  have q: "?Q < 2 ^ 63" by (rule quota_bound) (use inv u64_less in \<open>simp_all add: config_inv_def\<close>)
  consider (full) "factorMode (b_config b) = boundedRescueFactorFull" | (rest) "factorMode (b_config b) \<noteq> boundedRescueFactorFull" by blast
  then have "unat x + unat y = unat p \<and> unat (burstCommitted b) + unat (burstReserved b) + unat y \<le> unat (c_BurstBytes (b_config b)) \<and>
    unat (windowAccepted b) + unat (baseReserved b) + unat x + unat (c_BurstBytes (b_config b)) < 2 ^ 64 + unat (burstCommitted b)"
  proof cases
    case full
    note r = reserveParts_Some [OF parts full u]
    have "unat (burstCommitted b) + unat (burstReserved b) \<le> unat (c_BurstBytes (b_config b))"
      "unat (windowAccepted b) + unat (baseReserved b) + unat (c_BurstBytes (b_config b)) < 2 ^ 64 + unat (burstCommitted b)"
      "unat (c_BurstBytes (b_config b)) < 2 ^ 63"
      using inv unfolding acct_inv_def config_inv_def by blast+
    then show ?thesis using r q by auto
  next
    case rest
    then have "x = p" "y = 0" using parts by (simp_all add: reserveParts_def)
    then show ?thesis using fits rest inv(1) by (simp add: grantFits_def acct_inv_def)
  qed
  then show "unat x + unat y = unat p" "unat (burstCommitted b) + unat (burstReserved b) + unat y \<le> unat (c_BurstBytes (b_config b))"
    "unat (windowAccepted b) + unat (baseReserved b) + unat x + unat (c_BurstBytes (b_config b)) < 2 ^ 64 + unat (burstCommitted b)"
    by simp_all
qed

lemma inv_grant:
  assumes inv: "rescue_inv b" and fits: "grantFits b p" and parts: "reserveParts b p = Some xy"
    and s: "mget (rescueRecords b) (Sequence e) = Some s" and k: "mget (pendingByEpoch s) (evidenceKey e) = None"
  shows "rescue_inv (grantReservation e p cid el s xy b)"
proof -
  obtain x y where xy: "xy = (x, y)" by fastforce
  have parts_inv: "acct_inv b" "config_inv b" "entries_inv b" using inv by (simp_all add: rescue_inv_def)
  note room = parts_room [OF parts_inv(1,2) fits parts [unfolded xy]]
  let ?i = "nextReservation b + 1"
  have lt: "nextReservation b < ?i" using fits word_lt_succ by (simp add: grantFits_def)
  then have i: "mget (reservations b) ?i = None" using parts_inv(3) by (auto simp: entries_inv_def) (metis leD not_Some_eq)
  have rec: "records_inv (b_ackedNext b) (reservations b) (rescueRecords b)" using inv by (simp add: rescue_inv_def)
  have acct: "acct_inv (grantReservation e p cid el s xy b)"
    using parts_inv(1) room(2,3) i unat_add_fits [of "baseReserved b" x] unat_add_fits [of "burstReserved b" y] parts_inv(2)
    by (simp add: acct_inv_def config_inv_def grantReservation_def Let_def xy msum_update_new)
  have entries: "entries_inv (grantReservation e p cid el s xy b)"
    using parts_inv(3) lt room(1) fits
    by (auto simp: entries_inv_def grantReservation_def Let_def xy grantFits_def dest: le_less_trans intro: less_imp_le)
  have ledger: "balance_inv (grantReservation e p cid el s xy b)"
    using inv i by (simp add: rescue_inv_def balance_inv_def grantReservation_def Let_def msum_update_new)
  have "records_inv (b_ackedNext b) (reservations (grantReservation e p cid el s xy b)) (rescueRecords (grantReservation e p cid el s xy b))"
    unfolding grantReservation_def Let_def by simp (rule records_grant [OF rec s k i]; simp)
  then show ?thesis
    using inv acct entries ledger unfolding rescue_inv_def
    by (simp add: grantReservation_def Let_def config_inv_def window_inv_def)
qed

lemma dropReservation_fields [simp]:
  "b_config (dropReservation touch r b) = b_config b" "b_ackedNext (dropReservation touch r b) = b_ackedNext b"
  "nextReservation (dropReservation touch r b) = nextReservation b" "originalEvents (dropReservation touch r b) = originalEvents b"
  "acceptedEvents (dropReservation touch r b) = acceptedEvents b" "windowOriginal (dropReservation touch r b) = windowOriginal b"
  "windowAccepted (dropReservation touch r b) = windowAccepted b" "acceptedByLeg (dropReservation touch r b) = acceptedByLeg b"
  "baseReserved (dropReservation touch r b) = lowerBy (baseReserved b) (baseBytes r)"
  "burstReserved (dropReservation touch r b) = lowerBy (burstReserved b) (burstBytes r)"
  "burstCommitted (dropReservation touch r b) = burstCommitted b" "b_stats (dropReservation touch r b) = b_stats b"
  "reservations (dropReservation touch r b) = mdel (r_id r) (reservations b)" "b_closed (dropReservation touch r b) = b_closed b"
  by (simp_all add: dropReservation_def releaseAccountingLocked_def maybeDeleteRecordLocked_def Let_def split: option.splits)

text \<open>What the caller may write to a record while it drops a reservation.\<close>

definition harmless :: "(boundedRescueRecordState \<Rightarrow> boundedRescueRecordState) \<Rightarrow> bool" where
  "harmless touch \<longleftrightarrow>
     (\<forall>s. acked (touch s) = acked s \<and> pendingByEpoch (touch s) = pendingByEpoch s \<and> usedByEpoch (touch s) = usedByEpoch s)"

lemma dropReservation_records:
  assumes rec: "records_inv (b_ackedNext b) (reservations b) (rescueRecords b)" and wf: "mwf (reservations b)"
    and r: "mget (reservations b) i = Some r" and i: "r_id r = i" and t: "harmless touch"
  shows "records_inv (b_ackedNext b) (mdel (r_id r) (reservations b)) (rescueRecords (dropReservation touch r b))"
proof -
  obtain s where s: "mget (rescueRecords b) (r_seq r) = Some s" using records_invD(3) [OF rec r] by (auto simp: res_ok_def)
  have c: "acked (clearPending r (touch s)) = acked (touch s)" by (simp add: clearPending_def)
  have "rescueRecords (dropReservation touch r b) =
      (if acked (touch s) \<and> length (pendingByEpoch (clearPending r (touch s))) = 0
       then mdel (r_seq r) (mput (r_seq r) (clearPending r (touch s)) (rescueRecords b))
       else mput (r_seq r) (clearPending r (touch s)) (rescueRecords b))"
    using s c by (simp add: dropReservation_def releaseAccountingLocked_def maybeDeleteRecordLocked_def Let_def)
  then show ?thesis
    using records_drop [OF rec wf _ s, of "touch s"] r t i by (simp only: harmless_def)
qed

lemma sums_drop:
  assumes "rescue_inv b" and "mget (reservations b) i = Some r"
  shows "unat (baseBytes r) + msum (\<lambda>_ r. unat (baseBytes r)) (mdel i (reservations b)) = unat (baseReserved b)"
    and "unat (burstBytes r) + msum (\<lambda>_ r. unat (burstBytes r)) (mdel i (reservations b)) = unat (burstReserved b)"
    and "r_bytes r + msum (\<lambda>_ r. r_bytes r) (mdel i (reservations b)) = msum (\<lambda>_ r. r_bytes r) (reservations b)"
    and "r_id r = i" "unat (baseBytes r) + unat (burstBytes r) = unat (r_bytes r)" "i \<noteq> 0"
  using assms msum_delete [of "reservations b" i r] by (auto simp: rescue_inv_def acct_inv_def entries_inv_def)

lemma entries_drop:
  "entries_inv b \<Longrightarrow> reservations b' = mdel i (reservations b) \<Longrightarrow> nextReservation b' = nextReservation b \<Longrightarrow> entries_inv b'"
  by (simp add: entries_inv_def)

lemma inv_drop:
  assumes inv: "rescue_inv b" and r: "mget (reservations b) i = Some r"
  shows "rescue_inv (bumpStat ReleasedBytes_update (r_bytes r) (dropReservation (\<lambda>s. s) r b))" (is "rescue_inv ?b")
proof -
  note sums = sums_drop [OF inv r]
  have parts: "config_inv b" "window_inv b" "acct_inv b" "entries_inv b" "balance_inv b" using inv by (simp_all add: rescue_inv_def)
  have "acct_inv ?b" using parts(3) sums(1,2) unfolding acct_inv_def by (auto simp: unat_lowerBy sums(4))
  moreover have "balance_inv ?b" using parts(5) sums(3,4) by (simp add: balance_inv_def algebra_simps)
  moreover have "entries_inv ?b" by (rule entries_drop [OF parts(4), of _ i]) (simp_all add: sums(4))
  moreover have "records_inv (b_ackedNext ?b) (reservations ?b) (rescueRecords ?b)"
    using dropReservation_records [OF _ _ r sums(4), of "\<lambda>s. s"] inv by (simp add: harmless_def rescue_inv_def acct_inv_def)
  ultimately show ?thesis using parts(1,2) by (simp add: rescue_inv_def config_inv_def window_inv_def)
qed

lemma inv_release: "rescue_inv b \<Longrightarrow> rescue_inv (releaseLocked r reason b)"
  unfolding releaseLocked_def using inv_drop quiet_inv [OF quiet_reject] by simp

lemma accepted_ok_push:
  assumes ok: "accepted_ok evs win legs" and fits: "unat win + unat n < 2 ^ 64"
  shows "accepted_ok (heapPush ev_at \<lparr>ev_at = at, ev_bytes = n, ev_target = t\<rparr> evs) (win + n)
    (if t < 2 then legs[unat t := legs ! unat t + n] else legs)"
proof -
  have l: "unat (legs ! 0) + unat n < 2 ^ 64" "unat (legs ! 1) + unat n < 2 ^ 64"
    using ok fits bytesOf_le [of "\<lambda>e. ev_target e = 0" "mset evs"] bytesOf_le [of "\<lambda>e. ev_target e = 1" "mset evs"]
    by (simp_all add: accepted_ok_def)
  then show ?thesis
    using ok fits ehq.ins_good [of ev_at evs] unat_add_fits [OF fits] unat_add_fits [OF l(1)] unat_add_fits [OF l(2)]
    by (auto simp: accepted_ok_def ehq.ins_items target_cases)
qed

lemma chargeAccepted_fields [simp]:
  "b_config (chargeAccepted r a at b) = b_config b" "b_ackedNext (chargeAccepted r a at b) = b_ackedNext b"
  "nextReservation (chargeAccepted r a at b) = nextReservation b" "originalEvents (chargeAccepted r a at b) = originalEvents b"
  "windowOriginal (chargeAccepted r a at b) = windowOriginal b" "baseReserved (chargeAccepted r a at b) = baseReserved b"
  "burstReserved (chargeAccepted r a at b) = burstReserved b" "reservations (chargeAccepted r a at b) = reservations b"
  "rescueRecords (chargeAccepted r a at b) = rescueRecords b"
  "windowAccepted (chargeAccepted r a at b) = windowAccepted b + a"
  "ReservedBytes (b_stats (chargeAccepted r a at b)) = ReservedBytes (b_stats b)"
  "ReleasedBytes (b_stats (chargeAccepted r a at b)) = ReleasedBytes (b_stats b)"
  "CarrierAcceptedBytes (b_stats (chargeAccepted r a at b)) = CarrierAcceptedBytes (b_stats b) + a"
  by (simp_all add: chargeAccepted_def Let_def word_gt_0)

lemma charge_burst:
  assumes "unat (burstCommitted b) + (unat a - unat (baseBytes r)) < 2 ^ 64"
  shows "unat (burstCommitted (chargeAccepted r a at b)) = unat (burstCommitted b) + (unat a - unat (baseBytes r))"
proof (cases "a > baseBytes r")
  case True
  then have "unat (a - baseBytes r) = unat a - unat (baseBytes r)" by (intro unat_sub) simp
  moreover have "a > 0" using True by (metis word_gt_0 word_not_simps(1))
  ultimately show ?thesis using True assms by (simp add: chargeAccepted_def Let_def unat_add_fits)
next
  case False
  then have "burstCommitted (chargeAccepted r a at b) = burstCommitted b" by (simp add: chargeAccepted_def Let_def)
  then show ?thesis using False by (simp add: word_less_nat_alt)
qed

lemma inv_settle:
  assumes inv: "rescue_inv b" and r: "mget (reservations b) i = Some r" and a: "a \<le> r_bytes r" and t: "harmless touch"
  shows "rescue_inv (bumpStat ReleasedBytes_update (r_bytes r - a) (dropReservation touch r (chargeAccepted r a at b)))"
    (is "rescue_inv ?b")
proof -
  note sums = sums_drop [OF inv r]
  have parts: "config_inv b" "window_inv b" "acct_inv b" "entries_inv b" "balance_inv b" using inv by (simp_all add: rescue_inv_def)
  have num: "unat (burstCommitted b) + unat (burstReserved b) \<le> unat (c_BurstBytes (b_config b))"
    "unat (windowAccepted b) + unat (baseReserved b) + unat (c_BurstBytes (b_config b)) < 2 ^ 64 + unat (burstCommitted b)"
    "unat (c_BurstBytes (b_config b)) < 2 ^ 63" "unat a \<le> unat (baseBytes r) + unat (burstBytes r)"
    using parts(1,3) a sums(5) by (simp_all add: acct_inv_def config_inv_def word_le_nat_alt)
  have fits: "unat (windowAccepted b) + unat a < 2 ^ 64" using num sums(1,2) by linarith
  have burst: "unat (burstCommitted (chargeAccepted r a at b)) = unat (burstCommitted b) + (unat a - unat (baseBytes r))"
    by (rule charge_burst) (use num sums(1,2) in auto)
  have "acct_inv ?b"
    using parts(3) sums(1,2) num fits unfolding acct_inv_def by (auto simp: unat_lowerBy sums(4) burst unat_add_fits)
  moreover have "window_inv ?b"
    using parts(2) accepted_ok_push [OF _ fits] by (auto simp: window_inv_def chargeAccepted_def Let_def)
  moreover have "balance_inv ?b" using parts(5) sums(3,4) by (simp add: balance_inv_def algebra_simps)
  moreover have "entries_inv ?b" by (rule entries_drop [OF parts(4), of _ i]) (simp_all add: sums(4))
  moreover have "records_inv (b_ackedNext ?b) (reservations ?b) (rescueRecords ?b)"
    using dropReservation_records [OF _ _ _ sums(4) t, of "chargeAccepted r a at b"] inv r by (simp add: rescue_inv_def acct_inv_def)
  ultimately show ?thesis using parts(1) by (simp add: rescue_inv_def config_inv_def)
qed

lemma inv_start:
  assumes inv: "rescue_inv b" and r: "mget (reservations b) i = Some r" and s: "mget (rescueRecords b) (r_seq r) = Some s"
  shows "rescue_inv (startWrite r s b)"
proof -
  note sums = sums_drop [OF inv r]
  have wf: "mwf (reservations b)" using inv by (simp add: rescue_inv_def acct_inv_def)
  define r' where "r' = r\<lparr>started := True, attemptID := nextAttempt b + 1, perRecordAttempt := lifetimeAttempt s + 1\<rparr>"
  have res: "reservations (startWrite r s b) = mput i r' (reservations b)" by (simp add: startWrite_def Let_def r'_def sums(4))
  have rec: "records_inv (b_ackedNext b) (mput i r' (reservations b)) (rescueRecords (startWrite r s b))"
    unfolding startWrite_def Let_def
    by simp (rule records_start [OF _ r s]; use inv in \<open>simp add: rescue_inv_def r'_def\<close>)
  have "acct_inv (startWrite r s b)" "entries_inv (startWrite r s b)" "balance_inv (startWrite r s b)"
    using inv r unfolding rescue_inv_def acct_inv_def entries_inv_def balance_inv_def res
    by (auto simp: startWrite_def Let_def msum_update_same [OF r]) (auto simp: r'_def msum_update_same [OF r])
  then show ?thesis using inv rec unfolding rescue_inv_def res
    by (simp add: startWrite_def Let_def config_inv_def window_inv_def)
qed

lemma inv_link: "rescue_inv b \<Longrightarrow> rescue_inv (linkCandidate seq cid b)"
  using records_link [of "b_ackedNext b" "reservations b" "rescueRecords b" seq]
  by (auto simp: linkCandidate_def rescue_inv_defs split: option.splits)

lemma linkCandidate_fields:
  "b_config (linkCandidate seq cid b) = b_config b" "nextReservation (linkCandidate seq cid b) = nextReservation b"
  "windowAccepted (linkCandidate seq cid b) = windowAccepted b" "baseReserved (linkCandidate seq cid b) = baseReserved b"
  "originalEvents (linkCandidate seq cid b) = originalEvents b" "acceptedEvents (linkCandidate seq cid b) = acceptedEvents b"
  "b_ackedNext (linkCandidate seq cid b) = b_ackedNext b" "nextCandidate (linkCandidate seq cid b) = nextCandidate b"
  "burstReserved (linkCandidate seq cid b) = burstReserved b" "burstCommitted (linkCandidate seq cid b) = burstCommitted b"
  "reservations (linkCandidate seq cid b) = reservations b" "b_closed (linkCandidate seq cid b) = b_closed b"
  by (simp_all add: linkCandidate_def split: option.splits)

lemma inv_observe: "rescue_inv b \<Longrightarrow> rescue_inv (snd (observeCandidate e p at class b))"
  unfolding observeCandidate_def Let_def by (auto intro!: inv_link quiet_inv [of b] simp: quiet_def)

lemma observe_fields:
  assumes "observeCandidate e p at class b = (el, b')"
  shows "b_config b' = b_config b" "nextReservation b' = nextReservation b" "windowAccepted b' = windowAccepted b"
    "baseReserved b' = baseReserved b" "originalEvents b' = originalEvents b" "acceptedEvents b' = acceptedEvents b"
    "b_ackedNext b' = b_ackedNext b" "burstReserved b' = burstReserved b" "burstCommitted b' = burstCommitted b"
    "reservations b' = reservations b" "b_closed b' = b_closed b" "nextCandidate b' = nextCandidate b + 1"
  using assms unfolding observeCandidate_def Let_def by (auto simp: linkCandidate_fields split: if_splits)

text \<open>How \<open>Reserve\<close> can end: exempt or rejected with nothing but statistics changed, rejected after pruning, or granted.\<close>

abbreviation observed :: "StreamRescueEvidence \<Rightarrow> u64 \<Rightarrow> gotime \<Rightarrow> streamBoundedRescueBudget \<Rightarrow> streamBoundedRescueBudget" where
  "observed e p at b \<equiv> snd (observeCandidate e p at (ClassifyStreamRescue e) b)"

lemma unit_option: "x \<noteq> Some () \<longleftrightarrow> x = None"
  by (cases x) auto

lemma reserveLocked_cases:
  assumes res: "reserveLocked e p at b0 = (d, b')"
  obtains (quiet) "ad_ReservationID d = 0" "ad_Admitted d \<longrightarrow> ad_Exempt d" "ad_Reason d \<noteq> ''rolling_budget_exhausted''"
        "quiet (observed e p at b0) b'"
    | (budget) "\<not> ad_Admitted d" "\<not> ad_Exempt d" "ad_Reason d = ''rolling_budget_exhausted''" "ad_ReservationID d = 0" "p \<noteq> 0"
        "factorMode (b_config b0) = boundedRescueFactorFull"
        "reserveParts (pruneLocked at (observed e p at b0)) p = None" "quiet (pruneLocked at (observed e p at b0)) b'"
    | (granted) s parts b1 el where "ad_Admitted d" "\<not> ad_Exempt d" "ad_ReservationID d = nextReservation b0 + 1" "p \<noteq> 0"
        "\<not> b_closed b0" "ClassifyStreamRescue e = StreamRescueHealthyHOL" "b_ackedNext b0 \<le> Sequence e"
        "quiet (pruneLocked at (observed e p at b0)) b1"
        "mget (rescueRecords b1) (Sequence e) = Some s" "mget (pendingByEpoch s) (evidenceKey e) = None"
        "factorMode (b_config b0) \<noteq> boundedRescueFactorCOnly \<longrightarrow> mget (usedByEpoch s) (evidenceKey e) = None"
        "\<not> acked s" "reserveParts b1 p = Some parts" "b' = grantReservation e p (nextCandidate b0 + 1) el s parts b1"
proof -
  obtain el b where o: "observeCandidate e p at (ClassifyStreamRescue e) b0 = (el, b)" by fastforce
  note f = observe_fields [OF o]
  let ?c = "ClassifyStreamRescue e"
  note unf = res [unfolded reserveLocked_def Let_def o prod.case]
  consider (cls) "b_closed b \<or> ?c \<noteq> StreamRescueHealthyHOL"
    | (stale) "\<not> b_closed b" "?c = StreamRescueHealthyHOL" "Sequence e < b_ackedNext b \<or> mget (rescueRecords b) (Sequence e) = None"
    | (live) s where "\<not> b_closed b" "?c = StreamRescueHealthyHOL" "\<not> Sequence e < b_ackedNext b" "mget (rescueRecords b) (Sequence e) = Some s"
    by auto
  then show thesis
  proof cases
    case cls
    show thesis
      by (rule quiet) (use unf cls o in \<open>auto simp: quiet_def rejectReasonLocked_def split: if_splits\<close>)
  next
    case stale
    show thesis
      by (rule quiet) (use unf stale o in \<open>auto simp: quiet_def rejectReasonLocked_def split: if_splits\<close>)
  next
    case live
    let ?refuse = "acked s \<or> (factorMode (b_config b) \<noteq> boundedRescueFactorCOnly \<and> mget (usedByEpoch s) (evidenceKey e) \<noteq> None)
      \<or> mget (pendingByEpoch s) (evidenceKey e) \<noteq> None \<or> p = 0"
    show thesis
    proof (cases ?refuse)
      case True
      show thesis
        by (rule quiet) (use unf live True o in \<open>auto simp: quiet_def rejectReasonLocked_def split: if_splits\<close>)
    next
      case False
      let ?b = "pruneLocked at (bumpStat EligibleCount_update 1 b)"
      have q: "quiet (pruneLocked at b) ?b" by (simp add: quiet_def pruneLocked_def Let_def split: prod.splits)
      have parts: "reserveParts ?b p = reserveParts (pruneLocked at b) p" by (rule quiet_parts [OF q])
      show thesis
      proof (cases "reserveParts ?b p")
        case None
        show thesis
        proof (rule budget)
          show "factorMode (b_config b0) = boundedRescueFactorFull"
            using None f(1) by (auto simp: reserveParts_def split: if_splits)
          show "quiet (pruneLocked at (observed e p at b0)) b'"
            using unf live False None o q by (auto simp: quiet_def rejectReasonLocked_def)
        qed (use unf live False None parts o in auto)
      next
        case (Some xy)
        have "b' = grantReservation e p (nextCandidate b) el s xy ?b" "ad_Admitted d" "\<not> ad_Exempt d"
          "ad_ReservationID d = nextReservation ?b + 1"
          using unf live False Some by auto
        then show thesis
          by (intro granted [of ?b s xy el]) (use live False Some o q f in \<open>auto simp: not_less unit_option\<close>)
      qed
    qed
  qed
qed

lemma inv_reserve:
  assumes inv: "rescue_inv b" and fits: "grantFits b p" and res: "reserveLocked e p at b = (d, b')"
  shows "rescue_inv b'"
proof -
  have o: "rescue_inv (observed e p at b)" by (rule inv_observe [OF inv])
  note f = observe_fields [OF surjective_pairing]
  show ?thesis
    using res
  proof (cases rule: reserveLocked_cases)
    case quiet
    then show ?thesis using o quiet_inv by blast
  next
    case budget
    then show ?thesis using inv_prune [OF o] quiet_inv by blast
  next
    case (granted s parts b1 el)
    have i1: "rescue_inv b1" by (rule quiet_inv [OF granted(8) inv_prune [OF o]])
    have "unat (windowAccepted (pruneLocked at (observed e p at b))) \<le> unat (windowAccepted b)"
      using prune_windowAccepted(3) [of "observed e p at b" at] o f(3) by (simp add: rescue_inv_def)
    then have "grantFits b1 p"
      using fits granted(8) by (auto simp: grantFits_def quiet_def f)
    then show ?thesis unfolding granted(14) by (intro inv_grant [OF i1 _ granted(13,9,10)])
  qed
qed

lemma inv_begin: "rescue_inv b \<Longrightarrow> beginWriteDeferred i b = (ok, b') \<Longrightarrow> rescue_inv b'"
  unfolding beginWriteDeferred_def by (auto split: if_splits option.splits intro: inv_release inv_start)

lemma inv_revalidate: "rescue_inv b \<Longrightarrow> revalidateLocked i cur b = (x, b') \<Longrightarrow> rescue_inv b'"
proof (cases "mget (reservations b) i")
  case None
  then show "rescue_inv b \<Longrightarrow> revalidateLocked i cur b = (x, b') \<Longrightarrow> rescue_inv b'"
    by (auto simp: revalidateLocked_def split: if_splits)
next
  case (Some r)
  assume inv: "rescue_inv b" and res: "revalidateLocked i cur b = (x, b')"
  have "rescue_inv (bumpStat ReleasedBytes_update (r_bytes r) (dropReservation (\<lambda>s. s) r
      (if c then bumpStat FailureRecoveryExempted_update 1 b else bumpStat ProbeDataExempted_update 1 b)))" for c
    by (rule inv_drop [of _ i]) (use Some quiet_inv [OF _ inv] in \<open>auto simp: quiet_def\<close>)
  from this [of True] this [of False] show "rescue_inv b'"
    using res Some inv inv_release [OF inv] unfolding revalidateLocked_def Let_def by (auto split: if_splits)
qed

lemma inv_releaseRescue: "rescue_inv b \<Longrightarrow> releaseRescueLocked i reason b = (ok, b') \<Longrightarrow> rescue_inv b'"
  unfolding releaseRescueLocked_def by (auto split: if_splits option.splits intro: inv_release)

lemma inv_settleLocked:
  assumes inv: "rescue_inv b" and res: "settleLocked i a err at b = (e, b')"
  shows "rescue_inv b'"
proof (cases "mget (reservations b) i")
  case None
  then show ?thesis using assms by (auto simp: settleLocked_def split: if_splits)
next
  case (Some r)
  let ?b1 = "if a > r_bytes r then b_stats_update (OverAcceptedBytes_update (\<lambda>n. saturatingAdd n (a - r_bytes r))) b else b"
  let ?a = "if a > r_bytes r then r_bytes r else a"
  have q: "quiet b ?b1" by (simp add: quiet_def)
  have "rescue_inv (pruneLocked at (bumpStat ReleasedBytes_update (r_bytes r - ?a)
      (dropReservation (\<lambda>s. s\<lparr>lastResult := settleResult r ?a err\<rparr>) r (chargeAccepted r ?a at ?b1))))"
    by (intro inv_prune inv_settle [OF quiet_inv [OF q inv]]) (use Some q in \<open>auto simp: harmless_def\<close>)
  then show ?thesis
    using res Some inv
    by (cases "i = 0 \<or> \<not> started r")
      (auto simp: settleLocked_def split: if_splits, simp only: settleLocked_def Let_def option.case if_False simp_thms prod.inject)
qed

lemma inv_ack: "rescue_inv b \<Longrightarrow> rescue_inv (ackThroughLocked n b)"
  using records_ack [of "b_ackedNext b" "reservations b" "rescueRecords b"]
  by (simp add: ackThroughLocked_def Let_def rescue_inv_defs)

lemma inv_close: "rescue_inv b \<Longrightarrow> rescue_inv (closeRescueLocked b)"
  by (erule quiet_inv [rotated]) (simp add: quiet_def closeRescueLocked_def)

text \<open>Recording is called by the one transmit loop, with instants that do not go back, and a window holds less than
  \<open>2 ^ 64\<close> bytes.\<close>

definition recordFits :: "streamBoundedRescueBudget \<Rightarrow> u64 \<Rightarrow> gotime \<Rightarrow> bool" where
  "recordFits b n at \<longleftrightarrow> unat (windowOriginal b) + unat n < 2 ^ 64 \<and> (\<forall>e\<in>set (originalEvents b). ev_at e \<le> at)"

lemma inv_record:
  assumes inv: "rescue_inv b" and fits: "recordFits b n at" and res: "recordOriginalLocked seq n at b = (ok, b')"
  shows "rescue_inv b'"
proof (cases ok)
  case False
  then have "quiet b b'" using res by (auto simp: recordOriginalLocked_def quiet_def Let_def split: if_splits)
  then show ?thesis using inv by (rule quiet_inv)
next
  case True
  let ?b1 = "b\<lparr>lastOriginal := seq, hasOriginal := True, originalEvents := originalEvents b @ [\<lparr>ev_at = at, ev_bytes = n, ev_target = 0\<rparr>],
    windowOriginal := windowOriginal b + n\<rparr>"
  have b': "b' = pruneLocked at (if seq \<ge> b_ackedNext b \<and> mget (rescueRecords b) seq = None
      then ?b1\<lparr>rescueRecords := mput seq freshRecordState (rescueRecords b)\<rparr> else ?b1)"
    using res True by (auto simp: recordOriginalLocked_def Let_def split: if_splits)
  have "original_ok (originalEvents ?b1) (windowOriginal ?b1)"
    using inv fits by (auto simp: rescue_inv_def window_inv_def original_ok_def recordFits_def sorted_append unat_add_fits)
  then have "rescue_inv ?b1" using inv by (simp add: rescue_inv_defs)
  then have "rescue_inv (if seq \<ge> b_ackedNext b \<and> mget (rescueRecords b) seq = None
      then ?b1\<lparr>rescueRecords := mput seq freshRecordState (rescueRecords b)\<rparr> else ?b1)"
    using records_fresh [of "b_ackedNext b" "reservations b" "rescueRecords b" seq] by (simp add: rescue_inv_defs)
  then show ?thesis unfolding b' by (rule inv_prune)
qed

section \<open>A session\<close>

text \<open>
  The budget with a record of what happened so far: the originals it counted, the bytes carriers accepted, the
  carrier writes it let start, and the instants at which it was asked. The steps are its operations in any order.
\<close>

record rescue_session =
  rs_budget :: streamBoundedRescueBudget
  rs_originals :: "rescueByteEvent list"
  rs_accepted :: "rescueByteEvent list"
  rs_starts :: "(u64 \<times> rescueEpochKey) list"
  rs_times :: "gotime list"

definition newSession :: "streamBoundedRescueBudget \<Rightarrow> rescue_session" where
  "newSession b = \<lparr>rs_budget = b, rs_originals = [], rs_accepted = [], rs_starts = [], rs_times = []\<rparr>"

definition startedKey :: "u64 \<Rightarrow> streamBoundedRescueBudget \<Rightarrow> (u64 \<times> rescueEpochKey) list" where
  "startedKey i b = (case mget (reservations b) i of None \<Rightarrow> [] | Some r \<Rightarrow> [(r_seq r, r_key r)])"

definition settledEvents :: "u64 \<Rightarrow> u64 \<Rightarrow> gotime \<Rightarrow> streamBoundedRescueBudget \<Rightarrow> rescueByteEvent list" where
  "settledEvents i a at b =
     (case mget (reservations b) i of
        None \<Rightarrow> []
      | Some r \<Rightarrow> if i \<noteq> 0 \<and> started r \<and> min a (r_bytes r) > 0
                then [\<lparr>ev_at = at, ev_bytes = min a (r_bytes r), ev_target = r_target r\<rparr>] else [])"

inductive rescue_step :: "rescue_session \<Rightarrow> rescue_session \<Rightarrow> bool" where
  rs_record: "recordFits (rs_budget s) n at \<Longrightarrow> recordOriginalLocked seq n at (rs_budget s) = (ok, b') \<Longrightarrow>
     rescue_step s (s\<lparr>rs_budget := b', rs_times := rs_times s @ [at],
       rs_originals := rs_originals s @ (if ok then [\<lparr>ev_at = at, ev_bytes = n, ev_target = 0\<rparr>] else [])\<rparr>)"
| rs_reserve: "grantFits (rs_budget s) p \<Longrightarrow> reserveLocked e p at (rs_budget s) = (d, b') \<Longrightarrow>
     rescue_step s (s\<lparr>rs_budget := b', rs_times := rs_times s @ [at]\<rparr>)"
| rs_begin: "beginWriteDeferred i (rs_budget s) = (ok, b') \<Longrightarrow>
     rescue_step s (s\<lparr>rs_budget := b', rs_starts := rs_starts s @ (if ok then startedKey i (rs_budget s) else [])\<rparr>)"
| rs_revalidate: "revalidateLocked i cur (rs_budget s) = (x, b') \<Longrightarrow> rescue_step s (s\<lparr>rs_budget := b'\<rparr>)"
| rs_release: "releaseRescueLocked i reason (rs_budget s) = (ok, b') \<Longrightarrow> rescue_step s (s\<lparr>rs_budget := b'\<rparr>)"
| rs_settle: "settleLocked i a err at (rs_budget s) = (e', b') \<Longrightarrow>
     rescue_step s (s\<lparr>rs_budget := b', rs_times := rs_times s @ [at],
       rs_accepted := rs_accepted s @ settledEvents i a at (rs_budget s)\<rparr>)"
| rs_ack: "rescue_step s (s\<lparr>rs_budget := ackThroughLocked n (rs_budget s)\<rparr>)"
| rs_close: "rescue_step s (s\<lparr>rs_budget := closeRescueLocked (rs_budget s)\<rparr>)"
| rs_snapshot: "snapshotLocked at (rs_budget s) = (out, b') \<Longrightarrow>
     rescue_step s (s\<lparr>rs_budget := b', rs_times := rs_times s @ [at]\<rparr>)"

lemma inv_step: "rescue_inv (rs_budget s) \<Longrightarrow> rescue_step s t \<Longrightarrow> rescue_inv (rs_budget t)"
  by (erule rescue_step.cases)
    (auto intro: inv_record inv_reserve inv_begin inv_revalidate inv_releaseRescue inv_settleLocked inv_ack inv_close inv_prune
      simp: snapshotLocked_def Let_def)

lemma inv_new:
  assumes "newStreamBoundedRescueBudget cfg chunk hook rnd = Inr b" and "unat chunk < 2 ^ 63"
  shows "rescue_inv b" and "b_config b = cfg"
proof -
  have "validBoundedRescueBasisPoints (BudgetBasisPoints cfg)" "c_BurstBytes cfg \<le> chunk"
    and b: "b_config b = cfg" "acceptedEvents b = []" "originalEvents b = []" "windowOriginal b = 0" "windowAccepted b = 0"
    "acceptedByLeg b = [0, 0]" "baseReserved b = 0" "burstReserved b = 0" "burstCommitted b = 0" "reservations b = []" "rescueRecords b = []"
    "ReservedBytes (b_stats b) = 0" "ReleasedBytes (b_stats b) = 0" "CarrierAcceptedBytes (b_stats b) = 0"
    using assms(1) unfolding newStreamBoundedRescueBudget_def
    by (auto simp: not_less emptyRescueStats_def split: if_splits sum.splits)
  then have "unat (BudgetBasisPoints cfg) \<le> 909" "unat (c_BurstBytes cfg) < 2 ^ 63"
    using assms(2) by (auto simp: validBoundedRescueBasisPoints_def word_le_nat_alt)
  then show "rescue_inv b" "b_config b = cfg"
    by (simp_all add: rescue_inv_defs b records_inv_def original_ok_def accepted_ok_def isHeap_def)
qed

subsection \<open>What the window remembers\<close>

abbreviation inWindow :: "gotime \<Rightarrow> rescueByteEvent \<Rightarrow> bool" where
  "inWindow t e \<equiv> t - streamBoundedRescueWindow < ev_at e"

text \<open>For an instant not before any earlier one, the events kept are those of the session within its window.\<close>

definition remembers ::
  "gotime list \<Rightarrow> streamBoundedRescueBudget \<Rightarrow> rescueByteEvent list \<Rightarrow> rescueByteEvent list \<Rightarrow> bool" where
  "remembers T b originals accepted \<longleftrightarrow>
     (\<forall>t. (\<forall>t'\<in>set T. t' \<le> t) \<longrightarrow>
        filter (inWindow t) (originalEvents b) = filter (inWindow t) originals \<and>
        filter_mset (inWindow t) (mset (acceptedEvents b)) = filter_mset (inWindow t) (mset accepted))"

lemma remembers_same:
  assumes "remembers T b Os A" and "originalEvents b' = originalEvents b" and "mset (acceptedEvents b') = mset (acceptedEvents b)"
  shows "remembers (T @ U) b' Os A"
  using assms by (simp add: remembers_def)

lemma remembers_prune:
  assumes mem: "remembers T b Os A" and win: "window_inv b"
  shows "remembers (T @ [at]) (pruneLocked at b) Os A"
  unfolding remembers_def
proof (intro allI impI)
  fix t assume t: "\<forall>t'\<in>set (T @ [at]). t' \<le> t"
  then have "(\<lambda>e. inWindow at e \<and> inWindow t e) = inWindow t" by auto
  then show "filter (inWindow t) (originalEvents (pruneLocked at b)) = filter (inWindow t) Os \<and>
      filter_mset (inWindow t) (mset (acceptedEvents (pruneLocked at b))) = filter_mset (inWindow t) (mset A)"
    using mem t by (simp add: pruneLocked_window [OF win] filter_filter_mset remembers_def)
qed

lemma remembers_add:
  assumes "remembers T b Os A" and "originalEvents b' = originalEvents b @ os" and "mset (acceptedEvents b') = mset (acceptedEvents b) + mset as"
  shows "remembers T b' (Os @ os) (A @ as)"
  using assms by (simp add: remembers_def)

lemma remembers_record:
  assumes mem: "remembers T b Os A" and inv: "rescue_inv b" and fits: "recordFits b n at" and res: "recordOriginalLocked seq n at b = (ok, b')"
  shows "remembers (T @ [at]) b' (Os @ (if ok then [\<lparr>ev_at = at, ev_bytes = n, ev_target = 0\<rparr>] else [])) A"
proof (cases ok)
  case False
  then have "originalEvents b' = originalEvents b" "acceptedEvents b' = acceptedEvents b"
    using res by (auto simp: recordOriginalLocked_def Let_def split: if_splits)
  then show ?thesis using False remembers_same [OF mem, of b' "[at]"] by simp
next
  case True
  then obtain b1 where b': "b' = pruneLocked at b1" and o: "originalEvents b1 = originalEvents b @ [\<lparr>ev_at = at, ev_bytes = n, ev_target = 0\<rparr>]"
    "windowOriginal b1 = windowOriginal b + n" "acceptedEvents b1 = acceptedEvents b" "windowAccepted b1 = windowAccepted b" "acceptedByLeg b1 = acceptedByLeg b"
    using res by (auto simp: recordOriginalLocked_def Let_def split: if_splits)
  have "window_inv b1"
    using inv fits by (auto simp: rescue_inv_def window_inv_def original_ok_def recordFits_def sorted_append unat_add_fits o)
  then show ?thesis
    using remembers_prune [OF remembers_add [OF mem o(1), of "[]"]] True o(3) by (simp add: b')
qed

lemma quiet_events: "quiet b b' \<Longrightarrow> originalEvents b' = originalEvents b \<and> acceptedEvents b' = acceptedEvents b"
  by (simp add: quiet_def)

lemma remembers_reserve:
  assumes mem: "remembers T b Os A" and inv: "rescue_inv b" and res: "reserveLocked e p at b = (d, b')"
  shows "remembers (T @ [at]) b' Os A"
proof -
  note f = observe_fields [OF surjective_pairing]
  have o: "remembers T (observed e p at b) Os A" by (rule remembers_same [OF mem, where U = "[]", simplified]) (simp_all add: f)
  have "window_inv (observed e p at b)" using inv_observe [OF inv] by (simp add: rescue_inv_def)
  note pr = remembers_prune [OF o this, of at]
  show ?thesis
    using res
  proof (cases rule: reserveLocked_cases)
    case quiet
    then show ?thesis using quiet_events remembers_same [OF o, of b' "[at]"] by simp
  next
    case budget
    then show ?thesis using quiet_events [OF budget(8)] remembers_same [OF pr, of b' "[]"] by simp
  next
    case (granted s parts b1 el)
    then show ?thesis
      using quiet_events [OF granted(8)] remembers_same [OF pr, of b' "[]"] by (simp add: grantReservation_def Let_def)
  qed
qed

lemma releaseLocked_events:
  "originalEvents (releaseLocked r reason b) = originalEvents b" "acceptedEvents (releaseLocked r reason b) = acceptedEvents b"
  by (simp_all add: releaseLocked_def rejectReasonLocked_def)

lemma remembers_settle:
  assumes mem: "remembers T b Os A" and inv: "rescue_inv b" and res: "settleLocked i a err at b = (e, b')"
  shows "remembers (T @ [at]) b' Os (A @ settledEvents i a at b)"
proof (cases "i \<noteq> 0 \<and> (\<exists>r. mget (reservations b) i = Some r \<and> started r)")
  case False
  then have "b' = b" "settledEvents i a at b = []"
    using res by (auto simp: settleLocked_def settledEvents_def split: option.splits if_splits)
  then show ?thesis using remembers_same [OF mem, of b "[at]"] by simp
next
  case True
  then obtain r where r: "mget (reservations b) i = Some r" "started r" "i \<noteq> 0" by auto
  let ?b1 = "if a > r_bytes r then b_stats_update (OverAcceptedBytes_update (\<lambda>n. saturatingAdd n (a - r_bytes r))) b else b"
  define c where "c = (if a > r_bytes r then r_bytes r else a)"
  have c: "c = min a (r_bytes r)" by (auto simp: c_def min_def)
  define b3 where "b3 = bumpStat ReleasedBytes_update (r_bytes r - c)
      (dropReservation (\<lambda>s. s\<lparr>lastResult := settleResult r c err\<rparr>) r (chargeAccepted r c at ?b1))"
  have b': "b' = pruneLocked at b3" using res r unfolding settleLocked_def Let_def b3_def c_def by auto
  have "rescue_inv b3"
    unfolding b3_def
    by (rule inv_settle [OF quiet_inv [of b, OF _ inv]]) (use r c in \<open>auto simp: quiet_def harmless_def\<close>)
  then have win: "window_inv b3" by (simp add: rescue_inv_def)
  have "originalEvents b3 = originalEvents b @ []" by (simp add: b3_def)
  moreover have "mset (acceptedEvents b3) = mset (acceptedEvents b) + mset (settledEvents i a at b)"
    using r by (simp add: b3_def chargeAccepted_def Let_def settledEvents_def ehq.ins_items flip: c)
  ultimately show ?thesis
    unfolding b' using remembers_prune [OF remembers_add [OF mem] win, of "[]"] by simp
qed

subsection \<open>Which writes have started\<close>

text \<open>A used epoch stays used until its sequence is acknowledged.\<close>

definition isUsed :: "streamBoundedRescueBudget \<Rightarrow> u64 \<times> rescueEpochKey \<Rightarrow> bool" where
  "isUsed b x \<longleftrightarrow> fst x < b_ackedNext b \<or> (\<exists>s. mget (rescueRecords b) (fst x) = Some s \<and> mget (usedByEpoch s) (snd x) \<noteq> None)"

definition keepsUsed :: "streamBoundedRescueBudget \<Rightarrow> streamBoundedRescueBudget \<Rightarrow> bool" where
  "keepsUsed b b' \<longleftrightarrow> b_config b' = b_config b \<and> (\<forall>x. isUsed b x \<longrightarrow> isUsed b' x)"

lemma keepsUsed_trans: "keepsUsed a b \<Longrightarrow> keepsUsed b c \<Longrightarrow> keepsUsed a c"
  by (simp add: keepsUsed_def)

lemma keepsUsed_refl [simp]: "keepsUsed b b"
  by (simp add: keepsUsed_def)

lemma keepsUsed_stat: "keepsUsed b c \<Longrightarrow> keepsUsed b (b_stats_update f c)"
  by (simp add: keepsUsed_def isUsed_def)

lemma keepsUsed_quiet: "quiet b b' \<Longrightarrow> keepsUsed b b'"
  by (simp add: quiet_def keepsUsed_def isUsed_def)

lemma keepsUsed_prune [simp]: "keepsUsed b (pruneLocked at b)"
  by (simp add: keepsUsed_def isUsed_def)

text \<open>Writing a record that keeps its used epochs.\<close>

lemma keepsUsed_put:
  assumes "b_config b' = b_config b" and "b_ackedNext b' = b_ackedNext b" and "rescueRecords b' = mput q s' (rescueRecords b)"
    and "\<And>s k. mget (rescueRecords b) q = Some s \<Longrightarrow> mget (usedByEpoch s) k \<noteq> None \<Longrightarrow> mget (usedByEpoch s') k \<noteq> None"
  shows "keepsUsed b b'"
  unfolding keepsUsed_def isUsed_def using assms by auto

lemma keepsUsed_observe: "keepsUsed b (observed e p at b)"
  unfolding observeCandidate_def Let_def linkCandidate_def
  by (auto split: option.splits intro: keepsUsed_put) (auto simp: keepsUsed_def isUsed_def)

lemma keepsUsed_drop:
  assumes t: "harmless touch" and rec: "records_inv (b_ackedNext b) (reservations b) (rescueRecords b)"
  shows "keepsUsed b (dropReservation touch r b)"
proof (cases "mget (rescueRecords b) (r_seq r)")
  case None
  then show ?thesis
    by (simp add: keepsUsed_def isUsed_def dropReservation_def releaseAccountingLocked_def Let_def)
next
  case (Some s)
  have "acked s \<longleftrightarrow> r_seq r < b_ackedNext b" using records_invD(2) [OF rec Some] by (simp add: rec_ok_def)
  then show ?thesis
    using t Some
    by (auto simp: keepsUsed_def isUsed_def dropReservation_def releaseAccountingLocked_def maybeDeleteRecordLocked_def
        clearPending_def harmless_def Let_def)
qed

lemma keepsUsed_release: "rescue_inv b \<Longrightarrow> keepsUsed b (releaseLocked r reason b)"
  unfolding releaseLocked_def rejectReasonLocked_def
  by (auto intro!: keepsUsed_stat keepsUsed_drop simp: harmless_def rescue_inv_def)

lemma keepsUsed_settle:
  assumes inv: "rescue_inv b" and res: "settleLocked i a err at b = (e, b')"
  shows "keepsUsed b b'"
proof (cases "mget (reservations b) i")
  case None
  then show ?thesis using res by (auto simp: settleLocked_def split: if_splits)
next
  case (Some r)
  let ?b1 = "if a > r_bytes r then b_stats_update (OverAcceptedBytes_update (\<lambda>n. saturatingAdd n (a - r_bytes r))) b else b"
  let ?a = "if a > r_bytes r then r_bytes r else a"
  let ?touch = "\<lambda>s. s\<lparr>lastResult := settleResult r ?a err\<rparr>"
  have "keepsUsed b (chargeAccepted r ?a at ?b1)" by (simp add: keepsUsed_def isUsed_def)
  moreover have "keepsUsed (chargeAccepted r ?a at ?b1) (dropReservation ?touch r (chargeAccepted r ?a at ?b1))"
    by (rule keepsUsed_drop) (use inv in \<open>simp_all add: harmless_def rescue_inv_def\<close>)
  moreover have "keepsUsed c (pruneLocked at (bumpStat ReleasedBytes_update n c))" for c n
    by (rule keepsUsed_trans [of _ "bumpStat ReleasedBytes_update n c"]) (simp_all add: keepsUsed_def isUsed_def)
  ultimately have "keepsUsed b (pruneLocked at (bumpStat ReleasedBytes_update (r_bytes r - ?a)
      (dropReservation ?touch r (chargeAccepted r ?a at ?b1))))"
    using keepsUsed_trans by blast
  then show ?thesis
    using res Some
    by (cases "i = 0 \<or> \<not> started r")
      (auto simp: settleLocked_def split: if_splits, simp only: settleLocked_def Let_def option.case if_False simp_thms prod.inject)
qed

lemma keepsUsed_revalidate:
  assumes inv: "rescue_inv b" and res: "revalidateLocked i cur b = (x, b')"
  shows "keepsUsed b b'"
proof -
  have "keepsUsed b (bumpStat ReleasedBytes_update n (dropReservation (\<lambda>s. s) r c))" if "quiet b c" for r c n
  proof -
    have "rescue_inv c" by (rule quiet_inv [OF that inv])
    then have "keepsUsed c (dropReservation (\<lambda>s. s) r c)" by (intro keepsUsed_drop) (simp_all add: harmless_def rescue_inv_def)
    then show ?thesis by (intro keepsUsed_stat keepsUsed_trans [OF keepsUsed_quiet [OF that]])
  qed
  note ex = this [of "bumpStat FailureRecoveryExempted_update 1 b"] this [of "bumpStat ProbeDataExempted_update 1 b"]
  show ?thesis
    using res ex keepsUsed_release [OF inv] unfolding revalidateLocked_def Let_def
    by (auto simp: quiet_def split: if_splits option.splits)
qed

lemma keepsUsed_reserve:
  assumes res: "reserveLocked e p at b = (d, b')"
  shows "keepsUsed b b'"
  using res
proof (cases rule: reserveLocked_cases)
  case quiet
  then show ?thesis using keepsUsed_trans [OF keepsUsed_observe keepsUsed_quiet] by blast
next
  case budget
  then show ?thesis using keepsUsed_trans [OF keepsUsed_observe keepsUsed_trans [OF keepsUsed_prune keepsUsed_quiet]] by blast
next
  case (granted s parts b1 el)
  have "keepsUsed b b1"
    using keepsUsed_trans [OF keepsUsed_observe keepsUsed_trans [OF keepsUsed_prune keepsUsed_quiet]] granted(8) by blast
  moreover have "keepsUsed b1 b'"
    unfolding granted(14) using granted(9)
    by (intro keepsUsed_put [where q = "Sequence e" and s' = "s\<lparr>pendingByEpoch := mput (evidenceKey e) (nextReservation b1 + 1) (pendingByEpoch s)\<rparr>"])
      (auto simp: grantReservation_def Let_def)
  ultimately show ?thesis by (rule keepsUsed_trans)
qed

lemma keepsUsed_record: "recordOriginalLocked seq n at b = (ok, b') \<Longrightarrow> keepsUsed b b'"
  unfolding recordOriginalLocked_def Let_def
  by (auto split: if_splits simp: keepsUsed_def isUsed_def)

lemma keepsUsed_ack:
  assumes "rescue_inv b"
  shows "keepsUsed b (ackThroughLocked n b)"
proof -
  define m where "m = (if n > b_ackedNext b then n else b_ackedNext b)"
  have "mwf (rescueRecords b)" using assms by (simp add: rescue_inv_def records_inv_def)
  note get = ackRecords_get [OF this, of m]
  have le: "b_ackedNext b \<le> m" by (auto simp: m_def)
  have "isUsed (ackThroughLocked n b) x" if "isUsed b x" for x
    using that le get [of "fst x"]
    by (cases "fst x < m") (auto simp: isUsed_def ackThroughLocked_def Let_def m_def [symmetric] dest: less_le_trans)
  then show ?thesis by (simp add: keepsUsed_def ackThroughLocked_def Let_def)
qed

text \<open>A write that starts was not used before and is used afterwards.\<close>

lemma begin_uses:
  assumes inv: "rescue_inv b" and res: "beginWriteDeferred i b = (ok, b')"
  shows "keepsUsed b b'"
    and "ok \<Longrightarrow> startedKey i b = [x] \<Longrightarrow> isUsed b' x"
    and "ok \<Longrightarrow> factorMode (b_config b) \<noteq> boundedRescueFactorCOnly \<Longrightarrow> startedKey i b = [x] \<Longrightarrow> \<not> isUsed b x"
proof -
  show "keepsUsed b b'"
  proof (cases ok)
    case True
    then obtain r s where "mget (rescueRecords b) (r_seq r) = Some s" "b' = startWrite r s b"
      using res unfolding beginWriteDeferred_def by (auto split: if_splits option.splits)
    then show ?thesis
      by (intro keepsUsed_put [where q = "r_seq r" and s' = "s\<lparr>usedByEpoch := mput (r_key r) () (usedByEpoch s), lifetimeAttempt := lifetimeAttempt s + 1\<rparr>"])
        (auto simp: startWrite_def Let_def)
  next
    case False
    then show ?thesis using res keepsUsed_release [OF inv] unfolding beginWriteDeferred_def by (auto split: if_splits option.splits)
  qed
  assume ok and x: "startedKey i b = [x]"
  then obtain r s where r: "mget (reservations b) i = Some r" "mget (rescueRecords b) (r_seq r) = Some s" "b' = startWrite r s b"
    "\<not> r_seq r < b_ackedNext b" "factorMode (b_config b) \<noteq> boundedRescueFactorCOnly \<longrightarrow> mget (usedByEpoch s) (r_key r) = None"
    using res unfolding beginWriteDeferred_def by (auto simp: unit_option split: if_splits option.splits)
  have "x = (r_seq r, r_key r)" using x r(1) by (simp add: startedKey_def)
  then show "isUsed b' x" "factorMode (b_config b) \<noteq> boundedRescueFactorCOnly \<Longrightarrow> \<not> isUsed b x"
    using r by (auto simp: isUsed_def startWrite_def Let_def)
qed

definition starts_inv :: "streamBoundedRescueBudget \<Rightarrow> (u64 \<times> rescueEpochKey) list \<Rightarrow> bool" where
  "starts_inv b L \<longleftrightarrow> (factorMode (b_config b) \<noteq> boundedRescueFactorCOnly \<longrightarrow> distinct L) \<and> (\<forall>x\<in>set L. isUsed b x)"

lemma starts_keep: "starts_inv b L \<Longrightarrow> keepsUsed b b' \<Longrightarrow> starts_inv b' L"
  by (auto simp: starts_inv_def keepsUsed_def)

lemma starts_begin:
  assumes "starts_inv b L" and inv: "rescue_inv b" and res: "beginWriteDeferred i b = (ok, b')"
  shows "starts_inv b' (L @ (if ok then startedKey i b else []))"
proof (cases "ok \<and> startedKey i b \<noteq> []")
  case True
  then obtain x where x: "startedKey i b = [x]" by (auto simp: startedKey_def split: option.splits)
  note u = begin_uses [OF inv res]
  have "b_config b' = b_config b" using u(1) by (simp add: keepsUsed_def)
  then show ?thesis
    using True x starts_keep [OF assms(1) u(1)] u(2) [OF _ x] u(3) [OF _ _ x] assms(1) by (auto simp: starts_inv_def)
qed (use starts_keep [OF assms(1) begin_uses(1) [OF inv res]] in auto)

definition session_inv :: "rescue_session \<Rightarrow> bool" where
  "session_inv s \<longleftrightarrow>
     rescue_inv (rs_budget s) \<and> remembers (rs_times s) (rs_budget s) (rs_originals s) (rs_accepted s) \<and>
     starts_inv (rs_budget s) (rs_starts s)"

lemma step_keepsUsed:
  assumes inv: "rescue_inv (rs_budget s)" and "rescue_step s t"
  shows "keepsUsed (rs_budget s) (rs_budget t)"
  using assms(2)
proof cases
  case (rs_release i reason ok b')
  then show ?thesis using keepsUsed_release [OF inv] by (auto simp: releaseRescueLocked_def split: if_splits option.splits)
next
  case rs_close
  have "quiet (rs_budget s) (closeRescueLocked (rs_budget s))" by (simp add: quiet_def closeRescueLocked_def)
  then show ?thesis using rs_close keepsUsed_quiet by simp
next
  case (rs_snapshot at out b')
  then show ?thesis by (auto simp: snapshotLocked_def Let_def)
qed (use keepsUsed_record keepsUsed_reserve begin_uses(1) [OF inv] keepsUsed_revalidate [OF inv] keepsUsed_settle [OF inv]
    keepsUsed_ack [OF inv] in auto)

lemma step_remembers:
  assumes mem: "remembers (rs_times s) (rs_budget s) (rs_originals s) (rs_accepted s)" and inv: "rescue_inv (rs_budget s)"
    and "rescue_step s t"
  shows "remembers (rs_times t) (rs_budget t) (rs_originals t) (rs_accepted t)"
proof -
  note same = remembers_same [OF mem, where U = "[]", simplified]
  show ?thesis
    using assms(3)
  proof cases
    case (rs_begin i ok b')
    have "originalEvents b' = originalEvents (rs_budget s)" "acceptedEvents b' = acceptedEvents (rs_budget s)"
      using rs_begin(2) unfolding beginWriteDeferred_def by (auto simp: releaseLocked_events startWrite_def Let_def split: if_splits option.splits)
    then show ?thesis using rs_begin(1) same by simp
  next
    case (rs_revalidate i cur x b')
    have "originalEvents b' = originalEvents (rs_budget s)" "acceptedEvents b' = acceptedEvents (rs_budget s)"
      using rs_revalidate(2) unfolding revalidateLocked_def Let_def by (auto simp: releaseLocked_events split: if_splits option.splits)
    then show ?thesis using rs_revalidate(1) same by simp
  next
    case (rs_release i reason ok b')
    have "originalEvents b' = originalEvents (rs_budget s)" "acceptedEvents b' = acceptedEvents (rs_budget s)"
      using rs_release(2) unfolding releaseRescueLocked_def by (auto simp: releaseLocked_events split: if_splits option.splits)
    then show ?thesis using rs_release(1) same by simp
  next
    case (rs_snapshot at out b')
    have "window_inv (rs_budget s)" using inv by (simp add: rescue_inv_def)
    from remembers_prune [OF mem this, of at] show ?thesis using rs_snapshot by (simp add: snapshotLocked_def Let_def)
  qed (use remembers_record [OF mem inv] remembers_reserve [OF mem inv] remembers_settle [OF mem inv] same
      in \<open>auto simp: ackThroughLocked_def closeRescueLocked_def Let_def\<close>)
qed

lemma step_starts:
  assumes "starts_inv (rs_budget s) (rs_starts s)" and "rescue_inv (rs_budget s)" and "rescue_step s t"
  shows "starts_inv (rs_budget t) (rs_starts t)"
  using assms(3) starts_keep [OF assms(1) step_keepsUsed [OF assms(2,3)]] starts_begin [OF assms(1,2)]
  by cases auto

lemma session_step: "session_inv s \<Longrightarrow> rescue_step s t \<Longrightarrow> session_inv t"
  unfolding session_inv_def using inv_step step_remembers step_starts by blast

interpretation rbl: invariant_run session_inv rescue_step
  by unfold_locales (rule session_step)

lemma session_new:
  assumes "newStreamBoundedRescueBudget cfg chunk hook rnd = Inr b" and "unat chunk < 2 ^ 63"
  shows "session_inv (newSession b)"
  using inv_new(1) [OF assms] by (simp add: session_inv_def newSession_def remembers_def starts_inv_def)
    (use assms(1) in \<open>auto simp: newStreamBoundedRescueBudget_def split: if_splits sum.splits\<close>)

lemma session_config:
  assumes run: "rescue_step\<^sup>*\<^sup>* (newSession b) s" and new: "newStreamBoundedRescueBudget cfg chunk hook rnd = Inr b" "unat chunk < 2 ^ 63"
  shows "session_inv s" and "b_config (rs_budget s) = cfg"
proof -
  note i = session_new [OF new]
  show "session_inv s" by (rule rbl.run_inv [OF run i])
  show "b_config (rs_budget s) = cfg"
  proof (rule rbl.run_stable [OF run i])
    show "b_config (rs_budget (newSession b)) = cfg" using inv_new(2) [OF new] by (simp add: newSession_def)
    show "b_config (rs_budget t') = cfg" if "session_inv t" "b_config (rs_budget t) = cfg" "rescue_step t t'" for t t'
      using step_keepsUsed [OF _ that(3)] that(1,2) by (simp add: session_inv_def keepsUsed_def)
  qed
qed

lemma msum_add: "msum (\<lambda>k v. f k v + g k v) m = msum f m + (msum g m :: nat)"
  by (induction m) (auto simp: msum_def)

lemma reserved_total:
  assumes "rescue_inv b"
  shows "msum (\<lambda>_ r. unat (r_bytes r)) (reservations b) = unat (baseReserved b) + unat (burstReserved b)"
proof -
  have wf: "mwf (reservations b)" and e: "entries_inv b" using assms by (simp_all add: rescue_inv_def acct_inv_def)
  have "msum (\<lambda>_ r. unat (r_bytes r)) (reservations b) = msum (\<lambda>_ r. unat (baseBytes r) + unat (burstBytes r)) (reservations b)"
    by (rule msum_cong) (use e in_mget [OF wf] in \<open>metis entries_inv_def\<close>)
  then show ?thesis using assms by (simp add: msum_add rescue_inv_def acct_inv_def)
qed

lemma remembered_bytes:
  assumes "remembers T b Os A" and "\<forall>t\<in>set T. t \<le> at"
  shows "bytesOf (inWindow at) (mset (acceptedEvents b)) = bytesOf (inWindow at) (mset A)"
    and "bytesOf (inWindow at) (mset (originalEvents b)) = bytesOf (inWindow at) (mset Os)"
  using assms unfolding remembers_def bytesOf_def by (simp_all flip: mset_filter)

section \<open>The guarantees\<close>

text \<open>C34: The rolling budget of bounded rescue holds over a session. Whatever operations ran before, in any order, when
  \<open>Reserve\<close> in the full policy admits a rescue that is not exempt, the rescue bytes that carriers accepted in the last 60
  seconds together with everything now reserved stay within the configured share of the original bytes of those 60 seconds
  plus the lifetime burst. The admission's instant must not lie before an earlier one, and reservation ids must not have wrapped.\<close>

theorem rescue_within_budget:
  assumes new: "newStreamBoundedRescueBudget cfg chunk hook rnd = Inr b0" "unat chunk < 2 ^ 63"
    and full: "factorMode cfg = boundedRescueFactorFull" and run: "rescue_step\<^sup>*\<^sup>* (newSession b0) s"
    and res: "Reserve (Some (rs_budget s)) e p at = (d, Some b')" and adm: "ad_Admitted d" "\<not> ad_Exempt d"
    and clock: "\<forall>t\<in>set (rs_times s). t \<le> at" and ids: "nextReservation (rs_budget s) + 1 \<noteq> 0"
  shows "bytesOf (inWindow at) (mset (rs_accepted s)) + msum (\<lambda>_ r. unat (r_bytes r)) (reservations b')
    \<le> bytesOf (inWindow at) (mset (rs_originals s)) * unat (BudgetBasisPoints cfg) div 10000 + unat (c_BurstBytes cfg)"
proof -
  let ?b = "rs_budget s"
  note sess = session_config [OF run new]
  have inv: "rescue_inv ?b" and mem: "remembers (rs_times s) ?b (rs_originals s) (rs_accepted s)"
    using sess(1) by (simp_all add: session_inv_def)
  have res': "reserveLocked e p at ?b = (d, b')" using res by (auto split: prod.splits)
  have fits: "grantFits ?b p" using ids full sess(2) by (simp add: grantFits_def)
  have total: "msum (\<lambda>_ r. unat (r_bytes r)) (reservations b') = unat (baseReserved b') + unat (burstReserved b')"
    by (rule reserved_total [OF inv_reserve [OF inv fits res']])
  show ?thesis
    using res'
  proof (cases rule: reserveLocked_cases)
    case (granted r parts b1 el)
    obtain x y where xy: "parts = (x, y)" by fastforce
    note f = observe_fields [OF surjective_pairing]
    have i1: "rescue_inv (observed e p at ?b)" by (rule inv_observe [OF inv])
    then have b1: "rescue_inv b1" using quiet_inv [OF granted(8) inv_prune] by blast
    have w: "unat (windowAccepted b1) = bytesOf (inWindow at) (mset (rs_accepted s))"
      "unat (windowOriginal b1) = bytesOf (inWindow at) (mset (rs_originals s))"
      using prune_windowAccepted(1,2) [of "observed e p at ?b" at] i1 granted(8) remembered_bytes [OF mem clock]
      by (simp_all add: rescue_inv_def quiet_def f)
    have cfg: "b_config b1 = cfg" using granted(8) sess(2) by (simp add: quiet_def f)
    have ac: "acct_inv b1" "config_inv b1" using b1 by (simp_all add: rescue_inv_def)
    note p = reserveParts_Some [OF granted(13) [unfolded xy] _ used_fits [OF ac]]
    have base: "unat (baseReserved b1 + x) \<le> unat (baseReserved b1) + unat x" "unat (burstReserved b1 + y) \<le> unat (burstReserved b1) + unat y"
      by (simp_all add: unat_word_ariths)
    have "unat (baseReserved b') + unat (burstReserved b') \<le> unat (baseReserved b1) + unat x + (unat (burstReserved b1) + unat y)"
      using base by (simp add: granted(14) xy grantReservation_def Let_def)
    moreover have "unat (burstCommitted b1) + unat (burstReserved b1) \<le> unat (c_BurstBytes cfg)" using ac(1) cfg by (simp add: acct_inv_def)
    moreover have "0 < unat p" using granted(4) by (simp add: unat_gt_0)
    moreover note p(1-3)
    ultimately show ?thesis using full unfolding total w [symmetric] cfg by linarith
  qed (use adm in auto)
qed


text \<open>C36: The accounting of bounded rescue is exact at every moment of a session. The reserved counters are the sums over
  the reservation table, the window counters are the sums over the kept events (per target leg too), burst tokens committed
  for life and reserved never exceed the configured burst, and every byte ever reserved is released, accepted by a carrier,
  or still reserved (a balance of 64-bit counters).\<close>

theorem rescue_accounting:
  assumes new: "newStreamBoundedRescueBudget cfg chunk hook rnd = Inr b0" "unat chunk < 2 ^ 63"
    and run: "rescue_step\<^sup>*\<^sup>* (newSession b0) s" and b: "b = rs_budget s"
  shows "unat (baseReserved b) + unat (burstReserved b) = msum (\<lambda>_ r. unat (r_bytes r)) (reservations b) \<and>
    unat (burstCommitted b) + unat (burstReserved b) \<le> unat (c_BurstBytes cfg) \<and>
    unat (windowOriginal b) = allBytes (mset (originalEvents b)) \<and> unat (windowAccepted b) = allBytes (mset (acceptedEvents b)) \<and>
    unat (acceptedByLeg b ! 0) = legBytes 0 (mset (acceptedEvents b)) \<and> unat (acceptedByLeg b ! 1) = legBytes 1 (mset (acceptedEvents b)) \<and>
    ReservedBytes (b_stats b) = ReleasedBytes (b_stats b) + CarrierAcceptedBytes (b_stats b) + msum (\<lambda>_ r. r_bytes r) (reservations b)"
proof -
  have inv: "rescue_inv b" and cfg: "b_config b = cfg" using session_config [OF run new] by (simp_all add: session_inv_def b)
  have "unat (baseReserved b) + unat (burstReserved b) = msum (\<lambda>_ r. unat (r_bytes r)) (reservations b)"
    using reserved_total [OF inv] by simp
  moreover have "unat (burstCommitted b) + unat (burstReserved b) \<le> unat (c_BurstBytes cfg)" using inv cfg by (simp add: rescue_inv_defs)
  ultimately show ?thesis
    using inv by (simp add: rescue_inv_def window_inv_def original_ok_def accepted_ok_def balance_inv_def)
qed

lemma rolling_room:
  assumes inv: "rescue_inv b" and p: "p \<noteq> 0"
  shows "rollingBudgetEligibleLocked b p at \<longleftrightarrow>
    unat p \<le> rescueRoom (quotaOf b (bytesOf (inWindow at) (mset (originalEvents b))))
      (bytesOf (inWindow at) (mset (acceptedEvents b)) + unat (baseReserved b))
      (unat (c_BurstBytes (b_config b))) (unat (burstCommitted b) + unat (burstReserved b))"
proof -
  have parts: "acct_inv b" "config_inv b" "window_inv b" using inv by (simp_all add: rescue_inv_def)
  note u = used_fits [OF parts(1,2)]
  let ?c = "at - streamBoundedRescueWindow"
  have le: "bytesOf (inWindow at) (mset (acceptedEvents b)) \<le> unat (windowAccepted b)"
    "bytesOf (inWindow at) (mset (originalEvents b)) \<le> unat (windowOriginal b)"
    using parts(3) bytesOf_le by (simp_all add: window_inv_def accepted_ok_def original_ok_def)
  have a: "unat (windowSum ?c (acceptedEvents b)) = bytesOf (inWindow at) (mset (acceptedEvents b))"
    and o: "unat (windowSum ?c (originalEvents b)) = bytesOf (inWindow at) (mset (originalEvents b))"
    using le u64_less [of "windowAccepted b"] u64_less [of "windowOriginal b"] by (simp_all add: windowSum_exact)
  have fits: "unat (windowSum ?c (acceptedEvents b)) + unat (baseReserved b) < 2 ^ 64" using le(1) u(1) unfolding a by linarith
  show ?thesis
    using p by (simp add: rollingBudgetEligibleLocked_def Let_def lowerBy_forms available_exact [OF fits u(2)]
        unat_boundedRescueRatio [OF u(3)] a o)
qed

text \<open>C37: The observational eligibility check and the decision are the same function. In the full policy \<open>Reserve\<close>, which
  prunes the windows and then uses its running counters, finds room for a payload exactly when
  \<open>rollingBudgetEligibleLocked\<close>, which re-adds the kept events without changing anything, reports it eligible at that instant.\<close>

theorem rescue_eligibility_agrees:
  assumes new: "newStreamBoundedRescueBudget cfg chunk hook rnd = Inr b0" "unat chunk < 2 ^ 63"
    and full: "factorMode cfg = boundedRescueFactorFull" and run: "rescue_step\<^sup>*\<^sup>* (newSession b0) s" and p: "p \<noteq> 0"
  shows "rollingBudgetEligibleLocked (rs_budget s) p at \<longleftrightarrow> reserveParts (pruneLocked at (rs_budget s)) p \<noteq> None"
proof -
  let ?b = "rs_budget s"
  have inv: "rescue_inv ?b" and cfg: "b_config ?b = cfg" using session_config [OF run new] by (simp_all add: session_inv_def)
  then have parts: "acct_inv (pruneLocked at ?b)" "config_inv (pruneLocked at ?b)" "window_inv ?b"
    using inv_prune [OF inv, of at] by (simp_all add: rescue_inv_def)
  show ?thesis
    using reserveParts_None [OF used_fits [OF parts(1,2)]] full cfg
    by (simp add: rolling_room [OF inv p] prune_windowAccepted(1,2) [OF parts(3)] not_less)
qed

section \<open>A worked session\<close>

text \<open>A budget of 909 basis points with 1000 burst bytes: 20000 original bytes give a quota of 1818 bytes, so a rescue of
  1500 bytes is admitted, and its write starts.\<close>

definition exampleRescueConfig :: StreamBoundedRescueConfig where
  "exampleRescueConfig = \<lparr>c_Enabled = True, BudgetBasisPoints = 909, c_BurstBytes = 1000, factorMode = 0\<rparr>"

definition exampleEvidence :: StreamRescueEvidence where
  "exampleEvidence =
     \<lparr>Sequence = 0, AckedNext = 0, OwnerLeg = 1, RecordOwnerLeg = 1, TargetLeg = 0, TargetGeneration = 3, OriginGeneration = 2,
      OwnerGeneration = 2, RecoveryEpoch = 1, RecoveryEpochCurrent = True, Cause = StreamRescueCauseFrontier, IsData = True,
      IsRescue = True, ProbeData = False, Outstanding = True, OriginalWriteInTransit = False, OriginalWriteLeg = 1,
      FrontierOverdue = True, OriginalWriteObserved = True, OwnerLive = True, TargetAvailable = True,
      TargetGenerationMatches = True, OwnerRestricted = False, OwnerInvalidated = False, GenerationMatchesOrigin = True\<rparr>"

definition exampleRescueBudget :: streamBoundedRescueBudget where
  "exampleRescueBudget =
     \<lparr>b_config = exampleRescueConfig, chunkBytes = 4096, eventHook = True, b_closed = False, b_sessionID = [],
      b_ackedNext = 0, lastOriginal = 0, hasOriginal = False, nextReservation = 0, nextAttempt = 0,
      nextCandidate = 0, originalEvents = [], acceptedEvents = [], windowOriginal = 0,
      windowAccepted = 0, acceptedByLeg = [0, 0], baseReserved = 0, burstReserved = 0,
      burstCommitted = 0, reservations = [], rescueRecords = [],
      b_stats = emptyRescueStats\<lparr>st_Enabled := True, st_BudgetBasisPoints := 909,
        st_Window := streamBoundedRescueWindow, st_BurstBytes := 1000, PolicyVariant := ''B1-F''\<rparr>\<rparr>"

definition exampleRecorded :: streamBoundedRescueBudget where
  "exampleRecorded = snd (recordOriginalLocked 0 20000 100 exampleRescueBudget)"

definition exampleReserved :: streamBoundedRescueBudget where
  "exampleReserved = snd (reserveLocked exampleEvidence 1500 200 exampleRecorded)"

definition exampleWriting :: streamBoundedRescueBudget where
  "exampleWriting = snd (beginWriteDeferred 1 exampleReserved)"

definition recordedSession :: rescue_session where
  "recordedSession = \<lparr>rs_budget = exampleRecorded, rs_originals = [\<lparr>ev_at = 100, ev_bytes = 20000, ev_target = 0\<rparr>],
     rs_accepted = [], rs_starts = [], rs_times = [100]\<rparr>"

lemma example_new: "newStreamBoundedRescueBudget exampleRescueConfig 4096 True (Inr []) = Inr exampleRescueBudget"
  by code_simp

lemma example_record: "recordOriginalLocked 0 20000 100 exampleRescueBudget = (True, exampleRecorded)"
  unfolding exampleRecorded_def by (rule prod_eqI) (code_simp, simp)

lemma example_reserve:
  "ad_Admitted (fst (reserveLocked exampleEvidence 1500 200 exampleRecorded))"
  "\<not> ad_Exempt (fst (reserveLocked exampleEvidence 1500 200 exampleRecorded))"
  by code_simp+

lemma rescue_example_fields: "nextReservation exampleRecorded = 0" "factorMode (b_config exampleRecorded) = 0" "baseReserved exampleWriting = 1500"
  by code_simp+

lemma example_fits: "recordFits exampleRescueBudget 20000 100" "grantFits exampleRecorded 1500"
  by (simp_all add: recordFits_def exampleRescueBudget_def grantFits_def rescue_example_fields)

lemma example_begin: "beginWriteDeferred 1 exampleReserved = (True, exampleWriting)" "startedKey 1 exampleReserved = [(0, evidenceKey exampleEvidence)]"
  unfolding exampleWriting_def by (rule prod_eqI, code_simp, simp) code_simp

definition writingSession :: rescue_session where
  "writingSession = recordedSession\<lparr>rs_budget := exampleWriting, rs_times := [100, 200], rs_starts := [(0, evidenceKey exampleEvidence)]\<rparr>"

lemma recorded_run: "rescue_step\<^sup>*\<^sup>* (newSession exampleRescueBudget) recordedSession"
proof -
  have "rescue_step (newSession exampleRescueBudget) recordedSession"
    using rs_record [of "newSession exampleRescueBudget" 20000 100 0 True exampleRecorded] example_fits(1) example_record
    by (simp add: newSession_def recordedSession_def)
  then show ?thesis by blast
qed

lemma writing_run: "rescue_step\<^sup>*\<^sup>* (newSession exampleRescueBudget) writingSession"
proof -
  let ?s = "recordedSession\<lparr>rs_budget := exampleReserved, rs_times := [100, 200]\<rparr>"
  have "rescue_step recordedSession ?s"
    using rs_reserve [of recordedSession 1500 exampleEvidence 200 "fst (reserveLocked exampleEvidence 1500 200 exampleRecorded)" exampleReserved]
      example_fits(2) by (simp add: recordedSession_def exampleReserved_def)
  moreover have "rescue_step ?s writingSession"
    using rs_begin [of 1 ?s True exampleWriting] example_begin by (simp add: recordedSession_def writingSession_def)
  ultimately show ?thesis using recorded_run by (meson rtranclp.rtrancl_into_rtrancl)
qed

theorem rescue_within_budget_witness:
  "bytesOf (inWindow 200) (mset (rs_accepted recordedSession)) + msum (\<lambda>_ r. unat (r_bytes r)) (reservations exampleReserved)
    \<le> bytesOf (inWindow 200) (mset (rs_originals recordedSession)) * unat (BudgetBasisPoints exampleRescueConfig) div 10000
      + unat (c_BurstBytes exampleRescueConfig) \<and> length (reservations exampleReserved) = 1"
proof -
  have "Reserve (Some (rs_budget recordedSession)) exampleEvidence 1500 200
      = (fst (reserveLocked exampleEvidence 1500 200 exampleRecorded), Some exampleReserved)"
    by (simp add: recordedSession_def exampleReserved_def case_prod_beta)
  from rescue_within_budget [OF example_new _ _ recorded_run this example_reserve] rescue_example_fields(1)
  have "bytesOf (inWindow 200) (mset (rs_accepted recordedSession)) + msum (\<lambda>_ r. unat (r_bytes r)) (reservations exampleReserved)
    \<le> bytesOf (inWindow 200) (mset (rs_originals recordedSession)) * unat (BudgetBasisPoints exampleRescueConfig) div 10000
      + unat (c_BurstBytes exampleRescueConfig)"
    by (simp add: exampleRescueConfig_def recordedSession_def)
  moreover have "length (reservations exampleReserved) = 1" by code_simp
  ultimately show ?thesis ..
qed


theorem rescue_accounting_witness:
  "unat (baseReserved exampleWriting) + unat (burstReserved exampleWriting) = msum (\<lambda>_ r. unat (r_bytes r)) (reservations exampleWriting) \<and>
   unat (baseReserved exampleWriting) = 1500"
proof -
  have "unat (baseReserved exampleWriting) + unat (burstReserved exampleWriting) = msum (\<lambda>_ r. unat (r_bytes r)) (reservations exampleWriting)"
    using rescue_accounting [OF example_new _ writing_run refl] by (simp add: writingSession_def)
  moreover have "unat (baseReserved exampleWriting) = 1500" by (simp add: rescue_example_fields)
  ultimately show ?thesis ..
qed

theorem rescue_eligibility_agrees_witness:
  "rollingBudgetEligibleLocked exampleRecorded 1500 200 \<and> reserveParts (pruneLocked 200 exampleRecorded) 1500 \<noteq> None \<and>
   \<not> rollingBudgetEligibleLocked exampleRecorded 2819 200 \<and> reserveParts (pruneLocked 200 exampleRecorded) 2819 = None"
proof -
  have "rollingBudgetEligibleLocked exampleRecorded p 200 \<longleftrightarrow> reserveParts (pruneLocked 200 exampleRecorded) p \<noteq> None" if "p \<noteq> 0" for p
    using rescue_eligibility_agrees [OF example_new _ _ recorded_run that, of 200]
    by (simp add: exampleRescueConfig_def recordedSession_def del: not_None_eq split_paired_Ex)
  moreover have "rollingBudgetEligibleLocked exampleRecorded 1500 200" "\<not> rollingBudgetEligibleLocked exampleRecorded 2819 200"
    by code_simp+
  ultimately show ?thesis by (simp del: not_None_eq)
qed

end
