(* ===== verification/Server_Edge.thy ===== *)
theory Server_Edge
  imports Hello_Codec Stream_Legs
begin

text \<open>
  What the server checks and answers at its edge: the destination of a HELLO (\<open>server/destination.go\<close>, with the
  parts of packages \<open>net\<close> and \<open>strconv\<close> it uses) and the sidecar READY, written by \<open>server/readiness.go\<close> and read
  by \<open>client/readiness.go\<close>.
\<close>

section \<open>Host and port\<close>

text \<open>Go strings are byte strings here: \<open>:\<close> is 58, \<open>[\<close> is 91, \<open>]\<close> is 93, \<open>+\<close> is 43, \<open>-\<close> is 45.\<close>

definition lastIndexByte :: "byte \<Rightarrow> bytes \<Rightarrow> nat option" where
  "lastIndexByte c s = (case dropWhile (\<lambda>b. b \<noteq> c) (rev s) of [] \<Rightarrow> None | _ # front \<Rightarrow> Some (length front))"

definition indexByte :: "byte \<Rightarrow> bytes \<Rightarrow> nat option" where
  "indexByte c s = (let n = length (takeWhile (\<lambda>b. b \<noteq> c) s) in if n < length s then Some n else None)"

text \<open>\<open>net.SplitHostPort\<close>; every kind of address error is \<open>None\<close>, because the callers only test for one.\<close>

definition SplitHostPort :: "bytes \<Rightarrow> (bytes \<times> bytes) option" where
  "SplitHostPort hostport =
     (case lastIndexByte 58 hostport of
        None \<Rightarrow> None
      | Some i \<Rightarrow>
          let finish = (\<lambda>host j k.
                if 91 \<in> set (drop j hostport) then None
                else if 93 \<in> set (drop k hostport) then None
                else Some (host, drop (i + 1) hostport))
          in if hostport ! 0 = 91 then
               (case indexByte 93 hostport of
                  None \<Rightarrow> None
                | Some e \<Rightarrow>
                    if e + 1 = length hostport then None
                    else if e + 1 = i then finish (slice_of 1 e hostport) 1 (e + 1)
                    else None)
             else if 58 \<in> set (take i hostport) then None
             else finish (take i hostport) 0 0)"

definition JoinHostPort :: "bytes \<Rightarrow> bytes \<Rightarrow> bytes" where
  "JoinHostPort host port = (if 58 \<in> set host then [91] @ host @ [93, 58] @ port else host @ [58] @ port)"

definition isDigit :: "byte \<Rightarrow> bool" where "isDigit b \<longleftrightarrow> 48 \<le> b \<and> b \<le> 57"

definition digitsValue :: "bytes \<Rightarrow> int" where
  "digitsValue ds = foldl (\<lambda>n d. n * 10 + (uint d - 48)) 0 ds"

text \<open>\<open>strconv.Atoi\<close>: an optional sign, then decimal digits, within \<open>int64\<close>.\<close>

definition Atoi :: "bytes \<Rightarrow> int option" where
  "Atoi s =
     (let neg = (s \<noteq> [] \<and> hd s = 45);
          ds = (if s \<noteq> [] \<and> (hd s = 45 \<or> hd s = 43) then tl s else s);
          v = (if neg then - digitsValue ds else digitsValue ds)
      in if ds = [] \<or> \<not> list_all isDigit ds then None
         else if v < - (2 ^ 63) \<or> v > 2 ^ 63 - 1 then None
         else Some v)"

text \<open>\<open>strconv.Itoa\<close> of a number that is not negative.\<close>

definition Itoa :: "int \<Rightarrow> bytes" where "Itoa n = decimal (nat n)"

datatype destination_error = invalidDestination bytes | invalidDestinationPort bytes

definition normalizeDestination :: "bytes \<Rightarrow> destination_error + bytes" where
  "normalizeDestination v =
     (case SplitHostPort v of
        None \<Rightarrow> Inl (invalidDestination v)
      | Some (host, portText) \<Rightarrow>
          if host = [] then Inl (invalidDestination v)
          else case Atoi portText of
              None \<Rightarrow> Inl (invalidDestinationPort v)
            | Some port \<Rightarrow>
                if port \<le> 0 \<or> port > 65535 then Inl (invalidDestinationPort v)
                else Inr (JoinHostPort host (Itoa port)))"

section \<open>The sidecar READY\<close>

definition sidecarReadyV1Magic :: bytes where "sidecarReadyV1Magic = str_bytes ''SMP3RDY1''"
definition sidecarReadyV1Size :: nat where "sidecarReadyV1Size = 8 + 8 + 1 + 1 + sha256_Size"

datatype ready_error =
    errSidecarReadyPassword | ReadyIO io_error | ReadyMagic | ReadySession | ReadyLeg | ReadyMode | ReadyAuthentication

definition sidecarReadyFields :: "Hello \<Rightarrow> bytes" where
  "sidecarReadyFields hello = put_u64 (get_u64 (slice_of 0 8 (h_SessionID hello))) @ [h_LegID hello, h_Mode hello]"

definition sidecarReadyMAC :: "Hello \<Rightarrow> bytes \<Rightarrow> bytes \<Rightarrow> bytes" where
  "sidecarReadyMAC hello body password =
     hmac_sha256 password (str_bytes ''SMP3-SIDECAR-READY-V1'' @ h_Nonce hello @ body)"

definition encodeSidecarReadyV1 :: "Hello \<Rightarrow> bytes \<Rightarrow> ready_error + bytes" where
  "encodeSidecarReadyV1 hello password =
     (if length password = 0 then Inl errSidecarReadyPassword
      else let body = sidecarReadyFields hello
           in Inr (sidecarReadyV1Magic @ body @ sidecarReadyMAC hello body password))"

definition writeSidecarReadyV1 :: "writer \<Rightarrow> Hello \<Rightarrow> bytes \<Rightarrow> ready_error option \<times> writer" where
  "writeSidecarReadyV1 w hello password =
     (case encodeSidecarReadyV1 hello password of
        Inl err \<Rightarrow> (Some err, w)
      | Inr ready \<Rightarrow> (case writeLoop ErrUnexpectedEOF w ready of (err, w') \<Rightarrow> (map_option ReadyIO err, w')))"

definition readSidecarReadyV1 :: "reader \<Rightarrow> Hello \<Rightarrow> bytes \<Rightarrow> ready_error option \<times> reader" where
  "readSidecarReadyV1 r expected password =
     (if length password = 0 then (Some errSidecarReadyPassword, r)
      else case ReadFull sidecarReadyV1Size r of
          Inl err \<Rightarrow> (Some (ReadyIO err), r\<lparr>avail := []\<rparr>)
        | Inr (ready, r') \<Rightarrow>
            (if take 8 ready \<noteq> sidecarReadyV1Magic then Some ReadyMagic
             else if get_u64 (slice_of 8 16 ready) \<noteq> get_u64 (slice_of 0 8 (h_SessionID expected)) then Some ReadySession
             else if ready ! 16 \<noteq> h_LegID expected then Some ReadyLeg
             else if ready ! 17 \<noteq> h_Mode expected then Some ReadyMode
             else if drop 18 ready \<noteq> sidecarReadyMAC expected (slice_of 8 18 ready) password then Some ReadyAuthentication
             else None, r'))"

section \<open>Lemmas on numbers\<close>

lemma digitsValue_snoc: "digitsValue (ds @ [d]) = digitsValue ds * 10 + (uint d - 48)"
  by (simp add: digitsValue_def)

lemma uint_digit: "n < 10 \<Longrightarrow> uint (48 + of_nat n :: byte) = 48 + int n"
  by (simp add: uint_word_ariths unsigned_of_nat take_bit_nat_eq_self)

lemma isDigit_digit: "n < 10 \<Longrightarrow> isDigit (48 + of_nat n)"
  using uint_digit [of n] by (simp add: isDigit_def word_le_def)

lemma decimal_digits: "list_all isDigit (decimal n) \<and> decimal n \<noteq> [] \<and> digitsValue (decimal n) = int n"
proof (induction n rule: decimal.induct)
  case (1 n)
  show ?case
  proof (cases "n < 10")
    case True
    then show ?thesis by (subst (1 2 3) decimal.simps) (simp add: isDigit_digit uint_digit digitsValue_def)
  next
    case False
    then have d: "decimal n = decimal (n div 10) @ [48 + of_nat (n mod 10)]" by (subst decimal.simps) simp
    have "digitsValue (decimal n) = int (n div 10) * 10 + int (n mod 10)"
      unfolding d digitsValue_snoc using 1 False by (simp add: uint_digit)
    also have "\<dots> = int n" by (metis div_mult_mod_eq of_nat_add of_nat_mult of_nat_numeral)
    finally show ?thesis using 1 False by (simp add: d isDigit_digit)
  qed
qed

lemma Atoi_Itoa:
  assumes "0 \<le> v" and "v \<le> 65535"
  shows "Atoi (Itoa v) = Some v"
proof -
  note d = decimal_digits [of "nat v"]
  then have "isDigit (hd (decimal (nat v)))" by (cases "decimal (nat v)") auto
  then have "hd (decimal (nat v)) \<noteq> 45" "hd (decimal (nat v)) \<noteq> 43" by (auto simp: isDigit_def)
  then show ?thesis using d assms by (simp add: Atoi_def Itoa_def Let_def)
qed

section \<open>Lemmas on addresses\<close>

lemma lastIndexByte_app: "c \<notin> set ys \<Longrightarrow> lastIndexByte c (xs @ c # ys) = Some (length xs)"
proof -
  assume "c \<notin> set ys"
  then have "dropWhile (\<lambda>b. b \<noteq> c) (rev ys @ c # rev xs) = c # rev xs"
    by (subst dropWhile_append2) auto
  then show ?thesis by (simp add: lastIndexByte_def)
qed

lemma indexByte_app: "c \<notin> set xs \<Longrightarrow> indexByte c (xs @ c # ys) = Some (length xs)"
proof -
  assume "c \<notin> set xs"
  then have "takeWhile (\<lambda>b. b \<noteq> c) (xs @ c # ys) = xs" by (subst takeWhile_append2) auto
  then show ?thesis by (simp add: indexByte_def)
qed

lemma indexByte_before: "indexByte c s = Some n \<Longrightarrow> c \<notin> set (take n s)"
proof -
  assume "indexByte c s = Some n"
  then have "n = length (takeWhile (\<lambda>b. b \<noteq> c) s)" by (auto simp: indexByte_def Let_def split: if_splits)
  then have "take n s = takeWhile (\<lambda>b. b \<noteq> c) s" by (metis takeWhile_eq_take)
  then show ?thesis by (auto dest: set_takeWhileD)
qed

lemma SplitHostPort_host:
  assumes "SplitHostPort v = Some (h, p)"
  shows "91 \<notin> set h" "93 \<notin> set h"
proof -
  obtain i where i: "lastIndexByte 58 v = Some i" using assms by (auto simp: SplitHostPort_def split: option.splits)
  have "91 \<notin> set h \<and> 93 \<notin> set h"
  proof (cases "v ! 0 = 91")
    case True
    then obtain e where e: "indexByte 93 v = Some e" "h = slice_of 1 e v" "91 \<notin> set (drop 1 v)"
      using assms i by (auto simp: SplitHostPort_def Let_def split: option.splits if_splits)
    have "slice_of 1 e v = drop 1 (take e v)" by (simp add: slice_of_def drop_take)
    moreover have "slice_of 1 e v = take (e - 1) (drop 1 v)" by (simp add: slice_of_def)
    ultimately show ?thesis using e indexByte_before [OF e(1)] by (metis in_set_dropD in_set_takeD)
  next
    case False
    then have "h = take i v" "91 \<notin> set v" "93 \<notin> set v"
      using assms i by (auto simp: SplitHostPort_def Let_def split: if_splits)
    then show ?thesis by (metis in_set_takeD)
  qed
  then show "91 \<notin> set h" "93 \<notin> set h" by simp_all
qed

lemma Split_Join:
  assumes h: "h \<noteq> []" "91 \<notin> set h" "93 \<notin> set h" and p: "58 \<notin> set p" "91 \<notin> set p" "93 \<notin> set p"
  shows "SplitHostPort (JoinHostPort h p) = Some (h, p)"
proof (cases "58 \<in> set h")
  case True
  let ?s = "[91] @ h @ [93, 58] @ p"
  have "lastIndexByte 58 ?s = Some (length h + 2)" using lastIndexByte_app [OF p(1), of "91 # h @ [93]"] by simp
  moreover have "indexByte 93 ?s = Some (length h + 1)" using indexByte_app [of 93 "91 # h" "58 # p"] h(3) by simp
  ultimately show ?thesis using True h p by (simp add: SplitHostPort_def JoinHostPort_def Let_def slice_of_def)
next
  case False
  have "lastIndexByte 58 (h @ [58] @ p) = Some (length h)" using lastIndexByte_app [OF p(1), of h] by simp
  moreover have "(h @ [58] @ p) ! 0 \<noteq> 91" using h by (cases h) auto
  ultimately show ?thesis using False h p by (simp add: SplitHostPort_def JoinHostPort_def Let_def)
qed

lemma Itoa_plain: "58 \<notin> set (Itoa v)" "91 \<notin> set (Itoa v)" "93 \<notin> set (Itoa v)"
  using decimal_digits [of "nat v"] by (auto simp: Itoa_def list_all_iff isDigit_def)

lemma normalize_again:
  assumes "normalizeDestination v = Inr d"
  shows "normalizeDestination d = Inr d"
proof -
  obtain h t p where v: "SplitHostPort v = Some (h, t)" "h \<noteq> []" "0 < p" "p \<le> 65535" "d = JoinHostPort h (Itoa p)"
    using assms by (fastforce simp: normalizeDestination_def not_le not_less split: option.splits if_splits)
  have "SplitHostPort d = Some (h, Itoa p)"
    unfolding v(5) by (rule Split_Join [OF v(2) SplitHostPort_host [OF v(1)] Itoa_plain])
  then show ?thesis using v Atoi_Itoa [of p] by (simp add: normalizeDestination_def)
qed

section \<open>Lemmas on the sidecar READY\<close>

lemma sidecarReady_length:
  "length (sidecarReadyFields h) = 10" "length (sidecarReadyMAC h f pw) = 32" "length sidecarReadyV1Magic = 8"
  by (simp_all add: sidecarReadyFields_def sidecarReadyMAC_def sidecarReadyV1Magic_def)

lemma read_encoded_sidecar:
  assumes enc: "encodeSidecarReadyV1 h pw = Inr ready"
  shows "readSidecarReadyV1 \<lparr>avail = ready @ rest, atEnd = e\<rparr> h pw = (None, \<lparr>avail = rest, atEnd = e\<rparr>)"
proof -
  let ?F = "sidecarReadyFields h"
  note len = sidecarReady_length
  have r: "ready = sidecarReadyV1Magic @ ?F @ sidecarReadyMAC h ?F pw" "pw \<noteq> []"
    using enc by (auto simp: encodeSidecarReadyV1_def Let_def split: if_splits)
  have size: "length ready = sidecarReadyV1Size" using len by (simp add: r sidecarReadyV1Size_def sha256_Size_def)
  have "slice_of 8 18 ready = ?F" "drop 18 ready = sidecarReadyMAC h ?F pw" "take 8 ready = sidecarReadyV1Magic"
    using len by (simp_all add: r slice_of_def)
  moreover have "slice_of 8 16 ready = put_u64 (get_u64 (slice_of 0 8 (h_SessionID h)))"
    using len by (simp add: r slice_of_def sidecarReadyFields_def)
  moreover have "ready ! 16 = h_LegID h" "ready ! 17 = h_Mode h"
    using len by (simp_all add: r nth_append sidecarReadyFields_def)
  ultimately show ?thesis
    using r(2) size by (simp add: readSidecarReadyV1_def ReadFull_def)
qed

end
