(* ===== verification/Datagram_Engine.thy ===== *)
theory Datagram_Engine
  imports Complex_Main Stream_Frame
begin

unbundle bit_operations_syntax

text \<open>
  The datagram data plane (\<open>core/datagram_engine.go\<close>): the datagram frame codec, the receiver's
  deduplication window, and the engine with its carrier legs, send queues and recovery timers.
  Carrier legs are objects named by their address in a heap, so that \<open>c.legs[leg.id] == leg\<close> compares
  addresses. The adaptive weights are \<open>float64\<close> arithmetic over measured rates: the score of a leg is an
  argument of the operations that choose one. \<open>time.Now()\<close> is an argument.
\<close>

section \<open>Frames\<close>

definition DatagramFrameType :: byte where "DatagramFrameType = 5"
definition MaxDatagramPayload :: int where "MaxDatagramPayload = 16 * 1024"
definition MaxDatagramAddressSize :: nat where "MaxDatagramAddressSize = 512"

fun writeDatagramParts :: "writer \<Rightarrow> bytes list \<Rightarrow> io_error option \<times> writer" where
  "writeDatagramParts w [] = (None, w)"
| "writeDatagramParts w (part # parts) =
     (case writeAll w part of
        (Some err, w') \<Rightarrow> (Some err, w')
      | (None, w') \<Rightarrow> writeDatagramParts w' parts)"

definition datagramHeader :: "u64 \<Rightarrow> nat \<Rightarrow> bytes" where
  "datagramHeader i payloadLength = [DatagramFrameType] @ put_u64 i @ put_u32 (of_nat payloadLength)"

definition WriteDatagramFrame :: "writer \<Rightarrow> u64 \<Rightarrow> bytes \<Rightarrow> bytes \<Rightarrow> smp3_error option \<times> writer" where
  "WriteDatagramFrame conn i address data =
     (if length address = 0 \<or> length address > MaxDatagramAddressSize
      then (Some (DatagramErr ''invalid datagram address''), conn)
      else let payloadLength = 2 + length address + length data
           in if payloadLength > unat MaxStreamFramePayload then (Some (DatagramErr ''datagram frame too large''), conn)
              else case writeDatagramParts conn
                          [datagramHeader i payloadLength, put_u16 (of_nat (length address)), address, data] of
                     (err, w) \<Rightarrow> (map_option IOErr err, w))"

definition ReadDatagramFrame :: "reader \<Rightarrow> int \<Rightarrow> smp3_error + (u64 \<times> bytes \<times> bytes) \<times> reader" where
  "ReadDatagramFrame conn maxDatagram =
     (case ReadFull StreamFrameHeaderSize conn of
        Inl err \<Rightarrow> Inl (IOErr err)
      | Inr (header, r) \<Rightarrow>
          if header ! 0 \<noteq> DatagramFrameType then Inl (DatagramErr ''unexpected frame on multipath datagram leg'')
          else let i = get_u64 (slice_of 1 9 header); payloadLength = unat (get_u32 (slice_of 9 13 header));
                   maxPayloadLength = 2 + int MaxDatagramAddressSize + maxDatagram
               in if payloadLength < 3 \<or> int payloadLength > maxPayloadLength \<or> payloadLength > unat MaxStreamFramePayload
                  then Inl (DatagramErr ''invalid multipath datagram frame length'')
                  else case ReadFull payloadLength r of
                         Inl err \<Rightarrow> Inl (IOErr err)
                       | Inr (payload, r') \<Rightarrow>
                           let addressLength = unat (get_u16 (slice_of 0 2 payload))
                           in if addressLength = 0 \<or> addressLength > MaxDatagramAddressSize \<or> 2 + addressLength > length payload
                              then Inl (DatagramErr ''invalid multipath datagram address length'')
                              else let address = slice_of 2 (2 + addressLength) payload; data = drop (2 + addressLength) payload
                                   in if int (length data) > maxDatagram
                                      then Inl (DatagramErr ''multipath datagram exceeds negotiated maximum'')
                                      else Inr ((i, address, data), r'))"

section \<open>Configuration and state\<close>

datatype DatagramMode = DatagramStripe | DatagramDuplicate | DatagramAdaptive

record DatagramConfig =
  cf_Mode :: DatagramMode
  cf_QueueFrames :: int
  cf_MaxDatagramSize :: int
  cf_DedupWindow :: u64
  cf_IdleTimeout :: duration
  cf_RecoveryTimeout :: duration
  cf_AdaptiveQueueDelay :: duration
  cf_AdaptiveDuplicateThreshold :: int

record datagramFrame =
  fr_id :: u64
  fr_address :: bytes
  fr_data :: bytes
  fr_queuedAt :: gotime

text \<open>A leg: its carrier (one reader, one writer), its bounded send channel, and whether its two
  workers still run. \<open>dl_held\<close> is the packet the reading worker is handing over. \<open>dl_closed\<close> is \<open>closed\<close> and the closed channel \<open>done\<close>; \<open>dl_closeErr\<close> is the error
  its \<open>onClose\<close> callback got.\<close>

record datagramLeg =
  dl_id :: u8
  dl_in :: reader
  dl_out :: writer
  dl_send :: "datagramFrame list"
  dl_closed :: bool
  dl_closeErr :: "smp3_error option"
  dl_retired :: bool
  dl_writing :: bool
  dl_reading :: bool
  dl_held :: "datagramFrame option"
  dl_queuedBytes :: int

text \<open>\<open>e_reapers\<close> are the goroutines that wait for a failed leg's workers, \<open>e_timers\<close> the recovery timers
  by their epoch, \<open>e_down\<close> and \<open>e_useful\<close> the callbacks made so far.\<close>

record DatagramEngine =
  e_cfg :: DatagramConfig
  e_heap :: "datagramLeg list"
  e_legs :: "(u8, nat) gomap"
  e_retiring :: "(u8, nat) gomap"
  e_incoming :: "datagramFrame list"
  e_done :: bool
  e_txSeq :: u64
  e_seen :: "u64 list"
  e_maxSeen :: u64
  e_txBytes :: "u64 list"
  e_rxUniqueBytes :: "u64 list"
  e_duplicateTx :: u64
  e_duplicateDrop :: u64
  e_lastActivity :: u64
  e_recoveryEpoch :: u64
  e_reapers :: "nat list"
  e_timers :: "u64 list"
  e_down :: "(u8 \<times> smp3_error) list"
  e_useful :: "(u8 \<times> nat) list"

abbreviation leg_at :: "DatagramEngine \<Rightarrow> nat \<Rightarrow> datagramLeg" where "leg_at c a \<equiv> e_heap c ! a"

definition set_leg :: "nat \<Rightarrow> (datagramLeg \<Rightarrow> datagramLeg) \<Rightarrow> DatagramEngine \<Rightarrow> DatagramEngine" where
  "set_leg a g c = c\<lparr>e_heap := (e_heap c)[a := g (e_heap c ! a)]\<rparr>"

definition normalizeDatagramConfig :: "DatagramConfig \<Rightarrow> DatagramConfig" where
  "normalizeDatagramConfig cfg =
     (let c1 = (if cf_QueueFrames cfg \<le> 0 then cfg\<lparr>cf_QueueFrames := 256\<rparr> else cfg);
          c2 = (if cf_MaxDatagramSize c1 \<le> 0 then c1\<lparr>cf_MaxDatagramSize := MaxDatagramPayload\<rparr> else c1);
          c3 = (if cf_MaxDatagramSize c2 > uint MaxStreamFramePayload - 2 - 512
                then c2\<lparr>cf_MaxDatagramSize := uint MaxStreamFramePayload - 2 - 512\<rparr> else c2);
          c4 = (if cf_DedupWindow c3 = 0 then c3\<lparr>cf_DedupWindow := 4096\<rparr> else c3);
          c5 = (if cf_IdleTimeout c4 \<le> 0 then c4\<lparr>cf_IdleTimeout := 2 * Minute\<rparr> else c4);
          c6 = (if cf_RecoveryTimeout c5 \<le> 0 then c5\<lparr>cf_RecoveryTimeout := 15 * Second\<rparr> else c5)
      in if cf_AdaptiveQueueDelay c6 \<le> 0 then c6\<lparr>cf_AdaptiveQueueDelay := 120 * Millisecond\<rparr> else c6)"

definition NewDatagramEngine :: "DatagramConfig \<Rightarrow> gotime \<Rightarrow> DatagramEngine" where
  "NewDatagramEngine cfg now =
     \<lparr>e_cfg = normalizeDatagramConfig cfg, e_heap = [], e_legs = [], e_retiring = [], e_incoming = [],
      e_done = False, e_txSeq = 0, e_seen = [], e_maxSeen = 0, e_txBytes = [0, 0], e_rxUniqueBytes = [0, 0],
      e_duplicateTx = 0, e_duplicateDrop = 0, e_lastActivity = UnixNano now, e_recoveryEpoch = 0,
      e_reapers = [], e_timers = [], e_down = [], e_useful = []\<rparr>"

section \<open>Lifecycle\<close>

text \<open>\<open>datagramLeg.close\<close>: once only.\<close>

definition closeLeg :: "smp3_error \<Rightarrow> datagramLeg \<Rightarrow> datagramLeg" where
  "closeLeg err l = (if dl_closed l then l else l\<lparr>dl_closed := True, dl_closeErr := Some err\<rparr>)"

definition Close :: "DatagramEngine \<Rightarrow> DatagramEngine" where
  "Close c =
     (if e_done c then c
      else fold (\<lambda>(_, a). set_leg a (closeLeg ErrDatagramClosed)) (e_legs c) (c\<lparr>e_done := True\<rparr>))"

definition touch :: "gotime \<Rightarrow> DatagramEngine \<Rightarrow> DatagramEngine" where
  "touch now c = c\<lparr>e_lastActivity := UnixNano now\<rparr>"

text \<open>One tick of \<open>idleLoop\<close>. \<open>time.Unix(0, last)\<close> reads the stored nanoseconds back as an instant.\<close>

definition idleTick :: "gotime \<Rightarrow> DatagramEngine \<Rightarrow> DatagramEngine" where
  "idleTick now c =
     (if e_done c then c
      else if e_lastActivity c \<noteq> 0
              \<and> Sub now (sint (e_lastActivity c) + unixToInternal * Second) \<ge> cf_IdleTimeout (e_cfg c)
      then Close c else c)"

text \<open>One round of the loop of \<open>AttachLeg\<close>: refused, attached, or waiting for the retirement of the
  previous carrier of this id.\<close>

datatype attach_result = AttachErr smp3_error | Attached nat | AttachWait nat

definition AttachLeg ::
  "LegID \<Rightarrow> reader \<Rightarrow> writer \<Rightarrow> DatagramEngine \<Rightarrow> attach_result \<times> DatagramEngine" where
  "AttachLeg i rd wr c =
     (if i > 1 then (AttachErr (DatagramErr ''invalid datagram leg id''), c)
      else if e_done c then (AttachErr ErrDatagramClosed, c)
      else if mget (e_legs c) i \<noteq> None then (AttachErr (DatagramErr ''duplicate datagram leg''), c)
      else case mget (e_retiring c) i of
             Some a \<Rightarrow> (AttachWait a, c)
           | None \<Rightarrow>
               let a = length (e_heap c);
                   leg = \<lparr>dl_id = i, dl_in = rd, dl_out = wr, dl_send = [], dl_closed = False, dl_closeErr = None,
                          dl_retired = False, dl_writing = True, dl_reading = True, dl_held = None,
                          dl_queuedBytes = 0\<rparr>
               in (Attached a, c\<lparr>e_heap := e_heap c @ [leg], e_legs := mput i a (e_legs c),
                                 e_recoveryEpoch := e_recoveryEpoch c + 1\<rparr>))"

definition handleLegFailure :: "nat \<Rightarrow> smp3_error \<Rightarrow> DatagramEngine \<Rightarrow> DatagramEngine" where
  "handleLegFailure a err c =
     (let c1 = set_leg a (closeLeg err) c; i = dl_id (leg_at c a)
      in if e_done c then c1
         else if mget (e_legs c1) i \<noteq> Some a then c1
         else let c2 = c1\<lparr>e_legs := mdel i (e_legs c1), e_retiring := mput i a (e_retiring c1),
                          e_reapers := a # e_reapers c1, e_down := (i, err) # e_down c1\<rparr>
              in if e_legs c2 = []
                 then c2\<lparr>e_recoveryEpoch := e_recoveryEpoch c2 + 1, e_timers := (e_recoveryEpoch c2 + 1) # e_timers c2\<rparr>
                 else c2)"

definition ReplaceLeg :: "LegID \<Rightarrow> smp3_error \<Rightarrow> DatagramEngine \<Rightarrow> bool \<times> DatagramEngine" where
  "ReplaceLeg i err c =
     (case mget (e_legs c) i of
        None \<Rightarrow> (False, c)
      | Some a \<Rightarrow> (True, handleLegFailure a err c))"

text \<open>The goroutine started by \<open>handleLegFailure\<close>, once both workers have returned.\<close>

definition retireLeg :: "nat \<Rightarrow> DatagramEngine \<Rightarrow> DatagramEngine" where
  "retireLeg a c =
     (let i = dl_id (leg_at c a);
          c1 = (if mget (e_retiring c) i = Some a then c\<lparr>e_retiring := mdel i (e_retiring c)\<rparr> else c)
      in set_leg a (\<lambda>l. l\<lparr>dl_retired := True\<rparr>) (c1\<lparr>e_reapers := removeAll a (e_reapers c1)\<rparr>))"

definition hasLeg :: "u8 \<Rightarrow> DatagramEngine \<Rightarrow> bool" where
  "hasLeg i c \<longleftrightarrow> mget (e_legs c) i \<noteq> None"

definition LegCount :: "DatagramEngine \<Rightarrow> nat" where
  "LegCount c = length (e_legs c)"

definition availableLegs :: "DatagramEngine \<Rightarrow> nat list" where
  "availableLegs c =
     sort_key (\<lambda>a. dl_id (leg_at c a)) (filter (\<lambda>a. \<not> dl_closed (leg_at c a)) (map snd (e_legs c)))"

text \<open>The recovery timer of an epoch fires.\<close>

definition failIfNoLegRecovers :: "u64 \<Rightarrow> DatagramEngine \<Rightarrow> DatagramEngine" where
  "failIfNoLegRecovers epoch c =
     (let c1 = c\<lparr>e_timers := removeAll epoch (e_timers c)\<rparr>
      in if e_done c then c1
         else if e_recoveryEpoch c = epoch \<and> length (availableLegs c) = 0 then Close c1 else c1)"

section \<open>Sending\<close>

definition shouldDuplicate :: "nat \<Rightarrow> nat list \<Rightarrow> DatagramConfig \<Rightarrow> bool" where
  "shouldDuplicate n legs cfg \<longleftrightarrow>
     length legs \<ge> 2 \<and>
     (cf_Mode cfg = DatagramDuplicate
      \<or> cf_Mode cfg = DatagramAdaptive \<and> cf_AdaptiveDuplicateThreshold cfg > 0
        \<and> int n \<le> cf_AdaptiveDuplicateThreshold cfg)"

text \<open>The first leg with the least score.\<close>

definition chooseLeg :: "(nat \<Rightarrow> real) \<Rightarrow> nat list \<Rightarrow> nat option" where
  "chooseLeg score legs =
     fold (\<lambda>a best. case best of None \<Rightarrow> Some a | Some b \<Rightarrow> if score a < score b then Some a else Some b) legs None"

definition pushFrame :: "datagramFrame \<Rightarrow> datagramLeg \<Rightarrow> datagramLeg" where
  "pushFrame packet l = l\<lparr>dl_send := dl_send l @ [packet],
     dl_queuedBytes := dl_queuedBytes l + int (length (fr_data packet))\<rparr>"

text \<open>\<open>enqueue\<close> at the moment its \<open>select\<close> fires. A full channel makes the non-blocking call fail, makes
  the call with a deadline fail when the timer fires, and blocks the call without one (\<open>None\<close>); \<open>expired\<close>
  is \<open>time.Until(deadline) <= 0\<close>. When the engine is done, \<open>select\<close> may pick either ready case
  (\<open>pick\<close>: the send). The reservation is rolled back when the packet is not queued.\<close>

definition enqueue ::
  "bool \<Rightarrow> bool \<Rightarrow> nat option \<Rightarrow> datagramFrame \<Rightarrow> gotime \<Rightarrow> bool \<Rightarrow> DatagramEngine \<Rightarrow> bool option \<times> DatagramEngine" where
  "enqueue pick expired leg packet deadline nonBlocking c =
     (case leg of
        None \<Rightarrow> (Some False, c)
      | Some a \<Rightarrow>
          let l = leg_at c a; room = int (length (dl_send l)) < cf_QueueFrames (e_cfg c);
              queued = (Some True, set_leg a (pushFrame packet) c);
              failed = (Some False, c)
          in if dl_closed l then failed
             else if nonBlocking then (if room then queued else failed)
             else if IsZero deadline then
               (if room \<and> (\<not> e_done c \<or> pick) then queued else if e_done c then failed else (None, c))
             else if expired then failed
             else if room \<and> (\<not> e_done c \<or> pick) then queued
             else failed)"

datatype send_result = SendOk | SendErr smp3_error | SendBlocks

text \<open>The duplicating loop of \<open>Send\<close>: how many queues took the packet.\<close>

definition enqueueAll :: "bool \<Rightarrow> datagramFrame \<Rightarrow> gotime \<Rightarrow> nat list \<Rightarrow> DatagramEngine \<Rightarrow> nat \<times> DatagramEngine" where
  "enqueueAll pick packet deadline legs c =
     fold (\<lambda>a (queued, c). case enqueue pick False (Some a) packet deadline True c of
                             (Some True, c') \<Rightarrow> (queued + 1, c')
                           | (_, c') \<Rightarrow> (queued, c')) legs (0, c)"

text \<open>The fallback loop of \<open>Send\<close> over the legs other than the chosen one.\<close>

fun enqueueOther :: "bool \<Rightarrow> datagramFrame \<Rightarrow> gotime \<Rightarrow> u8 option \<Rightarrow> nat list \<Rightarrow> DatagramEngine \<Rightarrow> bool \<times> DatagramEngine" where
  "enqueueOther pick packet deadline best [] c = (False, c)"
| "enqueueOther pick packet deadline best (a # legs) c =
     (if best = Some (dl_id (leg_at c a)) then enqueueOther pick packet deadline best legs c
      else case enqueue pick False (Some a) packet deadline True c of
             (Some True, c') \<Rightarrow> (True, c')
           | (_, c') \<Rightarrow> enqueueOther pick packet deadline best legs c')"

definition Send ::
  "(nat \<Rightarrow> real) \<Rightarrow> bool \<Rightarrow> bool \<Rightarrow> bytes \<Rightarrow> bytes \<Rightarrow> gotime \<Rightarrow> gotime \<Rightarrow> DatagramEngine \<Rightarrow> send_result \<times> DatagramEngine" where
  "Send score pick expired data address deadline now c =
     (if length data = 0 then (SendOk, c)
      else if int (length data) > cf_MaxDatagramSize (e_cfg c) then (SendErr ErrDatagramTooLarge, c)
      else if address = [] \<or> length address > MaxDatagramAddressSize
      then (SendErr (DatagramErr ''invalid multipath datagram address''), c)
      else let legs = availableLegs c
           in if length legs = 0 then (SendErr (DatagramErr ''no multipath datagram leg available''), c)
              else let packet = \<lparr>fr_id = e_txSeq c, fr_address = address, fr_data = data, fr_queuedAt = now\<rparr>;
                       c1 = touch now (c\<lparr>e_txSeq := e_txSeq c + 1\<rparr>);
                       (queued, c2) = (if shouldDuplicate (length data) legs (e_cfg c1)
                                       then enqueueAll pick packet deadline legs c1 else (0, c1))
                   in if queued > 0 then
                        (SendOk, if queued > 1 then c2\<lparr>e_duplicateTx := e_duplicateTx c2 + of_nat (queued - 1)\<rparr> else c2)
                      else let best = chooseLeg score legs
                           in case enqueue pick expired best packet deadline False c2 of
                                (None, c3) \<Rightarrow> (SendBlocks, c3)
                              | (Some True, c3) \<Rightarrow> (SendOk, c3)
                              | (Some False, c3) \<Rightarrow>
                                  (case enqueueOther pick packet deadline (map_option (\<lambda>b. dl_id (leg_at c3 b)) best)
                                          (availableLegs c3) c3 of
                                     (True, c4) \<Rightarrow> (SendOk, c4)
                                   | (False, c4) \<Rightarrow> (SendErr (DatagramErr ''multipath datagram queue unavailable''), c4)))"

text \<open>One round of \<open>legWriteLoop\<close>: it returns when the engine or the leg is done (unless \<open>select\<close>
  picks a packet that is ready too), otherwise it writes the next queued packet.\<close>

definition legWriteStep :: "bool \<Rightarrow> nat \<Rightarrow> gotime \<Rightarrow> DatagramEngine \<Rightarrow> DatagramEngine" where
  "legWriteStep pick a now c =
     (let l = leg_at c a
      in if \<not> dl_writing l then c
         else if (e_done c \<or> dl_closed l) \<and> (\<not> pick \<or> dl_send l = []) then set_leg a (\<lambda>l. l\<lparr>dl_writing := False\<rparr>) c
         else case dl_send l of
                [] \<Rightarrow> c
              | packet # rest \<Rightarrow>
                  (case WriteDatagramFrame (dl_out l) (fr_id packet) (fr_address packet) (fr_data packet) of
                     (err, w) \<Rightarrow>
                       let c1 = set_leg a (\<lambda>l. l\<lparr>dl_send := rest, dl_out := w,
                                  dl_queuedBytes := dl_queuedBytes l - int (length (fr_data packet))\<rparr>) c
                       in case err of
                            Some e \<Rightarrow> set_leg a (\<lambda>l. l\<lparr>dl_writing := False\<rparr>) (handleLegFailure a e c1)
                          | None \<Rightarrow>
                              touch now (c1\<lparr>e_txBytes := (e_txBytes c1)[unat (dl_id l) :=
                                             e_txBytes c1 ! unat (dl_id l) + of_nat (length (fr_data packet))],
                                            e_useful := (dl_id l, length (fr_data packet)) # e_useful c1\<rparr>)))"

section \<open>Receiving\<close>

definition mayBeReplicated :: "DatagramConfig \<Rightarrow> nat \<Rightarrow> bool" where
  "mayBeReplicated cfg n \<longleftrightarrow>
     cf_Mode cfg = DatagramDuplicate
     \<or> (cf_Mode cfg = DatagramAdaptive \<and> cf_AdaptiveDuplicateThreshold cfg > 0
        \<and> int n \<le> cf_AdaptiveDuplicateThreshold cfg)"

definition stale :: "u64 \<Rightarrow> DatagramEngine \<Rightarrow> bool" where
  "stale i c \<longleftrightarrow> e_maxSeen c > cf_DedupWindow (e_cfg c) \<and> i < e_maxSeen c - cf_DedupWindow (e_cfg c)"

text \<open>The newest id and the memory after an id was added, old ids evicted when there are too many.\<close>

definition newestSeen :: "u64 \<Rightarrow> DatagramEngine \<Rightarrow> u64" where
  "newestSeen i c = (if i > e_maxSeen c \<or> length (i # e_seen c) = 1 then i else e_maxSeen c)"

definition evictSeen :: "u64 \<Rightarrow> u64 \<Rightarrow> u64 list \<Rightarrow> u64 list" where
  "evictSeen window newest seen =
     (if newest > window \<and> of_nat (length seen) > window * 2
      then filter (\<lambda>s. \<not> s < newest - window) seen else seen)"

definition acceptDatagramID :: "u64 \<Rightarrow> nat \<Rightarrow> DatagramEngine \<Rightarrow> bool \<times> DatagramEngine" where
  "acceptDatagramID i n c =
     (if mayBeReplicated (e_cfg c) n \<and> length (e_seen c) > 0 \<and> stale i c then (False, c)
      else if i \<in> set (e_seen c) then (False, c)
      else (True, c\<lparr>e_seen := evictSeen (cf_DedupWindow (e_cfg c)) (newestSeen i c) (i # e_seen c),
                   e_maxSeen := newestSeen i c\<rparr>))"

text \<open>One round of \<open>legReadLoop\<close>. A full \<open>incoming\<close> channel keeps the reader waiting; the datagram is then
  delivered in a later round or dropped at shutdown, so the round is taken when there is room.\<close>

text \<open>The \<open>select\<close> that hands an accepted packet to the bounded channel \<open>incoming\<close>: the worker blocks
  while the channel is full, and returns when the engine is done (unless \<open>pick\<close> chooses the send).\<close>

definition deliverHeld :: "bool \<Rightarrow> nat \<Rightarrow> datagramFrame \<Rightarrow> DatagramEngine \<Rightarrow> DatagramEngine" where
  "deliverHeld pick a packet c =
     (if int (length (e_incoming c)) < cf_QueueFrames (e_cfg c) * 2 \<and> (\<not> e_done c \<or> pick)
      then set_leg a (\<lambda>l. l\<lparr>dl_held := None\<rparr>) (c\<lparr>e_incoming := e_incoming c @ [packet]\<rparr>)
      else if e_done c then set_leg a (\<lambda>l. l\<lparr>dl_held := None, dl_reading := False\<rparr>) c
      else c)"

text \<open>One stage of \<open>legReadLoop\<close>: the worker reads the next frame and holds it when it is new, or hands
  over the packet it holds.\<close>

definition legReadStep :: "bool \<Rightarrow> nat \<Rightarrow> gotime \<Rightarrow> DatagramEngine \<Rightarrow> DatagramEngine" where
  "legReadStep pick a now c =
     (let l = leg_at c a
      in if \<not> dl_reading l then c
         else case dl_held l of
                Some packet \<Rightarrow> deliverHeld pick a packet c
              | None \<Rightarrow>
         (case ReadDatagramFrame (dl_in l) (cf_MaxDatagramSize (e_cfg c)) of
                Inl err \<Rightarrow> set_leg a (\<lambda>l. l\<lparr>dl_reading := False\<rparr>) (handleLegFailure a err c)
              | Inr ((i, address, data), r) \<Rightarrow>
                  let c0 = set_leg a (\<lambda>l. l\<lparr>dl_in := r\<rparr>) c
                  in case acceptDatagramID i (length data) c0 of
                       (False, c1) \<Rightarrow> c1\<lparr>e_duplicateDrop := e_duplicateDrop c1 + 1\<rparr>
                     | (True, c1) \<Rightarrow>
                         let packet = \<lparr>fr_id = i, fr_address = address, fr_data = data, fr_queuedAt = now\<rparr>;
                             c2 = touch now (c1\<lparr>e_rxUniqueBytes := (e_rxUniqueBytes c1)[unat (dl_id l) :=
                                               e_rxUniqueBytes c1 ! unat (dl_id l) + of_nat (length data)]\<rparr>)
                         in set_leg a (\<lambda>l. l\<lparr>dl_held := Some packet\<rparr>) c2))"

record Datagram =
  dg_Address :: bytes
  dg_Payload :: bytes

text \<open>\<open>Receive\<close>: an expired deadline fails at once; otherwise the next datagram, the closed engine, or the
  timer. \<open>None\<close> is a call that keeps waiting.\<close>

definition Receive :: "bool \<Rightarrow> bool \<Rightarrow> gotime \<Rightarrow> DatagramEngine \<Rightarrow> (smp3_error + Datagram) option \<times> DatagramEngine" where
  "Receive pick expired deadline c =
     (if \<not> IsZero deadline \<and> expired then (Some (Inl ErrDatagramTimeout), c)
      else case e_incoming c of
             packet # rest \<Rightarrow>
               if e_done c \<and> \<not> pick then (Some (Inl ErrDatagramClosed), c)
               else (Some (Inr \<lparr>dg_Address = fr_address packet, dg_Payload = fr_data packet\<rparr>), c\<lparr>e_incoming := rest\<rparr>)
           | [] \<Rightarrow>
               if e_done c then (Some (Inl ErrDatagramClosed), c)
               else if \<not> IsZero deadline then (Some (Inl ErrDatagramTimeout), c)
               else (None, c))"

section \<open>Lemmas on frames\<close>

lemma writeDatagramParts_written:
  "writeDatagramParts w parts = (None, w') \<Longrightarrow> written w' = written w @ concat parts"
proof (induction parts arbitrary: w)
  case (Cons p ps)
  obtain e w1 where W: "writeAll w p = (e, w1)" by (metis surj_pair)
  with Cons.prems have "e = None" "writeDatagramParts w1 ps = (None, w')" by (auto split: option.splits)
  with writeAll_written [OF W] Cons.IH show ?case by auto
qed simp

definition datagram_wire :: "u64 \<Rightarrow> bytes \<Rightarrow> bytes \<Rightarrow> bytes" where
  "datagram_wire i address data =
     datagramHeader i (2 + length address + length data) @ put_u16 (of_nat (length address)) @ address @ data"

definition datagram_sendable :: "bytes \<Rightarrow> bytes \<Rightarrow> bool" where
  "datagram_sendable address data \<longleftrightarrow> 0 < length address \<and> length address \<le> MaxDatagramAddressSize
     \<and> 2 + length address + length data \<le> unat MaxStreamFramePayload"

lemma WriteDatagramFrame_written:
  "WriteDatagramFrame conn i address data = (None, w) \<Longrightarrow>
     datagram_sendable address data \<and> written w = written conn @ datagram_wire i address data"
  by (auto simp: WriteDatagramFrame_def datagram_sendable_def datagram_wire_def Let_def simp del: writeDatagramParts.simps
      dest!: writeDatagramParts_written split: if_splits prod.splits)

lemma length_datagramHeader [simp]: "length (datagramHeader i n) = StreamFrameHeaderSize"
  by (simp add: datagramHeader_def StreamFrameHeaderSize_def)

lemma datagramHeader_fields:
  "datagramHeader i n ! 0 = DatagramFrameType" "get_u64 (slice_of 1 9 (datagramHeader i n)) = i"
  "get_u32 (slice_of 9 13 (datagramHeader i n)) = of_nat n"
  by (simp_all add: datagramHeader_def codec_simps)

lemma unat_small_length:
  "n \<le> unat MaxStreamFramePayload \<Longrightarrow> unat (of_nat n :: u32) = n"
  "n \<le> MaxDatagramAddressSize \<Longrightarrow> unat (of_nat n :: u16) = n"
  by (simp_all add: MaxStreamFramePayload_def MaxDatagramAddressSize_def unat_of_nat)

lemma ReadDatagramFrame_wire:
  assumes "datagram_sendable address data" and "int (length data) \<le> maxDatagram"
  shows "ReadDatagramFrame \<lparr>avail = datagram_wire i address data @ rest, atEnd = e\<rparr> maxDatagram
    = Inr ((i, address, data), \<lparr>avail = rest, atEnd = e\<rparr>)"
proof -
  define n where "n = 2 + length address + length data"
  let ?h = "datagramHeader i n" and ?p = "put_u16 (of_nat (length address)) @ address @ data"
  have n: "unat (of_nat n :: u32) = n" "unat (of_nat (length address) :: u16) = length address"
    by (rule unat_small_length, use assms(1) in \<open>simp add: datagram_sendable_def n_def\<close>)+
  have r: "ReadFull StreamFrameHeaderSize \<lparr>avail = datagram_wire i address data @ rest, atEnd = e\<rparr>
      = Inr (?h, \<lparr>avail = ?p @ rest, atEnd = e\<rparr>)"
    using ReadFull_append [of ?h StreamFrameHeaderSize "?p @ rest" e] by (simp add: datagram_wire_def n_def)
  have r2: "ReadFull n \<lparr>avail = ?p @ rest, atEnd = e\<rparr> = Inr (?p, \<lparr>avail = rest, atEnd = e\<rparr>)"
    by (rule ReadFull_append) (simp add: n_def)
  have f: "slice_of 0 2 ?p = put_u16 (of_nat (length address))" "slice_of 2 (2 + length address) ?p = address"
    "drop (2 + length address) ?p = data" "length ?p = n"
    by (simp_all add: codec_simps n_def)
  have b: "\<not> n < 3" "\<not> int n > 2 + int MaxDatagramAddressSize + maxDatagram" "\<not> n > unat MaxStreamFramePayload"
    "length address \<noteq> 0" "\<not> length address > MaxDatagramAddressSize" "\<not> 2 + length address > n"
    using assms by (auto simp: datagram_sendable_def n_def)
  show ?thesis
    unfolding ReadDatagramFrame_def r using b assms(2)
    by (simp only: sum.case prod.case Let_def datagramHeader_fields put_get_simps n r2 f simp_thms if_False linorder_not_less)
      (simp only: linorder_not_less [symmetric] simp_thms if_False)
qed

section \<open>Lemmas on the deduplication window\<close>

text \<open>The arrivals that a sequence of arrivals (id and payload size) gets through the window.\<close>

fun acceptAll :: "(u64 \<times> nat) list \<Rightarrow> DatagramEngine \<Rightarrow> (u64 \<times> nat) list \<times> DatagramEngine" where
  "acceptAll [] c = ([], c)"
| "acceptAll ((i, n) # xs) c =
     (case acceptDatagramID i n c of
        (ok, c1) \<Rightarrow> (case acceptAll xs c1 of (ys, c2) \<Rightarrow> (if ok then (i, n) # ys else ys, c2)))"

text \<open>\<open>acc\<close> are the ids accepted so far: each is still remembered or lies below the stale bound; what is
  remembered was accepted and is bounded by twice the window.\<close>

definition dedup_inv :: "u64 set \<Rightarrow> DatagramEngine \<Rightarrow> bool" where
  "dedup_inv acc c \<longleftrightarrow>
     set (e_seen c) \<subseteq> acc \<and> distinct (e_seen c) \<and> (\<forall>i \<in> set (e_seen c). i \<le> e_maxSeen c)
     \<and> (e_seen c = [] \<longrightarrow> acc = {} \<and> e_maxSeen c = 0) \<and> (e_seen c \<noteq> [] \<longrightarrow> e_maxSeen c \<in> set (e_seen c))
     \<and> (\<forall>i \<in> acc. i \<in> set (e_seen c) \<or> stale i c)
     \<and> length (e_seen c) \<le> 2 * unat (cf_DedupWindow (e_cfg c))"

definition window_ok :: "DatagramConfig \<Rightarrow> bool" where
  "window_ok cfg \<longleftrightarrow> 0 < cf_DedupWindow cfg \<and> 2 * unat (cf_DedupWindow cfg) < 2 ^ 64"

lemma length_le_interval:
  assumes "distinct xs" and "\<forall>x \<in> set xs. lo \<le> unat x \<and> unat x \<le> hi"
  shows "length xs \<le> hi - lo + 1"
proof -
  have "inj_on unat (set xs)" by (simp add: inj_on_def word_unat_eq_iff)
  then have "length xs = card (unat ` set xs)" using assms(1) by (simp add: distinct_card card_image)
  also have "\<dots> \<le> card {lo..hi}" by (rule card_mono) (use assms(2) in auto)
  finally show ?thesis by (cases "lo \<le> hi") simp_all
qed

lemma unat_sub_less: "(w :: u64) \<le> m \<Longrightarrow> unat (m - w) = unat m - unat w"
  by (rule unat_sub)

lemma unat_double: "2 * unat (w :: u64) < 2 ^ 64 \<Longrightarrow> unat (w * 2) = 2 * unat w"
  by (simp add: unat_word_ariths mult.commute)

text \<open>Eviction keeps what is not stale and brings the memory down to the window.\<close>

lemma evicted_length:
  assumes "window_ok cfg" and "distinct xs" and "\<forall>i \<in> set xs. i \<le> m" and "length xs \<le> 2 * unat (cf_DedupWindow cfg) + 1"
  shows "length (evictSeen (cf_DedupWindow cfg) m xs) \<le> 2 * unat (cf_DedupWindow cfg)"
proof -
  let ?w = "cf_DedupWindow cfg"
  have w: "0 < unat ?w" "2 * unat ?w < 2 ^ 64" using assms(1) by (auto simp: window_ok_def unat_gt_0)
  have le: "\<forall>i \<in> set xs. unat i \<le> unat m" using assms(3) by (simp add: word_le_nat_alt)
  consider "m \<le> ?w" | "m > ?w" "of_nat (length xs) > ?w * 2" | "\<not> of_nat (length xs) > ?w * 2" by force
  then show ?thesis
  proof cases
    case 1
    then have "\<forall>x \<in> set xs. 0 \<le> unat x \<and> unat x \<le> unat ?w" using le by (auto simp: word_le_nat_alt intro: order_trans)
    from length_le_interval [OF assms(2) this] 1 w show ?thesis by (auto simp: evictSeen_def)
  next
    case 2
    have "unat (m - ?w) = unat m - unat ?w" by (rule unat_sub) (use 2(1) in simp)
    then have "\<forall>x \<in> set (filter (\<lambda>s. \<not> s < m - ?w) xs). unat m - unat ?w \<le> unat x \<and> unat x \<le> unat m"
      using le by (auto simp: word_less_nat_alt)
    from length_le_interval [OF _ this] assms(2) have "length (filter (\<lambda>s. \<not> s < m - ?w) xs) \<le> unat ?w + 1" by simp
    with 2 w show ?thesis by (simp add: evictSeen_def)
  next
    case 3
    have "unat (of_nat (length xs) :: u64) = length xs" using assms(4) w(2) by (simp add: unat_of_nat)
    with 3 unat_double [OF w(2)] show ?thesis by (simp add: word_less_nat_alt evictSeen_def)
  qed
qed

lemma dedup_accept:
  assumes "dedup_inv acc c" and "window_ok (e_cfg c)" and "acceptDatagramID i n c = (ok, c')"
  shows "e_cfg c' = e_cfg c \<and> dedup_inv (if ok then insert i acc else acc) c'
    \<and> (ok \<longrightarrow> i \<notin> acc \<or> \<not> mayBeReplicated (e_cfg c) n)
    \<and> (\<not> ok \<longrightarrow> i \<in> acc \<or> mayBeReplicated (e_cfg c) n \<and> stale i c)"
proof (cases ok)
  case True
  let ?w = "cf_DedupWindow (e_cfg c)" and ?m = "e_maxSeen c"
  define mx where "mx = newestSeen i c"
  define sn where "sn = evictSeen ?w mx (i # e_seen c)"
  from assms(3) True have new: "i \<notin> set (e_seen c)" and c': "c' = c\<lparr>e_seen := sn, e_maxSeen := mx\<rparr>"
    and st: "mayBeReplicated (e_cfg c) n \<Longrightarrow> e_seen c \<noteq> [] \<Longrightarrow> \<not> stale i c"
    by (auto simp: acceptDatagramID_def mx_def sn_def split: if_splits)
  from assms(1) have I: "set (e_seen c) \<subseteq> acc" "distinct (e_seen c)" "\<forall>i \<in> set (e_seen c). i \<le> ?m"
    "e_seen c = [] \<longrightarrow> acc = {} \<and> ?m = 0" "e_seen c \<noteq> [] \<longrightarrow> ?m \<in> set (e_seen c)"
    "\<forall>i \<in> acc. i \<in> set (e_seen c) \<or> stale i c" "length (e_seen c) \<le> 2 * unat ?w"
    by (simp_all add: dedup_inv_def)
  have mx: "?m \<le> mx" "i \<le> mx" "mx \<in> set (i # e_seen c)" using I(4,5) by (auto simp: mx_def newestSeen_def not_less)
  have all: "\<forall>j \<in> set (i # e_seen c). j \<le> mx" using I(3) mx by (auto intro: order_trans)
  have len: "length sn \<le> 2 * unat ?w"
    unfolding sn_def by (rule evicted_length [OF assms(2)]) (use all new I(2,7) in auto)
  have keep: "\<not> mx < mx - ?w" if "mx > ?w"
    using unat_sub [of ?w mx] that by (simp add: word_less_nat_alt word_le_nat_alt)
  have sn: "set sn \<subseteq> set (i # e_seen c)" "distinct sn" "mx \<in> set sn"
    using I(2) new keep mx(3) by (auto simp: sn_def evictSeen_def)
  have "stale j c'" if "j \<in> acc" "j \<notin> set (e_seen c)" for j
  proof -
    have "stale j c" using I(6) that by blast
    moreover have "?m - ?w \<le> mx - ?w" if "?w < ?m"
      using that mx(1) by (simp add: word_le_nat_alt word_less_nat_alt unat_sub)
    ultimately show ?thesis using mx(1) unfolding stale_def c' by auto
  qed
  moreover have "j \<in> set sn \<or> stale j c'" if "j \<in> set (i # e_seen c)" for j
    using that unfolding stale_def c' sn_def evictSeen_def by (cases "mx > ?w \<and> of_nat (length (i # e_seen c)) > ?w * 2") auto
  ultimately have "\<forall>j \<in> insert i acc. j \<in> set sn \<or> stale j c'" by auto
  then have "dedup_inv (insert i acc) c'"
    unfolding dedup_inv_def using sn len all I(1) by (auto simp: c')
  moreover have "i \<notin> acc \<or> \<not> mayBeReplicated (e_cfg c) n" using st I(4,6) new by auto
  ultimately show ?thesis using True by (simp add: c')
next
  case False
  then have "c' = c \<and> (i \<in> set (e_seen c) \<or> mayBeReplicated (e_cfg c) n \<and> stale i c)"
    using assms(3) by (auto simp: acceptDatagramID_def split: if_splits)
  with False assms(1) show ?thesis by (auto simp: dedup_inv_def)
qed

lemma acceptAll_inv:
  assumes "dedup_inv acc c" and "window_ok (e_cfg c)" and "acceptAll xs c = (ys, c')"
  shows "e_cfg c' = e_cfg c \<and> dedup_inv (acc \<union> fst ` set ys) c'"
  using assms
proof (induction xs c arbitrary: acc ys rule: acceptAll.induct)
  case (2 i n xs c)
  obtain ok c1 where A: "acceptDatagramID i n c = (ok, c1)" by (metis surj_pair)
  obtain zs where B: "acceptAll xs c1 = (zs, c')" and ys: "ys = (if ok then (i, n) # zs else zs)"
    using 2(4) A by (auto split: prod.splits if_splits)
  note D = dedup_accept [OF 2(2,3) A]
  have "e_cfg c' = e_cfg c1 \<and> dedup_inv ((if ok then insert i acc else acc) \<union> fst ` set zs) c'"
    by (rule 2(1) [OF A [symmetric] _ _ B]) (use D 2(3) in auto)
  moreover note ys
  ultimately show ?case using D by (auto split: if_splits)
qed auto

lemma acceptAll_once:
  assumes "dedup_inv acc c" and "window_ok (e_cfg c)" and "acceptAll xs c = (ys, c')"
    and "\<forall>(j, n) \<in> set xs. j = i \<longrightarrow> mayBeReplicated (e_cfg c) n"
  shows "length (filter (\<lambda>(j, _). j = i) ys) + (if i \<in> acc then 1 else 0) \<le> 1"
  using assms
proof (induction xs c arbitrary: acc ys rule: acceptAll.induct)
  case (2 k n xs c)
  obtain ok c1 where A: "acceptDatagramID k n c = (ok, c1)" by (metis surj_pair)
  obtain zs where B: "acceptAll xs c1 = (zs, c')" and ys: "ys = (if ok then (k, n) # zs else zs)"
    using 2(4) A by (auto split: prod.splits if_splits)
  note D = dedup_accept [OF 2(2,3) A]
  let ?acc = "if ok then insert k acc else acc"
  have "length (filter (\<lambda>(j, _). j = i) zs) + (if i \<in> ?acc then 1 else 0) \<le> 1"
    by (rule 2(1) [OF A [symmetric] _ _ B]) (use D 2(3,5) in auto)
  moreover note ys
  moreover have "ok \<Longrightarrow> k = i \<Longrightarrow> i \<notin> acc" using D 2(5) by auto
  ultimately show ?case by (auto split: if_splits)
qed auto

lemma acceptAll_complete:
  assumes "dedup_inv acc c" and "window_ok (e_cfg c)" and "acceptAll xs c = (ys, c')"
    and "(i, n) \<in> set xs" and "\<not> mayBeReplicated (e_cfg c) n"
  shows "i \<in> acc \<union> fst ` set ys"
  using assms
proof (induction xs c arbitrary: acc ys rule: acceptAll.induct)
  case (2 k m xs c)
  obtain ok c1 where A: "acceptDatagramID k m c = (ok, c1)" by (metis surj_pair)
  obtain zs where B: "acceptAll xs c1 = (zs, c')" and ys: "ys = (if ok then (k, m) # zs else zs)"
    using 2(4) A by (auto split: prod.splits if_splits)
  note D = dedup_accept [OF 2(2,3) A]
  show ?case
  proof (cases "(i, n) = (k, m)")
    case True
    then show ?thesis using D ys 2(6) by auto
  next
    case False
    then have "i \<in> (if ok then insert k acc else acc) \<union> fst ` set zs"
      using 2(1) [OF A [symmetric] _ _ B, of "if ok then insert k acc else acc"] D 2(3,5,6) by auto
    then show ?thesis using ys by (auto split: if_splits)
  qed
qed auto

lemma normalized_dedup: "dedup_inv {} (NewDatagramEngine cfg now)"
  by (simp add: dedup_inv_def NewDatagramEngine_def)

lemma NewDatagramEngine_cfg [simp]: "e_cfg (NewDatagramEngine cfg now) = normalizeDatagramConfig cfg"
  by (simp add: NewDatagramEngine_def)

lemma normalize_fields:
  "cf_Mode (normalizeDatagramConfig cfg) = cf_Mode cfg"
  "cf_DedupWindow (normalizeDatagramConfig cfg) = (if cf_DedupWindow cfg = 0 then 4096 else cf_DedupWindow cfg)"
  "cf_QueueFrames (normalizeDatagramConfig cfg) = (if cf_QueueFrames cfg \<le> 0 then 256 else cf_QueueFrames cfg)"
  by (simp_all add: normalizeDatagramConfig_def Let_def)

section \<open>The engine invariant\<close>

definition queue_ok :: "DatagramConfig \<Rightarrow> datagramLeg \<Rightarrow> bool" where
  "queue_ok cfg l \<longleftrightarrow> dl_queuedBytes l = int (sum_list (map (\<lambda>f. length (fr_data f)) (dl_send l)))
     \<and> int (length (dl_send l)) \<le> max 0 (cf_QueueFrames cfg)"

abbreviation working :: "datagramLeg \<Rightarrow> bool" where "working l \<equiv> dl_writing l \<or> dl_reading l"

text \<open>A registered leg is registered under its own id; an id is registered or retiring, never both; a
  closed leg stays registered only in a closed engine; a leg whose workers run is registered or
  retiring.\<close>

definition dg_inv :: "DatagramEngine \<Rightarrow> bool" where
  "dg_inv c \<longleftrightarrow> mwf (e_legs c) \<and> mwf (e_retiring c)
     \<and> (\<forall>i a. mget (e_legs c) i = Some a \<longrightarrow> a < length (e_heap c) \<and> dl_id (leg_at c a) = i
          \<and> mget (e_retiring c) i = None \<and> (dl_closed (leg_at c a) \<longrightarrow> e_done c))
     \<and> (\<forall>i a. mget (e_retiring c) i = Some a \<longrightarrow> a < length (e_heap c) \<and> dl_id (leg_at c a) = i
          \<and> dl_closed (leg_at c a) \<and> a \<in> set (e_reapers c))
     \<and> (\<forall>a < length (e_heap c). queue_ok (e_cfg c) (leg_at c a) \<and> dl_id (leg_at c a) \<le> 1
          \<and> (working (leg_at c a) \<longrightarrow> mget (e_legs c) (dl_id (leg_at c a)) = Some a
               \<or> mget (e_retiring c) (dl_id (leg_at c a)) = Some a))"

lemma dg_invD:
  assumes "dg_inv c"
  shows "mwf (e_legs c)" "mwf (e_retiring c)"
    "mget (e_legs c) i = Some a \<Longrightarrow> a < length (e_heap c) \<and> dl_id (leg_at c a) = i
       \<and> mget (e_retiring c) i = None \<and> (dl_closed (leg_at c a) \<longrightarrow> e_done c)"
    "mget (e_retiring c) i = Some a \<Longrightarrow> a < length (e_heap c) \<and> dl_id (leg_at c a) = i
       \<and> dl_closed (leg_at c a) \<and> a \<in> set (e_reapers c)"
    "a < length (e_heap c) \<Longrightarrow> queue_ok (e_cfg c) (leg_at c a) \<and> dl_id (leg_at c a) \<le> 1
       \<and> (working (leg_at c a) \<longrightarrow> mget (e_legs c) (dl_id (leg_at c a)) = Some a
            \<or> mget (e_retiring c) (dl_id (leg_at c a)) = Some a)"
  using assms unfolding dg_inv_def by auto

lemma set_leg_frame [simp]:
  "e_cfg (set_leg a g c) = e_cfg c" "e_legs (set_leg a g c) = e_legs c" "e_retiring (set_leg a g c) = e_retiring c"
  "e_done (set_leg a g c) = e_done c" "e_reapers (set_leg a g c) = e_reapers c" "e_txSeq (set_leg a g c) = e_txSeq c"
  "length (e_heap (set_leg a g c)) = length (e_heap c)" "e_recoveryEpoch (set_leg a g c) = e_recoveryEpoch c"
  "b \<noteq> a \<Longrightarrow> leg_at (set_leg a g c) b = leg_at c b"
  "a < length (e_heap c) \<Longrightarrow> leg_at (set_leg a g c) a = g (leg_at c a)"
  by (simp_all add: set_leg_def)

lemma dg_inv_set_leg:
  assumes "dg_inv c"
    and "dl_id (g (leg_at c a)) = dl_id (leg_at c a)" and "working (g (leg_at c a)) \<Longrightarrow> working (leg_at c a)"
    and "dl_closed (leg_at c a) \<Longrightarrow> dl_closed (g (leg_at c a))"
    and "dl_closed (g (leg_at c a)) \<Longrightarrow>
           dl_closed (leg_at c a) \<or> e_done c \<or> mget (e_legs c) (dl_id (leg_at c a)) \<noteq> Some a"
    and "queue_ok (e_cfg c) (leg_at c a) \<Longrightarrow> queue_ok (e_cfg c) (g (leg_at c a))"
  shows "dg_inv (set_leg a g c)"
proof (cases "a < length (e_heap c)")
  case True
  note D = dg_invD [OF assms(1)]
  have legs: "b < length (e_heap c) \<and> dl_id (leg_at (set_leg a g c) b) = i \<and> mget (e_retiring c) i = None
      \<and> (dl_closed (leg_at (set_leg a g c) b) \<longrightarrow> e_done c)" if "mget (e_legs c) i = Some b" for i b
    using D(3) [OF that] that assms(2,5) True by (cases "b = a") auto
  have ret: "b < length (e_heap c) \<and> dl_id (leg_at (set_leg a g c) b) = i \<and> dl_closed (leg_at (set_leg a g c) b)
      \<and> b \<in> set (e_reapers c)" if "mget (e_retiring c) i = Some b" for i b
    using D(4) [OF that] assms(2,4) True by (cases "b = a") auto
  have heap: "queue_ok (e_cfg c) (leg_at (set_leg a g c) b) \<and> dl_id (leg_at (set_leg a g c) b) \<le> 1
      \<and> (working (leg_at (set_leg a g c) b) \<longrightarrow> mget (e_legs c) (dl_id (leg_at (set_leg a g c) b)) = Some b
           \<or> mget (e_retiring c) (dl_id (leg_at (set_leg a g c) b)) = Some b)" if "b < length (e_heap c)" for b
    using D(5) [OF that] assms(2,3,6) True by (cases "b = a") auto
  show ?thesis unfolding dg_inv_def set_leg_frame(1-5,7) using D(1,2) legs ret heap by blast
next
  case False
  with assms(1) show ?thesis by (simp add: set_leg_def list_update_beyond)
qed

text \<open>The fields the invariant does not mention.\<close>

lemma dg_inv_frame:
  assumes "dg_inv c" and "e_heap c' = e_heap c" and "e_legs c' = e_legs c" and "e_retiring c' = e_retiring c"
    and "e_cfg c' = e_cfg c" and "e_reapers c' = e_reapers c" and "e_done c \<longrightarrow> e_done c'"
  shows "dg_inv c'"
  using assms(1) unfolding dg_inv_def assms(2-6) using assms(7) by blast

lemma closeLeg_fields [simp]:
  "dl_id (closeLeg err l) = dl_id l" "dl_closed (closeLeg err l)" "dl_writing (closeLeg err l) = dl_writing l"
  "dl_reading (closeLeg err l) = dl_reading l" "dl_send (closeLeg err l) = dl_send l"
  "queue_ok cfg (closeLeg err l) = queue_ok cfg l"
  by (simp_all add: closeLeg_def queue_ok_def)

lemma dg_inv_new: "dg_inv (NewDatagramEngine cfg now)"
  by (simp add: dg_inv_def NewDatagramEngine_def)

lemma dg_inv_Close:
  assumes "dg_inv c"
  shows "dg_inv (Close c) \<and> e_cfg (Close c) = e_cfg c \<and> e_done (Close c)"
proof -
  have "dg_inv (fold (\<lambda>(_, a). set_leg a (closeLeg err)) xs c') \<and> e_done (fold (\<lambda>(_, a). set_leg a (closeLeg err)) xs c')
      \<and> e_cfg (fold (\<lambda>(_, a). set_leg a (closeLeg err)) xs c') = e_cfg c'"
    if "dg_inv c'" "e_done c'" for c' err and xs :: "(u8 \<times> nat) list"
    using that
  proof (induction xs arbitrary: c')
    case (Cons x xs)
    have "dg_inv (set_leg (snd x) (closeLeg err) c')" by (rule dg_inv_set_leg [OF Cons.prems(1)]) (use Cons.prems(2) in simp_all)
    from Cons.IH [OF this] Cons.prems(2) show ?case by (simp add: case_prod_unfold)
  qed simp
  moreover have "dg_inv (c\<lparr>e_done := True\<rparr>)" by (rule dg_inv_frame [OF assms]) simp_all
  ultimately show ?thesis using assms by (simp add: Close_def)
qed

lemma dg_inv_AttachLeg:
  assumes "dg_inv c"
  shows "dg_inv (snd (AttachLeg i r w c))"
proof -
  let ?a = "length (e_heap c)"
  have *: "dg_inv (c\<lparr>e_heap := e_heap c @ [l], e_legs := mput i ?a (e_legs c), e_recoveryEpoch := ep\<rparr>)"
    (is "dg_inv ?c")
    if N: "mget (e_legs c) i = None" "mget (e_retiring c) i = None" "i \<le> 1" "dl_id l = i" "\<not> dl_closed l"
       "queue_ok (e_cfg c) l" for l ep
  proof -
    note D = dg_invD [OF assms]
    have at: "leg_at ?c b = leg_at c b" if "b < length (e_heap c)" for b using that by (simp add: nth_append)
    have new: "leg_at ?c ?a = l" by simp
    have legs: "b < length (e_heap ?c) \<and> dl_id (leg_at ?c b) = k \<and> mget (e_retiring ?c) k = None
        \<and> (dl_closed (leg_at ?c b) \<longrightarrow> e_done ?c)" if "mget (e_legs ?c) k = Some b" for k b
      using that D(3) [of k b] N at [of b] by (cases "k = i") auto
    have ret: "b < length (e_heap ?c) \<and> dl_id (leg_at ?c b) = k \<and> dl_closed (leg_at ?c b) \<and> b \<in> set (e_reapers ?c)"
      if "mget (e_retiring ?c) k = Some b" for k b
      using that D(4) [of k b] at [of b] by auto
    have heap: "queue_ok (e_cfg ?c) (leg_at ?c b) \<and> dl_id (leg_at ?c b) \<le> 1
        \<and> (working (leg_at ?c b) \<longrightarrow> mget (e_legs ?c) (dl_id (leg_at ?c b)) = Some b
             \<or> mget (e_retiring ?c) (dl_id (leg_at ?c b)) = Some b)" if "b < length (e_heap ?c)" for b
    proof (cases "b = ?a")
      case True
      then show ?thesis using N by simp
    next
      case False
      with that have "b < length (e_heap c)" by simp
      from D(5) [OF this] at [OF this] N(1,2) show ?thesis by auto
    qed
    show ?thesis unfolding dg_inv_def using D(1,2) legs ret heap by simp
  qed
  show ?thesis
    unfolding AttachLeg_def Let_def
    by (auto split: option.splits intro!: * simp: assms queue_ok_def not_less)
qed

lemma dg_inv_retiring:
  assumes "dg_inv c" and "mget (e_legs c) (dl_id (leg_at c a)) = Some a"
  shows "dg_inv ((set_leg a (closeLeg err) c)\<lparr>e_legs := mdel (dl_id (leg_at c a)) (e_legs c),
     e_retiring := mput (dl_id (leg_at c a)) a (e_retiring c), e_reapers := a # e_reapers c, e_down := ds\<rparr>)" (is "dg_inv ?c")
proof -
  note D = dg_invD [OF assms(1)]
  let ?i = "dl_id (leg_at c a)"
  have a: "a < length (e_heap c)" using D(3) [OF assms(2)] by simp
  have at: "leg_at (set_leg a (closeLeg err) c) b = (if b = a then closeLeg err (leg_at c a) else leg_at c b)" for b
    using a by simp
  have legs: "b < length (e_heap ?c) \<and> dl_id (leg_at ?c b) = k \<and> mget (e_retiring ?c) k = None
      \<and> (dl_closed (leg_at ?c b) \<longrightarrow> e_done ?c)" if "mget (e_legs ?c) k = Some b" for k b
  proof -
    from that have k: "k \<noteq> ?i" "mget (e_legs c) k = Some b" by (auto split: if_splits)
    with D(3) [OF k(2)] have "b \<noteq> a" by auto
    with k D(3) [OF k(2)] show ?thesis by (simp add: at)
  qed
  have ret: "b < length (e_heap ?c) \<and> dl_id (leg_at ?c b) = k \<and> dl_closed (leg_at ?c b) \<and> b \<in> set (e_reapers ?c)"
    if "mget (e_retiring ?c) k = Some b" for k b
    using that D(4) [of k b] a by (auto simp: at split: if_splits)
  have heap: "queue_ok (e_cfg ?c) (leg_at ?c b) \<and> dl_id (leg_at ?c b) \<le> 1
      \<and> (working (leg_at ?c b) \<longrightarrow> mget (e_legs ?c) (dl_id (leg_at ?c b)) = Some b
           \<or> mget (e_retiring ?c) (dl_id (leg_at ?c b)) = Some b)" if "b < length (e_heap ?c)" for b
  proof -
    from that have b: "b < length (e_heap c)" by simp
    show ?thesis
    proof (cases "b = a")
      case True
      then show ?thesis using D(5) [OF b] by (simp add: at)
    next
      case False
      then have "mget (e_legs c) ?i \<noteq> Some b" "mget (e_retiring c) ?i = None" using assms(2) D(3) [OF assms(2)] by auto
      then show ?thesis using D(5) [OF b] False by (auto simp: at)
    qed
  qed
  show ?thesis unfolding dg_inv_def using D(1,2) legs ret heap by simp
qed

lemma dg_inv_handleLegFailure:
  assumes "dg_inv c"
  shows "dg_inv (handleLegFailure a err c)"
proof (cases "e_done c \<or> mget (e_legs c) (dl_id (leg_at c a)) \<noteq> Some a")
  case True
  then have "dg_inv (set_leg a (closeLeg err) c)" by (intro dg_inv_set_leg [OF assms]) auto
  with True show ?thesis by (auto simp: handleLegFailure_def Let_def)
next
  case False
  from dg_inv_retiring [OF assms, where a = a and err = err
      and ds = "(dl_id (leg_at c a), err) # e_down (set_leg a (closeLeg err) c)"] False
  have "dg_inv ((set_leg a (closeLeg err) c)\<lparr>e_legs := mdel (dl_id (leg_at c a)) (e_legs c),
     e_retiring := mput (dl_id (leg_at c a)) a (e_retiring c), e_reapers := a # e_reapers c,
     e_down := (dl_id (leg_at c a), err) # e_down (set_leg a (closeLeg err) c)\<rparr>)" (is "dg_inv ?c") by simp
  moreover from this have "dg_inv (?c\<lparr>e_recoveryEpoch := ep, e_timers := tm\<rparr>)" for ep tm
    by (rule dg_inv_frame) simp_all
  ultimately show ?thesis
    using False by (cases "mdel (dl_id (leg_at c a)) (e_legs c) = []") (simp_all add: handleLegFailure_def Let_def)
qed

lemma handleLegFailure_frame [simp]:
  "e_cfg (handleLegFailure a err c) = e_cfg c" "length (e_heap (handleLegFailure a err c)) = length (e_heap c)"
  "e_done (handleLegFailure a err c) = e_done c" "e_txSeq (handleLegFailure a err c) = e_txSeq c"
  by (simp_all add: handleLegFailure_def Let_def)

lemma dg_inv_retireLeg:
  assumes "dg_inv c" and "\<not> working (leg_at c a)"
  shows "dg_inv (retireLeg a c)"
proof -
  note D = dg_invD [OF assms(1)]
  let ?i = "dl_id (leg_at c a)"
  define R where "R = (if mget (e_retiring c) ?i = Some a then mdel ?i (e_retiring c) else e_retiring c)"
  let ?c = "c\<lparr>e_retiring := R, e_reapers := removeAll a (e_reapers c)\<rparr>"
  have r: "mget R k = Some b \<longleftrightarrow> mget (e_retiring c) k = Some b \<and> b \<noteq> a" for k b
  proof (cases "mget (e_retiring c) ?i = Some a")
    case True
    then show ?thesis using D(4) [of k a] by (cases "k = ?i") (auto simp: R_def)
  next
    case False
    then show ?thesis using D(4) [of k a] by (auto simp: R_def)
  qed
  have f: "e_heap ?c = e_heap c" "e_legs ?c = e_legs c" "e_cfg ?c = e_cfg c" "e_done ?c = e_done c"
    "e_reapers ?c = removeAll a (e_reapers c)" "e_retiring ?c = R" by simp_all
  have n: "mget (e_retiring c) k = None \<Longrightarrow> mget R k = None" for k by (simp add: R_def)
  have m: "mwf R" using D(2) by (simp add: R_def)
  have legs: "b < length (e_heap c) \<and> dl_id (leg_at c b) = k \<and> mget R k = None
      \<and> (dl_closed (leg_at c b) \<longrightarrow> e_done c)" if "mget (e_legs c) k = Some b" for k b
    using D(3) [OF that] n [of k] by simp
  have ret: "b < length (e_heap c) \<and> dl_id (leg_at c b) = k \<and> dl_closed (leg_at c b) \<and> b \<in> set (removeAll a (e_reapers c))"
    if "mget R k = Some b" for k b
    using that D(4) [of k b] unfolding r by simp
  have heap: "queue_ok (e_cfg c) (leg_at c b) \<and> dl_id (leg_at c b) \<le> 1
      \<and> (working (leg_at c b) \<longrightarrow> mget (e_legs c) (dl_id (leg_at c b)) = Some b
           \<or> mget R (dl_id (leg_at c b)) = Some b)" if "b < length (e_heap c)" for b
    using D(5) [OF that] assms(2) unfolding r by (cases "b = a") simp_all
  have "dg_inv ?c"
    unfolding dg_inv_def f using D(1) m legs ret heap by blast
  then have "dg_inv (set_leg a (\<lambda>l. l\<lparr>dl_retired := True\<rparr>) ?c)"
    by (rule dg_inv_set_leg) (auto simp: queue_ok_def)
  moreover have "(if mget (e_retiring c) ?i = Some a then c\<lparr>e_retiring := mdel ?i (e_retiring c)\<rparr> else c)
      = c\<lparr>e_retiring := R\<rparr>" by (simp add: R_def)
  ultimately show ?thesis by (simp add: retireLeg_def Let_def)
qed

lemma enqueue_cases:
  assumes "enqueue pick expired leg packet deadline nb c = (r, c')"
  obtains (queued) a where "leg = Some a" "r = Some True" "\<not> dl_closed (leg_at c a)"
      "int (length (dl_send (leg_at c a))) < cf_QueueFrames (e_cfg c)" "c' = set_leg a (pushFrame packet) c"
    | (not_queued) "r \<noteq> Some True" "c' = c"
proof (cases leg)
  case None
  then show ?thesis using assms that(2) by (auto simp: enqueue_def)
next
  case (Some a)
  then have "r \<noteq> Some True \<and> c' = c \<or> r = Some True \<and> \<not> dl_closed (leg_at c a)
      \<and> int (length (dl_send (leg_at c a))) < cf_QueueFrames (e_cfg c) \<and> c' = set_leg a (pushFrame packet) c"
    using assms by (simp add: enqueue_def Let_def split: if_split_asm) auto
  with Some that show ?thesis by blast
qed

lemma queue_ok_pushFrame:
  "queue_ok cfg l \<Longrightarrow> int (length (dl_send l)) < cf_QueueFrames cfg \<Longrightarrow> queue_ok cfg (pushFrame packet l)"
  by (auto simp: queue_ok_def pushFrame_def)

lemma pushFrame_fields [simp]:
  "dl_id (pushFrame p l) = dl_id l" "dl_closed (pushFrame p l) = dl_closed l" "dl_writing (pushFrame p l) = dl_writing l"
  "dl_reading (pushFrame p l) = dl_reading l" "dl_send (pushFrame p l) = dl_send l @ [p]"
  by (simp_all add: pushFrame_def)

lemma dg_inv_enqueue:
  assumes "dg_inv c" and "enqueue pick expired leg packet deadline nb c = (r, c')"
  shows "dg_inv c'"
  using assms(2)
proof (cases rule: enqueue_cases)
  case (queued a)
  show ?thesis
    unfolding queued(5) by (rule dg_inv_set_leg [OF assms(1)]) (use queued in \<open>simp_all add: queue_ok_pushFrame\<close>)
qed (use assms(1) in simp)

text \<open>The engine after the legs \<open>S\<close> took the packet.\<close>

definition pushAll :: "nat set \<Rightarrow> datagramFrame \<Rightarrow> DatagramEngine \<Rightarrow> DatagramEngine" where
  "pushAll S packet c =
     c\<lparr>e_heap := map (\<lambda>a. if a \<in> S then pushFrame packet (leg_at c a) else leg_at c a) [0..<length (e_heap c)]\<rparr>"

lemma pushAll_empty [simp]: "pushAll {} packet c = c"
  by (simp add: pushAll_def map_nth)

lemma pushAll_frame [simp]:
  "length (e_heap (pushAll S packet c)) = length (e_heap c)" "e_cfg (pushAll S packet c) = e_cfg c"
  "e_legs (pushAll S packet c) = e_legs c" "e_txSeq (pushAll S packet c) = e_txSeq c"
  "a < length (e_heap c) \<Longrightarrow> leg_at (pushAll S packet c) a = (if a \<in> S then pushFrame packet (leg_at c a) else leg_at c a)"
  by (simp_all add: pushAll_def)

lemma pushAll_insert:
  assumes "a < length (e_heap c)" and "a \<notin> S"
  shows "set_leg a (pushFrame packet) (pushAll S packet c) = pushAll (insert a S) packet c"
proof -
  have "(map (\<lambda>b. if b \<in> S then pushFrame packet (leg_at c b) else leg_at c b) [0..<length (e_heap c)])
      [a := pushFrame packet (leg_at c a)]
      = map (\<lambda>b. if b \<in> insert a S then pushFrame packet (leg_at c b) else leg_at c b) [0..<length (e_heap c)]"
    by (rule nth_equalityI) (use assms in \<open>auto simp: nth_list_update\<close>)
  with assms show ?thesis by (simp add: set_leg_def pushAll_def)
qed

lemma enqueue_pushAll:
  assumes "enqueue pick expired (Some a) packet deadline nb (pushAll S packet c) = (r, c')"
    and "a < length (e_heap c)" and "a \<notin> S"
  shows "r = Some True \<and> c' = pushAll (insert a S) packet c \<or> r \<noteq> Some True \<and> c' = pushAll S packet c"
  using assms(1) by (cases rule: enqueue_cases) (use assms(2,3) in \<open>auto simp: pushAll_insert\<close>)

lemma enqueueAll_spec:
  assumes "distinct legs" and "set legs \<subseteq> {..<length (e_heap c)}"
  shows "\<exists>S \<subseteq> set legs. enqueueAll pick packet deadline legs c = (card S, pushAll S packet c)"
proof -
  let ?f = "\<lambda>a (queued, c). case enqueue pick False (Some a) packet deadline True c of
              (Some True, c') \<Rightarrow> (queued + 1, c') | (_, c') \<Rightarrow> (queued, c')"
  have "\<exists>S \<subseteq> S0 \<union> set legs. fold ?f legs (card S0, pushAll S0 packet c) = (card S, pushAll S packet c)"
    if "distinct legs" "set legs \<subseteq> {..<length (e_heap c)}" "finite S0" "S0 \<inter> set legs = {}" for S0 legs
    using that
  proof (induction legs arbitrary: S0)
    case (Cons a legs)
    obtain r c' where E: "enqueue pick False (Some a) packet deadline True (pushAll S0 packet c) = (r, c')" by (metis surj_pair)
    from enqueue_pushAll [OF E] Cons.prems
    consider "r = Some True" "c' = pushAll (insert a S0) packet c" | "r \<noteq> Some True" "c' = pushAll S0 packet c" by auto
    then show ?case
    proof cases
      case 1
      then have "?f a (card S0, pushAll S0 packet c) = (card (insert a S0), pushAll (insert a S0) packet c)"
        using E Cons.prems by simp
      moreover from Cons.IH [of "insert a S0"] Cons.prems
      obtain S where "S \<subseteq> insert a S0 \<union> set legs"
        "fold ?f legs (card (insert a S0), pushAll (insert a S0) packet c) = (card S, pushAll S packet c)" by auto
      ultimately show ?thesis by (intro exI [of _ S]) auto
    next
      case 2
      then have "?f a (card S0, pushAll S0 packet c) = (card S0, pushAll S0 packet c)"
        using E by (auto split: option.splits bool.splits)
      moreover from Cons.IH [of S0] Cons.prems
      obtain S where "S \<subseteq> S0 \<union> set legs" "fold ?f legs (card S0, pushAll S0 packet c) = (card S, pushAll S packet c)" by auto
      ultimately show ?thesis by (intro exI [of _ S]) auto
    qed
  qed auto
  from this [of legs "{}"] assms show ?thesis by (simp add: enqueueAll_def)
qed

lemma enqueueOther_spec:
  assumes "set legs \<subseteq> {..<length (e_heap c)}" and "enqueueOther pick packet deadline best legs c = (ok, c')"
  shows "\<exists>S \<subseteq> set legs. c' = pushAll S packet c \<and> (ok \<longleftrightarrow> S \<noteq> {}) \<and> card S \<le> 1"
  using assms
proof (induction legs)
  case (Cons a legs)
  obtain r c1 where E: "enqueue pick False (Some a) packet deadline True c = (r, c1)" by (metis surj_pair)
  have E': "r = Some True \<and> c1 = pushAll {a} packet c \<or> r \<noteq> Some True \<and> c1 = c"
    using enqueue_pushAll [of pick False a packet deadline True "{}" c r c1] E Cons.prems(1) by simp
  consider (took) "best \<noteq> Some (dl_id (leg_at c a))" "r = Some True"
    | (other) "enqueueOther pick packet deadline best legs c = (ok, c')"
    using Cons.prems(2) E E' by (auto split: if_splits option.splits bool.splits)
  then show ?case
  proof cases
    case took
    then have "ok" "c' = pushAll {a} packet c" using Cons.prems(2) E E' by auto
    then show ?thesis by (intro exI [of _ "{a}"]) simp
  next
    case other
    with Cons.IH Cons.prems(1) show ?thesis by auto
  qed
qed simp

lemma mwf_map_snd_distinct:
  assumes "mwf m" and "\<And>k v. mget m k = Some v \<Longrightarrow> h v = k"
  shows "distinct (map snd m)"
proof -
  have "h v = k" if "(k, v) \<in> set m" for k v by (rule assms(2) [OF in_mget [OF assms(1) that]])
  then have "map fst m = map h (map snd m)" by auto
  then show ?thesis using assms(1) unfolding mwf_def by (metis distinct_map)
qed

lemma availableLegs_ok:
  assumes "dg_inv c"
  shows "distinct (availableLegs c)" "set (availableLegs c) \<subseteq> {..<length (e_heap c)}"
    "a \<in> set (availableLegs c) \<longleftrightarrow> (\<exists>i. mget (e_legs c) i = Some a) \<and> \<not> dl_closed (leg_at c a)"
proof -
  note D = dg_invD [OF assms]
  have "distinct (map snd (e_legs c))"
    by (rule mwf_map_snd_distinct [OF D(1), of "\<lambda>a. dl_id (leg_at c a)"]) (use D(3) in blast)
  then show "distinct (availableLegs c)" by (simp add: availableLegs_def)
  have mem: "a \<in> set (map snd (e_legs c)) \<longleftrightarrow> (\<exists>i. mget (e_legs c) i = Some a)" for a
    using D(1) by (force dest: mget_in intro: in_mget)
  then show "a \<in> set (availableLegs c) \<longleftrightarrow> (\<exists>i. mget (e_legs c) i = Some a) \<and> \<not> dl_closed (leg_at c a)"
    by (auto simp: availableLegs_def)
  show "set (availableLegs c) \<subseteq> {..<length (e_heap c)}"
    using mem D(3) by (auto simp: availableLegs_def)
qed

lemma chooseLeg_in: "chooseLeg score legs = Some a \<Longrightarrow> a \<in> set legs"
proof -
  have "fold (\<lambda>a best. case best of None \<Rightarrow> Some a | Some b \<Rightarrow> if score a < score b then Some a else Some b) legs b = Some a
      \<Longrightarrow> a \<in> set legs \<or> b = Some a" for b
    by (induction legs arbitrary: b) (force split: option.splits if_splits)+
  then show "chooseLeg score legs = Some a \<Longrightarrow> a \<in> set legs" by (fastforce simp: chooseLeg_def)
qed

lemma dg_inv_pushAll_room:
  "dg_inv c \<Longrightarrow> set legs \<subseteq> {..<length (e_heap c)} \<Longrightarrow> dg_inv (snd (enqueueAll pick packet deadline legs c))"
proof -
  let ?f = "\<lambda>a (queued, c). case enqueue pick False (Some a) packet deadline True c of
              (Some True, c') \<Rightarrow> (queued + 1, c') | (_, c') \<Rightarrow> (queued, c')"
  have "dg_inv (snd (fold ?f legs (n :: nat, c)))" if "dg_inv c" for n c and legs :: "nat list"
    using that
  proof (induction legs arbitrary: n c)
    case (Cons a legs)
    obtain r c' where E: "enqueue pick False (Some a) packet deadline True c = (r, c')" by (metis surj_pair)
    then have "\<exists>m. ?f a (n, c) = (m, c')" by (auto split: option.splits bool.splits)
    with Cons.IH dg_inv_enqueue [OF Cons.prems E] show ?case by auto
  qed simp
  then show "dg_inv c \<Longrightarrow> dg_inv (snd (enqueueAll pick packet deadline legs c))" by (simp add: enqueueAll_def)
qed

lemma dg_inv_enqueueOther: "dg_inv c \<Longrightarrow> enqueueOther pick packet deadline best legs c = (ok, c') \<Longrightarrow> dg_inv c'"
proof (induction legs arbitrary: c)
  case (Cons a legs)
  obtain r c1 where E: "enqueue pick False (Some a) packet deadline True c = (r, c1)" by (metis surj_pair)
  from dg_inv_enqueue [OF Cons.prems(1) E] Cons.prems Cons.IH [of c] Cons.IH [of c1] E show ?case
    by (auto split: if_splits option.splits bool.splits)
qed simp

text \<open>The packet of a \<open>Send\<close>, and the engine once its id is allocated.\<close>

definition send_packet :: "bytes \<Rightarrow> bytes \<Rightarrow> gotime \<Rightarrow> DatagramEngine \<Rightarrow> datagramFrame" where
  "send_packet data address now c = \<lparr>fr_id = e_txSeq c, fr_address = address, fr_data = data, fr_queuedAt = now\<rparr>"

definition allocated :: "gotime \<Rightarrow> DatagramEngine \<Rightarrow> DatagramEngine" where
  "allocated now c = touch now (c\<lparr>e_txSeq := e_txSeq c + 1\<rparr>)"

lemma allocated_frame [simp]:
  "e_heap (allocated now c) = e_heap c" "e_cfg (allocated now c) = e_cfg c" "e_legs (allocated now c) = e_legs c"
  "e_txSeq (allocated now c) = e_txSeq c + 1" "availableLegs (allocated now c) = availableLegs c"
  "dg_inv c \<Longrightarrow> dg_inv (allocated now c)"
  by (simp_all add: allocated_def touch_def availableLegs_def) (erule dg_inv_frame, simp_all)

definition send_refused :: "bytes \<Rightarrow> bytes \<Rightarrow> DatagramEngine \<Rightarrow> smp3_error option" where
  "send_refused data address c =
     (if int (length data) > cf_MaxDatagramSize (e_cfg c) then Some ErrDatagramTooLarge
      else if address = [] \<or> length address > MaxDatagramAddressSize
      then Some (DatagramErr ''invalid multipath datagram address'')
      else if availableLegs c = [] then Some (DatagramErr ''no multipath datagram leg available'')
      else None)"

lemma Send_accepted:
  assumes "data \<noteq> []" and "send_refused data address c = None"
  shows "Send score pick expired data address deadline now c =
    (case (if shouldDuplicate (length data) (availableLegs c) (e_cfg c)
           then enqueueAll pick (send_packet data address now c) deadline (availableLegs c) (allocated now c)
           else (0, allocated now c)) of
       (q, c2) \<Rightarrow>
         if q > 0 then (SendOk, if q > 1 then c2\<lparr>e_duplicateTx := e_duplicateTx c2 + of_nat (q - 1)\<rparr> else c2)
         else case enqueue pick expired (chooseLeg score (availableLegs c)) (send_packet data address now c) deadline False c2 of
                (None, c3) \<Rightarrow> (SendBlocks, c3) | (Some True, c3) \<Rightarrow> (SendOk, c3)
              | (Some False, c3) \<Rightarrow> (case enqueueOther pick (send_packet data address now c) deadline
                     (map_option (\<lambda>b. dl_id (leg_at c3 b)) (chooseLeg score (availableLegs c))) (availableLegs c3) c3 of
                   (True, c4) \<Rightarrow> (SendOk, c4)
                 | (False, c4) \<Rightarrow> (SendErr (DatagramErr ''multipath datagram queue unavailable''), c4)))"
proof -
  have g: "length data \<noteq> 0" "\<not> int (length data) > cf_MaxDatagramSize (e_cfg c)"
    "\<not> (address = [] \<or> length address > MaxDatagramAddressSize)" "length (availableLegs c) \<noteq> 0"
    using assms by (auto simp: send_refused_def split: if_splits)
  have cfg: "e_cfg (touch now (c\<lparr>e_txSeq := e_txSeq c + 1\<rparr>)) = e_cfg c" by (simp add: touch_def)
  show ?thesis
    unfolding Send_def Let_def send_packet_def allocated_def cfg by (simp only: g if_False)
qed

lemma Send_cases:
  assumes "dg_inv c" and "data \<noteq> []" and "send_refused data address c = None"
  obtains S r c' where "S \<subseteq> set (availableLegs c)" "Send score pick expired data address deadline now c = (r, c')"
    "e_heap c' = e_heap (pushAll S (send_packet data address now c) (allocated now c))" "e_txSeq c' = e_txSeq c + 1"
    "r = SendOk \<longleftrightarrow> S \<noteq> {}" "card S > 1 \<longrightarrow> shouldDuplicate (length data) (availableLegs c) (e_cfg c)"
proof -
  let ?p = "send_packet data address now c" and ?c = "allocated now c" and ?L = "availableLegs c"
  let ?dup = "shouldDuplicate (length data) ?L (e_cfg c)"
  have L: "distinct ?L" "set ?L \<subseteq> {..<length (e_heap ?c)}" using availableLegs_ok [OF assms(1)] by auto
  obtain S q where S: "S \<subseteq> set ?L" and q: "(if ?dup then enqueueAll pick ?p deadline ?L ?c else (0, ?c)) = (q, pushAll S ?p ?c)"
    and qS: "q = card S" "S \<noteq> {} \<longrightarrow> ?dup"
    using enqueueAll_spec [OF L, of pick ?p deadline] by (cases ?dup) auto
  have fin: "finite S" using S finite_subset by blast
  have send: "Send score pick expired data address deadline now c =
    (if q > 0 then (SendOk, if q > 1 then (pushAll S ?p ?c)\<lparr>e_duplicateTx := e_duplicateTx (pushAll S ?p ?c) + of_nat (q - 1)\<rparr>
                            else pushAll S ?p ?c)
     else case enqueue pick expired (chooseLeg score ?L) ?p deadline False (pushAll S ?p ?c) of
            (None, c3) \<Rightarrow> (SendBlocks, c3) | (Some True, c3) \<Rightarrow> (SendOk, c3)
          | (Some False, c3) \<Rightarrow> (case enqueueOther pick ?p deadline
                 (map_option (\<lambda>b. dl_id (leg_at c3 b)) (chooseLeg score ?L)) (availableLegs c3) c3 of
               (True, c4) \<Rightarrow> (SendOk, c4)
             | (False, c4) \<Rightarrow> (SendErr (DatagramErr ''multipath datagram queue unavailable''), c4)))"
    unfolding Send_accepted [OF assms(2,3)] q by simp
  show ?thesis
  proof (cases "S = {}")
    case False
    then have "q > 0" using qS fin by (simp add: card_gt_0_iff)
    then obtain c' where "Send score pick expired data address deadline now c = (SendOk, c')"
      "e_heap c' = e_heap (pushAll S ?p ?c)" "e_txSeq c' = e_txSeq c + 1" using send by (cases "q > 1") simp_all
    with that [of S SendOk c'] False S qS show ?thesis by simp
  next
    case True
    then have send0: "q = 0" "pushAll S ?p ?c = ?c" using qS by auto
    obtain r c3 where E: "enqueue pick expired (chooseLeg score ?L) ?p deadline False ?c = (r, c3)" by (metis surj_pair)
    from E show ?thesis
    proof (cases rule: enqueue_cases)
      case (queued a)
      then have a: "a \<in> set ?L" using chooseLeg_in by blast
      then have "c3 = pushAll {a} ?p ?c" using queued(5) pushAll_insert [of a ?c "{}" ?p] L(2) by auto
      moreover have "Send score pick expired data address deadline now c = (SendOk, c3)"
        using send send0 E queued(2) by simp
      ultimately show ?thesis using that [of "{a}" SendOk c3] a by simp
    next
      case not_queued
      show ?thesis
      proof (cases r)
        case None
        then have "Send score pick expired data address deadline now c = (SendBlocks, ?c)"
          using send send0 E not_queued by simp
        with that [of "{}" SendBlocks ?c] show ?thesis by simp
      next
        case (Some b)
        then have b: "\<not> b" using not_queued by auto
        obtain ok c4 where O: "enqueueOther pick ?p deadline (map_option (\<lambda>b. dl_id (leg_at ?c b)) (chooseLeg score ?L)) ?L ?c
            = (ok, c4)" by (metis surj_pair)
        from enqueueOther_spec [OF L(2) O] obtain T where T: "T \<subseteq> set ?L" "c4 = pushAll T ?p ?c" "ok \<longleftrightarrow> T \<noteq> {}" "card T \<le> 1" by blast
        have "Send score pick expired data address deadline now c
            = (if ok then SendOk else SendErr (DatagramErr ''multipath datagram queue unavailable''), c4)"
          using send send0 E not_queued Some b O by (cases ok) simp_all
        with T that [of T "if ok then SendOk else SendErr (DatagramErr ''multipath datagram queue unavailable'')" c4]
        show ?thesis by simp
      qed
    qed
  qed
qed

lemma Send_refused:
  "data \<noteq> [] \<Longrightarrow> send_refused data address c = Some err \<Longrightarrow>
     Send score pick expired data address deadline now c = (SendErr err, c)"
  by (auto simp: Send_def send_refused_def Let_def split: if_splits)

lemma Send_empty: "Send score pick expired [] address deadline now c = (SendOk, c)"
  by (simp add: Send_def)

lemma dg_inv_Send:
  assumes "dg_inv c"
  shows "dg_inv (snd (Send score pick expired data address deadline now c))"
proof (cases "data = [] \<or> (\<exists>e. send_refused data address c = Some e)")
  case True
  then show ?thesis using assms by (cases "data = []") (auto simp: Send_empty Send_refused)
next
  case False
  let ?p = "send_packet data address now c" and ?L = "availableLegs c"
  obtain q c2 where Q: "(if shouldDuplicate (length data) ?L (e_cfg c)
      then enqueueAll pick ?p deadline ?L (allocated now c) else (0, allocated now c)) = (q, c2)" by (metis surj_pair)
  have "dg_inv (allocated now c)" using assms by simp
  moreover from dg_inv_pushAll_room [OF this, of ?L pick ?p deadline] availableLegs_ok(2) [OF assms]
  have "dg_inv (snd (enqueueAll pick ?p deadline ?L (allocated now c)))" by simp
  ultimately have c2: "dg_inv c2" using Q by (auto split: if_split_asm)
  then have dup: "dg_inv (c2\<lparr>e_duplicateTx := d\<rparr>)" for d by (rule dg_inv_frame) simp_all
  obtain r c3 where E: "enqueue pick expired (chooseLeg score ?L) ?p deadline False c2 = (r, c3)" by (metis surj_pair)
  have c3: "dg_inv c3" by (rule dg_inv_enqueue [OF c2 E])
  obtain ok c4 where O: "enqueueOther pick ?p deadline (map_option (\<lambda>b. dl_id (leg_at c3 b)) (chooseLeg score ?L))
      (availableLegs c3) c3 = (ok, c4)" by (metis surj_pair)
  have c4: "dg_inv c4" by (rule dg_inv_enqueueOther [OF c3 O])
  have "Send score pick expired data address deadline now c = (case (q, c2) of
       (q, c2) \<Rightarrow>
         if q > 0 then (SendOk, if q > 1 then c2\<lparr>e_duplicateTx := e_duplicateTx c2 + of_nat (q - 1)\<rparr> else c2)
         else case (r, c3) of (None, c3) \<Rightarrow> (SendBlocks, c3) | (Some True, c3) \<Rightarrow> (SendOk, c3)
              | (Some False, c3) \<Rightarrow> (case (ok, c4) of
                   (True, c4) \<Rightarrow> (SendOk, c4)
                 | (False, c4) \<Rightarrow> (SendErr (DatagramErr ''multipath datagram queue unavailable''), c4)))"
    using False E O Send_accepted [of data address c score pick expired deadline now] unfolding Q
    by (auto split: option.splits bool.splits)
  with c2 c3 c4 dup show ?thesis by (auto split: option.splits bool.splits)
qed

lemma dg_inv_touch: "dg_inv c \<Longrightarrow> dg_inv (touch now c)"
  by (erule dg_inv_frame) (simp_all add: touch_def)

lemma dg_inv_stop:
  "dg_inv c \<Longrightarrow> dg_inv (set_leg a (\<lambda>l. l\<lparr>dl_writing := False\<rparr>) c)"
  "dg_inv c \<Longrightarrow> dg_inv (set_leg a (\<lambda>l. l\<lparr>dl_reading := False\<rparr>) c)"
  "dg_inv c \<Longrightarrow> dg_inv (set_leg a (\<lambda>l. l\<lparr>dl_in := r\<rparr>) c)"
  "dg_inv c \<Longrightarrow> dg_inv (set_leg a (\<lambda>l. l\<lparr>dl_held := h\<rparr>) c)"
  "dg_inv c \<Longrightarrow> dg_inv (set_leg a (\<lambda>l. l\<lparr>dl_held := h, dl_reading := False\<rparr>) c)"
  by (erule dg_inv_set_leg; simp add: queue_ok_def)+

lemma dg_inv_legWriteStep:
  assumes "dg_inv c"
  shows "dg_inv (legWriteStep pick a now c)"
proof (cases "dl_writing (leg_at c a) \<and> \<not> ((e_done c \<or> dl_closed (leg_at c a)) \<and> (\<not> pick \<or> dl_send (leg_at c a) = []))
    \<and> dl_send (leg_at c a) \<noteq> []")
  case True
  let ?l = "leg_at c a"
  obtain packet rest where q: "dl_send ?l = packet # rest" using True by (cases "dl_send ?l") auto
  obtain err w where W: "WriteDatagramFrame (dl_out ?l) (fr_id packet) (fr_address packet) (fr_data packet) = (err, w)"
    by (metis surj_pair)
  let ?g = "\<lambda>l. l\<lparr>dl_send := rest, dl_out := w, dl_queuedBytes := dl_queuedBytes l - int (length (fr_data packet))\<rparr>"
  have inv: "dg_inv (set_leg a ?g c)"
    by (rule dg_inv_set_leg [OF assms]) (use q in \<open>auto simp: queue_ok_def\<close>)
  have "dg_inv (touch now ((set_leg a ?g c)\<lparr>e_txBytes := t, e_useful := u\<rparr>))" for t u
    by (intro dg_inv_touch dg_inv_frame [OF inv]) simp_all
  with inv True q W show ?thesis
    by (cases err) (auto simp: legWriteStep_def Let_def dg_inv_stop dg_inv_handleLegFailure)
next
  case False
  then have "legWriteStep pick a now c = c \<or> legWriteStep pick a now c = set_leg a (\<lambda>l. l\<lparr>dl_writing := False\<rparr>) c"
    by (cases "dl_send (leg_at c a)") (auto simp: legWriteStep_def Let_def)
  then show ?thesis using assms dg_inv_stop by auto
qed

lemma acceptDatagramID_frame:
  "acceptDatagramID i n c = (ok, c') \<Longrightarrow> e_heap c' = e_heap c \<and> e_legs c' = e_legs c \<and> e_retiring c' = e_retiring c
     \<and> e_cfg c' = e_cfg c \<and> e_reapers c' = e_reapers c \<and> e_done c' = e_done c \<and> e_incoming c' = e_incoming c
     \<and> e_txSeq c' = e_txSeq c"
  by (auto simp: acceptDatagramID_def split: if_splits)

lemma dg_inv_deliverHeld: "dg_inv c \<Longrightarrow> dg_inv (deliverHeld pick a packet c)"
  by (auto simp: deliverHeld_def intro!: dg_inv_stop elim: dg_inv_frame)

lemma dg_inv_legReadStep:
  assumes "dg_inv c"
  shows "dg_inv (legReadStep pick a now c)"
proof (cases "dl_reading (leg_at c a) \<and> dl_held (leg_at c a) = None")
  case True
  let ?l = "leg_at c a"
  show ?thesis
  proof (cases "ReadDatagramFrame (dl_in ?l) (cf_MaxDatagramSize (e_cfg c))")
    case (Inl err)
    then show ?thesis using True assms by (simp add: legReadStep_def Let_def dg_inv_stop dg_inv_handleLegFailure)
  next
    case (Inr x)
    obtain i address data r where x: "x = ((i, address, data), r)" by (metis surj_pair)
    let ?c0 = "set_leg a (\<lambda>l. l\<lparr>dl_in := r\<rparr>) c"
    obtain ok c1 where A: "acceptDatagramID i (length data) ?c0 = (ok, c1)" by (metis surj_pair)
    have c1: "dg_inv c1"
      by (rule dg_inv_frame [OF dg_inv_stop(3) [OF assms]]) (use acceptDatagramID_frame [OF A] in simp_all)
    have f: "dg_inv (c1\<lparr>e_duplicateDrop := d\<rparr>)" "dg_inv (touch now (c1\<lparr>e_rxUniqueBytes := u\<rparr>))" for d u
      by (rule dg_inv_frame [OF c1], simp_all add: touch_def)+
    then show ?thesis using True Inr x A by (cases ok) (simp_all add: legReadStep_def Let_def dg_inv_stop)
  qed
qed (use assms dg_inv_deliverHeld in \<open>auto simp: legReadStep_def Let_def split: option.splits\<close>)

section \<open>Runs of the engine\<close>

inductive dg_step :: "DatagramEngine \<Rightarrow> DatagramEngine \<Rightarrow> bool" where
  attach: "dg_step c (snd (AttachLeg i r w c))"
| replace: "dg_step c (snd (ReplaceLeg i err c))"
| failure: "dg_step c (handleLegFailure a err c)"
| retire: "a \<in> set (e_reapers c) \<Longrightarrow> \<not> working (leg_at c a) \<Longrightarrow> dg_step c (retireLeg a c)"
| send: "dg_step c (snd (Send score pick expired data address deadline now c))"
| wr: "dg_step c (legWriteStep pick a now c)"
| rd: "dg_step c (legReadStep pick a now c)"
| receive: "dg_step c (snd (Receive pick expired deadline c))"
| close: "dg_step c (Close c)"
| idle: "dg_step c (idleTick now c)"
| timer: "epoch \<in> set (e_timers c) \<Longrightarrow> dg_step c (failIfNoLegRecovers epoch c)"

lemma dg_step_inv:
  assumes "dg_step c c'" and "dg_inv c"
  shows "dg_inv c'"
  using assms(1)
proof cases
  case (replace i err)
  then show ?thesis using assms(2) by (auto simp: ReplaceLeg_def dg_inv_handleLegFailure split: option.splits)
next
  case (receive pick expired deadline)
  have "dg_inv (c\<lparr>e_incoming := q\<rparr>)" for q by (rule dg_inv_frame [OF assms(2)]) simp_all
  with receive assms(2) show ?thesis by (auto simp: Receive_def split: list.splits)
next
  case (idle now)
  with dg_inv_Close [OF assms(2)] assms(2) show ?thesis by (simp add: idleTick_def)
next
  case (timer epoch)
  have "dg_inv (c\<lparr>e_timers := t\<rparr>)" for t by (rule dg_inv_frame [OF assms(2)]) simp_all
  with timer dg_inv_Close show ?thesis by (simp add: failIfNoLegRecovers_def Let_def)
qed (use assms(2) dg_inv_Close in \<open>simp_all add: dg_inv_AttachLeg dg_inv_handleLegFailure dg_inv_retireLeg dg_inv_Send
      dg_inv_legWriteStep dg_inv_legReadStep\<close>)

interpretation dgr: carrier_registry dg_inv dg_step "\<lambda>c. mget (e_legs c)" "\<lambda>c. mget (e_retiring c)"
  "\<lambda>c a. dl_id (leg_at c a)" "\<lambda>c a. a < length (e_heap c) \<and> working (leg_at c a)"
proof
  fix c c' :: DatagramEngine and i :: u8 and a :: nat
  assume inv: "dg_inv c"
  show "dg_step c c' \<Longrightarrow> dg_inv c'" using dg_step_inv inv by blast
  show "mget (e_legs c) i = Some a \<Longrightarrow> dl_id (leg_at c a) = i \<and> mget (e_retiring c) i = None"
    using dg_invD(3) [OF inv] by blast
  show "a < length (e_heap c) \<and> working (leg_at c a) \<Longrightarrow>
      mget (e_legs c) (dl_id (leg_at c a)) = Some a \<or> mget (e_retiring c) (dl_id (leg_at c a)) = Some a"
    using dg_invD(5) [OF inv] by blast
qed

lemma reachable_dg_inv: "dg_step\<^sup>*\<^sup>* (NewDatagramEngine cfg now) c \<Longrightarrow> dg_inv c"
  using dgr.run_inv dg_inv_new by blast

section \<open>Properties\<close>

lemma pair_eqE:
  assumes "fst p = x \<and> Q (snd p)"
  obtains y where "p = (x, y)" "Q y"
  using assms by (cases p) auto

text \<open>A datagram frame that the writer accepted and wrote without error, over however many partial
  writes, is read back by the peer as the same id, address and payload, whatever follows it on the
  carrier, as long as the payload is within the peer's limit.\<close>

theorem datagram_frame_roundtrip:
  assumes "WriteDatagramFrame conn i address data = (None, w)" and "int (length data) \<le> maxDatagram"
  shows "\<exists>frame. written w = written conn @ frame
    \<and> (\<forall>rest e. ReadDatagramFrame \<lparr>avail = frame @ rest, atEnd = e\<rparr> maxDatagram
                 = Inr ((i, address, data), \<lparr>avail = rest, atEnd = e\<rparr>))"
  using WriteDatagramFrame_written [OF assms(1)] ReadDatagramFrame_wire assms(2) by blast

theorem datagram_frame_roundtrip_witness:
  "\<exists>w frame. WriteDatagramFrame \<lparr>written = [9], script = [(4, None)]\<rparr> 7 [1, 2] [3, 4, 5] = (None, w)
    \<and> written w = [9] @ frame \<and> length frame = 20
    \<and> ReadDatagramFrame \<lparr>avail = frame @ [8], atEnd = EOF\<rparr> 100 = Inr ((7, [1, 2], [3, 4, 5]), \<lparr>avail = [8], atEnd = EOF\<rparr>)"
proof -
  have e: "fst (WriteDatagramFrame \<lparr>written = [9], script = [(4, None)]\<rparr> 7 [1, 2] [3, 4, 5]) = None
      \<and> length (written (snd (WriteDatagramFrame \<lparr>written = [9], script = [(4, None)]\<rparr> 7 [1, 2] [3, 4, 5]))) = 21"
    by (simp add: WriteDatagramFrame_def MaxStreamFramePayload_def MaxDatagramAddressSize_def Let_def datagramHeader_def
        writeAll_def writeLoop.simps Write_def)
  obtain w where w: "WriteDatagramFrame \<lparr>written = [9], script = [(4, None)]\<rparr> 7 [1, 2] [3, 4, 5] = (None, w)"
    "length (written w) = 21" by (rule pair_eqE [where Q = "\<lambda>w. length (written w) = 21", OF e])
  from datagram_frame_roundtrip [OF w(1), of 100] obtain frame where f: "written w = [9] @ frame"
    "ReadDatagramFrame \<lparr>avail = frame @ [8], atEnd = EOF\<rparr> 100 = Inr ((7, [1, 2], [3, 4, 5]), \<lparr>avail = [8], atEnd = EOF\<rparr>)"
    by auto
  show ?thesis by (intro exI [of _ w] exI [of _ frame] conjI w(1) f) (use w(2) f(1) in simp)
qed

text \<open>C27: Whatever the order in which frames arrive over the two carriers, an id whose arrivals are all of
  replicable size is accepted at most once, also after its entry was evicted from the window.\<close>

theorem datagram_accepted_once:
  assumes "unat (cf_DedupWindow cfg) < 2 ^ 63" and "acceptAll arrivals (NewDatagramEngine cfg now) = (accepted, c)"
    and "\<forall>(j, n) \<in> set arrivals. j = i \<longrightarrow> mayBeReplicated (normalizeDatagramConfig cfg) n"
  shows "length (filter (\<lambda>(j, _). j = i) accepted) \<le> 1"
proof -
  have "window_ok (normalizeDatagramConfig cfg)" using assms(1) by (auto simp: window_ok_def normalize_fields word_gt_0)
  from acceptAll_once [OF normalized_dedup _ assms(2)] this assms(3) show ?thesis by simp
qed

text \<open>No datagram outside the replicable sizes is dropped for its age: every id of such an arrival is
  among the accepted ones, in any order of arrival. The memory of the window never exceeds twice its
  configured size.\<close>

theorem datagram_never_stale_dropped:
  assumes "unat (cf_DedupWindow cfg) < 2 ^ 63" and "acceptAll arrivals (NewDatagramEngine cfg now) = (accepted, c)"
  shows "(\<forall>(i, n) \<in> set arrivals. \<not> mayBeReplicated (normalizeDatagramConfig cfg) n \<longrightarrow> i \<in> fst ` set accepted)
    \<and> length (e_seen c) \<le> 2 * unat (cf_DedupWindow (normalizeDatagramConfig cfg))"
proof -
  have w: "window_ok (e_cfg (NewDatagramEngine cfg now))"
    using assms(1) by (auto simp: window_ok_def normalize_fields word_gt_0)
  from acceptAll_inv [OF normalized_dedup w assms(2)] acceptAll_complete [OF normalized_dedup w assms(2)]
  show ?thesis by (auto simp: dedup_inv_def)
qed

definition dgConfig :: "DatagramMode \<Rightarrow> u64 \<Rightarrow> DatagramConfig" where
  "dgConfig m w = \<lparr>cf_Mode = m, cf_QueueFrames = 0, cf_MaxDatagramSize = 0, cf_DedupWindow = w, cf_IdleTimeout = 0,
     cf_RecoveryTimeout = 0, cf_AdaptiveQueueDelay = 0, cf_AdaptiveDuplicateThreshold = 100\<rparr>"

theorem datagram_accepted_once_witness:
  "\<exists>c. acceptAll [(1, 8), (9, 8), (1, 8), (5, 8), (9, 8), (2, 8)] (NewDatagramEngine (dgConfig DatagramDuplicate 3) 0)
      = ([(1, 8), (9, 8)], c) \<and> length (filter (\<lambda>(j, _). j = (1 :: u64)) [(1, 8 :: nat), (9, 8)]) \<le> 1"
proof -
  have e: "fst (acceptAll [(1, 8), (9, 8), (1, 8), (5, 8), (9, 8), (2, 8)] (NewDatagramEngine (dgConfig DatagramDuplicate 3) 0))
      = [(1, 8), (9, 8)]" by code_simp
  then obtain c where c: "acceptAll [(1, 8), (9, 8), (1, 8), (5, 8), (9, 8), (2, 8)]
      (NewDatagramEngine (dgConfig DatagramDuplicate 3) 0) = ([(1, 8), (9, 8)], c)" by (metis prod.collapse)
  from datagram_accepted_once [OF _ c, of 1] c show ?thesis
    by (simp add: dgConfig_def mayBeReplicated_def normalize_fields)
qed

theorem datagram_never_stale_dropped_witness:
  "\<exists>c. acceptAll [(9, 500), (1, 500), (9, 500), (2, 500)] (NewDatagramEngine (dgConfig DatagramStripe 2) 0)
      = ([(9, 500), (1, 500), (2, 500)], c) \<and> 1 \<in> fst ` set [(9 :: u64, 500 :: nat), (1, 500), (2, 500)] \<and> length (e_seen c) \<le> 4"
proof -
  have e: "fst (acceptAll [(9, 500), (1, 500), (9, 500), (2, 500)] (NewDatagramEngine (dgConfig DatagramStripe 2) 0))
      = [(9, 500), (1, 500), (2, 500)]" by code_simp
  then obtain c where c: "acceptAll [(9, 500), (1, 500), (9, 500), (2, 500)] (NewDatagramEngine (dgConfig DatagramStripe 2) 0)
      = ([(9, 500), (1, 500), (2, 500)], c)" by (metis prod.collapse)
  from datagram_never_stale_dropped [OF _ c] c show ?thesis
    by (simp add: dgConfig_def mayBeReplicated_def normalize_fields)
qed


text \<open>An engine with one attached carrier, for the witnesses.\<close>

definition dgExample :: DatagramEngine where
  "dgExample = snd (AttachLeg 1 \<lparr>avail = [], atEnd = EOF\<rparr> \<lparr>written = [], script = []\<rparr>
     (NewDatagramEngine (dgConfig DatagramDuplicate 3) 0))"

lemma dgExample_reachable: "dg_step\<^sup>*\<^sup>* (NewDatagramEngine (dgConfig DatagramDuplicate 3) 0) dgExample"
  unfolding dgExample_def by (rule r_into_rtranclp, rule dg_step.attach)

lemma dgExample_fields:
  "length (e_heap dgExample) = 1" "mget (e_legs dgExample) 1 = Some 0" "e_legs dgExample = [(1, 0)]"
  "working (leg_at dgExample 0)" "\<not> e_done dgExample" "e_txSeq dgExample = 0" "dl_send (leg_at dgExample 0) = []"
  "\<not> dl_closed (leg_at dgExample 0)" "cf_MaxDatagramSize (e_cfg dgExample) = 16384"
  by (simp_all add: dgExample_def AttachLeg_def NewDatagramEngine_def normalizeDatagramConfig_def Let_def
      dgConfig_def MaxDatagramPayload_def MaxStreamFramePayload_def)


text \<open>What \<open>Send\<close> does, in every reachable state and for every timing of its \<open>select\<close>s. An empty
  payload succeeds and changes nothing. A refused request (too large, bad address, no carrier) fails and
  changes nothing. Otherwise the packet gets a fresh id and is appended to the queues of a set of the
  available carriers, every other queue unchanged; \<open>Send\<close> succeeds exactly when the set is not empty,
  and it has more than one member only when the packet is to be duplicated.\<close>

theorem datagram_send_outcome:
  assumes "dg_step\<^sup>*\<^sup>* (NewDatagramEngine cfg t0) c"
  shows "case Send score pick expired data address deadline now c of (r, c') \<Rightarrow>
    if data = [] then r = SendOk \<and> c' = c
    else case send_refused data address c of
           Some err \<Rightarrow> r = SendErr err \<and> c' = c
         | None \<Rightarrow> e_txSeq c' = e_txSeq c + 1 \<and>
             (\<exists>S \<subseteq> set (availableLegs c). (r = SendOk \<longleftrightarrow> S \<noteq> {})
                \<and> (card S > 1 \<longrightarrow> shouldDuplicate (length data) (availableLegs c) (e_cfg c))
                \<and> length (e_heap c') = length (e_heap c)
                \<and> (\<forall>a < length (e_heap c). dl_send (leg_at c' a) = dl_send (leg_at c a) @
                     (if a \<in> S then [\<lparr>fr_id = e_txSeq c, fr_address = address, fr_data = data, fr_queuedAt = now\<rparr>] else [])))"
proof (cases "data = [] \<or> send_refused data address c \<noteq> None")
  case True
  then show ?thesis by (cases "data = []") (auto simp: Send_empty Send_refused)
next
  case False
  then have f: "data \<noteq> []" "send_refused data address c = None" by auto
  from Send_cases [OF reachable_dg_inv [OF assms] f, of score pick expired deadline now] obtain S r c' where
    *: "S \<subseteq> set (availableLegs c)" "Send score pick expired data address deadline now c = (r, c')"
    "e_heap c' = e_heap (pushAll S (send_packet data address now c) (allocated now c))" "e_txSeq c' = e_txSeq c + 1"
    "r = SendOk \<longleftrightarrow> S \<noteq> {}" "card S > 1 \<longrightarrow> shouldDuplicate (length data) (availableLegs c) (e_cfg c)" by blast
  have "length (e_heap c') = length (e_heap c)"
    "\<forall>a < length (e_heap c). dl_send (leg_at c' a) = dl_send (leg_at c a) @ (if a \<in> S then [send_packet data address now c] else [])"
    using *(3) by (auto simp: pushAll_def)
  with * f show ?thesis by (auto simp: send_packet_def)
qed

theorem datagram_send_outcome_witness:
  "\<exists>r c'. Send (\<lambda>_. 0) True False [5, 6] [1] 0 0 dgExample = (r, c') \<and> e_txSeq c' = 1
     \<and> (r = SendOk \<longleftrightarrow> dl_send (leg_at c' 0) = [\<lparr>fr_id = 0, fr_address = [1], fr_data = [5, 6], fr_queuedAt = 0\<rparr>])"
proof -
  obtain r c' where S: "Send (\<lambda>_. 0) True False [5, 6] [1] 0 0 dgExample = (r, c')" by (metis surj_pair)
  have L: "availableLegs dgExample = [0]" by (simp add: availableLegs_def dgExample_fields)
  have n: "send_refused [5, 6] [1] dgExample = None"
    by (simp add: send_refused_def L dgExample_fields MaxDatagramAddressSize_def)
  note R = datagram_send_outcome [OF dgExample_reachable, where score = "\<lambda>_. 0" and pick = True
      and expired = False and data = "[5, 6]" and address = "[1]" and deadline = 0 and now = 0,
      unfolded S n prod.case option.case if_not_P [OF list.distinct(2)] L dgExample_fields(1)]
  have "r = SendOk \<longleftrightarrow> dl_send (leg_at c' 0) = [\<lparr>fr_id = 0, fr_address = [1], fr_data = [5, 6], fr_queuedAt = 0\<rparr>]"
  proof (rule exE [OF conjunct2 [OF R]], goal_cases)
    case (1 T)
    note T = 1 [THEN conjunct1] 1 [THEN conjunct2, THEN conjunct1]
    note D = 1 [THEN conjunct2, THEN conjunct2, THEN conjunct2, THEN conjunct2, THEN spec, of 0, THEN mp, OF zero_less_one]
    have "T = {} \<or> T = {0}" using T(1) by auto
    then show ?case using T(2) D by (auto simp: dgExample_fields)
  qed
  moreover have "e_txSeq c' = 1" using conjunct1 [OF R] by (simp add: dgExample_fields)
  ultimately show ?thesis using S by blast
qed


lemma WriteDatagramFrame_silent:
  assumes "script w = []" and "datagram_sendable address data"
  shows "WriteDatagramFrame w i address data = (None, w\<lparr>written := written w @ datagram_wire i address data\<rparr>)"
  using assms by (auto simp: WriteDatagramFrame_def datagram_sendable_def datagram_wire_def Let_def writeAll_silent)


end
