(* ===== verification/Server_Admission.thy ===== *)
theory Server_Admission
  imports Server_Edge Datagram_Engine
begin

text \<open>
  How the server admits carriers, \<open>server/server.go\<close> and \<open>server/session.go\<close>: the nonce memory against replayed
  HELLOs, the table of sessions with tombstones for retired ids, the reservation of legs during a handshake, and the
  handler of one carrier as a program whose steps are its critical sections and its blocking calls. A session holds the
  modelled engine of its mode. Logging and telemetry are left out.
\<close>

section \<open>Sessions\<close>

text \<open>\<open>s.mode\<close> decides whether \<open>s.dgram\<close> or \<open>s.stream\<close> is set: that engine is the core.\<close>

datatype session_core = StreamCore StreamEngine | DatagramCore DatagramEngine

record serverSession =
  ss_id :: SessionID
  ss_mode :: HelloMode
  ss_destination :: bytes
  ss_core :: session_core
  ss_target :: "nat option"
  ss_targetsClosed :: "nat list"
  ss_hostReleased :: bool
  ss_closeOne :: bool
  ss_reserved :: "(u8, unit) gomap"
  ss_maxActiveLegs :: int

datatype server_error =
    ErrServerClosed | errSessionRetired | errSessionMode | errSessionDestination | errSessionLimit
  | LegExceedsLimit u8 int | LegBeingAdmitted | DuplicateDatagramLeg | DuplicateStreamLeg | LegCountReached int
  | PathAuthStreamOnly | CoreErr smp3_error

definition coreDone :: "session_core \<Rightarrow> bool" where
  "coreDone c = (case c of StreamCore e \<Rightarrow> se_done e | DatagramCore d \<Rightarrow> e_done d)"

definition coreHasLeg :: "u8 \<Rightarrow> session_core \<Rightarrow> bool" where
  "coreHasLeg i c = (case c of StreamCore e \<Rightarrow> engineHasLeg i e | DatagramCore d \<Rightarrow> hasLeg i d)"

definition coreLegCount :: "session_core \<Rightarrow> nat" where
  "coreLegCount c = (case c of StreamCore e \<Rightarrow> legCount e | DatagramCore d \<Rightarrow> LegCount d)"

definition coreClose :: "session_core \<Rightarrow> session_core" where
  "coreClose c = (case c of StreamCore e \<Rightarrow> StreamCore (engineClose e) | DatagramCore d \<Rightarrow> DatagramCore (Close d))"

definition legLimit :: "serverSession \<Rightarrow> int" where
  "legLimit s =
     (if ss_mode s = ModeDatagram then 2
      else if ss_maxActiveLegs s = 0 then int DefaultMaxActiveStreamLegs
      else ss_maxActiveLegs s)"

definition reserveLeg :: "u8 \<Rightarrow> serverSession \<Rightarrow> server_error option \<times> serverSession" where
  "reserveLeg i s =
     (let limit = legLimit s in
      if uint i \<ge> limit then (Some (LegExceedsLimit i limit), s)
      else if mget (ss_reserved s) i \<noteq> None then (Some LegBeingAdmitted, s)
      else if coreHasLeg i (ss_core s)
        then (Some (if ss_mode s = ModeDatagram then DuplicateDatagramLeg else DuplicateStreamLeg), s)
      else if int (coreLegCount (ss_core s)) + int (length (ss_reserved s)) \<ge> limit then (Some (LegCountReached limit), s)
      else (None, s\<lparr>ss_reserved := mput i () (ss_reserved s)\<rparr>))"

definition releaseLeg :: "u8 \<Rightarrow> serverSession \<Rightarrow> serverSession" where
  "releaseLeg i s = s\<lparr>ss_reserved := mdel i (ss_reserved s)\<rparr>"

text \<open>One pass of attaching a leg: \<open>None\<close> waits for a carrier of the same id to retire. \<open>rd\<close> and \<open>wr\<close> are the carrier,
  which only the datagram engine's model holds.\<close>

definition attachLegWithPathAuth ::
  "bool \<Rightarrow> LegID \<Rightarrow> reader \<Rightarrow> writer \<Rightarrow> StreamPathAuth option \<Rightarrow> gotime \<Rightarrow> serverSession \<Rightarrow> server_error option option \<times> serverSession" where
  "attachLegWithPathAuth pick i rd wr auth now s =
     (case ss_core s of
        DatagramCore d \<Rightarrow>
          if auth \<noteq> None then (Some (Some PathAuthStreamOnly), s)
          else (case AttachLeg i rd wr d of
                  (AttachErr err, d') \<Rightarrow> (Some (Some (CoreErr err)), s\<lparr>ss_core := DatagramCore d'\<rparr>)
                | (AttachWait a, d') \<Rightarrow> (None, s\<lparr>ss_core := DatagramCore d'\<rparr>)
                | (Attached a, d') \<Rightarrow> (Some None, releaseLeg i (s\<lparr>ss_core := DatagramCore d'\<rparr>)))
      | StreamCore e \<Rightarrow>
          (case (case auth of Some a \<Rightarrow> AttachLegWithPathAuth pick i a now e | None \<Rightarrow> AttachStreamLeg pick i now e) of
             (AttachFailed err, e') \<Rightarrow> (Some (Some (CoreErr err)), s\<lparr>ss_core := StreamCore e'\<rparr>)
           | (AttachWaits a, e') \<Rightarrow> (None, s\<lparr>ss_core := StreamCore e'\<rparr>)
           | (AttachedLeg a, e') \<Rightarrow> (Some None, releaseLeg i (s\<lparr>ss_core := StreamCore e'\<rparr>))))"

text \<open>\<open>hostRelease\<close> runs once; it is the only place that sets \<open>hostReleased\<close>.\<close>

definition releaseHostResources :: "serverSession \<Rightarrow> serverSession" where
  "releaseHostResources s =
     (if ss_hostReleased s then s
      else s\<lparr>ss_hostReleased := True, ss_target := None,
             ss_targetsClosed := (case ss_target s of None \<Rightarrow> ss_targetsClosed s | Some t \<Rightarrow> t # ss_targetsClosed s)\<rparr>)"

definition setTarget :: "nat \<Rightarrow> serverSession \<Rightarrow> bool \<times> serverSession" where
  "setTarget target s =
     (if ss_hostReleased s then (False, s)
      else if coreDone (ss_core s) then (False, s)
      else if ss_target s \<noteq> None then (False, s)
      else (True, s\<lparr>ss_target := Some target\<rparr>))"

text \<open>\<open>closeOne\<close> runs the close of the engine once.\<close>

definition closeSession :: "serverSession \<Rightarrow> serverSession" where
  "closeSession s =
     releaseHostResources
       (if ss_closeOne s then s else s\<lparr>ss_closeOne := True, ss_core := coreClose (ss_core s)\<rparr>)"

section \<open>The server\<close>

text \<open>The part of the configuration that admission reads; \<open>sv_UDP\<close> is the datagram configuration \<open>newSession\<close> assembles
  from it, \<open>sv_decoupled\<close> what the stream configuration makes of the capacity modes, \<open>sv_startNow\<close> whether a new stream engine of
  this configuration activates at once.\<close>

record ServerConfig =
  sv_Password :: bytes
  sv_ApplicationTarget :: bytes
  sv_MaxSessions :: int
  sv_UDPEnabled :: bool
  sv_UDP :: DatagramConfig
  sv_ExperimentalPathAware :: bool
  sv_BandwidthMbps :: "u32 list"
  sv_MaxActiveLegs :: int
  sv_decoupled :: bool
  sv_startNow :: bool

record Server =
  sv_cfg :: ServerConfig
  sv_closed :: bool
  sv_heap :: "serverSession list"
  sv_sessions :: "(SessionID, nat) gomap"
  sv_tombstones :: "(SessionID, gotime) gomap"
  sv_lastTombstonePrune :: gotime
  sv_nonces :: "(bytes, gotime) gomap"

definition newServer :: "ServerConfig \<Rightarrow> Server" where
  "newServer cfg = \<lparr>sv_cfg = cfg, sv_closed = False, sv_heap = [], sv_sessions = [], sv_tombstones = [],
     sv_lastTombstonePrune = 0, sv_nonces = []\<rparr>"

definition helloReplayTTL :: duration where "helloReplayTTL = 180 * Second"

definition acceptNonce :: "gotime \<Rightarrow> bytes \<Rightarrow> Server \<Rightarrow> bool \<times> Server" where
  "acceptNonce now nonce s =
     (let kept = filter (\<lambda>(key, created). \<not> Sub now created > helloReplayTTL) (sv_nonces s)
      in if mget kept nonce \<noteq> None then (False, s\<lparr>sv_nonces := kept\<rparr>)
         else (True, s\<lparr>sv_nonces := mput nonce now kept\<rparr>))"

definition pruneTombstonesLocked :: "gotime \<Rightarrow> Server \<Rightarrow> Server" where
  "pruneTombstonesLocked now s =
     (if \<not> IsZero (sv_lastTombstonePrune s) \<and> Sub now (sv_lastTombstonePrune s) < 30 * Second then s
      else s\<lparr>sv_tombstones := filter (\<lambda>(i, expires). now < expires) (sv_tombstones s), sv_lastTombstonePrune := now\<rparr>)"

definition noStartup :: StartupConfig where
  "noStartup = \<lparr>sc_StartupPolicy = StreamStartupFirstReady, sc_StartupPreferredLeg = 0, sc_StartupGrace = 0, sc_MaxActiveLegs = 0\<rparr>"

definition newSession :: "ServerConfig \<Rightarrow> Hello \<Rightarrow> bytes \<Rightarrow> gotime \<Rightarrow> serverSession" where
  "newSession cfg hello destination now =
     \<lparr>ss_id = h_SessionID hello, ss_mode = h_Mode hello, ss_destination = destination,
      ss_core = (if h_Mode hello = ModeDatagram then DatagramCore (NewDatagramEngine (sv_UDP cfg) now)
                 else StreamCore (NewStreamEngine
                   \<lparr>cfg_PathRole = StreamPathRoleServer, cfg_ExperimentalPathAware = sv_ExperimentalPathAware cfg,
                    cfg_NotifyPeerOnActivate = True, cfg_BandwidthMbps = sv_BandwidthMbps cfg,
                    cfg_decoupled = sv_decoupled cfg, cfg_boundedRescue = False\<rparr>
                   (sv_MaxActiveLegs cfg) noStartup (sv_startNow cfg))),
      ss_target = None, ss_targetsClosed = [], ss_hostReleased = False, ss_closeOne = False,
      ss_reserved = [],
      ss_maxActiveLegs = sv_MaxActiveLegs cfg\<rparr>"

text \<open>\<open>admitSession\<close> reads the clock twice; \<open>now'\<close> is the second reading.\<close>

definition admitSession ::
  "Hello \<Rightarrow> bytes \<Rightarrow> gotime \<Rightarrow> gotime \<Rightarrow> Server \<Rightarrow> (server_error + nat \<times> bool) \<times> Server" where
  "admitSession hello destination now now' s0 =
     (if sv_closed s0 then (Inl ErrServerClosed, s0)
      else
        let s = pruneTombstonesLocked now s0; i = h_SessionID hello in
        if (case mget (sv_tombstones s) i of None \<Rightarrow> False | Some expires \<Rightarrow> now' < expires) then (Inl errSessionRetired, s)
        else case mget (sv_sessions s) i of
            Some a \<Rightarrow>
              if ss_mode (sv_heap s ! a) \<noteq> h_Mode hello then (Inl errSessionMode, s)
              else if ss_destination (sv_heap s ! a) \<noteq> destination then (Inl errSessionDestination, s)
              else (Inr (a, False), s)
          | None \<Rightarrow>
              if int (length (sv_sessions s)) \<ge> sv_MaxSessions (sv_cfg s) then (Inl errSessionLimit, s)
              else let a = length (sv_heap s)
                   in (Inr (a, True), s\<lparr>sv_heap := sv_heap s @ [newSession (sv_cfg s) hello destination now'],
                                        sv_sessions := mput i a (sv_sessions s)\<rparr>))"

definition removeSession :: "nat \<Rightarrow> gotime \<Rightarrow> Server \<Rightarrow> Server" where
  "removeSession a now s =
     (let i = ss_id (sv_heap s ! a)
      in if mget (sv_sessions s) i = Some a
         then s\<lparr>sv_sessions := mdel i (sv_sessions s), sv_tombstones := mput i (now + helloReplayTTL) (sv_tombstones s)\<rparr>
         else s)"

definition onSession :: "nat \<Rightarrow> (serverSession \<Rightarrow> serverSession) \<Rightarrow> Server \<Rightarrow> Server" where
  "onSession a f s = s\<lparr>sv_heap := (sv_heap s)[a := f (sv_heap s ! a)]\<rparr>"

text \<open>The locked part of \<open>Server.Close\<close>, with the sessions it goes on to close.\<close>

definition closeServer :: "Server \<Rightarrow> nat list \<times> Server" where
  "closeServer s = (map snd (sv_sessions s), s\<lparr>sv_closed := True, sv_sessions := [], sv_tombstones := []\<rparr>)"

section \<open>The handler of a carrier\<close>

text \<open>Where the handler stands. \<open>HcNonce\<close> reads the clock of \<open>acceptNonce\<close>, which is before its lock; \<open>HcRelease\<close> is the
  deferred \<open>releaseLeg\<close>, which \<open>createOrJoinSession\<close> runs at its return and the other paths at the end of the handler.
  A rejected carrier is closed.\<close>

datatype handler_pc =
    HcHello | HcNonce | HcNonceLock | HcAdmit | HcReserve | HcReady | HcAttach | HcHost | HcRelease | HcReleaseThenHost
  | HcDone | HcRejected string

record carrierHandler =
  hc_pc :: handler_pc
  hc_sidecar :: bool
  hc_opened :: gotime
  hc_now :: gotime
  hc_in :: reader
  hc_out :: writer
  hc_hello :: Hello
  hc_destination :: bytes
  hc_session :: nat
  hc_created :: bool
  hc_rejected :: "string option"
  hc_auth :: "StreamPathAuth option"

definition authenticatedReady :: "Hello \<Rightarrow> bool" where
  "authenticatedReady h \<longleftrightarrow> h_Version h = Version6 \<or> h_Version h = Version7"

text \<open>A handler starts to read the HELLO: the instant is taken before the read.\<close>

definition newHandler :: "bool \<Rightarrow> reader \<Rightarrow> writer \<Rightarrow> gotime \<Rightarrow> carrierHandler" where
  "newHandler sidecar rd wr now =
     \<lparr>hc_pc = HcHello, hc_sidecar = sidecar, hc_opened = now, hc_now = 0, hc_in = rd, hc_out = wr,
      hc_hello = \<lparr>h_Version = 0, h_SessionID = replicate 16 0, h_LegID = 0, h_Mode = 0, h_Timestamp = 0,
                  h_Nonce = replicate 16 0, h_Capabilities = 0, h_Destination = []\<rparr>,
      hc_destination = [], hc_session = 0, hc_created = False, hc_rejected = None, hc_auth = None\<rparr>"

definition stepHello :: "ServerConfig \<Rightarrow> carrierHandler \<Rightarrow> carrierHandler" where
  "stepHello cfg h =
     (case ReadHelloAt (hc_in h) (sv_Password cfg) (hc_opened h) of
        Inl err \<Rightarrow> h\<lparr>hc_pc := HcRejected ''hello''\<rparr>
      | Inr (hello, rd) \<Rightarrow> h\<lparr>hc_pc := HcNonce, hc_in := rd, hc_hello := hello\<rparr>)"

text \<open>The checks between the nonce and the admission of the session.\<close>

definition checkHello :: "ServerConfig \<Rightarrow> carrierHandler \<Rightarrow> carrierHandler" where
  "checkHello cfg h =
     (if h_Mode (hc_hello h) = ModeDatagram \<and> \<not> sv_UDPEnabled cfg then h\<lparr>hc_pc := HcRejected ''datagram_disabled''\<rparr>
      else case normalizeDestination (h_Destination (hc_hello h)) of
          Inl err \<Rightarrow> h\<lparr>hc_pc := HcRejected ''destination''\<rparr>
        | Inr destination \<Rightarrow>
            if sv_ApplicationTarget cfg \<noteq> [] \<and> destination \<noteq> sv_ApplicationTarget cfg
            then h\<lparr>hc_pc := HcRejected ''application_target''\<rparr>
            else h\<lparr>hc_pc := HcAdmit, hc_destination := destination\<rparr>)"

definition selectedCapabilities :: "ServerConfig \<Rightarrow> Hello \<Rightarrow> u32" where
  "selectedCapabilities cfg hello =
     (if h_Version hello = Version7 then
        (if h_Mode hello = ModeStream \<and> sv_ExperimentalPathAware cfg \<and> h_Capabilities hello AND StreamCapabilityPathRTT \<noteq> 0
         then StreamCapabilityCoordinatedDrain OR StreamCapabilityPathRTT else StreamCapabilityCoordinatedDrain)
      else if h_Mode hello = ModeStream \<and> sv_ExperimentalPathAware cfg then StreamCapabilityPathRTT
      else 0)"

text \<open>Rejecting after the reservation: the session is closed if this carrier created it, then the deferred release runs.\<close>

definition rejectReserved :: "string \<Rightarrow> carrierHandler \<Rightarrow> Server \<Rightarrow> carrierHandler \<times> Server" where
  "rejectReserved class h s =
     (h\<lparr>hc_pc := HcRelease, hc_rejected := Some class\<rparr>,
      if hc_created h then onSession (hc_session h) closeSession s else s)"

text \<open>\<open>WriteStreamReadyV2\<close> of \<open>core/stream_path_protocol.go\<close>; \<open>None\<close> is a failure of the random source.\<close>

definition WriteStreamReadyV2 ::
  "writer \<Rightarrow> Hello \<Rightarrow> u32 \<Rightarrow> bytes option \<Rightarrow> bytes \<Rightarrow> (smp3_error + StreamPathAuth) \<times> writer" where
  "WriteStreamReadyV2 w hello selected serverNonce password =
     (case serverNonce of
        None \<Rightarrow> (Inl (StreamErr ''crypto/rand''), w)
      | Some n \<Rightarrow> writeStreamReadyV2WithNonce w hello selected n password)"

definition stepReady :: "bytes option \<Rightarrow> carrierHandler \<Rightarrow> Server \<Rightarrow> carrierHandler \<times> Server" where
  "stepReady nonce h s =
     (if authenticatedReady (hc_hello h) then
        (case WriteStreamReadyV2 (hc_out h) (hc_hello h) (selectedCapabilities (sv_cfg s) (hc_hello h)) nonce (sv_Password (sv_cfg s)) of
           (Inl err, w) \<Rightarrow> rejectReserved ''ready'' (h\<lparr>hc_out := w\<rparr>) s
         | (Inr auth, w) \<Rightarrow>
             (h\<lparr>hc_pc := HcAttach, hc_out := w,
                hc_auth := (if PathRTTEnabled auth \<or> CoordinatedDrainEnabled auth then Some auth else None)\<rparr>, s))
      else if hc_sidecar h then
        (case writeSidecarReadyV1 (hc_out h) (hc_hello h) (sv_Password (sv_cfg s)) of
           (Some err, w) \<Rightarrow> rejectReserved ''ready'' (h\<lparr>hc_out := w\<rparr>) s
         | (None, w) \<Rightarrow> (h\<lparr>hc_pc := HcAttach, hc_out := w\<rparr>, s))
      else (h\<lparr>hc_pc := HcAttach\<rparr>, s))"

definition stepAttach :: "bool \<Rightarrow> gotime \<Rightarrow> carrierHandler \<Rightarrow> Server \<Rightarrow> carrierHandler \<times> Server" where
  "stepAttach pick now h s =
     (let a = hc_session h in
      case attachLegWithPathAuth pick (h_LegID (hc_hello h)) (hc_in h) (hc_out h) (hc_auth h) now (sv_heap s ! a) of
        (None, ss) \<Rightarrow> (h, onSession a (\<lambda>_. ss) s)
      | (Some (Some err), ss) \<Rightarrow> rejectReserved ''session'' h (onSession a (\<lambda>_. ss) s)
      | (Some None, ss) \<Rightarrow>
          (h\<lparr>hc_pc := (if \<not> authenticatedReady (hc_hello h) \<and> \<not> hc_sidecar h
                       then (if hc_created h then HcReleaseThenHost else HcRelease)
                       else if hc_created h then HcHost else HcRelease)\<rparr>, onSession a (\<lambda>_. ss) s))"

text \<open>Setting up the host side of a new session: a stream dials \<open>target\<close>, which may fail, a datagram session just makes
  one; a target that comes too late is closed.\<close>

definition hostTarget :: "nat \<Rightarrow> serverSession \<Rightarrow> serverSession" where
  "hostTarget t ss =
     (case setTarget t ss of
        (True, ss') \<Rightarrow> ss'
      | (False, ss') \<Rightarrow> closeSession (ss'\<lparr>ss_targetsClosed := t # ss_targetsClosed ss'\<rparr>))"

definition startHost :: "bool \<Rightarrow> nat \<Rightarrow> serverSession \<Rightarrow> serverSession" where
  "startHost dialled target ss =
     (if ss_mode ss = ModeDatagram \<or> dialled then hostTarget target ss else closeSession ss)"

text \<open>One step of a handler. The arguments are what the environment decides: the clock readings, the select choice of an
  attach, the nonce drawn for a READY (\<open>None\<close> when there is no randomness), the target and whether dialling it succeeds.\<close>

definition handlerStep ::
  "gotime \<Rightarrow> gotime \<Rightarrow> bool \<Rightarrow> bytes option \<Rightarrow> bool \<Rightarrow> nat \<Rightarrow> carrierHandler \<Rightarrow> Server \<Rightarrow> carrierHandler \<times> Server" where
  "handlerStep now now' pick nonce dialled target h s =
     (case hc_pc h of
        HcHello \<Rightarrow> (stepHello (sv_cfg s) h, s)
      | HcNonce \<Rightarrow> (h\<lparr>hc_pc := HcNonceLock, hc_now := now\<rparr>, s)
      | HcNonceLock \<Rightarrow>
          (case acceptNonce (hc_now h) (h_Nonce (hc_hello h)) s of
             (False, s') \<Rightarrow> (h\<lparr>hc_pc := HcRejected ''replayed_nonce''\<rparr>, s')
           | (True, s') \<Rightarrow> (checkHello (sv_cfg s) h, s'))
      | HcAdmit \<Rightarrow>
          (case admitSession (hc_hello h) (hc_destination h) now now' s of
             (Inl err, s') \<Rightarrow> (h\<lparr>hc_pc := HcRejected ''session''\<rparr>, s')
           | (Inr (a, created), s') \<Rightarrow> (h\<lparr>hc_pc := HcReserve, hc_session := a, hc_created := created\<rparr>, s'))
      | HcReserve \<Rightarrow>
          (case reserveLeg (h_LegID (hc_hello h)) (sv_heap s ! hc_session h) of
             (Some err, ss) \<Rightarrow>
               (h\<lparr>hc_pc := HcRejected ''session''\<rparr>, if hc_created h then onSession (hc_session h) closeSession s else s)
           | (None, ss) \<Rightarrow> (h\<lparr>hc_pc := HcReady\<rparr>, onSession (hc_session h) (\<lambda>_. ss) s))
      | HcReady \<Rightarrow> stepReady nonce h s
      | HcAttach \<Rightarrow> stepAttach pick now h s
      | HcHost \<Rightarrow> (h\<lparr>hc_pc := (if authenticatedReady (hc_hello h) \<or> hc_sidecar h then HcRelease else HcDone)\<rparr>,
                   onSession (hc_session h) (startHost dialled target) s)
      | HcRelease \<Rightarrow>
          (h\<lparr>hc_pc := (case hc_rejected h of None \<Rightarrow> HcDone | Some class \<Rightarrow> HcRejected class)\<rparr>,
           onSession (hc_session h) (releaseLeg (h_LegID (hc_hello h))) s)
      | HcReleaseThenHost \<Rightarrow> (h\<lparr>hc_pc := HcHost\<rparr>, onSession (hc_session h) (releaseLeg (h_LegID (hc_hello h))) s)
      | HcDone \<Rightarrow> (h, s)
      | HcRejected class \<Rightarrow> (h, s))"

end
