(* ===== verification/Server_System.thy ===== *)
theory Server_System
  imports Server_Admission
begin

text \<open>
  The running server: carriers arrive, their handlers interleave step by step, the engines of the sessions evolve on
  their own, watchers retire finished sessions, and the server may close. The invariants of these runs give the
  properties of admission: when a HELLO can be replayed, that retired session ids stay refused, that the table of
  sessions is bounded and has one live session per id, and that every session stems from an authenticated HELLO.
\<close>

section \<open>Engines stay done\<close>

lemma done_setLeg: "se_done (setLeg a f e) = se_done e"
  by (simp add: setLeg_def)

lemma done_fold_setLeg: "se_done (fold (\<lambda>(i, a). setLeg a g) xs e) = se_done e"
  by (induction xs arbitrary: e) (simp_all add: done_setLeg case_prod_unfold)

lemma done_failWithAppClose: "se_done (failWithAppClose err b e)"
proof -
  have "se_done (e\<lparr>se_startup := s, se_finalizing := True, se_closeErr := c, se_done := True, se_appClosed := d, se_pipeClosed := True\<rparr>)"
    for e :: StreamEngine and s c d by simp
  then show ?thesis unfolding failWithAppClose_def Let_def by (simp only: done_fold_setLeg split: if_split) simp
qed
lemma done_engineClose: "se_done (engineClose e)"
  by (simp only: engineClose_def engineFail_def done_failWithAppClose)

lemma same_done: "sameRegistry e e' \<Longrightarrow> se_done e' = se_done e"
  by (simp add: sameRegistry_def)

lemma done_fail: "se_done e \<Longrightarrow> se_done (handleStreamLegFailure a err e)"
  by (simp add: handleStreamLegFailure_def invalidatePath_def moveToRetiring_def setLeg_def Let_def)

lemma attach_done: "se_done e \<Longrightarrow> snd (attachLeg pick i auth mbps now e) = e"
  by (simp add: attachLeg_def)

lemma legs_step_done:
  assumes "legs_step e e'" and "se_done e"
  shows "se_done e'"
  using assms(1)
proof cases
  case (rtt a wire now)
  show ?thesis unfolding rtt by (simp only: same_done [OF same_handlePathRTTFrame] assms(2))
next
  case (tick pick a now)
  show ?thesis unfolding tick by (simp add: pathRTTProbeTick_def done_setLeg assms(2))
next
  case (replace i err)
  then show ?thesis using assms(2) by (simp add: ReplaceStreamLeg_def done_fail split: option.split)
next
  case (prior i mbps)
  show ?thesis unfolding prior by (simp add: SetLegBandwidthPrior_def done_setLeg assms(2) split: option.split)
next
  case (ledger l)
  show ?thesis unfolding ledger(1) using assms(2) by simp
next
  case (queues a m n st k)
  show ?thesis unfolding queues by (simp only: done_setLeg assms(2))
next
  case (stopped a w r)
  show ?thesis unfolding stopped(1) by (simp only: done_setLeg assms(2))
next
  case (barrier a b)
  show ?thesis unfolding barrier by (simp only: done_setLeg assms(2))
next
  case (retire a)
  show ?thesis unfolding retire(1) using assms(2) by (simp add: retireStreamLeg_def done_setLeg kickRetry_def Let_def)
next
  case (timer epoch)
  show ?thesis unfolding timer(1) by (simp add: failIfNoStreamLegRecovers_def Let_def assms(2))
next
  case (attach pick i auth mbps now)
  show ?thesis unfolding attach by (simp only: attach_done [OF assms(2)] assms(2))
next
  case (failure a err)
  show ?thesis unfolding failure by (rule done_fail [OF assms(2)])
next
  case activate
  show ?thesis unfolding activate by (simp only: same_done [OF same_activate] assms(2))
next
  case notified
  show ?thesis unfolding notified by (simp only: notifyPeerActivate_def assms(2) if_True)
next
  case (finish err)
  show ?thesis unfolding finish by (simp add: finishGracefulClose_def engineFail_def Let_def done_failWithAppClose)
next
  case finalize
  show ?thesis unfolding finalize by (simp add: beginFinalizing_def assms(2))
qed (simp_all add: engineFail_def done_engineClose done_failWithAppClose assms(2))

lemma done_fold_set_leg: "e_done (fold (\<lambda>(i, a). set_leg a g) xs c) = e_done c"
  by (induction xs arbitrary: c) (simp_all add: case_prod_unfold)

lemma done_Close [simp]: "e_done (Close c)"
  by (simp add: Close_def done_fold_set_leg)

lemma done_handleLegFailure: "e_done (handleLegFailure a err c) = e_done c"
  by (simp add: handleLegFailure_def Let_def)

lemma done_enqueue: "enqueue p x l q d nb c = (r, c') \<Longrightarrow> e_done c' = e_done c"
  by (auto simp: enqueue_def set_leg_def Let_def split: option.splits if_splits)

lemma done_enqueueAll: "e_done (snd (fold (\<lambda>a (n, c). case enqueue p False (Some a) q d True c of
     (Some True, c') \<Rightarrow> (n + 1, c') | (_, c') \<Rightarrow> (n, c')) legs (k, c))) = e_done c"
proof (induction legs arbitrary: k c)
  case (Cons a legs)
  obtain r c' where e: "enqueue p False (Some a) q d True c = (r, c')" by fastforce
  show ?case using Cons.IH done_enqueue [OF e] by (cases "r = Some True") (auto simp: e split: option.split bool.split)
qed simp

lemma done_enqueueOther: "e_done (snd (enqueueOther p q d b legs c)) = e_done c"
proof (induction legs arbitrary: c)
  case (Cons a legs)
  obtain r c' where e: "enqueue p False (Some a) q d True c = (r, c')" by fastforce
  show ?case using Cons.IH done_enqueue [OF e] by (auto simp: e split: option.split bool.split)
qed simp

lemma done_Send: "e_done (snd (Send score p x data addr d now c)) = e_done c"
proof -
  have o: "enqueueOther p q d b legs c = (r, c') \<Longrightarrow> e_done c' = e_done c" for q b legs c r c'
    using done_enqueueOther [of p q d b legs c] by simp
  have a: "enqueueAll p q d legs c = (n, c') \<Longrightarrow> e_done c' = e_done c" for q legs c n c'
    using done_enqueueAll [of p q d legs "0 :: nat" c] by (simp add: enqueueAll_def)
  let ?p = "send_packet data addr now c" and ?L = "availableLegs c"
  obtain n c2 where Q: "(if shouldDuplicate (length data) ?L (e_cfg c)
      then enqueueAll p ?p d ?L (allocated now c) else (0, allocated now c)) = (n, c2)" by (metis surj_pair)
  have "e_done (allocated now c) = e_done c" by (simp add: allocated_def touch_def)
  with Q a have c2: "e_done c2 = e_done c" by (auto split: if_split_asm)
  obtain r c3 where E: "enqueue p x (chooseLeg score ?L) ?p d False c2 = (r, c3)" by (metis surj_pair)
  obtain ok c4 where O: "enqueueOther p ?p d (map_option (\<lambda>b. dl_id (leg_at c3 b)) (chooseLeg score ?L))
      (availableLegs c3) c3 = (ok, c4)" by (metis surj_pair)
  have "e_done c3 = e_done c" "e_done c4 = e_done c" using o [OF O] done_enqueue [OF E] c2 by simp_all
  note c34 = this
  have dup: "e_done (c2\<lparr>e_duplicateTx := k\<rparr>) = e_done c" for k using c2 by simp
  show ?thesis
  proof (cases "data = [] \<or> (\<exists>e. send_refused data addr c = Some e)")
    case False
    have "Send score p x data addr d now c = (case (n, c2) of
       (n, c2) \<Rightarrow>
         if n > 0 then (SendOk, if n > 1 then c2\<lparr>e_duplicateTx := e_duplicateTx c2 + of_nat (n - 1)\<rparr> else c2)
         else case (r, c3) of (None, c3) \<Rightarrow> (SendBlocks, c3) | (Some True, c3) \<Rightarrow> (SendOk, c3)
              | (Some False, c3) \<Rightarrow> (case (ok, c4) of
                   (True, c4) \<Rightarrow> (SendOk, c4)
                 | (False, c4) \<Rightarrow> (SendErr (DatagramErr ''multipath datagram queue unavailable''), c4)))"
      using False E O Send_accepted [of data addr c score p x d now] unfolding Q
      by (auto split: option.splits bool.splits)
    with c2 c34 dup show ?thesis by (auto split: option.splits bool.splits)
  qed (cases "data = []", auto simp: Send_empty Send_refused)
qed

lemma done_legReadStep: "e_done (legReadStep pick a now c) = e_done c"
proof (cases "dl_reading (leg_at c a) \<and> dl_held (leg_at c a) = None")
  case True
  show ?thesis
  proof (cases "ReadDatagramFrame (dl_in (leg_at c a)) (cf_MaxDatagramSize (e_cfg c))")
    case (Inl err)
    then show ?thesis using True by (simp add: legReadStep_def Let_def)
  next
    case (Inr x)
    obtain i address data r where x: "x = ((i, address, data), r)" by (metis surj_pair)
    obtain ok c1 where A: "acceptDatagramID i (length data) (set_leg a (\<lambda>l. l\<lparr>dl_in := r\<rparr>) c) = (ok, c1)" by (metis surj_pair)
    have "e_done c1 = e_done c" using acceptDatagramID_frame [OF A] by simp
    then show ?thesis using True Inr x A by (cases ok) (simp_all add: legReadStep_def Let_def touch_def)
  qed
qed (auto simp: legReadStep_def deliverHeld_def Let_def split: option.splits)

lemma dg_step_done:
  assumes "dg_step c c'" and "e_done c"
  shows "e_done c'"
  using assms(1)
proof cases
  case (rd pick a now)
  then show ?thesis using assms(2) by (simp add: done_legReadStep)
next
  case (wr pick a now)
  then show ?thesis using assms(2) by (simp add: legWriteStep_def Let_def touch_def split: option.split list.split prod.split)
next
  case (receive pick expired deadline)
  then show ?thesis using assms(2) by (simp add: Receive_def split: list.split)
next
  case (replace i err)
  then show ?thesis using assms(2) by (simp add: ReplaceLeg_def split: option.split)
qed (use assms(2) in \<open>simp_all add: AttachLeg_def retireLeg_def done_Send idleTick_def failIfNoLegRecovers_def Let_def\<close>)

section \<open>What every operation keeps of a session\<close>

definition core_step :: "session_core \<Rightarrow> session_core \<Rightarrow> bool" where
  "core_step c c' =
     (case c of StreamCore e \<Rightarrow> (\<exists>e'. c' = StreamCore e' \<and> legs_step e e')
              | DatagramCore d \<Rightarrow> (\<exists>d'. c' = DatagramCore d' \<and> dg_step d d'))"

definition core_inv :: "session_core \<Rightarrow> bool" where
  "core_inv c = (case c of StreamCore e \<Rightarrow> legs_inv e | DatagramCore d \<Rightarrow> dg_inv d)"

text \<open>A session's engine is the one of its mode and satisfies its invariant, released host resources stay released,
  and the reservations are a map.\<close>

definition srv_session_inv :: "serverSession \<Rightarrow> bool" where
  "srv_session_inv s \<longleftrightarrow>
     (ss_mode s = ModeDatagram \<longleftrightarrow> (\<exists>d. ss_core s = DatagramCore d)) \<and> core_inv (ss_core s)
     \<and> (ss_hostReleased s \<longrightarrow> ss_target s = None) \<and> mwf (ss_reserved s)"

definition keeps :: "serverSession \<Rightarrow> serverSession \<Rightarrow> bool" where
  "keeps s s' \<longleftrightarrow> ss_id s' = ss_id s \<and> ss_mode s' = ss_mode s \<and> ss_destination s' = ss_destination s
     \<and> (coreDone (ss_core s) \<longrightarrow> coreDone (ss_core s')) \<and> (srv_session_inv s \<longrightarrow> srv_session_inv s')"

lemma keeps_refl [simp]: "keeps s s"
  by (simp add: keeps_def)

lemma keeps_trans: "keeps s t \<Longrightarrow> keeps t u \<Longrightarrow> keeps s u"
  by (simp add: keeps_def)

lemma core_step_keeps:
  assumes "core_step c c'"
  shows "coreDone c \<Longrightarrow> coreDone c'" and "core_inv c \<Longrightarrow> core_inv c'" and "(\<exists>d. c' = DatagramCore d) \<longleftrightarrow> (\<exists>d. c = DatagramCore d)"
  using assms legs_step_done dg_step_done legs_step_inv dg_step_inv
  by (auto simp: core_step_def coreDone_def core_inv_def split: session_core.splits)

lemma keeps_core: "core_step (ss_core s) c \<Longrightarrow> keeps s (s\<lparr>ss_core := c\<rparr>)"
  using core_step_keeps [of "ss_core s" c] by (simp add: keeps_def srv_session_inv_def)

lemma core_step_close: "core_step c (coreClose c)"
  by (auto simp: core_step_def coreClose_def intro: legs_step.close dg_step.close split: session_core.split)

lemma keeps_release: "keeps s (releaseLeg i s)" "keeps s (releaseHostResources s)"
  by (simp_all add: keeps_def releaseLeg_def releaseHostResources_def srv_session_inv_def)

lemma keeps_close: "keeps s (closeSession s)"
proof -
  have "keeps s (s\<lparr>ss_closeOne := True, ss_core := coreClose (ss_core s)\<rparr>)"
    using core_step_keeps [OF core_step_close [of "ss_core s"]] by (simp add: keeps_def srv_session_inv_def)
  then show ?thesis using keeps_release(2) keeps_trans by (auto simp: closeSession_def)
qed

lemma keeps_reserve: "reserveLeg i s = (r, s') \<Longrightarrow> keeps s s'"
  by (auto simp: reserveLeg_def Let_def keeps_def srv_session_inv_def split: if_splits)

lemma keeps_setTarget: "setTarget t s = (r, s') \<Longrightarrow> keeps s s'"
  by (auto simp: setTarget_def keeps_def srv_session_inv_def split: if_splits)

lemma keeps_startHost: "keeps s (startHost dialled t s)"
proof -
  obtain ok s' where S: "setTarget t s = (ok, s')" by fastforce
  have "keeps s' (s'\<lparr>ss_targetsClosed := ts\<rparr>)" for ts by (simp add: keeps_def srv_session_inv_def)
  then have "keeps s (closeSession (s'\<lparr>ss_targetsClosed := ts\<rparr>))" for ts
    by (meson keeps_close keeps_setTarget [OF S] keeps_trans)
  then show ?thesis using keeps_close keeps_setTarget [OF S] by (cases ok) (simp_all add: startHost_def hostTarget_def S)
qed

lemma attach_step: "legs_step e (snd (case auth of Some a \<Rightarrow> AttachLegWithPathAuth pick i a now e | None \<Rightarrow> AttachStreamLeg pick i now e))
   \<or> snd (case auth of Some a \<Rightarrow> AttachLegWithPathAuth pick i a now e | None \<Rightarrow> AttachStreamLeg pick i now e) = e"
  by (auto simp: AttachLegWithPathAuth_def AttachLegWithProtocolAuth_def AttachStreamLeg_def intro: legs_step.attach split: option.split)

lemma keeps_attach:
  assumes "attachLegWithPathAuth pick i rd wr auth now s = (r, s')"
  shows "keeps s s'"
proof (cases "ss_core s")
  case (StreamCore e)
  let ?p = "case auth of Some a \<Rightarrow> AttachLegWithPathAuth pick i a now e | None \<Rightarrow> AttachStreamLeg pick i now e"
  have "keeps s (s\<lparr>ss_core := StreamCore (snd ?p)\<rparr>)"
  proof (cases "snd ?p = e")
    case True
    then have "s\<lparr>ss_core := StreamCore (snd ?p)\<rparr> = s" using StreamCore by simp
    then show ?thesis by simp
  qed (use attach_step [where e = e and auth = auth and pick = pick and i = i and now = now] StreamCore in \<open>auto intro!: keeps_core simp: core_step_def\<close>)
  moreover obtain o' e' where "?p = (o', e')" by fastforce
  ultimately show ?thesis using assms StreamCore keeps_trans keeps_release(1)
    by (cases o') (auto simp: attachLegWithPathAuth_def)
next
  case (DatagramCore d)
  obtain o' d' where p: "AttachLeg i rd wr d = (o', d')" by fastforce
  have "dg_step d d'" using dg_step.attach [of d i rd wr] p by simp
  then have "keeps s (s\<lparr>ss_core := DatagramCore d'\<rparr>)" using DatagramCore by (intro keeps_core) (simp add: core_step_def)
  then show ?thesis using assms DatagramCore p keeps_trans keeps_release(1)
    by (cases o') (auto simp: attachLegWithPathAuth_def split: if_splits)
qed

section \<open>The running server\<close>

text \<open>An accepted HELLO: the instant its freshness was judged at, the clock \<open>acceptNonce\<close> read and the instant of its
  locked section. \<open>sy_log\<close> lists them and \<open>sy_retired\<close> the retired ids with the instant, newest first; no operation reads
  them.\<close>

record acceptedHello =
  ah_hello :: Hello
  ah_opened :: gotime
  ah_read :: gotime
  ah_locked :: gotime

record serverSystem =
  sy_server :: Server
  sy_handlers :: "carrierHandler list"
  sy_clock :: gotime
  sy_log :: "acceptedHello list"
  sy_retired :: "(SessionID \<times> gotime) list"

definition newSystem :: "ServerConfig \<Rightarrow> gotime \<Rightarrow> serverSystem" where
  "newSystem cfg now = \<lparr>sy_server = newServer cfg, sy_handlers = [], sy_clock = now, sy_log = [], sy_retired = []\<rparr>"

definition acceptsHello :: "carrierHandler \<Rightarrow> Server \<Rightarrow> bool" where
  "acceptsHello h s \<longleftrightarrow> hc_pc h = HcNonceLock \<and> fst (acceptNonce (hc_now h) (h_Nonce (hc_hello h)) s)"

text \<open>A handler takes a step that ends at the instant \<open>now'\<close>.\<close>

definition runHandler ::
  "nat \<Rightarrow> gotime \<Rightarrow> bool \<Rightarrow> bytes option \<Rightarrow> bool \<Rightarrow> nat \<Rightarrow> serverSystem \<Rightarrow> serverSystem" where
  "runHandler k now' pick nonce dialled target y =
     (let h = sy_handlers y ! k; (h', s') = handlerStep (sy_clock y) now' pick nonce dialled target h (sy_server y)
      in y\<lparr>sy_server := s', sy_handlers := (sy_handlers y)[k := h'], sy_clock := now',
           sy_log := (if acceptsHello h (sy_server y)
                      then \<lparr>ah_hello = hc_hello h, ah_opened = hc_opened h, ah_read = hc_now h, ah_locked = sy_clock y\<rparr> # sy_log y
                      else sy_log y)\<rparr>)"

text \<open>The end of a session's watcher.\<close>

definition retireSession :: "nat \<Rightarrow> serverSystem \<Rightarrow> serverSystem" where
  "retireSession a y =
     (let s = sy_server y; i = ss_id (sv_heap s ! a)
      in y\<lparr>sy_server := removeSession a (sy_clock y) s,
           sy_retired := (if mget (sv_sessions s) i = Some a then (i, sy_clock y) # sy_retired y else sy_retired y)\<rparr>)"

definition onServer :: "(Server \<Rightarrow> Server) \<Rightarrow> serverSystem \<Rightarrow> serverSystem" where
  "onServer f y = y\<lparr>sy_server := f (sy_server y)\<rparr>"

text \<open>\<open>core\<close> is a step of a session's engine, \<open>released\<close> and \<open>retired\<close> are the two stages of its watcher,
  \<open>sessionClosed\<close> a call of \<open>close\<close> by the server's shutdown or by a host worker.\<close>

inductive server_step :: "serverSystem \<Rightarrow> serverSystem \<Rightarrow> bool" where
  tick: "sy_clock y \<le> t \<Longrightarrow> server_step y (y\<lparr>sy_clock := t\<rparr>)"
| accept: "server_step y (y\<lparr>sy_handlers := sy_handlers y @ [newHandler sidecar rd wr (sy_clock y)]\<rparr>)"
| handler: "k < length (sy_handlers y) \<Longrightarrow> sy_clock y \<le> now' \<Longrightarrow> server_step y (runHandler k now' pick nonce dialled target y)"
| core: "a < length (sv_heap (sy_server y)) \<Longrightarrow> core_step (ss_core (sv_heap (sy_server y) ! a)) c \<Longrightarrow>
     server_step y (onServer (onSession a (\<lambda>s. s\<lparr>ss_core := c\<rparr>)) y)"
| released: "a < length (sv_heap (sy_server y)) \<Longrightarrow> coreDone (ss_core (sv_heap (sy_server y) ! a)) \<Longrightarrow>
     server_step y (onServer (onSession a releaseHostResources) y)"
| retired: "a < length (sv_heap (sy_server y)) \<Longrightarrow> coreDone (ss_core (sv_heap (sy_server y) ! a)) \<Longrightarrow>
     ss_hostReleased (sv_heap (sy_server y) ! a) \<Longrightarrow> server_step y (retireSession a y)"
| sessionClosed: "a < length (sv_heap (sy_server y)) \<Longrightarrow> server_step y (onServer (onSession a closeSession) y)"
| closed: "server_step y (onServer (\<lambda>s. snd (closeServer s)) y)"

section \<open>Steps that only move sessions\<close>

definition heap_keeps :: "Server \<Rightarrow> Server \<Rightarrow> bool" where
  "heap_keeps s s' \<longleftrightarrow> sv_cfg s' = sv_cfg s \<and> sv_closed s' = sv_closed s \<and> sv_sessions s' = sv_sessions s
     \<and> sv_tombstones s' = sv_tombstones s \<and> sv_nonces s' = sv_nonces s \<and> list_all2 keeps (sv_heap s) (sv_heap s')"

lemma heap_keeps_refl [simp]: "heap_keeps s s"
  by (simp add: heap_keeps_def list_all2_same)

lemma heap_keeps_trans: "heap_keeps s t \<Longrightarrow> heap_keeps t u \<Longrightarrow> heap_keeps s u"
  unfolding heap_keeps_def by (simp, blast intro: list_all2_trans [of keeps keeps keeps] keeps_trans)

lemma heap_keeps_onSession:
  assumes "keeps (sv_heap s ! a) (f (sv_heap s ! a))"
  shows "heap_keeps s (onSession a f s)"
proof -
  have "keeps (sv_heap s ! i) ((sv_heap s)[a := f (sv_heap s ! a)] ! i)" if "i < length (sv_heap s)" for i
    using that assms by (cases "i = a") simp_all
  then show ?thesis by (simp add: heap_keeps_def onSession_def list_all2_conv_all_nth)
qed

lemma onSession_keeps:
  "heap_keeps s (onSession a closeSession s)" "heap_keeps s (onSession a releaseHostResources s)"
  "heap_keeps s (onSession a (releaseLeg i) s)" "heap_keeps s (onSession a (startHost dialled t) s)"
  by (simp_all only: heap_keeps_onSession keeps_close keeps_release keeps_startHost)

lemma heap_keepsD:
  assumes "heap_keeps s s'"
  shows "sv_cfg s' = sv_cfg s" "sv_closed s' = sv_closed s" "sv_sessions s' = sv_sessions s" "sv_tombstones s' = sv_tombstones s"
    "sv_nonces s' = sv_nonces s" "length (sv_heap s') = length (sv_heap s)"
    "a < length (sv_heap s) \<Longrightarrow> keeps (sv_heap s ! a) (sv_heap s' ! a)"
  using assms by (auto simp: heap_keeps_def list_all2_conv_all_nth)

lemma rejectReserved_keeps: "rejectReserved c h s = (h', s') \<Longrightarrow> heap_keeps s s'"
  using onSession_keeps by (auto simp: rejectReserved_def split: if_splits)

lemma stepReady_keeps: "stepReady nonce h s = (h', s') \<Longrightarrow> heap_keeps s s'"
  unfolding stepReady_def using rejectReserved_keeps
  by (simp split: if_split_asm sum.split_asm prod.split_asm option.split_asm)

lemma stepAttach_keeps:
  assumes "stepAttach pick now h s = (h', s')"
  shows "heap_keeps s s'"
proof -
  let ?a = "hc_session h"
  obtain r ss where A: "attachLegWithPathAuth pick (h_LegID (hc_hello h)) (hc_in h) (hc_out h) (hc_auth h) now (sv_heap s ! ?a) = (r, ss)"
    by fastforce
  have "heap_keeps s (onSession ?a (\<lambda>_. ss) s)" by (rule heap_keeps_onSession) (rule keeps_attach [OF A])
  then show ?thesis using assms rejectReserved_keeps heap_keeps_trans
    by (cases r) (auto simp: stepAttach_def A Let_def split: option.splits)
qed

text \<open>A handler either moves sessions, records a nonce or admits a session.\<close>

lemma handlerStep_keeps:
  assumes "handlerStep now now' pick nonce dialled target h s = (h', s')"
    and "hc_pc h \<noteq> HcNonceLock" and "hc_pc h \<noteq> HcAdmit"
  shows "heap_keeps s s'"
proof (cases "hc_pc h")
  case HcReserve
  obtain r ss where R: "reserveLeg (h_LegID (hc_hello h)) (sv_heap s ! hc_session h) = (r, ss)" by fastforce
  have "heap_keeps s (onSession (hc_session h) (\<lambda>_. ss) s)" by (rule heap_keeps_onSession) (rule keeps_reserve [OF R])
  then show ?thesis using assms HcReserve R onSession_keeps
    by (simp add: handlerStep_def split: option.split_asm if_split_asm) blast+
next
  case HcReady
  then show ?thesis using assms stepReady_keeps by (simp add: handlerStep_def)
next
  case HcAttach
  then show ?thesis using assms stepAttach_keeps by (simp add: handlerStep_def)
next
  case HcHost
  then show ?thesis using assms onSession_keeps by (simp add: handlerStep_def) blast
next
  case HcRelease
  then show ?thesis using assms onSession_keeps by (simp add: handlerStep_def) blast
next
  case HcReleaseThenHost
  then show ?thesis using assms onSession_keeps by (simp add: handlerStep_def) blast
qed (use assms in \<open>simp_all add: handlerStep_def\<close>)

section \<open>Nonces and tombstones\<close>

lemma mget_filter:
  "mwf m \<Longrightarrow> mget (filter (\<lambda>(k, v). P v) m) k = (case mget m k of Some v \<Rightarrow> if P v then Some v else None | None \<Rightarrow> None)"
  by (induction m) (auto simp: mwf_def map_of_eq_None_iff split: option.split)

lemma Sub_TTL: "Sub now created > helloReplayTTL \<longleftrightarrow> created + helloReplayTTL < now"
  by (auto simp: Sub_def helloReplayTTL_def Second_def minDuration_def maxDuration_def)

text \<open>An accepted nonce is recorded, and was not remembered; whatever else is forgotten is older than the memory.\<close>

lemma acceptNonce_result:
  assumes "mwf (sv_nonces s)" and "acceptNonce now n s = (ok, s')"
  shows "s' = s\<lparr>sv_nonces := sv_nonces s'\<rparr>" and "mwf (sv_nonces s')"
    and "ok \<Longrightarrow> mget (sv_nonces s') n = Some now"
    and "ok \<Longrightarrow> mget (sv_nonces s) n = Some t \<Longrightarrow> t + helloReplayTTL < now"
    and "mget (sv_nonces s) m = Some t \<Longrightarrow> mget (sv_nonces s') m = Some t \<or> t + helloReplayTTL < now"
proof -
  have f: "mget (filter (\<lambda>(key, created). \<not> Sub now created > helloReplayTTL) (sv_nonces s)) k
      = (case mget (sv_nonces s) k of Some v \<Rightarrow> if \<not> v + helloReplayTTL < now then Some v else None | None \<Rightarrow> None)" for k
    using mget_filter [OF assms(1)] by (simp add: Sub_TTL)
  have w: "mwf (filter (\<lambda>(key, created). \<not> Sub now created > helloReplayTTL) (sv_nonces s))" using assms(1) by simp
  show "s' = s\<lparr>sv_nonces := sv_nonces s'\<rparr>" "mwf (sv_nonces s')" "ok \<Longrightarrow> mget (sv_nonces s') n = Some now"
    using assms(2) w by (auto simp: acceptNonce_def Let_def split: if_splits)
  show "ok \<Longrightarrow> mget (sv_nonces s) n = Some t \<Longrightarrow> t + helloReplayTTL < now"
    using assms(2) f [of n] by (auto simp: acceptNonce_def Let_def split: if_splits)
  show "mget (sv_nonces s) m = Some t \<Longrightarrow> mget (sv_nonces s') m = Some t \<or> t + helloReplayTTL < now"
    using assms(2) f [of m] f [of n] by (auto simp: acceptNonce_def Let_def split: if_splits)
qed

lemma prune_result:
  assumes "mwf (sv_tombstones s)"
  shows "pruneTombstonesLocked now s = s\<lparr>sv_tombstones := sv_tombstones (pruneTombstonesLocked now s),
           sv_lastTombstonePrune := sv_lastTombstonePrune (pruneTombstonesLocked now s)\<rparr>"
    and "mwf (sv_tombstones (pruneTombstonesLocked now s))"
    and "mget (sv_tombstones s) i = Some e \<Longrightarrow> now < e \<Longrightarrow> mget (sv_tombstones (pruneTombstonesLocked now s)) i = Some e"
  using assms mget_filter [OF assms] by (simp_all add: pruneTombstonesLocked_def)

text \<open>The outcomes of an admission: refused, joined, or a new session.\<close>

lemma admitSession_cases:
  assumes "admitSession hello d now now' s = (r, s')" and "mwf (sv_tombstones s)"
  obtains (refused) err where "r = Inl err" and "s' = s \<or> s' = pruneTombstonesLocked now s"
  | (joined) a where "r = Inr (a, False)" and "s' = pruneTombstonesLocked now s" and "mget (sv_sessions s) (h_SessionID hello) = Some a"
      and "ss_mode (sv_heap s ! a) = h_Mode hello" and "ss_destination (sv_heap s ! a) = d"
  | (created) "r = Inr (length (sv_heap s), True)" and "mget (sv_sessions s) (h_SessionID hello) = None"
      and "int (length (sv_sessions s)) < sv_MaxSessions (sv_cfg s)" and "\<not> sv_closed s"
      and "\<And>e. mget (sv_tombstones s) (h_SessionID hello) = Some e \<Longrightarrow> e \<le> now \<or> e \<le> now'"
      and "s' = (pruneTombstonesLocked now s)\<lparr>sv_heap := sv_heap s @ [newSession (sv_cfg s) hello d now'],
                  sv_sessions := mput (h_SessionID hello) (length (sv_heap s)) (sv_sessions s)\<rparr>"
proof -
  let ?p = "pruneTombstonesLocked now s" and ?i = "h_SessionID hello"
  have p: "sv_sessions ?p = sv_sessions s" "sv_heap ?p = sv_heap s" "sv_cfg ?p = sv_cfg s"
    by (simp_all add: pruneTombstonesLocked_def)
  consider "\<exists>err. r = Inl err \<and> (s' = s \<or> s' = ?p)"
    | a where "r = Inr (a, False)" "s' = ?p" "mget (sv_sessions s) ?i = Some a" "ss_mode (sv_heap s ! a) = h_Mode hello"
        "ss_destination (sv_heap s ! a) = d"
    | "r = Inr (length (sv_heap s), True)" "mget (sv_sessions s) ?i = None" "int (length (sv_sessions s)) < sv_MaxSessions (sv_cfg s)"
        "\<not> sv_closed s" "\<not> (case mget (sv_tombstones ?p) ?i of None \<Rightarrow> False | Some expires \<Rightarrow> now' < expires)"
        "s' = ?p\<lparr>sv_heap := sv_heap s @ [newSession (sv_cfg s) hello d now'], sv_sessions := mput ?i (length (sv_heap s)) (sv_sessions s)\<rparr>"
    using assms(1) unfolding admitSession_def Let_def p by (simp split: if_split_asm option.split_asm) force+
  then show thesis
  proof cases
    case 3
    have "e \<le> now \<or> e \<le> now'" if "mget (sv_tombstones s) ?i = Some e" for e
      using prune_result(3) [OF assms(2) that, of now] 3(5) by force
    then show thesis using created 3 by blast
  qed (use refused joined in blast)+
qed

section \<open>The invariant\<close>

definition authentic :: "ServerConfig \<Rightarrow> gotime \<Rightarrow> Hello \<Rightarrow> bool" where
  "authentic cfg opened hello \<longleftrightarrow> (\<exists>rd rd'. ReadHelloAt rd (sv_Password cfg) opened = Inr (hello, rd'))"

definition admissible :: "ServerConfig \<Rightarrow> Hello \<Rightarrow> bytes \<Rightarrow> bool" where
  "admissible cfg hello d \<longleftrightarrow> normalizeDestination (h_Destination hello) = Inr d
     \<and> (sv_ApplicationTarget cfg \<noteq> [] \<longrightarrow> d = sv_ApplicationTarget cfg)
     \<and> (h_Mode hello = ModeDatagram \<longrightarrow> sv_UDPEnabled cfg)"

text \<open>An accepted nonce is remembered, or accepted so long ago that it may be forgotten; so two acceptances of a nonce
  are separated.\<close>

definition entry_ok :: "ServerConfig \<Rightarrow> gotime \<Rightarrow> (bytes, gotime) gomap \<Rightarrow> acceptedHello \<Rightarrow> bool" where
  "entry_ok cfg clock nonces e \<longleftrightarrow> 0 \<le> ah_opened e \<and> ah_opened e \<le> ah_read e \<and> ah_read e \<le> ah_locked e \<and> ah_locked e \<le> clock
     \<and> authentic cfg (ah_opened e) (ah_hello e)
     \<and> (mget nonces (h_Nonce (ah_hello e)) = Some (ah_read e) \<or> ah_read e + helloReplayTTL < clock)"

definition separated :: "acceptedHello \<Rightarrow> acceptedHello \<Rightarrow> bool" where
  "separated later earlier \<longleftrightarrow>
     (h_Nonce (ah_hello later) = h_Nonce (ah_hello earlier) \<longrightarrow> ah_read earlier + helloReplayTTL < ah_locked later)"

definition nonce_inv :: "serverSystem \<Rightarrow> bool" where
  "nonce_inv y \<longleftrightarrow> 0 \<le> sy_clock y \<and> mwf (sv_nonces (sy_server y))
     \<and> (\<forall>e \<in> set (sy_log y). entry_ok (sv_cfg (sy_server y)) (sy_clock y) (sv_nonces (sy_server y)) e)
     \<and> sorted_wrt separated (sy_log y)"

definition table_inv :: "Server \<Rightarrow> bool" where
  "table_inv s \<longleftrightarrow> mwf (sv_sessions s) \<and> mwf (sv_tombstones s)
     \<and> (\<forall>i a. mget (sv_sessions s) i = Some a \<longrightarrow> a < length (sv_heap s) \<and> ss_id (sv_heap s ! a) = i)
     \<and> int (length (sv_sessions s)) \<le> max 0 (sv_MaxSessions (sv_cfg s))
     \<and> (\<forall>a < length (sv_heap s). srv_session_inv (sv_heap s ! a)
          \<and> (sv_closed s \<or> mget (sv_sessions s) (ss_id (sv_heap s ! a)) = Some a \<or> coreDone (ss_core (sv_heap s ! a))))"

definition retired_ok :: "gotime \<Rightarrow> Server \<Rightarrow> SessionID \<times> gotime \<Rightarrow> bool" where
  "retired_ok clock s = (\<lambda>(i, r). r \<le> clock \<and> (sv_closed s \<or> r + helloReplayTTL \<le> clock
     \<or> mget (sv_sessions s) i = None \<and> (\<exists>e. mget (sv_tombstones s) i = Some e \<and> r + helloReplayTTL \<le> e)))"

definition from_hello :: "ServerConfig \<Rightarrow> Hello \<Rightarrow> serverSession \<Rightarrow> bool" where
  "from_hello cfg hello s \<longleftrightarrow>
     ss_id s = h_SessionID hello \<and> ss_mode s = h_Mode hello \<and> admissible cfg hello (ss_destination s)"

definition origin_inv :: "serverSystem \<Rightarrow> bool" where
  "origin_inv y \<longleftrightarrow> (\<forall>a < length (sv_heap (sy_server y)).
     \<exists>e \<in> set (sy_log y). from_hello (sv_cfg (sy_server y)) (ah_hello e) (sv_heap (sy_server y) ! a))"

definition admitted :: "handler_pc \<Rightarrow> bool" where
  "admitted pc \<longleftrightarrow> pc \<in> {HcReserve, HcReady, HcAttach, HcHost, HcRelease, HcReleaseThenHost}"

definition handler_ok :: "gotime \<Rightarrow> acceptedHello list \<Rightarrow> Server \<Rightarrow> carrierHandler \<Rightarrow> bool" where
  "handler_ok clock hellos s h \<longleftrightarrow> 0 \<le> hc_opened h \<and> hc_opened h \<le> clock
     \<and> (hc_pc h = HcNonceLock \<longrightarrow> hc_opened h \<le> hc_now h \<and> hc_now h \<le> clock)
     \<and> (hc_pc h \<in> {HcNonce, HcNonceLock} \<longrightarrow> authentic (sv_cfg s) (hc_opened h) (hc_hello h))
     \<and> (hc_pc h = HcAdmit \<longrightarrow> (\<exists>e \<in> set hellos. ah_hello e = hc_hello h) \<and> admissible (sv_cfg s) (hc_hello h) (hc_destination h))
     \<and> (admitted (hc_pc h) \<longrightarrow> hc_session h < length (sv_heap s) \<and> ss_id (sv_heap s ! hc_session h) = h_SessionID (hc_hello h))"

definition server_inv :: "serverSystem \<Rightarrow> bool" where
  "server_inv y \<longleftrightarrow> nonce_inv y \<and> table_inv (sy_server y) \<and> list_all (retired_ok (sy_clock y) (sy_server y)) (sy_retired y)
     \<and> origin_inv y \<and> list_all (handler_ok (sy_clock y) (sy_log y) (sy_server y)) (sy_handlers y)"

subsection \<open>What stays true as the system grows\<close>

text \<open>The sessions of a server persist: none is lost, each keeps its identity.\<close>

definition heap_grows :: "Server \<Rightarrow> Server \<Rightarrow> bool" where
  "heap_grows s s' \<longleftrightarrow> sv_cfg s' = sv_cfg s \<and> length (sv_heap s) \<le> length (sv_heap s')
     \<and> (\<forall>a < length (sv_heap s). keeps (sv_heap s ! a) (sv_heap s' ! a))"

lemma heap_keeps_grows: "heap_keeps s s' \<Longrightarrow> heap_grows s s'"
  by (simp add: heap_grows_def heap_keepsD)

lemma handler_ok_mono:
  assumes "handler_ok clock hellos s h" and "clock \<le> clock'" and "set hellos \<subseteq> set hellos'" and "heap_grows s s'"
  shows "handler_ok clock' hellos' s' h"
proof -
  have "ss_id (sv_heap s' ! a) = ss_id (sv_heap s ! a)" if "a < length (sv_heap s)" for a
    using assms(4) that by (simp add: heap_grows_def keeps_def)
  moreover have "sv_cfg s' = sv_cfg s" "length (sv_heap s) \<le> length (sv_heap s')" using assms(4) by (simp_all add: heap_grows_def)
  ultimately show ?thesis using assms(1-3) unfolding handler_ok_def by fastforce
qed

lemma entry_ok_mono: "entry_ok cfg clock nonces e \<Longrightarrow> clock \<le> clock' \<Longrightarrow> entry_ok cfg clock' nonces e"
  by (auto simp: entry_ok_def)

lemma retired_ok_mono: "retired_ok clock s x \<Longrightarrow> clock \<le> clock' \<Longrightarrow> retired_ok clock' s x"
  by (auto simp: retired_ok_def)

lemma retired_ok_keeps: "heap_keeps s s' \<Longrightarrow> retired_ok clock s' x = retired_ok clock s x"
  by (simp add: retired_ok_def heap_keepsD)

lemma table_inv_keeps:
  assumes "table_inv s" and "heap_keeps s s'"
  shows "table_inv s'"
proof -
  note k = heap_keepsD [OF assms(2)]
  have "srv_session_inv (sv_heap s' ! a) \<and> ss_id (sv_heap s' ! a) = ss_id (sv_heap s ! a)
      \<and> (coreDone (ss_core (sv_heap s ! a)) \<longrightarrow> coreDone (ss_core (sv_heap s' ! a)))" if "a < length (sv_heap s)" for a
    using k(7) [OF that] assms(1) that by (auto simp: keeps_def table_inv_def)
  then show ?thesis using assms(1) unfolding table_inv_def k(1-6) by fastforce
qed

lemma origin_inv_grows:
  assumes "origin_inv y" and "heap_grows (sy_server y) s'" and "set (sy_log y) \<subseteq> set hellos'"
    and "length (sv_heap s') = length (sv_heap (sy_server y))"
  shows "origin_inv (y\<lparr>sy_server := s', sy_log := hellos'\<rparr>)"
proof -
  have "from_hello (sv_cfg s') x (sv_heap s' ! a) = from_hello (sv_cfg (sy_server y)) x (sv_heap (sy_server y) ! a)"
    if "a < length (sv_heap s')" for a x
    using assms(2,4) that by (simp add: heap_grows_def keeps_def from_hello_def)
  then show ?thesis using assms(1,3,4) unfolding origin_inv_def by (auto 4 3)
qed

subsection \<open>Steps that move sessions keep the invariant\<close>

lemma list_all_update: "list_all P xs \<Longrightarrow> P x \<Longrightarrow> list_all P (xs[k := x])"
  using set_update_subset_insert [of xs k x] by (auto simp: list_all_iff)

lemma inv_move:
  assumes "server_inv y" and "heap_keeps (sy_server y) s'" and "sy_clock y \<le> t"
    and "list_all (handler_ok t (sy_log y) s') hs"
  shows "server_inv (y\<lparr>sy_server := s', sy_handlers := hs, sy_clock := t\<rparr>)"
proof -
  note k = heap_keepsD [OF assms(2)]
  have "nonce_inv (y\<lparr>sy_server := s', sy_handlers := hs, sy_clock := t\<rparr>)"
    using assms(1,3) entry_ok_mono by (auto simp: server_inv_def nonce_inv_def k)
  moreover have "table_inv s'" by (rule table_inv_keeps [OF _ assms(2)]) (use assms(1) in \<open>simp add: server_inv_def\<close>)
  moreover have "list_all (retired_ok t s') (sy_retired y)"
    using assms(1,3) retired_ok_mono by (auto simp: server_inv_def list_all_iff retired_ok_keeps [OF assms(2)])
  moreover have "origin_inv (y\<lparr>sy_server := s', sy_handlers := hs, sy_clock := t\<rparr>)"
    using origin_inv_grows [OF _ heap_keeps_grows [OF assms(2)], of "sy_log y"] assms(1) k(6)
    by (simp add: server_inv_def origin_inv_def)
  ultimately show ?thesis using assms(4) by (simp add: server_inv_def)
qed

lemma inv_onServer:
  assumes "server_inv y" and "heap_keeps (sy_server y) (f (sy_server y))"
  shows "server_inv (onServer f y)"
proof -
  have "list_all (handler_ok (sy_clock y) (sy_log y) (f (sy_server y))) (sy_handlers y)"
    using assms(1) handler_ok_mono [OF _ _ _ heap_keeps_grows [OF assms(2)], of "sy_clock y" "sy_log y" _ "sy_clock y" "sy_log y"]
    by (auto simp: server_inv_def list_all_iff)
  from inv_move [OF assms order_refl this] show ?thesis by (simp add: onServer_def)
qed

text \<open>After the admission a handler keeps its HELLO and its session.\<close>

lemma handler_frame:
  assumes "handlerStep now now' pick nonce dialled target h s = (h', s')" and "admitted (hc_pc h)"
  shows "hc_hello h' = hc_hello h \<and> hc_session h' = hc_session h \<and> hc_opened h' = hc_opened h
    \<and> hc_pc h' \<notin> {HcHello, HcNonce, HcNonceLock, HcAdmit}"
proof -
  have j: "rejectReserved c h s = (h', s') \<Longrightarrow> hc_hello h' = hc_hello h \<and> hc_session h' = hc_session h
      \<and> hc_opened h' = hc_opened h \<and> hc_pc h' = HcRelease" for c h s h' s'
    by (auto simp: rejectReserved_def)
  consider "hc_pc h = HcReady" | "hc_pc h = HcAttach" | "hc_pc h \<in> {HcReserve, HcHost, HcRelease, HcReleaseThenHost}"
    using assms(2) by (auto simp: admitted_def)
  then show ?thesis
  proof cases
    case 1
    then have "stepReady nonce h s = (h', s')" using assms(1) by (simp add: handlerStep_def)
    then show ?thesis unfolding stepReady_def
      by (auto split: if_split_asm sum.split_asm prod.split_asm option.split_asm dest!: j)
  next
    case 2
    then have "stepAttach pick now h s = (h', s')" using assms(1) by (simp add: handlerStep_def)
    then show ?thesis using 2 unfolding stepAttach_def Let_def
      by (auto split: if_split_asm prod.split_asm option.split_asm dest!: j)
  next
    case 3
    then show ?thesis using assms(1)
      by (elim insertE emptyE)
        (simp_all add: handlerStep_def split: if_split_asm option.split_asm prod.split_asm, auto split: option.split)
  qed
qed

lemma handler_next:
  assumes "handler_ok clock hellos s h" and "handlerStep clock t pick nonce dialled target h s = (h', s')" and "clock \<le> t"
    and "hc_pc h \<noteq> HcNonceLock" and "hc_pc h \<noteq> HcAdmit"
  shows "handler_ok t hellos s' h'"
proof -
  note g = heap_keeps_grows [OF handlerStep_keeps [OF assms(2,4,5)]]
  have old: "handler_ok t hellos s' h" by (rule handler_ok_mono [OF assms(1,3) _ g]) simp
  consider "admitted (hc_pc h)" | "hc_pc h = HcHello" | "hc_pc h = HcNonce" | "h' = h"
    using assms(2,4,5) by (cases "hc_pc h") (simp_all add: admitted_def handlerStep_def)
  then show ?thesis
  proof cases
    case 1
    then show ?thesis using handler_frame [OF assms(2)] old by (auto simp: handler_ok_def)
  next
    case 2
    then have h: "h' = stepHello (sv_cfg s) h" "s' = s" using assms(2) by (auto simp: handlerStep_def)
    show ?thesis
    proof (cases "ReadHelloAt (hc_in h) (sv_Password (sv_cfg s)) (hc_opened h)")
      case (Inr x)
      obtain hello rd where x: "x = (hello, rd)" by fastforce
      then have "authentic (sv_cfg s) (hc_opened h) hello" using Inr by (auto simp: authentic_def)
      then show ?thesis using old h Inr x by (simp add: stepHello_def handler_ok_def admitted_def)
    qed (use old h in \<open>simp add: stepHello_def handler_ok_def admitted_def\<close>)
  next
    case 3
    then have "h' = h\<lparr>hc_pc := HcNonceLock, hc_now := clock\<rparr>" using assms(2) by (simp add: handlerStep_def)
    then show ?thesis using 3 old assms(1,3) by (simp add: handler_ok_def admitted_def)
  qed (use old in simp)
qed

lemma inv_handler_move:
  assumes "server_inv y" and "k < length (sy_handlers y)" and "sy_clock y \<le> t"
    and "hc_pc (sy_handlers y ! k) \<noteq> HcNonceLock" and "hc_pc (sy_handlers y ! k) \<noteq> HcAdmit"
  shows "server_inv (runHandler k t pick nonce dialled target y)"
proof -
  let ?h = "sy_handlers y ! k" and ?s = "sy_server y"
  obtain h' s' where S: "handlerStep (sy_clock y) t pick nonce dialled target ?h ?s = (h', s')" by fastforce
  note kp = handlerStep_keeps [OF S assms(4,5)]
  have ok: "list_all (handler_ok (sy_clock y) (sy_log y) ?s) (sy_handlers y)" using assms(1) by (simp add: server_inv_def)
  then have "list_all (handler_ok t (sy_log y) s') (sy_handlers y)"
    using handler_ok_mono [OF _ assms(3) _ heap_keeps_grows [OF kp], of "sy_log y" _ "sy_log y"] by (auto simp: list_all_iff)
  moreover have "handler_ok t (sy_log y) s' h'"
    by (rule handler_next [OF _ S assms(3-5)]) (use ok assms(2) in \<open>simp add: list_all_length\<close>)
  ultimately have "list_all (handler_ok t (sy_log y) s') ((sy_handlers y)[k := h'])"
    by (rule list_all_update)
  from inv_move [OF assms(1) kp assms(3) this] show ?thesis
    using assms(4) by (simp add: runHandler_def S Let_def acceptsHello_def)
qed

subsection \<open>The other steps\<close>

lemma server_invD:
  assumes "server_inv y"
  shows "nonce_inv y" "table_inv (sy_server y)" "list_all (retired_ok (sy_clock y) (sy_server y)) (sy_retired y)" "origin_inv y"
    "list_all (handler_ok (sy_clock y) (sy_log y) (sy_server y)) (sy_handlers y)"
  using assms by (simp_all add: server_inv_def)

lemma handlers_mono:
  assumes "list_all (handler_ok clock hellos s) hs" and "clock \<le> clock'" and "set hellos \<subseteq> set hellos'" and "heap_grows s s'"
    and "handler_ok clock' hellos' s' h"
  shows "list_all (handler_ok clock' hellos' s') (hs[k := h])"
  using assms handler_ok_mono by (intro list_all_update) (auto simp: list_all_iff)

text \<open>Recording a nonce: the acceptance of a remembered nonce is refused, so an acceptance is separated from every earlier
  one of the same nonce.\<close>

lemma nonce_inv_accept:
  assumes "nonce_inv y" and "handler_ok (sy_clock y) (sy_log y) (sy_server y) h" and "hc_pc h = HcNonceLock"
    and "acceptNonce (hc_now h) (h_Nonce (hc_hello h)) (sy_server y) = (ok, s')" and "sy_clock y \<le> t"
    and "e = \<lparr>ah_hello = hc_hello h, ah_opened = hc_opened h, ah_read = hc_now h, ah_locked = sy_clock y\<rparr>"
  shows "nonce_inv (y\<lparr>sy_server := s', sy_handlers := hs, sy_clock := t, sy_log := (if ok then e # sy_log y else sy_log y)\<rparr>)"
proof -
  let ?s = "sy_server y"
  have w: "mwf (sv_nonces ?s)" and ok: "\<And>x. x \<in> set (sy_log y) \<Longrightarrow> entry_ok (sv_cfg ?s) (sy_clock y) (sv_nonces ?s) x"
    using assms(1) by (simp_all add: nonce_inv_def)
  note a = acceptNonce_result [OF w assms(4)]
  have cfg: "sv_cfg s' = sv_cfg ?s" using a(1) by (metis Server.select_convs(1) Server.surjective Server.update_convs(7))
  have h: "0 \<le> hc_opened h" "hc_opened h \<le> hc_now h" "hc_now h \<le> sy_clock y" "authentic (sv_cfg ?s) (hc_opened h) (hc_hello h)"
    using assms(2,3) by (simp_all add: handler_ok_def)
  have old: "entry_ok (sv_cfg s') t (sv_nonces s') x" if "x \<in> set (sy_log y)" for x
    using ok [OF that] a(5) [of "h_Nonce (ah_hello x)" "ah_read x"] h(3) assms(5) unfolding entry_ok_def cfg by force
  have new: "entry_ok (sv_cfg s') t (sv_nonces s') e" if ok
    using a(3) [OF that] h assms(5,6) unfolding entry_ok_def cfg by simp
  have sep: "separated e x" if ok "x \<in> set (sy_log y)" for x
    using ok [OF that(2)] a(4) [OF that(1), of "ah_read x"] h(3) assms(6) unfolding entry_ok_def separated_def by force
  show ?thesis using assms(1,5) a(2) old new sep by (auto simp: nonce_inv_def)
qed

text \<open>A step that leaves the table and the sessions alone.\<close>

lemma same_table:
  assumes "s' = s\<lparr>sv_nonces := n\<rparr>"
  shows "table_inv s' = table_inv s" "retired_ok t s' = retired_ok t s" "heap_grows s s'"
  using assms by (simp_all add: table_inv_def retired_ok_def heap_grows_def)

lemma checkHello_ok:
  assumes "handler_ok clock hellos s h" and "\<exists>e \<in> set hellos'. ah_hello e = hc_hello h" and "clock \<le> clock'" and "sv_cfg s' = sv_cfg s"
    and "hc_pc h = HcNonceLock"
  shows "handler_ok clock' hellos' s' (checkHello (sv_cfg s) h)"
  using assms
  by (auto simp: handler_ok_def checkHello_def admitted_def admissible_def split: sum.split)

lemma inv_nonce:
  assumes "server_inv y" and "k < length (sy_handlers y)" and "sy_clock y \<le> t" and "hc_pc (sy_handlers y ! k) = HcNonceLock"
  shows "server_inv (runHandler k t pick nonce dialled target y)"
proof -
  let ?h = "sy_handlers y ! k" and ?s = "sy_server y"
  let ?e = "\<lparr>ah_hello = hc_hello ?h, ah_opened = hc_opened ?h, ah_read = hc_now ?h, ah_locked = sy_clock y\<rparr>"
  note i = server_invD [OF assms(1)]
  obtain ok s' where A: "acceptNonce (hc_now ?h) (h_Nonce (hc_hello ?h)) ?s = (ok, s')" by fastforce
  let ?L = "if ok then ?e # sy_log y else sy_log y" and ?h' = "if ok then checkHello (sv_cfg ?s) ?h else ?h\<lparr>hc_pc := HcRejected ''replayed_nonce''\<rparr>"
  have h: "handler_ok (sy_clock y) (sy_log y) ?s ?h" using i(5) assms(2) by (simp add: list_all_length)
  have s': "s' = ?s\<lparr>sv_nonces := sv_nonces s'\<rparr>" using acceptNonce_result(1) [OF _ A] i(1) by (simp add: nonce_inv_def)
  note same = same_table [OF s']
  have cfg: "sv_cfg s' = sv_cfg ?s" using same(3) by (simp add: heap_grows_def)
  have run: "runHandler k t pick nonce dialled target y
      = y\<lparr>sy_server := s', sy_handlers := (sy_handlers y)[k := ?h'], sy_clock := t, sy_log := ?L\<rparr>"
    using assms(4) A by (cases ok) (simp_all add: runHandler_def handlerStep_def acceptsHello_def Let_def)
  have "handler_ok t ?L s' ?h'"
  proof (cases ok)
    case True
    then show ?thesis using checkHello_ok [OF h _ assms(3) cfg assms(4), of ?L] by simp
  next
    case False
    then show ?thesis using h assms(3) cfg by (simp add: handler_ok_def admitted_def)
  qed
  then have "list_all (handler_ok t ?L s') ((sy_handlers y)[k := ?h'])"
    by (intro handlers_mono [OF i(5) assms(3) _ same(3)]) auto
  moreover have "list_all (retired_ok t s') (sy_retired y)"
    using i(3) retired_ok_mono [OF _ assms(3)] unfolding same(2) by (auto simp: list_all_iff)
  moreover have "origin_inv (y\<lparr>sy_server := s', sy_log := ?L\<rparr>)"
  proof (rule origin_inv_grows [OF i(4) same(3)])
    show "length (sv_heap s') = length (sv_heap ?s)" by (subst s') simp
  qed auto
  ultimately show ?thesis unfolding run
    using nonce_inv_accept [OF i(1) h assms(4) A assms(3) refl] i(2) same(1) by (simp add: server_inv_def origin_inv_def)
qed

text \<open>Admission: forgetting expired tombstones, then perhaps a new session.\<close>

lemma prune_inv:
  assumes "table_inv s"
  shows "table_inv (pruneTombstonesLocked now s)" "heap_grows s (pruneTombstonesLocked now s)"
    "retired_ok now s x \<Longrightarrow> retired_ok now (pruneTombstonesLocked now s) x"
proof -
  have w: "mwf (sv_tombstones s)" using assms by (simp add: table_inv_def)
  obtain m l where p: "pruneTombstonesLocked now s = s\<lparr>sv_tombstones := m, sv_lastTombstonePrune := l\<rparr>"
    using prune_result(1) [OF w] by blast
  have m: "mwf m" "\<And>i e. mget (sv_tombstones s) i = Some e \<Longrightarrow> now < e \<Longrightarrow> mget m i = Some e"
    using prune_result(2) [OF w, of now] prune_result(3) [OF w, where now = now] unfolding p by simp_all
  show "table_inv (pruneTombstonesLocked now s)" "heap_grows s (pruneTombstonesLocked now s)"
    using assms m(1) unfolding p by (simp_all add: table_inv_def heap_grows_def)
  show "retired_ok now (pruneTombstonesLocked now s) x" if "retired_ok now s x"
    using that m(2) unfolding p retired_ok_def by (auto split: prod.split_asm)
qed

lemma newSession_inv: "srv_session_inv (newSession cfg hello d now)"
  by (simp add: newSession_def srv_session_inv_def core_inv_def legs_inv_new dg_inv_new)

lemma newSession_fields [simp]:
  "ss_id (newSession cfg hello d now) = h_SessionID hello" "ss_mode (newSession cfg hello d now) = h_Mode hello"
  "ss_destination (newSession cfg hello d now) = d"
  by (simp_all add: newSession_def)

lemma table_inv_create:
  assumes "table_inv s" and "mget (sv_sessions s) (ss_id n) = None" and "int (length (sv_sessions s)) < sv_MaxSessions (sv_cfg s)"
    and "srv_session_inv n"
  shows "table_inv (s\<lparr>sv_heap := sv_heap s @ [n], sv_sessions := mput (ss_id n) (length (sv_heap s)) (sv_sessions s)\<rparr>)"
    (is "table_inv ?s'")
proof -
  let ?m = "mput (ss_id n) (length (sv_heap s)) (sv_sessions s)" and ?hp = "sv_heap s @ [n]"
  have "a < length ?hp \<and> ss_id (?hp ! a) = i" if "mget ?m i = Some a" for i a
    using that assms(1) by (cases "i = ss_id n") (auto simp: table_inv_def nth_append less_Suc_eq)
  moreover have "srv_session_inv (?hp ! a) \<and> (sv_closed s \<or> mget ?m (ss_id (?hp ! a)) = Some a \<or> coreDone (ss_core (?hp ! a)))"
    if "a < length ?hp" for a
  proof (cases "a = length (sv_heap s)")
    case False
    then have a: "a < length (sv_heap s)" "?hp ! a = sv_heap s ! a" using that by (simp_all add: nth_append)
    then have "srv_session_inv (sv_heap s ! a)" "sv_closed s \<or> mget (sv_sessions s) (ss_id (sv_heap s ! a)) = Some a \<or> coreDone (ss_core (sv_heap s ! a))"
      using assms(1) by (auto simp: table_inv_def)
    then show ?thesis using assms(2) a by (cases "ss_id (sv_heap s ! a) = ss_id n") auto
  qed (use assms(4) in simp)
  moreover have "int (length ?m) \<le> max 0 (sv_MaxSessions (sv_cfg s))" using assms(3) length_update_new [OF assms(2)] by simp
  moreover have "mwf (sv_sessions s)" "mwf (sv_tombstones s)" using assms(1) by (simp_all add: table_inv_def)
  ultimately show ?thesis unfolding table_inv_def by simp
qed

lemma heap_grows_append: "heap_grows s s' \<Longrightarrow> heap_grows s (s'\<lparr>sv_heap := sv_heap s' @ [n], sv_sessions := m\<rparr>)"
  by (auto simp: heap_grows_def nth_append)

text \<open>What an admission leaves behind.\<close>

lemma admitSession_inv:
  assumes "admitSession hello d now t s = (r, s')" and "table_inv s" and "now \<le> t"
  shows "table_inv s'" and "heap_grows s s'" and "sv_nonces s' = sv_nonces s"
    and "retired_ok now s x \<Longrightarrow> retired_ok t s' x"
    and "length (sv_heap s') = length (sv_heap s) \<or> sv_heap s' = sv_heap s @ [newSession (sv_cfg s) hello d t]"
    and "r = Inr (a, new) \<Longrightarrow> a < length (sv_heap s') \<and> ss_id (sv_heap s' ! a) = h_SessionID hello"
proof -
  let ?p = "pruneTombstonesLocked now s"
  have w: "mwf (sv_tombstones s)" using assms(2) by (simp add: table_inv_def)
  have p: "sv_sessions ?p = sv_sessions s" "sv_heap ?p = sv_heap s" "sv_cfg ?p = sv_cfg s" "sv_nonces ?p = sv_nonces s"
    "sv_closed ?p = sv_closed s" by (simp_all add: pruneTombstonesLocked_def)
  note pi = prune_inv [OF assms(2), of now] and mono = retired_ok_mono [OF _ assms(3)]
  have rt: "retired_ok now s x \<Longrightarrow> retired_ok t s x" and rp: "retired_ok now s x \<Longrightarrow> retired_ok t ?p x"
    using mono pi(3) by blast+
  have g: "heap_grows s s" by (simp add: heap_grows_def)
  have ids: "\<And>i a. mget (sv_sessions s) i = Some a \<Longrightarrow> a < length (sv_heap s) \<and> ss_id (sv_heap s ! a) = i"
    using assms(2) by (simp add: table_inv_def)
  let ?goal = "table_inv s' \<and> heap_grows s s' \<and> sv_nonces s' = sv_nonces s \<and> (retired_ok now s x \<longrightarrow> retired_ok t s' x)
    \<and> (length (sv_heap s') = length (sv_heap s) \<or> sv_heap s' = sv_heap s @ [newSession (sv_cfg s) hello d t])
    \<and> (r = Inr (a, new) \<longrightarrow> a < length (sv_heap s') \<and> ss_id (sv_heap s' ! a) = h_SessionID hello)"
  from assms(1) w have ?goal
  proof (cases rule: admitSession_cases)
    case (refused err)
    from refused(2) show ?thesis using refused(1) pi(1,2) rt rp g assms(2) p by (elim disjE) simp_all
  next
    case (joined b)
    then show ?thesis using pi(1,2) rp p ids [OF joined(3)] by (cases "a = b") simp_all
  next
    case created
    let ?n = "newSession (sv_cfg s) hello d t"
    have s': "s' = ?p\<lparr>sv_heap := sv_heap ?p @ [?n], sv_sessions := mput (ss_id ?n) (length (sv_heap ?p)) (sv_sessions ?p)\<rparr>"
      using created(6) p by simp
    have "table_inv s'" unfolding s' by (rule table_inv_create [OF pi(1)]) (use created p newSession_inv in simp_all)
    moreover have "retired_ok t s' x" if x: "retired_ok now s x"
    proof -
      obtain i u where iu: "x = (i, u)" by fastforce
      show ?thesis using mono [OF pi(3) [OF x]] created(4,5) x assms(3) iu p(5) unfolding s' retired_ok_def
        by (cases "i = h_SessionID hello") (auto simp: p)
    qed
    ultimately show ?thesis using heap_grows_append [OF pi(2)] created(1) p unfolding s' by (cases "a = length (sv_heap s)") simp_all
  qed
  then show "table_inv s'" "heap_grows s s'" "sv_nonces s' = sv_nonces s" "retired_ok now s x \<Longrightarrow> retired_ok t s' x"
    "length (sv_heap s') = length (sv_heap s) \<or> sv_heap s' = sv_heap s @ [newSession (sv_cfg s) hello d t]"
    "r = Inr (a, new) \<Longrightarrow> a < length (sv_heap s') \<and> ss_id (sv_heap s' ! a) = h_SessionID hello" by blast+
qed

lemma inv_admit:
  assumes "server_inv y" and "k < length (sy_handlers y)" and "sy_clock y \<le> t" and "hc_pc (sy_handlers y ! k) = HcAdmit"
  shows "server_inv (runHandler k t pick nonce dialled target y)"
proof -
  let ?h = "sy_handlers y ! k" and ?s = "sy_server y"
  note i = server_invD [OF assms(1)]
  obtain r s' where A: "admitSession (hc_hello ?h) (hc_destination ?h) (sy_clock y) t ?s = (r, s')" by fastforce
  note a = admitSession_inv [OF A i(2) assms(3)]
  let ?h' = "case r of Inl err \<Rightarrow> ?h\<lparr>hc_pc := HcRejected ''session''\<rparr>
    | Inr (b, created) \<Rightarrow> ?h\<lparr>hc_pc := HcReserve, hc_session := b, hc_created := created\<rparr>"
  have h: "handler_ok (sy_clock y) (sy_log y) ?s ?h" using i(5) assms(2) by (simp add: list_all_length)
  have run: "runHandler k t pick nonce dialled target y = y\<lparr>sy_server := s', sy_handlers := (sy_handlers y)[k := ?h'], sy_clock := t\<rparr>"
    using assms(4) A by (simp add: runHandler_def handlerStep_def acceptsHello_def Let_def split: sum.split prod.split)
  have cfg: "sv_cfg s' = sv_cfg ?s" using a(2) by (simp add: heap_grows_def)
  have "handler_ok t (sy_log y) s' ?h'"
    using h assms(3) a(6) by (auto simp: handler_ok_def admitted_def split: sum.split)
  then have "list_all (handler_ok t (sy_log y) s') ((sy_handlers y)[k := ?h'])"
    by (intro handlers_mono [OF i(5) assms(3) _ a(2)]) simp
  moreover have "list_all (retired_ok t s') (sy_retired y)" using i(3) a(4) by (auto simp: list_all_iff)
  moreover have "nonce_inv (y\<lparr>sy_server := s', sy_handlers := hs, sy_clock := t\<rparr>)" for hs
    using i(1) assms(3) entry_ok_mono by (auto simp: nonce_inv_def a(3) cfg)
  moreover have "origin_inv (y\<lparr>sy_server := s', sy_handlers := hs, sy_clock := t\<rparr>)" for hs
    using a(5)
  proof
    assume "length (sv_heap s') = length (sv_heap ?s)"
    from origin_inv_grows [OF i(4) a(2) _ this, of "sy_log y"] show ?thesis by (simp add: origin_inv_def)
  next
    assume hp: "sv_heap s' = sv_heap ?s @ [newSession (sv_cfg ?s) (hc_hello ?h) (hc_destination ?h) t]"
    have "\<exists>e \<in> set (sy_log y). from_hello (sv_cfg ?s) (ah_hello e) (newSession (sv_cfg ?s) (hc_hello ?h) (hc_destination ?h) t)"
    proof -
      obtain e where "e \<in> set (sy_log y)" "ah_hello e = hc_hello ?h" "admissible (sv_cfg ?s) (hc_hello ?h) (hc_destination ?h)"
        using h assms(4) by (auto simp: handler_ok_def)
      then show ?thesis by (intro bexI [of _ e]) (simp_all add: from_hello_def)
    qed
    then show ?thesis using i(4) by (simp add: origin_inv_def hp cfg nth_append less_Suc_eq)
  qed
  ultimately show ?thesis unfolding run using a(1) by (simp add: server_inv_def)
qed

text \<open>Retiring a finished session puts a tombstone in its place.\<close>

lemma table_inv_remove:
  assumes "table_inv s" and "coreDone (ss_core (sv_heap s ! a))"
  shows "table_inv (removeSession a now s)"
proof (cases "mget (sv_sessions s) (ss_id (sv_heap s ! a)) = Some a")
  case True
  note present = this
  let ?i = "ss_id (sv_heap s ! a)" let ?m = "mdel ?i (sv_sessions s)"
  have m: "mget ?m j = (if j = ?i then None else mget (sv_sessions s) j)" for j by (simp only: amap_lookup fun_upd_apply)
  have "sv_closed s \<or> mget ?m (ss_id (sv_heap s ! b)) = Some b \<or> coreDone (ss_core (sv_heap s ! b))" if b: "b < length (sv_heap s)" for b
  proof (cases "ss_id (sv_heap s ! b) = ?i \<and> mget (sv_sessions s) ?i = Some b")
    case True
    then have "b = a" using present by (metis option.inject)
    then show ?thesis using assms(2) by simp
  next
    case False
    have "sv_closed s \<or> mget (sv_sessions s) (ss_id (sv_heap s ! b)) = Some b \<or> coreDone (ss_core (sv_heap s ! b))"
      using assms(1) b unfolding table_inv_def by blast
    then show ?thesis unfolding m using False by (cases "ss_id (sv_heap s ! b) = ?i") simp_all
  qed
  moreover have "b < length (sv_heap s) \<and> ss_id (sv_heap s ! b) = j" if "mget ?m j = Some b" for j b
    using that assms(1) unfolding m table_inv_def by (simp split: if_split_asm)
  moreover have "int (length ?m) \<le> max 0 (sv_MaxSessions (sv_cfg s))"
    using assms(1) AList.length_delete_le [of ?i "sv_sessions s"] unfolding table_inv_def by linarith
  moreover have "mwf ?m" "mwf (mput ?i (now + helloReplayTTL) (sv_tombstones s))"
    using assms(1) by (simp_all only: table_inv_def mwf_delete mwf_update)
  moreover have "\<forall>a < length (sv_heap s). srv_session_inv (sv_heap s ! a)" using assms(1) unfolding table_inv_def by blast
  moreover have "removeSession a now s = s\<lparr>sv_sessions := ?m, sv_tombstones := mput ?i (now + helloReplayTTL) (sv_tombstones s)\<rparr>" (is "_ = ?s'")
    using True by (simp add: removeSession_def Let_def)
  moreover have "sv_sessions ?s' = ?m" "sv_tombstones ?s' = mput ?i (now + helloReplayTTL) (sv_tombstones s)" "sv_heap ?s' = sv_heap s"
    "sv_cfg ?s' = sv_cfg s" "sv_closed ?s' = sv_closed s" by simp_all
  ultimately show ?thesis unfolding table_inv_def by (simp only:) blast
qed (use assms(1) in \<open>simp add: removeSession_def\<close>)

lemma removeSession_frame [simp]:
  "sv_heap (removeSession a now s) = sv_heap s" "sv_cfg (removeSession a now s) = sv_cfg s" "sv_nonces (removeSession a now s) = sv_nonces s"
  by (simp_all add: removeSession_def Let_def)

lemma retired_remove:
  assumes "retired_ok now s x"
  shows "retired_ok now (removeSession a now s) x"
proof -
  obtain i r where x: "x = (i, r)" by fastforce
  show ?thesis using assms unfolding x retired_ok_def
    by (cases "i = ss_id (sv_heap s ! a)") (auto simp: removeSession_def Let_def)
qed

lemma inv_retire:
  assumes "server_inv y" and "coreDone (ss_core (sv_heap (sy_server y) ! a))"
  shows "server_inv (retireSession a y)"
proof -
  let ?s = "sy_server y" let ?s' = "removeSession a (sy_clock y) ?s" and ?i = "ss_id (sv_heap ?s ! a)"
  note i = server_invD [OF assms(1)]
  have "heap_grows ?s ?s'" by (simp add: heap_grows_def)
  then have "list_all (handler_ok (sy_clock y) (sy_log y) ?s') (sy_handlers y)"
    using i(5) handler_ok_mono [OF _ order_refl subset_refl] by (auto simp: list_all_iff)
  moreover have "list_all (retired_ok (sy_clock y) ?s') (sy_retired y)" using i(3) retired_remove by (auto simp: list_all_iff)
  moreover have "retired_ok (sy_clock y) ?s' (?i, sy_clock y)" if "mget (sv_sessions ?s) ?i = Some a"
    using that by (simp add: retired_ok_def removeSession_def Let_def)
  moreover have "table_inv ?s'" by (rule table_inv_remove [OF i(2) assms(2)])
  ultimately show ?thesis using i(1,4) by (simp add: server_inv_def retireSession_def Let_def nonce_inv_def origin_inv_def)
qed

lemma inv_closeServer:
  assumes "server_inv y"
  shows "server_inv (onServer (\<lambda>s. snd (closeServer s)) y)"
proof -
  let ?s = "sy_server y" let ?s' = "snd (closeServer ?s)"
  note i = server_invD [OF assms]
  have f: "sv_heap ?s' = sv_heap ?s" "sv_cfg ?s' = sv_cfg ?s" "sv_nonces ?s' = sv_nonces ?s" "sv_closed ?s'" by (simp_all add: closeServer_def)
  have "heap_grows ?s ?s'" by (simp add: heap_grows_def f)
  then have "list_all (handler_ok (sy_clock y) (sy_log y) ?s') (sy_handlers y)"
    using i(5) handler_ok_mono [OF _ order_refl subset_refl] by (auto simp: list_all_iff)
  moreover have "list_all (retired_ok (sy_clock y) ?s') (sy_retired y)" using i(3) f(4) by (auto simp: list_all_iff retired_ok_def)
  moreover have "table_inv ?s'" using i(2) by (simp add: table_inv_def closeServer_def)
  ultimately show ?thesis using i(1,4) f by (simp add: server_inv_def onServer_def nonce_inv_def origin_inv_def)
qed

lemma server_step_inv:
  assumes "server_inv y" and "server_step y z"
  shows "server_inv z"
  using assms(2)
proof cases
  case (tick t)
  have "list_all (handler_ok t (sy_log y) (sy_server y)) (sy_handlers y)"
    using server_invD(5) [OF assms(1)] handler_ok_mono [OF _ tick(2) subset_refl, of _ "sy_server y"]
    by (auto simp: list_all_iff heap_keeps_grows)
  from inv_move [OF assms(1) heap_keeps_refl tick(2) this] show ?thesis using tick(1) by simp
next
  case (accept sidecar rd wr)
  have "0 \<le> sy_clock y" using server_invD(1) [OF assms(1)] by (simp add: nonce_inv_def)
  then have "handler_ok (sy_clock y) (sy_log y) (sy_server y) (newHandler sidecar rd wr (sy_clock y))"
    by (simp add: handler_ok_def newHandler_def admitted_def)
  then show ?thesis using inv_move [OF assms(1) heap_keeps_refl order_refl] server_invD(5) [OF assms(1)] accept by simp
next
  case (handler k now' pick nonce dialled target)
  show ?thesis unfolding handler(1)
    using inv_handler_move [OF assms(1) handler(2,3)] inv_nonce [OF assms(1) handler(2,3)] inv_admit [OF assms(1) handler(2,3)]
    by (cases "hc_pc (sy_handlers y ! k) \<in> {HcNonceLock, HcAdmit}") auto
next
  case (core a c)
  have "heap_keeps (sy_server y) (onSession a (\<lambda>s. s\<lparr>ss_core := c\<rparr>) (sy_server y))"
    using heap_keeps_onSession [where f = "\<lambda>s. s\<lparr>ss_core := c\<rparr>"] keeps_core [OF core(3)] by blast
  then show ?thesis unfolding core(1) by (rule inv_onServer [OF assms(1)])
next
  case (retired a)
  then show ?thesis using inv_retire [OF assms(1)] by blast
next
  case closed
  show ?thesis unfolding closed by (rule inv_closeServer [OF assms(1)])
next
  case (released a)
  show ?thesis unfolding released(1) by (rule inv_onServer [OF assms(1)]) (rule onSession_keeps)
next
  case (sessionClosed a)
  show ?thesis unfolding sessionClosed(1) by (rule inv_onServer [OF assms(1)]) (rule onSession_keeps)
qed

lemma server_inv_new: "0 \<le> now \<Longrightarrow> server_inv (newSystem cfg now)"
  by (simp add: server_inv_def newSystem_def newServer_def nonce_inv_def table_inv_def origin_inv_def)

interpretation srl: invariant_run server_inv server_step
  by unfold_locales (rule server_step_inv)

lemma reachable_server_inv: "server_step\<^sup>*\<^sup>* (newSystem cfg now) y \<Longrightarrow> 0 \<le> now \<Longrightarrow> server_inv y"
  using srl.run_inv server_inv_new by blast

end
