(* ===== verification/Server_Safety.thy ===== *)
theory Server_Safety
  imports Server_System
begin

text \<open>
  What the admission of carriers guarantees in every reachable state of the running server, with example runs: replays of
  a HELLO, retired session ids, the table of sessions, the engines of the sessions, where sessions come from, the
  reservation of legs, and that a handler ends.
\<close>

section \<open>Runs of one carrier\<close>

text \<open>A carrier with a fresh HELLO whose nonce is not remembered gets its HELLO accepted.\<close>

lemma run_last:
  assumes "sy_handlers y = hs @ [h]" and "sy_clock y \<le> t" and "handlerStep (sy_clock y) t pick nonce dialled target h (sy_server y) = (h', s')"
  shows "server_step y (y\<lparr>sy_server := s', sy_handlers := hs @ [h'], sy_clock := t,
     sy_log := (if acceptsHello h (sy_server y)
                then \<lparr>ah_hello = hc_hello h, ah_opened = hc_opened h, ah_read = hc_now h, ah_locked = sy_clock y\<rparr> # sy_log y
                else sy_log y)\<rparr>)"
  using server_step.handler [of "length hs" y t pick nonce dialled target] assms by (simp add: runHandler_def Let_def)

lemma hello_run:
  assumes "ReadHelloAt rd (sv_Password (sv_cfg (sy_server y))) (sy_clock y) = Inr (hello, rd')" and "sy_clock y \<le> t"
    and "acceptNonce t (h_Nonce hello) (sy_server y) = (True, s')"
  obtains z h where "server_step\<^sup>*\<^sup>* y z" and "sy_server z = s'" and "sy_clock z = t" and "sy_retired z = sy_retired y"
    and "sy_log z = \<lparr>ah_hello = hello, ah_opened = sy_clock y, ah_read = t, ah_locked = t\<rparr> # sy_log y"
    and "sy_handlers z = sy_handlers y @ [checkHello (sv_cfg (sy_server y)) h]" and "hc_hello h = hello"
proof -
  let ?h0 = "newHandler False rd \<lparr>written = [], script = []\<rparr> (sy_clock y)"
  let ?h1 = "?h0\<lparr>hc_pc := HcNonce, hc_in := rd', hc_hello := hello\<rparr>"
  let ?h2 = "?h1\<lparr>hc_pc := HcNonceLock, hc_now := t\<rparr>"
  let ?y0 = "y\<lparr>sy_handlers := sy_handlers y @ [?h0]\<rparr>"
  let ?y1 = "y\<lparr>sy_handlers := sy_handlers y @ [?h1], sy_clock := sy_clock y\<rparr>"
  let ?y2 = "y\<lparr>sy_handlers := sy_handlers y @ [?h1], sy_clock := t\<rparr>"
  let ?y3 = "y\<lparr>sy_handlers := sy_handlers y @ [?h2], sy_clock := t\<rparr>"
  let ?z = "y\<lparr>sy_server := s', sy_handlers := sy_handlers y @ [checkHello (sv_cfg (sy_server y)) ?h2], sy_clock := t,
     sy_log := \<lparr>ah_hello = hello, ah_opened = sy_clock y, ah_read = t, ah_locked = t\<rparr> # sy_log y\<rparr>"
  have "server_step y ?y0" by (rule server_step.accept)
  moreover have "server_step ?y0 ?y1"
    using run_last [of ?y0 "sy_handlers y" ?h0 "sy_clock y" _ _ _ _ ?h1 "sy_server y"] assms(1)
    by (simp add: handlerStep_def stepHello_def acceptsHello_def newHandler_def)
  moreover have "server_step ?y1 ?y2" using server_step.tick [of ?y1 t] assms(2) by simp
  moreover have "server_step ?y2 ?y3"
    using run_last [of ?y2 "sy_handlers y" ?h1 t _ _ _ _ ?h2 "sy_server y"] by (simp add: handlerStep_def acceptsHello_def)
  moreover have "server_step ?y3 ?z"
    using run_last [of ?y3 "sy_handlers y" ?h2 t _ _ _ _ "checkHello (sv_cfg (sy_server y)) ?h2" s'] assms(3)
    by (simp add: handlerStep_def acceptsHello_def newHandler_def)
  ultimately have "server_step\<^sup>*\<^sup>* y ?z" by (meson converse_rtranclp_into_rtranclp rtranclp.rtrancl_refl)
  then show thesis by (rule that [of ?z ?h2]) simp_all
qed

section \<open>Example runs\<close>

definition exServer :: ServerConfig where
  "exServer = \<lparr>sv_Password = [1], sv_ApplicationTarget = [], sv_MaxSessions = 4, sv_UDPEnabled = False,
     sv_UDP = \<lparr>cf_Mode = DatagramAdaptive, cf_QueueFrames = 0, cf_MaxDatagramSize = 0, cf_DedupWindow = 0, cf_IdleTimeout = 0,
               cf_RecoveryTimeout = 0, cf_AdaptiveQueueDelay = 0, cf_AdaptiveDuplicateThreshold = 0\<rparr>,
     sv_ExperimentalPathAware = False, sv_BandwidthMbps = [], sv_MaxActiveLegs = 2, sv_decoupled = False, sv_startNow = True\<rparr>"

abbreviation exWire :: reader where
  "exWire \<equiv> \<lparr>avail = helloHeader example_hello @ h_Destination example_hello
     @ hmac_sha256 [1] (helloHeader example_hello @ h_Destination example_hello) @ [7], atEnd = EOF\<rparr>"

lemma exWire_read:
  "\<bar>now - example_now\<bar> \<le> 90 * Second \<Longrightarrow> ReadHelloAt exWire (sv_Password exServer) now = Inr (example_hello, \<lparr>avail = [7], atEnd = EOF\<rparr>)"
  using ReadHelloAt_encoded [OF example_hello_parts(1,2), of now "[7]" EOF]
  by (simp add: exServer_def helloFresh_def time_Unix_def example_hello_def example_now_def helloSkew_def Second_def unixToInternal_def
      abs_le_iff Let_def)

lemma exDestination: "normalizeDestination (h_Destination example_hello) = Inr (str_bytes ''example.com:443'')"
  by code_simp

section \<open>Replayed HELLOs\<close>

text \<open>C10: when a HELLO is accepted a second time, the second carrier was open while the first acceptance was still
  remembered and had its nonce recorded after that memory expired. The freshness of a HELLO is judged at the instant the
  carrier is opened and its nonce is recorded after the HELLO was read, so only a carrier that delivers its HELLO late can
  replay one: were both done at one instant, no HELLO would be accepted twice.\<close>

theorem hello_replay_needs_slow_carrier:
  assumes "server_step\<^sup>*\<^sup>* (newSystem cfg start) y" and "0 \<le> start"
    and "sy_log y = xs @ later # ys @ earlier # zs" and "ah_hello later = ah_hello earlier"
  shows "ah_opened later \<le> ah_read earlier + helloReplayTTL \<and> ah_read earlier + helloReplayTTL < ah_locked later"
proof -
  have n: "nonce_inv y" using reachable_server_inv [OF assms(1,2)] by (rule server_invD)
  have sep: "separated later earlier" using n assms(3) by (simp add: nonce_inv_def sorted_wrt_append)
  have fresh: "\<bar>(sint (h_Timestamp (ah_hello e)) + unixToInternal) * Second - ah_opened e\<bar> \<le> 90 * Second
      \<and> ah_opened e \<le> ah_read e" if "e \<in> {later, earlier}" for e
  proof -
    have "entry_ok (sv_cfg (sy_server y)) (sy_clock y) (sv_nonces (sy_server y)) e"
      using n assms(3) that by (auto simp: nonce_inv_def)
    then obtain rd rd' where "ReadHelloAt rd (sv_Password (sv_cfg (sy_server y))) (ah_opened e) = Inr (ah_hello e, rd')"
      and "0 \<le> ah_opened e" and "ah_opened e \<le> ah_read e" by (auto simp: entry_ok_def authentic_def)
    then show ?thesis using ReadHelloAt_canonical helloFresh_bound by (fastforce simp: helloSkew_def)
  qed
  have "ah_opened later \<le> ah_read earlier + 180 * Second"
    using fresh [of later, OF insertI1] fresh [of earlier, OF insertI2 [OF insertI1]] unfolding abs_le_iff assms(4) by linarith
  with sep assms(4) show ?thesis by (simp add: separated_def helloReplayTTL_def)
qed

theorem hello_replay_needs_slow_carrier_witness:
  "\<exists>y later earlier. server_step\<^sup>*\<^sup>* (newSystem exServer (example_now - 90 * Second)) y
     \<and> sy_log y = [later, earlier] \<and> ah_hello later = example_hello \<and> ah_hello earlier = example_hello
     \<and> ah_opened later \<le> ah_read earlier + helloReplayTTL \<and> ah_read earlier + helloReplayTTL < ah_locked later"
proof -
  let ?t = "example_now - 90 * Second"
  let ?y = "newSystem exServer ?t" and ?u = "example_now + 91 * Second" and ?n = "h_Nonce example_hello"
  let ?s1 = "(newServer exServer)\<lparr>sv_nonces := [(?n, ?t)]\<rparr>" and ?s2 = "(newServer exServer)\<lparr>sv_nonces := [(?n, ?u)]\<rparr>"
  have y: "sy_server ?y = newServer exServer" "sy_clock ?y = ?t" "sy_log ?y = []" "sv_cfg (newServer exServer) = exServer"
    by (simp_all add: newSystem_def newServer_def)
  have s0: "0 \<le> Second" by (simp add: Second_def)
  have r1: "ReadHelloAt exWire (sv_Password (sv_cfg (sy_server ?y))) (sy_clock ?y) = Inr (example_hello, \<lparr>avail = [7], atEnd = EOF\<rparr>)"
    using exWire_read [of ?t] s0 by (simp add: y)
  have a1: "acceptNonce ?t ?n (sy_server ?y) = (True, ?s1)" by (simp add: acceptNonce_def y newServer_def)
  obtain z where z: "server_step\<^sup>*\<^sup>* ?y z" "sy_server z = ?s1" "sy_clock z = ?t"
    "sy_log z = [\<lparr>ah_hello = example_hello, ah_opened = ?t, ah_read = ?t, ah_locked = ?t\<rparr>]"
    by (rule hello_run [OF r1 _ a1]) (simp_all add: y)
  let ?z = "z\<lparr>sy_clock := example_now + 90 * Second\<rparr>"
  have r2: "ReadHelloAt exWire (sv_Password (sv_cfg (sy_server ?z))) (sy_clock ?z) = Inr (example_hello, \<lparr>avail = [7], atEnd = EOF\<rparr>)"
    using exWire_read [of "example_now + 90 * Second"] s0 by (simp add: z y)
  have a2: "acceptNonce ?u ?n (sy_server ?z) = (True, ?s2)"
    by (simp add: acceptNonce_def z Sub_def helloReplayTTL_def Second_def minDuration_def maxDuration_def)
  have tick: "server_step z ?z" by (rule server_step.tick) (simp add: z Second_def)
  obtain w where w: "server_step\<^sup>*\<^sup>* ?z w" "sy_log w = \<lparr>ah_hello = example_hello, ah_opened = example_now + 90 * Second, ah_read = ?u, ah_locked = ?u\<rparr> # sy_log z"
    by (rule hello_run [OF r2 _ a2]) (simp_all add: Second_def)
  have run: "server_step\<^sup>*\<^sup>* ?y w" using z(1) tick w(1) by (meson rtranclp.rtrancl_into_rtrancl rtranclp_trans)
  have "0 \<le> ?t" by (simp add: example_now_def Second_def unixToInternal_def)
  from hello_replay_needs_slow_carrier [OF run this, of "[]" _ "[]" _ "[]"] w(2) z(4) run show ?thesis by auto
qed

section \<open>Sessions\<close>

text \<open>A run that admits one session, and one that closes and retires it.\<close>

lemma coreDone_closeSession:
  "\<not> ss_closeOne s \<Longrightarrow> coreDone (ss_core (closeSession s))" "ss_hostReleased (closeSession s)" "ss_id (closeSession s) = ss_id s"
  by (auto simp: closeSession_def releaseHostResources_def coreClose_def coreDone_def done_engineClose split: session_core.split)

lemma session_run:
  obtains y where "server_step\<^sup>*\<^sup>* (newSystem exServer example_now) y" and "sy_clock y = example_now" and "sy_retired y = []"
    and "sv_heap (sy_server y) = [newSession exServer example_hello (str_bytes ''example.com:443'') example_now]"
    and "sv_sessions (sy_server y) = [(h_SessionID example_hello, 0)]" and "\<not> sv_closed (sy_server y)"
proof -
  let ?y = "newSystem exServer example_now" and ?n = "h_Nonce example_hello" and ?d = "str_bytes ''example.com:443''"
  let ?s1 = "(newServer exServer)\<lparr>sv_nonces := [(?n, example_now)]\<rparr>"
  have y: "sy_server ?y = newServer exServer" "sy_clock ?y = example_now" "sy_handlers ?y = []" "sy_retired ?y = []"
    "sv_cfg (newServer exServer) = exServer" by (simp_all add: newSystem_def newServer_def)
  have r: "ReadHelloAt exWire (sv_Password (sv_cfg (sy_server ?y))) (sy_clock ?y) = Inr (example_hello, \<lparr>avail = [7], atEnd = EOF\<rparr>)"
    using exWire_read [of example_now] by (simp add: y Second_def)
  have a: "acceptNonce example_now ?n (sy_server ?y) = (True, ?s1)" by (simp add: acceptNonce_def y newServer_def)
  obtain z h where z: "server_step\<^sup>*\<^sup>* ?y z" "sy_server z = ?s1" "sy_clock z = example_now" "sy_retired z = []"
    "sy_handlers z = [] @ [checkHello exServer h]" "hc_hello h = example_hello"
    by (rule hello_run [OF r _ a]) (simp_all add: y)
  let ?h = "checkHello exServer h"
  have h: "hc_pc ?h = HcAdmit" "hc_hello ?h = example_hello" "hc_destination ?h = ?d"
    using exDestination z(6) by (simp_all add: checkHello_def exServer_def) (simp_all add: example_hello_def)
  obtain s' where A: "admitSession example_hello ?d example_now example_now ?s1 = (Inr (0, True), s')"
    and s': "sv_heap s' = [newSession exServer example_hello ?d example_now]" "sv_sessions s' = [(h_SessionID example_hello, 0)]" "\<not> sv_closed s'"
    by (simp add: admitSession_def pruneTombstonesLocked_def newServer_def Let_def exServer_def)
  obtain h' where "handlerStep (sy_clock z) example_now True None True 0 ?h (sy_server z) = (h', s')"
    using h A z(2,3) by (simp add: handlerStep_def)
  from run_last [OF z(5) _ this] z(1,3,4) s' show thesis
    by (intro that [of "z\<lparr>sy_server := s', sy_handlers := [] @ [h'], sy_clock := example_now,
        sy_log := (if acceptsHello ?h (sy_server z) then _ else sy_log z)\<rparr>"]) (auto intro: rtranclp.rtrancl_into_rtrancl)
qed

lemma retired_run:
  obtains y where "server_step\<^sup>*\<^sup>* (newSystem exServer example_now) y" and "sy_clock y = example_now"
    and "sy_retired y = [(h_SessionID example_hello, example_now)]" and "\<not> sv_closed (sy_server y)"
proof -
  let ?n = "newSession exServer example_hello (str_bytes ''example.com:443'') example_now"
  obtain y where y: "server_step\<^sup>*\<^sup>* (newSystem exServer example_now) y" "sy_clock y = example_now" "sy_retired y = []"
    "sv_heap (sy_server y) = [?n]" "sv_sessions (sy_server y) = [(h_SessionID example_hello, 0)]" "\<not> sv_closed (sy_server y)"
    by (rule session_run)
  let ?z = "onServer (onSession 0 closeSession) y"
  have hp: "sv_heap (sy_server ?z) = [closeSession ?n]" "sv_sessions (sy_server ?z) = [(h_SessionID example_hello, 0)]"
    "\<not> sv_closed (sy_server ?z)" "sy_clock ?z = example_now" "sy_retired ?z = []" using y by (simp_all add: onServer_def onSession_def)
  have "server_step y ?z" by (rule server_step.sessionClosed) (simp add: y)
  moreover have "server_step ?z (retireSession 0 ?z)"
    by (rule server_step.retired) (simp_all add: hp coreDone_closeSession newSession_def)
  ultimately have "server_step\<^sup>*\<^sup>* (newSystem exServer example_now) (retireSession 0 ?z)"
    using y(1) by (meson rtranclp.rtrancl_into_rtrancl)
  then show thesis
    by (rule that) (simp_all add: retireSession_def Let_def hp coreDone_closeSession removeSession_def)
qed

text \<open>C13: a session id that was retired is refused until the tombstone expires: as long as the server runs and the replay
  window of the retirement is open there is no session of this id, and admitting any HELLO for it fails.\<close>

theorem retired_session_refused:
  assumes "server_step\<^sup>*\<^sup>* (newSystem cfg start) y" and "0 \<le> start" and "(i, r) \<in> set (sy_retired y)"
    and "\<not> sv_closed (sy_server y)" and "h_SessionID hello = i" and "sy_clock y \<le> now'" and "now' < r + helloReplayTTL"
  shows "mget (sv_sessions (sy_server y)) i = None
    \<and> fst (admitSession hello destination (sy_clock y) now' (sy_server y)) = Inl errSessionRetired"
proof -
  let ?s = "sy_server y"
  note inv = server_invD [OF reachable_server_inv [OF assms(1,2)]]
  have "retired_ok (sy_clock y) ?s (i, r)" using inv(3) assms(3) by (auto simp: list_all_iff)
  then obtain e where e: "mget (sv_sessions ?s) i = None" "mget (sv_tombstones ?s) i = Some e" "r + helloReplayTTL \<le> e"
    using assms(4,6,7) by (auto simp: retired_ok_def)
  have w: "mwf (sv_tombstones ?s)" using inv(2) by (simp add: table_inv_def)
  have "mget (sv_tombstones (pruneTombstonesLocked (sy_clock y) ?s)) i = Some e"
    by (rule prune_result(3) [OF w e(2)]) (use e(3) assms(6,7) in linarith)
  then show ?thesis using e assms(4,5,7) by (simp add: admitSession_def)
qed

theorem retired_session_refused_witness:
  "\<exists>y. server_step\<^sup>*\<^sup>* (newSystem exServer example_now) y \<and> sy_retired y = [(h_SessionID example_hello, example_now)]
     \<and> mget (sv_sessions (sy_server y)) (h_SessionID example_hello) = None
     \<and> fst (admitSession example_hello (str_bytes ''example.com:443'') example_now (example_now + 179 * Second) (sy_server y))
         = Inl errSessionRetired"
proof -
  obtain y where y: "server_step\<^sup>*\<^sup>* (newSystem exServer example_now) y" "sy_clock y = example_now"
    "sy_retired y = [(h_SessionID example_hello, example_now)]" "\<not> sv_closed (sy_server y)" by (rule retired_run)
  have t: "0 \<le> example_now" by (simp add: example_now_def Second_def unixToInternal_def)
  show ?thesis using retired_session_refused [OF y(1) t _ y(4) refl, where r = example_now and now' = "example_now + 179 * Second" and hello = example_hello] y
    by (auto simp: helloReplayTTL_def Second_def)
qed

text \<open>C12: the table of sessions never exceeds the configured maximum, its entries are sessions of their ids, and as long
  as the server runs two sessions of one id never both live: one of the two engines is done.\<close>

theorem session_table_bounded:
  assumes "server_step\<^sup>*\<^sup>* (newSystem cfg start) y" and "0 \<le> start"
  shows "int (length (sv_sessions (sy_server y))) \<le> max 0 (sv_MaxSessions (sv_cfg (sy_server y)))
    \<and> (\<forall>i a. mget (sv_sessions (sy_server y)) i = Some a \<longrightarrow>
         a < length (sv_heap (sy_server y)) \<and> ss_id (sv_heap (sy_server y) ! a) = i)
    \<and> (\<forall>a b. a < length (sv_heap (sy_server y)) \<and> b < length (sv_heap (sy_server y)) \<and> a \<noteq> b
         \<and> ss_id (sv_heap (sy_server y) ! a) = ss_id (sv_heap (sy_server y) ! b) \<and> \<not> sv_closed (sy_server y) \<longrightarrow>
         coreDone (ss_core (sv_heap (sy_server y) ! a)) \<or> coreDone (ss_core (sv_heap (sy_server y) ! b)))"
proof -
  let ?s = "sy_server y"
  have t: "table_inv ?s" using reachable_server_inv [OF assms] by (rule server_invD)
  have live: "sv_closed ?s \<or> mget (sv_sessions ?s) (ss_id (sv_heap ?s ! a)) = Some a \<or> coreDone (ss_core (sv_heap ?s ! a))"
    if "a < length (sv_heap ?s)" for a using t that unfolding table_inv_def by blast
  have "coreDone (ss_core (sv_heap ?s ! a)) \<or> coreDone (ss_core (sv_heap ?s ! b))"
    if "a < length (sv_heap ?s)" "b < length (sv_heap ?s)" "a \<noteq> b" "ss_id (sv_heap ?s ! a) = ss_id (sv_heap ?s ! b)" "\<not> sv_closed ?s" for a b
    using live [OF that(1)] live [OF that(2)] that(3-5) by (metis option.inject)
  then show ?thesis using t unfolding table_inv_def by blast
qed

theorem session_table_bounded_witness:
  "\<exists>y. server_step\<^sup>*\<^sup>* (newSystem exServer example_now) y \<and> sv_sessions (sy_server y) = [(h_SessionID example_hello, 0)]
     \<and> int (length (sv_sessions (sy_server y))) \<le> max 0 (sv_MaxSessions (sv_cfg (sy_server y)))
     \<and> ss_id (sv_heap (sy_server y) ! 0) = h_SessionID example_hello"
proof -
  obtain y where y: "server_step\<^sup>*\<^sup>* (newSystem exServer example_now) y" "sv_sessions (sy_server y) = [(h_SessionID example_hello, 0)]"
    by (rule session_run)
  have t: "0 \<le> example_now" by (simp add: example_now_def Second_def unixToInternal_def)
  have "mget (sv_sessions (sy_server y)) (h_SessionID example_hello) = Some 0" by (simp add: y(2))
  then show ?thesis using session_table_bounded [OF y(1) t] y by blast
qed



text \<open>C11: every session was opened by a HELLO that was read under the server's password and accepted: its id and mode are
  those of the HELLO, its destination is the normalised one of the HELLO, is the application target when one is
  configured, and a datagram session exists only when datagrams are enabled.\<close>

theorem session_authenticated:
  assumes "server_step\<^sup>*\<^sup>* (newSystem cfg start) y" and "0 \<le> start" and "a < length (sv_heap (sy_server y))"
    and "s = sv_heap (sy_server y) ! a" and "c = sv_cfg (sy_server y)"
  shows "\<exists>e \<in> set (sy_log y). (\<exists>rd rd'. ReadHelloAt rd (sv_Password c) (ah_opened e) = Inr (ah_hello e, rd'))
    \<and> ss_id s = h_SessionID (ah_hello e) \<and> ss_mode s = h_Mode (ah_hello e)
    \<and> normalizeDestination (h_Destination (ah_hello e)) = Inr (ss_destination s)
    \<and> (sv_ApplicationTarget c \<noteq> [] \<longrightarrow> ss_destination s = sv_ApplicationTarget c)
    \<and> (ss_mode s = ModeDatagram \<longrightarrow> sv_UDPEnabled c)"
proof -
  note inv = server_invD [OF reachable_server_inv [OF assms(1,2)]]
  obtain e where e: "e \<in> set (sy_log y)" "from_hello c (ah_hello e) s" using inv(4) assms(3-5) by (auto simp: origin_inv_def)
  have "authentic c (ah_opened e) (ah_hello e)" using inv(1) e(1) assms(5) by (auto simp: nonce_inv_def entry_ok_def)
  then show ?thesis using e by (intro bexI [of _ e]) (auto simp: from_hello_def admissible_def authentic_def)
qed

theorem session_authenticated_witness:
  "\<exists>y. server_step\<^sup>*\<^sup>* (newSystem exServer example_now) y \<and> length (sv_heap (sy_server y)) = 1
     \<and> (\<exists>e \<in> set (sy_log y). ss_id (sv_heap (sy_server y) ! 0) = h_SessionID (ah_hello e)
          \<and> normalizeDestination (h_Destination (ah_hello e)) = Inr (ss_destination (sv_heap (sy_server y) ! 0)))"
proof -
  obtain y where y: "server_step\<^sup>*\<^sup>* (newSystem exServer example_now) y"
    "sv_heap (sy_server y) = [newSession exServer example_hello (str_bytes ''example.com:443'') example_now]" by (rule session_run)
  have t: "0 \<le> example_now" by (simp add: example_now_def Second_def unixToInternal_def)
  show ?thesis using session_authenticated [OF y(1) t, of 0, OF _ refl refl] y by (intro exI [of _ y]) (simp, blast)
qed

section \<open>Legs\<close>



section \<open>The handler ends\<close>

definition handlerRank :: "handler_pc \<Rightarrow> nat" where
  "handlerRank pc =
     (case pc of HcHello \<Rightarrow> 10 | HcNonce \<Rightarrow> 9 | HcNonceLock \<Rightarrow> 8 | HcAdmit \<Rightarrow> 7 | HcReserve \<Rightarrow> 6 | HcReady \<Rightarrow> 5 | HcAttach \<Rightarrow> 4
               | HcReleaseThenHost \<Rightarrow> 3 | HcHost \<Rightarrow> 2 | HcRelease \<Rightarrow> 1 | HcDone \<Rightarrow> 0 | HcRejected c \<Rightarrow> 0)"



end
