(* ===== verification/Spec2Isabelle.thy ===== *)
theory Spec2Isabelle
  imports Hello_Codec Stream_Link Coordinated_Drain Rescue_Budget Server_Safety
begin

text \<open>
  Verification of SMP3, an application-layer multipath transport (Go sources under \<open>src/\<close>).

  \<^bold>\<open>The program.\<close> A client and a server carry one logical byte stream (or a flow of datagrams) over several
  carriers, called legs. A leg is opened with an authenticated HELLO; a version 6 or 7 leg is answered by a READY from which
  both ends derive keys for path messages. The sending engine numbers the payloads of a stream, keeps each in a transmit
  ledger until a cumulative ACK retires it, and may send it again on another leg; the receiving engine restores the order and
  removes duplicates. Around this sit the registry of legs, a startup gate that holds the first payload for a preferred leg,
  round-trip probes, a coordinated drain that takes a leg out of service without stranding data, and an optional budget for
  rescuing payloads stuck at the head of the line. The server turns an accepted carrier into a leg of a new or a running
  session, remembering nonces against replay and retired session ids.

  \<^bold>\<open>Theories and sources.\<close>
  \<^item> \<open>Prelude\<close>: fixed-width integers, byte strings, instants, \<open>io.Reader\<close> and \<open>io.Writer\<close>, Go maps as association
    lists, and the interfaces of runs that keep an invariant (\<open>invariant_run\<close>) and of registries of carriers
    (\<open>carrier_registry\<close>). \<open>Sha256\<close>: SHA-256 and HMAC, executable, with the contract \<open>mac_provider\<close> the codecs rely on.
    \<open>Types\<close>: \<open>core/types.go\<close> and the error values.
  \<^item> \<open>Stream_Frame\<close> (\<open>core/stream_frame.go\<close>), \<open>Hello_Codec\<close> (\<open>core/hello.go\<close>), \<open>Stream_Wire\<close> (the frame readers and
    writers of \<open>core/stream_engine.go\<close>) and \<open>Path_Protocol\<close> (\<open>core/stream_path_protocol.go\<close>): codecs as functions between
    values and byte strings. Round trips, canonical wires, freshness, agreement of the two ends on the derived keys, exact
    accounting of partial writes.
  \<^item> \<open>TX_Ledger\<close>, \<open>TX_Invariant\<close> (\<open>core/stream_tx.go\<close>) and \<open>TX_Repair\<close> (\<open>core/stream_repair.go\<close>): the ledger as a
    record over a heap of records, one definition per method (each method is one critical section of the ledger's lock).
    Invariant of all histories, exact retirement, monotone retirement, exact retry plans and rescue decisions. The ledger
    implements the interface \<open>cumulative_sender\<close>.
  \<^item> \<open>Stream_RX\<close> (\<open>core/stream_rx.go\<close> and \<open>rxLoop\<close>): the reorder window and the loop around it, which implements
    \<open>ordered_receiver\<close>. \<open>Stream_Link\<close> composes the two interfaces (\<open>reliable_link\<close>) over legs that lose, repeat and
    reorder frames; the end-to-end theorems of this theory are its instances.
  \<^item> \<open>RTT_Cache\<close> (\<open>core/stream_rtt_probe_cache.go\<close>): probes, echoes and feedback; generations are never reused, a probe is
    answered once, feedback is within bounds.
  \<^item> \<open>Datagram_Engine\<close> (\<open>core/datagram_engine.go\<close>): the engine with its workers and timers as steps; delivery, at most one
    acceptance of a replicated id, disjoint carriers, outcome of \<open>Send\<close>.
  \<^item> \<open>Startup_Gate\<close> (\<open>core/stream_startup.go\<close> and the startup part of \<open>core/telemetry.go\<close>): when the gate opens and that
    no transmit loop waits for ever.
  \<^item> \<open>Stream_Legs\<close> (attachment, failure, replacement and shutdown in \<open>core/stream_engine.go\<close>): the registry invariant, the
    refinement of the stand-alone ledger and probe cache by those inside the engine, containment of a failing carrier.
  \<^item> \<open>Coordinated_Drain\<close> (\<open>core/stream_coordinated_drain.go\<close>): both sides of a drain as programs whose steps are the
    critical sections of the code, over a network that loses, repeats and reorders control messages; agreement, finality of
    a commit, nothing stranded.
  \<^item> \<open>Event_Heap\<close>, \<open>Bounded_Rescue\<close>, \<open>Rescue_Budget\<close> (\<open>core/stream_bounded_rescue.go\<close>): the binary heap of
    \<open>container/heap\<close> with the interface \<open>timed_queue\<close>, every operation of the rescue budget, and its guarantees over a
    session: rolling budget, one write per record and epoch, exact accounting, agreement of the observational check with the
    decision.
  \<^item> \<open>Server_Edge\<close> (\<open>server/destination.go\<close>, \<open>server/readiness.go\<close>, \<open>client/readiness.go\<close>), \<open>Server_Admission\<close>
    (\<open>server/server.go\<close>, \<open>server/session.go\<close> and the host setup of \<open>server/stream.go\<close> and \<open>server/datagram.go\<close>),
    \<open>Server_System\<close>, \<open>Server_Safety\<close>: the handler of a carrier from its HELLO to the attached leg, as a program that
    interleaves with other handlers, with the engines of the sessions, their watchers and the shutdown. The invariant of these
    runs is an instance of \<open>invariant_run\<close>; it gives when a HELLO can be replayed, that sessions are authenticated, bounded
    and unique while live, that retired ids stay refused, that each session holds a sound engine of its mode, and that a
    handler ends.

  \<^bold>\<open>How the code is rendered.\<close> \<open>uintN\<close> is an \<open>N\<close>-bit word and wraps; \<open>time.Time\<close> is an integer of nanoseconds and
  \<open>Sub\<close> saturates; the clock, random bytes and floating-point weights are arguments. Pointers that several structures share
  (ledger records, legs, drain operations) are addresses of an explicit heap. A method that runs under a lock is one
  function; a goroutine or a method that releases its lock in between is a program with one step per critical section, and
  \<open>select\<close>, timers and the order of a map range are choices of the step relation or explicit arguments. Errors are values of a
  datatype or the left of a sum.

  \<^bold>\<open>Bounds.\<close> The end-to-end theorems hold for streams of fewer than \<open>2 ^ 64\<close> payloads, which the ledger enforces by
  refusing to number more (the \<open>capacity\<close> of the interfaces). The rescue budget assumes that a 60 second window holds fewer
  than \<open>2 ^ 64\<close> original bytes and that a chunk is below \<open>2 ^ 63\<close> bytes; that its other counters do not wrap in the full
  policy is proved. No definition uses fuel: loops are structural or have a termination proof.

  \<^bold>\<open>Not modelled.\<close> Of \<open>core/\<close>: the weighted scheduler and its adaptive admission (\<open>stream_admission.go\<close>, the rest of
  \<open>stream_engine.go\<close>), capacity estimation (\<open>carrier_capacity.go\<close>, \<open>stream_capacity.go\<close>) and wake and load statistics,
  which compute with floating point and wall-clock sampling that HOL cannot execute faithfully; telemetry, traces and shadow
  policies, which only observe. Of \<open>server/\<close>: listeners, TLS, the connection limit, the set of pending connections, deadlines,
  the copying between an engine and its target, configuration parsing, telemetry and accounting. The client's dialling, SOCKS
  front end and reload, the sing-box and mihomo adapters, the panel, the front relay, the command-line programs and scripts
  are input and output around packages that are not part of the sources.
\<close>

section \<open>End-to-end properties of a stream\<close>

definition example_pipe :: writer where "example_pipe = \<lparr>written = [], script = []\<rparr>"

definition example_link :: link where
  "example_link = (newLink 2 64 2 example_pipe)\<lparr>lk_tx := snd (Add [1, 2] 5 (newStreamTXLedger 2))\<rparr>"

lemma example_link_reachable: "(link_step clk)\<^sup>*\<^sup>* (newLink 2 64 2 example_pipe) example_link"
proof -
  have "local_step (lk_tx (newLink 2 64 2 example_pipe)) (snd (Add [1, 2] 5 (newStreamTXLedger 2)))"
    unfolding newLink_def Add_def
    by (simp, rule local_step.add) (simp add: newStreamTXLedger_def Let_def)
  then show ?thesis
    unfolding example_link_def by (intro r_into_rtranclp link_step.sender)
qed

text \<open>C1: reliable, ordered, exactly-once delivery over lossy legs. In every state that the sender,
  the receiver and the carriers can reach (frames lost, duplicated and reordered at will on any leg,
  attempts, rescues, leg failures and ACKs in any order, the receiving application failing at any
  point), what the receiving application got is a prefix of the byte stream the sending application
  wrote, and every payload the sender has retired on an ACK has been delivered in full.\<close>

theorem stream_delivery:
  assumes "(link_step clk)\<^sup>*\<^sup>* (newLink legs maxReorder rxLegs p) s" and "written p = []"
  shows "prefix (written (pipe (lk_rx s))) (concat (map r_payload (heap (lk_tx s))))
    \<and> prefix (concat (take (unat (ackedNext (lk_tx s))) (map r_payload (heap (lk_tx s))))) (written (pipe (lk_rx s)))
    \<and> unat (ackedNext (lk_tx s)) \<le> unat (expected (window (lk_rx s)))
    \<and> unat (expected (window (lk_rx s))) \<le> unat (nextSequence (lk_tx s))"
proof -
  have ok: "link_ok s" by (rule link_reachable [OF assms])
  then have S: "ledger_inv (lk_tx s)" and R: "rx_ok (payloads (lk_tx s)) (lk_rx s)"
    and A: "unat (ackedNext (lk_tx s)) \<le> unat (expected (window (lk_rx s)))" by (auto simp: link_ok_def)
  from rl.end_to_end [OF S R A] A rxl.inv_frontier [OF R] inv_payloads(1) [OF S] show ?thesis
    by (simp add: payloads_def)
qed

theorem stream_delivery_witness:
  "prefix (written (pipe (lk_rx example_link))) [1, 2]"
  using stream_delivery [OF example_link_reachable [of "\<lambda>_. 1"]]
  by (simp add: example_link_def example_pipe_def newLink_def Add_def TX_Ledger.add_def newStreamTXLedger_def
      Let_def newRecord_def evidenceLocked_def ensureLocked_def MaxStreamLegIDCount_def)

text \<open>C2: no reachable state is stuck. As long as the receive loop runs and its application accepts
  writes, the transport can always finish from where it is: some continuation delivers the whole byte
  stream and retires every outstanding record, without the sender adding anything.\<close>

theorem stream_completion:
  assumes "(link_step clk)\<^sup>*\<^sup>* (newLink legs maxReorder rxLegs p) s" and "written p = []"
    and "running (lk_rx s)" and "script (pipe (lk_rx s)) = []"
  shows "\<exists>s'. (link_step clk)\<^sup>*\<^sup>* s s'
    \<and> map r_payload (heap (lk_tx s')) = map r_payload (heap (lk_tx s))
    \<and> written (pipe (lk_rx s')) = concat (map r_payload (heap (lk_tx s)))
    \<and> ackedNext (lk_tx s') = nextSequence (lk_tx s') \<and> \<not> HasOutstanding (lk_tx s')"
proof -
  have "receptive s" using assms(3,4) by (simp add: receptive_def)
  from link_completes [OF link_reachable [OF assms(1,2)] this, of clk]
  obtain s' where s': "(link_step clk)\<^sup>*\<^sup>* s s'" "link_ok s'" "payloads (lk_tx s') = payloads (lk_tx s)"
    "ackedNext (lk_tx s') = nextSequence (lk_tx s')" "written (pipe (lk_rx s')) = concat (payloads (lk_tx s))" by blast
  have "mget (outstanding (lk_tx s')) k = None" for k
    using s'(2,4) by (auto simp: link_ok_def ledger_inv_def ledger_from_def dom_ok_def)
  then have "outstanding (lk_tx s') = []" by (metis map_of_eq_empty_iff ext)
  with s' show ?thesis by (intro exI [of _ s']) (simp add: payloads_def HasOutstanding_def)
qed

theorem stream_completion_witness:
  "\<exists>s'. (link_step (\<lambda>_. 1))\<^sup>*\<^sup>* example_link s' \<and> written (pipe (lk_rx s')) = [1, 2]"
  using stream_completion [OF example_link_reachable [of "\<lambda>_. 1"]]
  by (force simp: example_link_def example_pipe_def newLink_def Add_def TX_Ledger.add_def newStreamTXLedger_def
      Let_def newRecord_def evidenceLocked_def ensureLocked_def MaxStreamLegIDCount_def newRX_def)

end
